(* ===== verification/Prelude.thy ===== *)
theory Prelude
  imports Main "HOL-Library.Word" "HOL-Library.Multiset" "HOL-Library.List_Lexorder"
    "HOL-Library.Product_Lexorder" "HOL-Library.Char_ord"
begin

text \<open>
  Shared vocabulary of the development: the machine integer types of the
  program, Rust's \<^verbatim>\<open>Ordering\<close>, and the facts about words and lists the
  component theories have in common.
\<close>

section \<open>Machine integers\<close>

type_synonym u8 = "8 word"
type_synonym u16 = "16 word"
type_synonym u32 = "32 word"
type_synonym u64 = "64 word"
type_synonym u128 = "128 word"

text \<open>
  Bounded arithmetic on words is read through \<open>unat\<close>. The collection
  \<open>unat_arith_rules\<close> turns a sum, product, cast, quotient or remainder of words
  into the same operation on natural numbers once the bound is discharged.
\<close>

named_theorems unat_arith_rules

lemma unat_add64 [unat_arith_rules]:
  "unat (a :: u64) + unat b < 18446744073709551616 \<Longrightarrow> unat (a + b) = unat a + unat b"
  using unat_add_lem [of a b] by simp

lemma unat_mult64 [unat_arith_rules]:
  "unat (a :: u64) * unat b < 18446744073709551616 \<Longrightarrow> unat (a * b) = unat a * unat b"
  using unat_mult_lem [of a b] by simp

lemma unat_add128 [unat_arith_rules]:
  "unat (a :: u128) + unat b < 340282366920938463463374607431768211456 \<Longrightarrow>
     unat (a + b) = unat a + unat b"
  using unat_add_lem [of a b] by simp

lemma unat_mult128 [unat_arith_rules]:
  "unat (a :: u128) * unat b < 340282366920938463463374607431768211456 \<Longrightarrow>
     unat (a * b) = unat a * unat b"
  using unat_mult_lem [of a b] by simp

lemma unat_lt: "unat (w :: 'a::len word) < 2 ^ LENGTH('a)"
  by (rule unsigned_less)

lemma unat_sub_le: "unat b \<le> unat a \<Longrightarrow> unat (a - b) = unat a - unat b"
  for a b :: "'a::len word"
  by (simp add: unat_sub word_le_nat_alt)

lemma unat_ucast_mod:
  "unat (ucast (w :: 'a::len word) :: 'b::len word) = unat w mod 2 ^ LENGTH('b)"
  by (simp add: unsigned_ucast_eq take_bit_eq_mod)

lemma unat_ucast_32_64 [simp]: "unat (ucast (w :: u32) :: u64) = unat w"
  using unat_lt [of w] by (simp add: unat_ucast_mod)

lemma unat_ucast_32_128 [simp]: "unat (ucast (w :: u32) :: u128) = unat w"
  using unat_lt [of w] by (simp add: unat_ucast_mod)

lemma unat_ucast_64_128 [simp]: "unat (ucast (w :: u64) :: u128) = unat w"
  using unat_lt [of w] by (simp add: unat_ucast_mod)

lemma unat_ucast_8_32 [simp]: "unat (ucast (w :: u8) :: u32) = unat w"
  using unat_lt [of w] by (simp add: unat_ucast_mod)

lemma unat_ucast_64_32 [unat_arith_rules]:
  "unat (w :: u64) < 4294967296 \<Longrightarrow> unat (ucast w :: u32) = unat w"
  by (simp add: unat_ucast_mod)

lemma unat_ucast_128_32 [unat_arith_rules]:
  "unat (w :: u128) < 4294967296 \<Longrightarrow> unat (ucast w :: u32) = unat w"
  by (simp add: unat_ucast_mod)

lemma u32_bound: "unat (w :: u32) < 4294967296"
  using unat_lt [of w] by simp

lemma u64_bound: "unat (w :: u64) < 18446744073709551616"
  using unat_lt [of w] by simp

lemma unat_eq_iff [simp]: "unat a = unat b \<longleftrightarrow> a = b"
  for a b :: "'a::len word"
  by (simp add: word_unat_eq_iff)

lemma unat_zero_iff: "(w :: 'a::len word) \<noteq> 0 \<Longrightarrow> 0 < unat w"
  by (simp add: unat_gt_0)

section \<open>Checked arithmetic\<close>

text \<open>Rust's \<^verbatim>\<open>checked_add\<close> and \<^verbatim>\<open>checked_mul\<close> on unsigned words.\<close>

definition checked_add :: "'a::len word \<Rightarrow> 'a word \<Rightarrow> 'a word option" where
  "checked_add a b = (if unat a + unat b < 2 ^ LENGTH('a) then Some (a + b) else None)"

definition checked_mul :: "'a::len word \<Rightarrow> 'a word \<Rightarrow> 'a word option" where
  "checked_mul a b = (if unat a * unat b < 2 ^ LENGTH('a) then Some (a * b) else None)"

lemma checked_add_Some_iff:
  "checked_add (a :: 'a::len word) b = Some c \<longleftrightarrow>
     unat a + unat b < 2 ^ LENGTH('a) \<and> c = a + b \<and> unat c = unat a + unat b"
  using unat_add_lem [of a b] by (auto simp: checked_add_def)

lemma checked_mul_Some_iff:
  "checked_mul (a :: 'a::len word) b = Some c \<longleftrightarrow>
     unat a * unat b < 2 ^ LENGTH('a) \<and> c = a * b \<and> unat c = unat a * unat b"
  using unat_mult_lem [of a b] by (auto simp: checked_mul_def)

section \<open>Decimal text\<close>

text \<open>
  The decimal rendering of a machine integer, as Rust's \<^verbatim>\<open>to_string\<close> writes it.
  A Rust string is its UTF-8 bytes, one \<open>char\<close> each.
\<close>

fun dec_string :: "nat \<Rightarrow> string" where
  "dec_string n =
     (if n < 10 then [char_of (48 + n)]
      else dec_string (n div 10) @ [char_of (48 + n mod 10)])"

declare dec_string.simps [simp del]

text \<open>\<^verbatim>\<open>format!("{:09}", n)\<close>: zero-padded on the left to nine characters.\<close>

definition dec_pad :: "nat \<Rightarrow> nat \<Rightarrow> string" where
  "dec_pad w n = replicate (w - length (dec_string n)) (CHR ''0'') @ dec_string n"

section \<open>Rust's Ordering\<close>

datatype ordering = Less | Equal | Greater

definition ord_cmp :: "'a::linorder \<Rightarrow> 'a \<Rightarrow> ordering" where
  "ord_cmp a b = (if a < b then Less else if a = b then Equal else Greater)"

fun ord_reverse :: "ordering \<Rightarrow> ordering" where
  "ord_reverse Less = Greater"
| "ord_reverse Equal = Equal"
| "ord_reverse Greater = Less"

lemma ord_cmp_simps [simp]:
  "ord_cmp a b = Less \<longleftrightarrow> a < b"
  "ord_cmp a b = Equal \<longleftrightarrow> a = b"
  "ord_cmp a b = Greater \<longleftrightarrow> b < a"
  by (auto simp: ord_cmp_def)

lemma ord_cmp_eval [simp]:
  "a < b \<Longrightarrow> ord_cmp a b = Less"
  "ord_cmp a a = Equal"
  "b < a \<Longrightarrow> ord_cmp a b = Greater"
  by (auto simp: ord_cmp_def)

lemma ord_cmp_swap: "ord_cmp b a = ord_reverse (ord_cmp a b)"
  by (auto simp: ord_cmp_def)

text \<open>Slices compare element by element; a proper prefix is smaller.\<close>

fun lex_cmp :: "('a \<Rightarrow> 'a \<Rightarrow> ordering) \<Rightarrow> 'a list \<Rightarrow> 'a list \<Rightarrow> ordering" where
  "lex_cmp c [] [] = Equal"
| "lex_cmp c [] (_ # _) = Less"
| "lex_cmp c (_ # _) [] = Greater"
| "lex_cmp c (x # xs) (y # ys) =
     (case c x y of Equal \<Rightarrow> lex_cmp c xs ys | r \<Rightarrow> r)"

lemma lex_cmp_map:
  "(\<And>x y. x \<in> set xs \<Longrightarrow> y \<in> set ys \<Longrightarrow> c x y = ord_cmp (f x) (f y)) \<Longrightarrow>
     lex_cmp c xs ys = lex_cmp ord_cmp (map f xs) (map f ys)"
proof (induction c xs ys rule: lex_cmp.induct)
  case (4 c x xs y ys)
  have c: "c x y = ord_cmp (f x) (f y)" by (rule "4.prems") simp_all
  show ?case
  proof (cases "ord_cmp (f x) (f y)")
    case Equal
    with c have "lex_cmp c xs ys = lex_cmp ord_cmp (map f xs) (map f ys)"
      by (intro "4.IH" "4.prems") simp_all
    with c Equal show ?thesis by simp
  qed (simp_all add: c)
qed simp_all

lemma lex_cmp_ord: "lex_cmp ord_cmp xs ys = ord_cmp xs ys"
proof (induction "ord_cmp :: 'a \<Rightarrow> 'a \<Rightarrow> ordering" xs ys rule: lex_cmp.induct)
  case (4 x xs y ys)
  then show ?case
    by (cases "ord_cmp x y") (auto simp: ord_cmp_def split: if_splits)
qed (simp_all add: ord_cmp_def)

section \<open>Vectors and hash maps\<close>

text \<open>
  \<^verbatim>\<open>Vec::swap_remove\<close>: the last element takes the place of the removed one. A
  \<^verbatim>\<open>HashMap\<close> that the program iterates is an association list with distinct keys,
  whose order is the iteration order that Rust leaves open.
\<close>

definition swap_remove :: "nat \<Rightarrow> 'a list \<Rightarrow> 'a list" where
  "swap_remove i xs = (if Suc i = length xs then butlast xs else (butlast xs)[i := last xs])"

fun hm_modify :: "'k \<Rightarrow> ('v \<Rightarrow> 'v) \<Rightarrow> ('k \<times> 'v) list \<Rightarrow> ('k \<times> 'v) list" where
  "hm_modify k f [] = []"
| "hm_modify k f ((k', v) # m) = (if k' = k then (k', f v) # m else (k', v) # hm_modify k f m)"

fun hm_insert :: "'k \<Rightarrow> 'v \<Rightarrow> ('k \<times> 'v) list \<Rightarrow> ('k \<times> 'v) list" where
  "hm_insert k v [] = [(k, v)]"
| "hm_insert k v ((k', v') # m) = (if k' = k then (k, v) # m else (k', v') # hm_insert k v m)"

fun hm_remove :: "'k \<Rightarrow> ('k \<times> 'v) list \<Rightarrow> ('k \<times> 'v) list" where
  "hm_remove k [] = []"
| "hm_remove k ((k', v) # m) = (if k' = k then m else (k', v) # hm_remove k m)"

lemma length_swap_remove [simp]: "i < length xs \<Longrightarrow> length (swap_remove i xs) = length xs - 1"
  by (simp add: swap_remove_def)

lemma nth_swap_remove:
  "i < length xs \<Longrightarrow> j < length xs - 1 \<Longrightarrow>
     swap_remove i xs ! j = (if j = i then last xs else xs ! j)"
  by (auto simp: swap_remove_def nth_butlast nth_list_update)

lemma mset_swap_remove:
  "i < length xs \<Longrightarrow> mset xs = add_mset (xs ! i) (mset (swap_remove i xs))"
proof -
  assume i: "i < length xs"
  then have xs: "xs = butlast xs @ [last xs]" by (cases xs) auto
  show ?thesis
  proof (cases "Suc i = length xs")
    case True
    then have "xs ! i = last xs" by (metis diff_Suc_1 last_conv_nth list.size(3) nat.simps(3))
    with True show ?thesis by (subst (1) xs) (simp add: swap_remove_def)
  next
    case False
    with i have len: "i < length (butlast xs)" by simp
    then have nth: "butlast xs ! i = xs ! i" by (simp add: nth_butlast)
    have "xs ! i \<in># mset (butlast xs)" using nth_mem [OF len] nth by simp
    then have "add_mset (xs ! i) (mset ((butlast xs)[i := last xs])) = add_mset (last xs) (mset (butlast xs))"
      using len nth by (simp add: mset_update add_mset_commute [of "xs ! i"])
    with False show ?thesis by (subst (1) xs) (simp add: swap_remove_def)
  qed
qed

lemma set_swap_remove_subset: "i < length xs \<Longrightarrow> set (swap_remove i xs) \<subseteq> set xs"
  by (metis mset_swap_remove set_mset_add_mset_insert set_mset_mset subset_insertI)

lemma map_of_hm_modify: "map_of (hm_modify k f m) = (map_of m)(k := map_option f (map_of m k))"
  by (induction m) (auto simp: fun_eq_iff)

lemma map_of_hm_insert: "map_of (hm_insert k v m) = (map_of m)(k \<mapsto> v)"
  by (induction m) (auto simp: fun_eq_iff)

lemma keys_hm_modify [simp]: "map fst (hm_modify k f m) = map fst m"
  by (induction m) auto

lemma set_hm_remove: "set (hm_remove k m) \<subseteq> set m"
  by (induction m) (auto split: if_splits)

lemma map_of_hm_remove: "distinct (map fst m) \<Longrightarrow> map_of (hm_remove k m) = (map_of m)(k := None)"
proof (induction m)
  case (Cons e m)
  obtain k' v where e: "e = (k', v)" by (cases e)
  show ?case
  proof (cases "k' = k")
    case True
    with Cons.prems e have "map_of m k = None" by (simp add: map_of_eq_None_iff)
    with True e show ?thesis by (auto simp: fun_eq_iff)
  next
    case False
    with Cons e show ?thesis by (auto simp: fun_eq_iff)
  qed
qed simp

lemma distinct_hm_remove: "distinct (map fst m) \<Longrightarrow> distinct (map fst (hm_remove k m))"
  using set_hm_remove by (induction m) fastforce+

lemma set_hm_insert: "set (hm_insert k v m) \<subseteq> insert (k, v) (set m)"
  by (induction m) (auto split: if_splits)

lemma distinct_hm_insert: "distinct (map fst m) \<Longrightarrow> distinct (map fst (hm_insert k v m))"
proof (induction m)
  case (Cons e m)
  have "fst ` set (hm_insert k v m) \<subseteq> insert k (fst ` set m)"
    using set_hm_insert [of k v m] by fastforce
  with Cons show ?case by (cases e) auto
qed simp

end
