(* ===== verification/BigUint.thy ===== *)
theory BigUint
  imports Prelude
begin

text \<open>
  \<^verbatim>\<open>storage.rs\<close>, \<^verbatim>\<open>struct BigUint\<close>: the unsigned arbitrary-precision integer
  under the NUMERIC type, little-endian limbs in base \<open>10 ^ 9\<close> held in
  \<^verbatim>\<open>u32\<close>s and combined in \<^verbatim>\<open>u64\<close> and \<^verbatim>\<open>u128\<close> accumulators. Every operation is
  written on words at the width the code uses; the abstraction \<open>bval\<close> reads the
  natural number a value stands for, and the lemmas show that each operation
  computes the corresponding operation on natural numbers, with no
  wrap-around, and keeps the canonical form.
\<close>

section \<open>The type and its meaning\<close>

record big_uint =
  limbs :: "u32 list"

fun limbs_val :: "u32 list \<Rightarrow> nat" where
  "limbs_val [] = 0"
| "limbs_val (l # ls) = unat l + 1000000000 * limbs_val ls"

definition bval :: "big_uint \<Rightarrow> nat" where
  "bval b = limbs_val (limbs b)"

text \<open>Each limb is a digit in base \<open>10 ^ 9\<close>; canonical form has no leading zero limb.\<close>

definition limbs_ok :: "u32 list \<Rightarrow> bool" where
  "limbs_ok ls \<longleftrightarrow> (\<forall>l \<in> set ls. unat l < 1000000000)"

definition canonical :: "u32 list \<Rightarrow> bool" where
  "canonical ls \<longleftrightarrow> (ls = [] \<or> last ls \<noteq> 0)"

definition wf_big :: "big_uint \<Rightarrow> bool" where
  "wf_big b \<longleftrightarrow> limbs_ok (limbs b) \<and> canonical (limbs b)"

section \<open>Operations\<close>

subsection \<open>Construction and normal form\<close>

definition biguint_zero :: big_uint where
  "biguint_zero = \<lparr>limbs = []\<rparr>"

definition biguint_is_zero :: "big_uint \<Rightarrow> bool" where
  "biguint_is_zero b \<longleftrightarrow> limbs b = []"

function pop_zeros :: "u32 list \<Rightarrow> u32 list" where
  "pop_zeros ls = (if ls \<noteq> [] \<and> last ls = 0 then pop_zeros (butlast ls) else ls)"
  by pat_completeness auto
termination
  by (relation "measure length") auto

declare pop_zeros.simps [simp del]

definition biguint_normalize :: "big_uint \<Rightarrow> big_uint" where
  "biguint_normalize b = b\<lparr>limbs := pop_zeros (limbs b)\<rparr>"

function u64_limbs :: "u64 \<Rightarrow> u32 list" where
  "u64_limbs v =
     (if 0 < v then ucast (v mod 1000000000) # u64_limbs (v div 1000000000) else [])"
  by pat_completeness auto
termination
  by (relation "measure unat") (auto simp: word_less_nat_alt unat_div_distrib)

declare u64_limbs.simps [simp del]

definition biguint_from_u64 :: "u64 \<Rightarrow> big_uint" where
  "biguint_from_u64 v = \<lparr>limbs = u64_limbs v\<rparr>"

function u128_limbs :: "u128 \<Rightarrow> u32 list" where
  "u128_limbs v =
     (if 0 < v then ucast (v mod 1000000000) # u128_limbs (v div 1000000000) else [])"
  by pat_completeness auto
termination
  by (relation "measure unat") (auto simp: word_less_nat_alt unat_div_distrib)

declare u128_limbs.simps [simp del]

definition biguint_from_u128 :: "u128 \<Rightarrow> big_uint" where
  "biguint_from_u128 v = \<lparr>limbs = u128_limbs v\<rparr>"

fun chunk_val :: "string \<Rightarrow> u32 \<Rightarrow> u32" where
  "chunk_val [] v = v"
| "chunk_val (b # bs) v = chunk_val bs (v * 10 + ucast ((of_char b :: u8) - 48))"

function decimal_limbs :: "string \<Rightarrow> nat \<Rightarrow> u32 list" where
  "decimal_limbs bytes e =
     (if 0 < e
      then let start = e - 9
           in chunk_val (take (e - start) (drop start bytes)) 0 # decimal_limbs bytes start
      else [])"
  by pat_completeness auto
termination
  by (relation "measure snd") auto

declare decimal_limbs.simps [simp del]

definition biguint_from_decimal_str :: "string \<Rightarrow> big_uint" where
  "biguint_from_decimal_str s = biguint_normalize \<lparr>limbs = decimal_limbs s (length s)\<rparr>"

subsection \<open>Comparison\<close>

fun cmp_limbs :: "(u32 \<times> u32) list \<Rightarrow> ordering" where
  "cmp_limbs [] = Equal"
| "cmp_limbs ((a, b) # r) = (if a \<noteq> b then ord_cmp a b else cmp_limbs r)"

definition biguint_cmp :: "big_uint \<Rightarrow> big_uint \<Rightarrow> ordering" where
  "biguint_cmp a b =
     (if length (limbs a) \<noteq> length (limbs b)
      then ord_cmp (length (limbs a)) (length (limbs b))
      else cmp_limbs (zip (rev (limbs a)) (rev (limbs b))))"

subsection \<open>Addition and subtraction\<close>

text \<open>The carry loop after the common limbs; it extends the number when it runs off the end.\<close>

function carry_limbs :: "u32 list \<Rightarrow> u64 \<Rightarrow> u32 list" where
  "carry_limbs ls carry =
     (if 0 < carry
      then (case ls of
              [] \<Rightarrow> let cur = carry
                   in ucast (cur mod 1000000000) # carry_limbs [] (cur div 1000000000)
            | l # ls' \<Rightarrow> let cur = ucast l + carry
                   in ucast (cur mod 1000000000) # carry_limbs ls' (cur div 1000000000))
      else ls)"
  by pat_completeness auto
termination
  by (relation "measures [\<lambda>(ls, carry). length ls, \<lambda>(ls, carry). unat carry]")
    (auto simp: word_less_nat_alt unat_div_distrib)

declare carry_limbs.simps [simp del]

fun add_limbs :: "u32 list \<Rightarrow> u32 list \<Rightarrow> u64 \<Rightarrow> u32 list" where
  "add_limbs ls [] carry = carry_limbs ls carry"
| "add_limbs (l # ls) (r # rs) carry =
     (let cur = ucast l + ucast r + carry
      in ucast (cur mod 1000000000) # add_limbs ls rs (cur div 1000000000))"
| "add_limbs [] (r # rs) carry = []" \<comment> \<open>not reached: the left operand was resized\<close>

definition resize0 :: "nat \<Rightarrow> u32 list \<Rightarrow> u32 list" where
  "resize0 n ls = (if length ls < n then ls @ replicate (n - length ls) 0 else ls)"

definition biguint_add_assign :: "big_uint \<Rightarrow> big_uint \<Rightarrow> big_uint" where
  "biguint_add_assign a b =
     (if biguint_is_zero b then a
      else a\<lparr>limbs := add_limbs (resize0 (length (limbs b)) (limbs a)) (limbs b) 0\<rparr>)"

definition biguint_add_small_assign :: "big_uint \<Rightarrow> u32 \<Rightarrow> big_uint" where
  "biguint_add_small_assign a v =
     (if v = 0 then a else a\<lparr>limbs := carry_limbs (limbs a) (ucast v)\<rparr>)"

text \<open>
  The borrow loop works in \<^verbatim>\<open>i64\<close>; its values lie between \<open>- 2 ^ 32 - 1\<close> and
  \<open>2 ^ 32\<close>, so the signed arithmetic is the arithmetic of \<open>int\<close>.
\<close>

fun sub_limbs :: "u32 list \<Rightarrow> u32 list \<Rightarrow> int \<Rightarrow> u32 list" where
  "sub_limbs [] rs borrow = []"
| "sub_limbs (l # ls) rs borrow =
     (let r = (case rs of [] \<Rightarrow> 0 | x # _ \<Rightarrow> uint x);
          cur = uint l - r - borrow
      in if cur < 0
         then word_of_int (cur + 1000000000) # sub_limbs ls (drop 1 rs) 1
         else word_of_int cur # sub_limbs ls (drop 1 rs) 0)"

definition biguint_sub_assign :: "big_uint \<Rightarrow> big_uint \<Rightarrow> big_uint" where
  "biguint_sub_assign a b =
     biguint_normalize (a\<lparr>limbs := sub_limbs (limbs a) (limbs b) 0\<rparr>)"

subsection \<open>Multiplication and short division\<close>

function carry128_limbs :: "u128 \<Rightarrow> u32 list" where
  "carry128_limbs carry =
     (if 0 < carry
      then ucast (carry mod 1000000000) # carry128_limbs (carry div 1000000000)
      else [])"
  by pat_completeness auto
termination
  by (relation "measure unat") (auto simp: word_less_nat_alt unat_div_distrib)

declare carry128_limbs.simps [simp del]

fun mul_small_limbs :: "u32 list \<Rightarrow> u64 \<Rightarrow> u128 \<Rightarrow> u32 list" where
  "mul_small_limbs [] m carry = carry128_limbs carry"
| "mul_small_limbs (l # ls) m carry =
     (let cur = ucast l * ucast m + carry
      in ucast (cur mod 1000000000) # mul_small_limbs ls m (cur div 1000000000))"

definition biguint_mul_small_assign :: "big_uint \<Rightarrow> u64 \<Rightarrow> big_uint" where
  "biguint_mul_small_assign a m =
     (if m = 0 \<or> biguint_is_zero a then a\<lparr>limbs := []\<rparr>
      else if m = 1 then a
      else a\<lparr>limbs := mul_small_limbs (limbs a) m 0\<rparr>)"

definition biguint_mul_pow10_assign :: "big_uint \<Rightarrow> nat \<Rightarrow> big_uint" where
  "biguint_mul_pow10_assign a k =
     (if biguint_is_zero a \<or> k = 0 then a
      else let r = k mod 9;
               a1 = (if 0 < r then biguint_mul_small_assign a (10 ^ r) else a);
               q = k div 9
           in if 0 < q then a1\<lparr>limbs := replicate q 0 @ limbs a1\<rparr> else a1)"

text \<open>
  Short division walks the limbs from the most significant one; the list argument
  is the limbs in that order.
\<close>

fun div_limbs_msf :: "u32 list \<Rightarrow> u32 \<Rightarrow> u64 \<Rightarrow> u32 list \<times> u64" where
  "div_limbs_msf [] d rem = ([], rem)"
| "div_limbs_msf (l # ls) d rem =
     (let cur = rem * 1000000000 + ucast l;
          q = ucast (cur div ucast d);
          (qs, rem') = div_limbs_msf ls d (cur mod ucast d)
      in (q # qs, rem'))"

definition biguint_div_small_assign :: "big_uint \<Rightarrow> u32 \<Rightarrow> big_uint" where
  "biguint_div_small_assign a d =
     biguint_normalize (a\<lparr>limbs := rev (fst (div_limbs_msf (rev (limbs a)) d 0))\<rparr>)"

definition biguint_div_rem_small :: "big_uint \<Rightarrow> u32 \<Rightarrow> big_uint \<times> u32" where
  "biguint_div_rem_small a d =
     (let (q_limbs, rem) = div_limbs_msf (rev (limbs a)) d 0
      in (biguint_normalize \<lparr>limbs = rev q_limbs\<rparr>, ucast rem))"

text \<open>Schoolbook product into an array of \<^verbatim>\<open>u128\<close> accumulators.\<close>

fun mul_row :: "u128 list \<Rightarrow> nat \<Rightarrow> u32 \<Rightarrow> u32 list \<Rightarrow> u128 list" where
  "mul_row acc k a [] = acc"
| "mul_row acc k a (b # bs) = mul_row (acc[k := acc ! k + ucast a * ucast b]) (Suc k) a bs"

fun mul_rows :: "u128 list \<Rightarrow> nat \<Rightarrow> u32 list \<Rightarrow> u32 list \<Rightarrow> u128 list" where
  "mul_rows acc i [] bs = acc"
| "mul_rows acc i (a # as) bs = mul_rows (mul_row acc i a bs) (Suc i) as bs"

fun carry_acc :: "u128 list \<Rightarrow> u128 \<Rightarrow> u32 list" where
  "carry_acc [] carry = carry128_limbs carry"
| "carry_acc (v # vs) carry =
     (let cur = v + carry
      in ucast (cur mod 1000000000) # carry_acc vs (cur div 1000000000))"

definition biguint_mul :: "big_uint \<Rightarrow> big_uint \<Rightarrow> big_uint" where
  "biguint_mul a b =
     (if biguint_is_zero a \<or> biguint_is_zero b then biguint_zero
      else let acc = mul_rows (replicate (length (limbs a) + length (limbs b)) 0) 0
                       (limbs a) (limbs b)
           in biguint_normalize \<lparr>limbs = carry_acc acc 0\<rparr>)"

section \<open>Limbs, normal form and order\<close>

lemma limbs_val_append:
  "limbs_val (xs @ ys) = limbs_val xs + 1000000000 ^ length xs * limbs_val ys"
  by (induction xs) (simp_all add: algebra_simps)

lemma limbs_val_replicate0 [simp]: "limbs_val (replicate n 0) = 0"
  by (induction n) simp_all

lemma limbs_ok_simps [simp]:
  "limbs_ok []"
  "limbs_ok (l # ls) \<longleftrightarrow> unat l < 1000000000 \<and> limbs_ok ls"
  "limbs_ok (xs @ ys) \<longleftrightarrow> limbs_ok xs \<and> limbs_ok ys"
  "limbs_ok (rev xs) \<longleftrightarrow> limbs_ok xs"
  by (auto simp: limbs_ok_def)

lemma limbs_ok_replicate0 [simp]: "limbs_ok (replicate n 0)"
  by (simp add: limbs_ok_def)

lemma limbs_val_bound: "limbs_ok ls \<Longrightarrow> limbs_val ls < 1000000000 ^ length ls"
proof (induction ls)
  case Nil
  then show ?case by simp
next
  case (Cons l ls)
  then have "limbs_val ls + 1 \<le> 1000000000 ^ length ls" and "unat l < 1000000000"
    by auto
  then have "unat l + 1000000000 * limbs_val ls < 1000000000 * (limbs_val ls + 1)"
    by simp
  also have "\<dots> \<le> 1000000000 * 1000000000 ^ length ls"
    using \<open>limbs_val ls + 1 \<le> 1000000000 ^ length ls\<close> by (intro mult_le_mono) simp_all
  finally show ?case by simp
qed

text \<open>Normal form\<close>

lemma pop_zeros_props:
  "limbs_val (pop_zeros ls) = limbs_val ls \<and> canonical (pop_zeros ls) \<and>
     (limbs_ok ls \<longrightarrow> limbs_ok (pop_zeros ls))"
proof (induction ls rule: pop_zeros.induct)
  case (1 ls)
  show ?case
  proof (cases "ls \<noteq> [] \<and> last ls = 0")
    case True
    then have ls: "ls = butlast ls @ [0]"
      by (metis append_butlast_last_id)
    have "limbs_val ls = limbs_val (butlast ls)"
      by (subst ls) (simp add: limbs_val_append)
    moreover have "limbs_ok ls \<longrightarrow> limbs_ok (butlast ls)"
      by (subst ls) simp
    ultimately show ?thesis
      using True "1.IH" by (subst (1 2 3) pop_zeros.simps) simp
  next
    case False
    then show ?thesis
      by (auto simp: pop_zeros.simps [of ls] canonical_def)
  qed
qed

lemma limbs_val_pop_zeros [simp]: "limbs_val (pop_zeros ls) = limbs_val ls"
  and canonical_pop_zeros [simp]: "canonical (pop_zeros ls)"
  and limbs_ok_pop_zeros [simp]: "limbs_ok ls \<Longrightarrow> limbs_ok (pop_zeros ls)"
  using pop_zeros_props [of ls] by blast+

lemma pop_zeros_canonical [simp]: "canonical ls \<Longrightarrow> pop_zeros ls = ls"
  by (auto simp: pop_zeros.simps [of ls] canonical_def)

lemma bval_normalize [simp]: "bval (biguint_normalize b) = bval b"
  by (simp add: bval_def biguint_normalize_def)

lemma wf_normalize [intro]: "limbs_ok (limbs b) \<Longrightarrow> wf_big (biguint_normalize b)"
  by (simp add: wf_big_def biguint_normalize_def)

text \<open>A nonzero canonical number is at least the weight of its top limb.\<close>

lemma canonical_lower:
  assumes "canonical ls" and "ls \<noteq> []"
  shows "1000000000 ^ (length ls - Suc 0) \<le> limbs_val ls"
proof -
  from assms have ls: "ls = butlast ls @ [last ls]" and nz: "last ls \<noteq> 0"
    by (auto simp: canonical_def)
  from nz have "1 \<le> unat (last ls)"
    by (simp add: Suc_le_eq unat_gt_0)
  then have "1000000000 ^ (length ls - Suc 0) \<le> 1000000000 ^ (length ls - Suc 0) * unat (last ls)"
    by simp
  also have "\<dots> \<le> limbs_val ls"
    by (subst (2) ls) (simp add: limbs_val_append)
  finally show ?thesis .
qed

lemma wf_is_zero: "wf_big b \<Longrightarrow> biguint_is_zero b \<longleftrightarrow> bval b = 0"
proof (cases "limbs b = []")
  case False
  assume "wf_big b"
  with False have "1000000000 ^ (length (limbs b) - Suc 0) \<le> bval b"
    by (simp add: wf_big_def bval_def canonical_lower)
  then have "0 < bval b"
    by (rule less_le_trans [rotated]) simp
  with False show ?thesis by (simp add: biguint_is_zero_def)
qed (simp add: biguint_is_zero_def bval_def)

lemma bval_zero [simp]: "bval biguint_zero = 0" and wf_zero [simp]: "wf_big biguint_zero"
  by (simp_all add: biguint_zero_def bval_def wf_big_def canonical_def)

text \<open>Comparison\<close>

lemma cmp_limbs_append:
  "cmp_limbs (ps @ qs) = (case cmp_limbs ps of Equal \<Rightarrow> cmp_limbs qs | r \<Rightarrow> r)"
proof (induction ps)
  case Nil
  then show ?case by simp
next
  case (Cons p ps)
  obtain a b where p: "p = (a, b)" by (cases p)
  show ?case
  proof (cases "a = b")
    case True
    with Cons.IH p show ?thesis by simp
  next
    case False
    then have "ord_cmp a b \<noteq> Equal" by simp
    with False p show ?thesis by (simp split: ordering.split)
  qed
qed

lemma ord_cmp_limb:
  assumes "(x :: nat) < 1000000000" and "y < 1000000000"
  shows "ord_cmp (x + 1000000000 * u) (y + 1000000000 * v) =
    (case ord_cmp u v of Equal \<Rightarrow> ord_cmp x y | r \<Rightarrow> r)"
proof (cases "ord_cmp u v")
  case Less
  then have "u + 1 \<le> v" by simp
  then have "1000000000 * (u + 1) \<le> 1000000000 * v" by (rule mult_le_mono2)
  then have "x + 1000000000 * u < y + 1000000000 * v" using assms by simp
  with Less show ?thesis by simp
next
  case Equal
  then have "u = v" by simp
  then show ?thesis by (simp add: ord_cmp_def)
next
  case Greater
  then have "v + 1 \<le> u" by simp
  then have "1000000000 * (v + 1) \<le> 1000000000 * u" by (rule mult_le_mono2)
  then have "y + 1000000000 * v < x + 1000000000 * u" using assms by simp
  with Greater show ?thesis by simp
qed

lemma ord_cmp_unat: "ord_cmp (unat a) (unat b) = ord_cmp a b"
  by (auto simp: ord_cmp_def word_less_nat_alt)

lemma cmp_limbs_rev:
  assumes "length xs = length ys" and "limbs_ok xs" and "limbs_ok ys"
  shows "cmp_limbs (zip (rev xs) (rev ys)) = ord_cmp (limbs_val xs) (limbs_val ys)"
  using assms
proof (induction xs ys rule: list_induct2)
  case Nil
  then show ?case by (simp add: ord_cmp_def)
next
  case (Cons x xs y ys)
  have "cmp_limbs [(x, y)] = ord_cmp (unat x) (unat y)"
    by (simp add: ord_cmp_unat)
  with Cons show ?case
    by (simp add: cmp_limbs_append ord_cmp_limb split: ordering.split del: cmp_limbs.simps)
qed

lemma canonical_longer:
  assumes "wf_big a" and "wf_big b" and "length (limbs a) < length (limbs b)"
  shows "bval a < bval b"
proof -
  from assms have "bval a < 1000000000 ^ length (limbs a)"
    by (simp add: wf_big_def bval_def limbs_val_bound)
  also have "\<dots> \<le> 1000000000 ^ (length (limbs b) - Suc 0)"
    using assms(3) by (intro power_increasing) auto
  also have "\<dots> \<le> bval b"
    using assms by (auto simp: wf_big_def bval_def intro!: canonical_lower)
  finally show ?thesis .
qed

lemma biguint_cmp_val:
  assumes "wf_big a" and "wf_big b"
  shows "biguint_cmp a b = ord_cmp (bval a) (bval b)"
proof (cases "length (limbs a)" "length (limbs b)" rule: linorder_cases)
  case less
  with canonical_longer [OF assms] show ?thesis
    by (simp add: biguint_cmp_def)
next
  case equal
  with assms show ?thesis
    by (simp add: biguint_cmp_def wf_big_def bval_def cmp_limbs_rev)
next
  case greater
  with canonical_longer [OF assms(2,1)] show ?thesis
    by (simp add: biguint_cmp_def)
qed

text \<open>Two canonical numbers of the same value are the same limbs.\<close>

lemma limbs_val_inj:
  "length xs = length ys \<Longrightarrow> limbs_ok xs \<Longrightarrow> limbs_ok ys \<Longrightarrow>
     limbs_val xs = limbs_val ys \<Longrightarrow> xs = ys"
proof (induction xs ys rule: list_induct2)
  case (Cons x xs y ys)
  then have "unat x = unat y" and "limbs_val xs = limbs_val ys"
    using arg_cong [OF Cons.prems(3), of "\<lambda>n. n mod 1000000000"]
    by auto
  with Cons show ?case by simp
qed simp

lemma wf_big_inj:
  assumes "wf_big a" and "wf_big b" and "bval a = bval b"
  shows "a = b"
proof -
  have "length (limbs a) = length (limbs b)"
    using canonical_longer [OF assms(1,2)] canonical_longer [OF assms(2,1)] assms(3)
    by (metis less_irrefl linorder_neqE_nat)
  with assms have "limbs a = limbs b"
    by (auto simp: wf_big_def bval_def intro: limbs_val_inj)
  then show ?thesis by simp
qed

text \<open>One digit step: the low digit is stored, the rest is carried.\<close>

lemma digit64 [simp]: "unat (ucast ((w :: u64) mod 1000000000) :: u32) = unat w mod 1000000000"
proof -
  have "unat (w mod 1000000000) = unat w mod 1000000000"
    by (simp add: unat_mod_distrib)
  moreover have "unat w mod 1000000000 < (4294967296 :: nat)"
    by (rule less_trans [OF mod_less_divisor]) simp_all
  ultimately show ?thesis by (simp add: unat_ucast_mod)
qed

lemma digit128 [simp]: "unat (ucast ((w :: u128) mod 1000000000) :: u32) = unat w mod 1000000000"
proof -
  have "unat (w mod 1000000000) = unat w mod 1000000000"
    by (simp add: unat_mod_distrib)
  moreover have "unat w mod 1000000000 < (4294967296 :: nat)"
    by (rule less_trans [OF mod_less_divisor]) simp_all
  ultimately show ?thesis by (simp add: unat_ucast_mod)
qed

lemma carry64 [simp]: "unat ((w :: u64) div 1000000000) = unat w div 1000000000"
  by (simp add: unat_div_distrib)

lemma carry128 [simp]: "unat ((w :: u128) div 1000000000) = unat w div 1000000000"
  by (simp add: unat_div_distrib)

lemma base_split: "(n :: nat) mod 1000000000 + 1000000000 * (n div 1000000000) = n"
  by simp

lemma digit_step: "(n :: nat) mod 1000000000 + 1000000000 * (v + n div 1000000000) = n + 1000000000 * v"
proof -
  have "n mod 1000000000 + 1000000000 * (v + n div 1000000000) =
      (n mod 1000000000 + 1000000000 * (n div 1000000000)) + 1000000000 * v"
    by (simp only: distrib_left ac_simps)
  then show ?thesis by (simp only: base_split)
qed

lemma borrow_step:
  fixes d :: int
  assumes "d = u - r - w + nb * B" and "X = L - R - nb + b * P"
  shows "d + B * X = (u + B * L) - (r + B * R) - w + b * (B * P)"
  unfolding assms by (simp add: algebra_simps)

text \<open>Conversion from machine integers\<close>

lemma u64_limbs_spec:
  "limbs_ok (u64_limbs v) \<and> canonical (u64_limbs v) \<and> limbs_val (u64_limbs v) = unat v"
proof (induction v rule: u64_limbs.induct)
  case (1 v)
  show ?case
  proof (cases "0 < v")
    case True
    with "1.IH" have IH: "limbs_ok (u64_limbs (v div 1000000000))"
      "canonical (u64_limbs (v div 1000000000))"
      "limbs_val (u64_limbs (v div 1000000000)) = unat v div 1000000000"
      by auto
    have "v \<noteq> 0" using True by auto
    then have "u64_limbs (v div 1000000000) = [] \<Longrightarrow> unat v mod 1000000000 \<noteq> 0"
      using IH(3) by (metis add_0 base_split limbs_val.simps(1) mult_0_right unat_0_iff)
    then have "u64_limbs (v div 1000000000) = [] \<Longrightarrow> (ucast (v mod 1000000000) :: u32) \<noteq> 0"
      by (metis digit64 unat_0)
    with True IH show ?thesis
      by (subst (1 2 3) u64_limbs.simps) (auto simp: canonical_def)
  next
    case False
    then have "v = 0" by (simp add: word_gt_0)
    then show ?thesis by (simp add: u64_limbs.simps [of 0] canonical_def)
  qed
qed

lemma u128_limbs_spec:
  "limbs_ok (u128_limbs v) \<and> canonical (u128_limbs v) \<and> limbs_val (u128_limbs v) = unat v"
proof (induction v rule: u128_limbs.induct)
  case (1 v)
  show ?case
  proof (cases "0 < v")
    case True
    with "1.IH" have IH: "limbs_ok (u128_limbs (v div 1000000000))"
      "canonical (u128_limbs (v div 1000000000))"
      "limbs_val (u128_limbs (v div 1000000000)) = unat v div 1000000000"
      by auto
    have "v \<noteq> 0" using True by auto
    then have "u128_limbs (v div 1000000000) = [] \<Longrightarrow> unat v mod 1000000000 \<noteq> 0"
      using IH(3) by (metis add_0 base_split limbs_val.simps(1) mult_0_right unat_0_iff)
    then have "u128_limbs (v div 1000000000) = [] \<Longrightarrow> (ucast (v mod 1000000000) :: u32) \<noteq> 0"
      by (metis digit128 unat_0)
    with True IH show ?thesis
      by (subst (1 2 3) u128_limbs.simps) (auto simp: canonical_def)
  next
    case False
    then have "v = 0" by (simp add: word_gt_0)
    then show ?thesis by (simp add: u128_limbs.simps [of 0] canonical_def)
  qed
qed

lemma biguint_from_u64_val [simp]: "bval (biguint_from_u64 v) = unat v"
  and wf_from_u64 [simp]: "wf_big (biguint_from_u64 v)"
  using u64_limbs_spec [of v] by (simp_all add: biguint_from_u64_def bval_def wf_big_def)

lemma biguint_from_u128_val [simp]: "bval (biguint_from_u128 v) = unat v"
  and wf_from_u128 [simp]: "wf_big (biguint_from_u128 v)"
  using u128_limbs_spec [of v] by (simp_all add: biguint_from_u128_def bval_def wf_big_def)

text \<open>Carry propagation and addition\<close>

lemma carry_limbs_spec:
  "limbs_ok ls \<Longrightarrow> unat carry \<le> 1000000000 \<Longrightarrow>
     limbs_ok (carry_limbs ls carry) \<and> limbs_val (carry_limbs ls carry) = limbs_val ls + unat carry"
proof (induction ls carry rule: carry_limbs.induct)
  case (1 ls carry)
  show ?case
  proof (cases "0 < carry")
    case True
    show ?thesis
    proof (cases ls)
      case Nil
      have "unat carry div 1000000000 \<le> 1000000000"
        using "1.prems"(2) by (meson div_le_dividend le_trans)
      with "1.IH"(1) [OF True Nil refl] have
        "limbs_ok (carry_limbs [] (carry div 1000000000))"
        "limbs_val (carry_limbs [] (carry div 1000000000)) = unat carry div 1000000000"
        by simp_all
      with True Nil show ?thesis
        by (simp add: carry_limbs.simps [of "[]" carry] Let_def)
    next
      case (Cons l ls')
      let ?cur = "ucast l + carry :: u64"
      have l: "unat l < 1000000000" using "1.prems"(1) Cons by simp
      have cur: "unat ?cur = unat l + unat carry"
        using l "1.prems"(2) by (subst unat_add64) simp_all
      have "unat l + unat carry < 1000000000 * 2"
        using l "1.prems"(2) by simp
      then have c: "unat (?cur div 1000000000) \<le> 1000000000"
        by (simp add: cur)
      from "1.IH"(2) [OF True Cons refl _ c] "1.prems"(1) Cons
      have "limbs_ok (carry_limbs ls' (?cur div 1000000000))"
        and v: "limbs_val (carry_limbs ls' (?cur div 1000000000)) =
           limbs_val ls' + (unat l + unat carry) div 1000000000"
        by (simp_all add: cur)
      moreover have "carry_limbs ls carry =
          ucast (?cur mod 1000000000) # carry_limbs ls' (?cur div 1000000000)"
        using True Cons by (simp add: carry_limbs.simps [of "l # ls'" carry] Let_def)
      moreover have "(unat l + unat carry) mod 1000000000 + 1000000000 *
          (limbs_val ls' + (unat l + unat carry) div 1000000000) =
          limbs_val ls + unat carry"
        unfolding Cons limbs_val.simps by (simp only: digit_step ac_simps)
      ultimately show ?thesis by (simp add: cur)
    qed
  next
    case False
    then have "carry = 0" by (simp add: word_gt_0)
    with "1.prems" show ?thesis by (simp add: carry_limbs.simps [of ls 0])
  qed
qed

lemma add_limbs_spec:
  "limbs_ok ls \<Longrightarrow> limbs_ok rs \<Longrightarrow> length rs \<le> length ls \<Longrightarrow> unat carry \<le> 1 \<Longrightarrow>
     limbs_ok (add_limbs ls rs carry) \<and>
     limbs_val (add_limbs ls rs carry) = limbs_val ls + limbs_val rs + unat carry"
proof (induction ls rs carry rule: add_limbs.induct)
  case (1 ls carry)
  then show ?case using carry_limbs_spec [of ls carry] by simp
next
  case (2 l ls r rs carry)
  let ?cur = "ucast l + ucast r + carry :: u64"
  have b: "unat l < 1000000000" "unat r < 1000000000" "unat carry \<le> 1"
    using "2.prems" by simp_all
  have s: "unat (ucast l + ucast r :: u64) = unat l + unat r"
    using b by (subst unat_add64) simp_all
  have cur: "unat ?cur = unat l + unat r + unat carry"
    using b s by (subst unat_add64) simp_all
  have c: "unat (?cur div 1000000000) \<le> 1"
    using b by (simp add: cur)
  from "2.IH" [OF refl _ _ _ c] "2.prems"
  have "limbs_ok (add_limbs ls rs (?cur div 1000000000))"
    "limbs_val (add_limbs ls rs (?cur div 1000000000)) =
       limbs_val ls + limbs_val rs + (unat l + unat r + unat carry) div 1000000000"
    by (simp_all add: cur)
  moreover have "limbs_val (add_limbs (l # ls) (r # rs) carry) =
    unat ?cur mod 1000000000 + 1000000000 * limbs_val (add_limbs ls rs (?cur div 1000000000))"
    by (simp add: Let_def)
  ultimately have "limbs_val (add_limbs (l # ls) (r # rs) carry) =
    limbs_val (l # ls) + limbs_val (r # rs) + unat carry"
    using base_split [of "unat l + unat r + unat carry"] unfolding cur limbs_val.simps
    by linarith
  with \<open>limbs_ok (add_limbs ls rs (?cur div 1000000000))\<close> show ?case
    by (simp add: Let_def)
next
  case (3 r rs carry)
  then show ?case by simp
qed

lemma canonical_Cons:
  "canonical (l # ls) \<longleftrightarrow> (if ls = [] then l \<noteq> 0 else canonical ls)"
  by (simp add: canonical_def)

lemma carry_limbs_eq_Nil: "carry_limbs ls c = [] \<longleftrightarrow> ls = [] \<and> c = 0"
  by (auto simp: carry_limbs.simps [of ls c] Let_def word_gt_0 split: list.splits)

lemma digit64_zero: "(ucast ((w :: u64) mod 1000000000) :: u32) = 0 \<longleftrightarrow> unat w mod 1000000000 = 0"
  by (metis digit64 unat_0_iff)

lemma div64_zero: "(w :: u64) div 1000000000 = 0 \<longleftrightarrow> unat w < 1000000000"
  by (metis carry64 div_eq_0_iff unat_0_iff zero_neq_numeral)

lemma carry_limbs_canonical:
  "limbs_ok ls \<Longrightarrow> canonical ls \<Longrightarrow> unat carry \<le> 1000000000 \<Longrightarrow> canonical (carry_limbs ls carry)"
proof (induction ls carry rule: carry_limbs.induct)
  case (1 ls carry)
  show ?case
  proof (cases "0 < carry")
    case True
    then have nz: "carry \<noteq> 0" by auto
    show ?thesis
    proof (cases ls)
      case Nil
      have "canonical (carry_limbs [] (carry div 1000000000))"
        using "1.IH"(1) [OF True Nil refl] "1.prems"
        by (simp add: canonical_def le_trans [OF div_le_dividend])
      moreover have "0 < unat carry" using nz by (simp add: unat_gt_0)
      ultimately show ?thesis using True Nil nz
        by (auto simp: carry_limbs.simps [of "[]" carry] Let_def canonical_Cons
            carry_limbs_eq_Nil digit64_zero div64_zero)
    next
      case (Cons l ls')
      let ?cur = "ucast l + carry :: u64"
      have l: "unat l < 1000000000" using "1.prems"(1) Cons by simp
      have cur: "unat ?cur = unat l + unat carry"
        using l "1.prems"(3) by (subst unat_add64) simp_all
      have "unat l + unat carry < 1000000000 * 2"
        using l "1.prems"(3) by simp
      then have c: "unat (?cur div 1000000000) \<le> 1000000000"
        by (simp add: cur)
      have "canonical ls'"
        using "1.prems"(2) Cons by (auto simp: canonical_def split: if_splits)
      then have "canonical (carry_limbs ls' (?cur div 1000000000))"
        using "1.IH"(2) [OF True Cons refl _ _ c] "1.prems" Cons by simp
      moreover have "0 < unat carry" using nz by (simp add: unat_gt_0)
      ultimately show ?thesis
        using True Cons
        by (auto simp: carry_limbs.simps [of "l # ls'" carry] Let_def canonical_Cons
            carry_limbs_eq_Nil digit64_zero div64_zero cur)
    qed
  next
    case False
    with "1.prems" show ?thesis by (simp add: carry_limbs.simps [of ls carry])
  qed
qed

lemma add_limbs_eq_Nil:
  "length rs \<le> length ls \<Longrightarrow> add_limbs ls rs c = [] \<longleftrightarrow> ls = [] \<and> c = 0"
  by (cases rs; cases ls) (auto simp: carry_limbs_eq_Nil Let_def)

lemma add_limbs_canonical:
  "limbs_ok ls \<Longrightarrow> limbs_ok rs \<Longrightarrow> length rs \<le> length ls \<Longrightarrow> unat carry \<le> 1 \<Longrightarrow>
   canonical ls \<or> length ls = length rs \<and> canonical rs \<Longrightarrow>
     canonical (add_limbs ls rs carry)"
proof (induction ls rs carry rule: add_limbs.induct)
  case (1 ls carry)
  then show ?case
    using carry_limbs_canonical [of ls carry] by (auto simp: canonical_def)
next
  case (2 l ls r rs carry)
  let ?cur = "ucast l + ucast r + carry :: u64"
  have b: "unat l < 1000000000" "unat r < 1000000000" "unat carry \<le> 1"
    using "2.prems" by simp_all
  have s: "unat (ucast l + ucast r :: u64) = unat l + unat r"
    using b by (subst unat_add64) simp_all
  have cur: "unat ?cur = unat l + unat r + unat carry"
    using b s by (subst unat_add64) simp_all
  have c: "unat (?cur div 1000000000) \<le> 1"
    using b by (simp add: cur)
  have "canonical ls \<or> length ls = length rs \<and> canonical rs"
    using "2.prems"(5) by (auto simp: canonical_Cons split: if_splits simp: canonical_def)
  with "2.IH" [OF refl _ _ _ c] "2.prems"
  have "canonical (add_limbs ls rs (?cur div 1000000000))" by simp
  moreover have "ls = [] \<Longrightarrow> 0 < unat l + unat r"
    using "2.prems"(3,5) by (auto simp: canonical_Cons unat_gt_0)
  ultimately show ?case
    using "2.prems"(3) by (auto simp: Let_def canonical_Cons add_limbs_eq_Nil digit64_zero
        div64_zero cur)
next
  case (3 r rs carry)
  then show ?case by simp
qed

lemma resize0_props [simp]:
  "limbs_val (resize0 n ls) = limbs_val ls"
  "limbs_ok (resize0 n ls) = limbs_ok ls"
  "length (resize0 n ls) = max n (length ls)"
  by (auto simp: resize0_def limbs_val_append)

lemma biguint_add_assign_val:
  assumes "wf_big a" and "wf_big b"
  shows "bval (biguint_add_assign a b) = bval a + bval b" and "wf_big (biguint_add_assign a b)"
proof -
  let ?ls = "resize0 (length (limbs b)) (limbs a)"
  have ok: "limbs_ok ?ls" "limbs_ok (limbs b)" "length (limbs b) \<le> length ?ls"
    using assms by (simp_all add: wf_big_def)
  have can: "canonical ?ls \<or> length ?ls = length (limbs b) \<and> canonical (limbs b)"
    using assms by (auto simp: wf_big_def resize0_def)
  show "bval (biguint_add_assign a b) = bval a + bval b"
    using add_limbs_spec [OF ok, of 0] assms
    by (auto simp: biguint_add_assign_def bval_def biguint_is_zero_def)
  show "wf_big (biguint_add_assign a b)"
    using add_limbs_spec [OF ok, of 0] add_limbs_canonical [OF ok _ can, of 0] assms(1)
    by (simp add: biguint_add_assign_def wf_big_def)
qed

lemma biguint_add_small_assign_val:
  assumes "limbs_ok (limbs a)" and "unat v < 1000000000"
  shows "bval (biguint_add_small_assign a v) = bval a + unat v"
    and "limbs_ok (limbs (biguint_add_small_assign a v))"
    and "canonical (limbs a) \<Longrightarrow> canonical (limbs (biguint_add_small_assign a v))"
  using carry_limbs_spec [of "limbs a" "ucast v"] carry_limbs_canonical [of "limbs a" "ucast v"] assms
  by (auto simp: biguint_add_small_assign_def bval_def)

text \<open>Subtraction\<close>

lemma unat_word_of_int_small:
  "0 \<le> i \<Longrightarrow> i < 4294967296 \<Longrightarrow> unat (word_of_int i :: u32) = nat i"
  by (simp add: unat_eq_nat_uint uint_word_of_int)

lemma uint_small: "unat (w :: u32) < 1000000000 \<Longrightarrow> uint w < 1000000000"
  by (metis int_ops(3) nat_less_iff of_nat_numeral unat_eq_nat_uint uint_ge_0)

lemma sub_limbs_spec:
  "limbs_ok ls \<Longrightarrow> limbs_ok rs \<Longrightarrow> 0 \<le> borrow \<Longrightarrow> borrow \<le> 1 \<Longrightarrow> length rs \<le> length ls \<Longrightarrow>
     limbs_ok (sub_limbs ls rs borrow) \<and>
     (\<exists>b. 0 \<le> b \<and> b \<le> 1 \<and>
        int (limbs_val (sub_limbs ls rs borrow)) =
        int (limbs_val ls) - int (limbs_val rs) - borrow + b * 1000000000 ^ length ls)"
proof (induction ls arbitrary: rs borrow)
  case Nil
  then show ?case by (intro conjI exI [of _ borrow]) simp_all
next
  case (Cons l ls)
  define r where "r = (case rs of [] \<Rightarrow> 0 | x # _ \<Rightarrow> uint x)"
  have r: "0 \<le> r \<and> r < 1000000000 \<and>
      int (limbs_val rs) = r + 1000000000 * int (limbs_val (drop 1 rs))"
  proof (cases rs)
    case (Cons x xs)
    with Cons.prems(2) have "unat x < 1000000000" by simp
    with Cons show ?thesis by (simp add: r_def uint_small)
  qed (simp add: r_def)
  have l: "0 \<le> uint l" "uint l < 1000000000" "int (unat l) = uint l"
    using Cons.prems(1) by (simp_all add: uint_small)
  have ok: "limbs_ok ls" "limbs_ok (drop 1 rs)" "length (drop 1 rs) \<le> length ls"
    using Cons.prems by (auto simp: limbs_ok_def dest: in_set_dropD)
  define cur where "cur = uint l - r - borrow"
  define nb :: int where "nb = (if cur < 0 then 1 else 0)"
  have nb: "0 \<le> nb" "nb \<le> 1" by (simp_all add: nb_def)
  obtain b where b: "0 \<le> b" "b \<le> 1" "limbs_ok (sub_limbs ls (drop 1 rs) nb)"
      "int (limbs_val (sub_limbs ls (drop 1 rs) nb)) =
        int (limbs_val ls) - int (limbs_val (drop 1 rs)) - nb + b * 1000000000 ^ length ls"
    using Cons.IH [OF ok(1,2) nb ok(3)] by blast
  define d where "d = cur + nb * 1000000000"
  have d: "0 \<le> d" "d < 1000000000"
    unfolding d_def nb_def using l(1,2) conjunct1 [OF r] conjunct1 [OF conjunct2 [OF r]]
      Cons.prems(3,4) cur_def by (cases "cur < 0"; simp only: if_True if_False mult_1 mult_zero_left; linarith)+
  have step: "sub_limbs (l # ls) rs borrow = word_of_int d # sub_limbs ls (drop 1 rs) nb"
    by (simp add: Let_def r_def [symmetric] nb_def d_def) (simp add: cur_def)
  have du: "unat (word_of_int d :: u32) = nat d"
    using d by (simp add: unat_word_of_int_small)
  have "int (limbs_val (sub_limbs (l # ls) rs borrow)) =
      d + 1000000000 * int (limbs_val (sub_limbs ls (drop 1 rs) nb))"
    unfolding step limbs_val.simps du using d by simp
  also have "\<dots> = (uint l + 1000000000 * int (limbs_val ls)) -
      (r + 1000000000 * int (limbs_val (drop 1 rs))) - borrow + b * (1000000000 * 1000000000 ^ length ls)"
    by (rule borrow_step [OF _ b(4)]) (simp add: d_def cur_def)
  also have "\<dots> = int (limbs_val (l # ls)) - int (limbs_val rs) - borrow + b * 1000000000 ^ length (l # ls)"
    using r by (simp add: l(3))
  finally have "int (limbs_val (sub_limbs (l # ls) rs borrow)) =
    int (limbs_val (l # ls)) - int (limbs_val rs) - borrow + b * 1000000000 ^ length (l # ls)" .
  moreover have "limbs_ok (sub_limbs (l # ls) rs borrow)"
    unfolding step using b(3) d by (simp add: du nat_less_iff)
  ultimately show ?case using b(1,2) by blast
qed

lemma length_sub_limbs [simp]: "length (sub_limbs ls rs borrow) = length ls"
  by (induction ls rs borrow rule: sub_limbs.induct) (simp_all add: Let_def)

lemma biguint_sub_assign_val:
  assumes "wf_big a" and "wf_big b" and "bval b \<le> bval a"
  shows "bval (biguint_sub_assign a b) = bval a - bval b" and "wf_big (biguint_sub_assign a b)"
proof -
  have len: "length (limbs b) \<le> length (limbs a)"
    using canonical_longer [OF assms(1,2)] assms(3) by (meson not_le)
  let ?r = "sub_limbs (limbs a) (limbs b) 0"
  obtain c where ok: "limbs_ok ?r" and c: "0 \<le> c" "c \<le> 1"
    "int (limbs_val ?r) = int (bval a) - int (bval b) + c * 1000000000 ^ length (limbs a)"
    using sub_limbs_spec [of "limbs a" "limbs b" 0] assms len
    by (auto simp: wf_big_def bval_def)
  have "limbs_val ?r < 1000000000 ^ length (limbs a)"
    using limbs_val_bound [OF ok] by simp
  then have "int (limbs_val ?r) < 1000000000 ^ length (limbs a)"
    by (metis of_nat_less_iff of_nat_numeral of_nat_power)
  then have "c \<noteq> 1" using c(3) assms(3) by auto
  with c have "c = 0" by auto
  with c assms(3) show "bval (biguint_sub_assign a b) = bval a - bval b"
    by (simp add: biguint_sub_assign_def) (simp add: bval_def)
  show "wf_big (biguint_sub_assign a b)"
    using ok by (auto simp: biguint_sub_assign_def)
qed

text \<open>Multiplication by a machine integer\<close>

lemma carry128_eq: "carry128_limbs c = u128_limbs c"
proof (induction c rule: carry128_limbs.induct)
  case (1 c)
  then show ?case by (subst carry128_limbs.simps, subst u128_limbs.simps) simp
qed

lemma digit128_zero: "(ucast ((w :: u128) mod 1000000000) :: u32) = 0 \<longleftrightarrow> unat w mod 1000000000 = 0"
  by (metis digit128 unat_0_iff)

lemma div128_zero: "(w :: u128) div 1000000000 = 0 \<longleftrightarrow> unat w < 1000000000"
  by (metis carry128 div_eq_0_iff unat_0_iff zero_neq_numeral)

lemma u128_limbs_eq_Nil: "u128_limbs c = [] \<longleftrightarrow> c = 0"
  by (subst u128_limbs.simps) (simp add: word_gt_0)

lemma mul_small_cur:
  assumes "unat l < 1000000000" and "unat carry \<le> 18446744073709551616"
  shows "unat (ucast (l :: u32) * ucast (m :: u64) + carry :: u128) = unat l * unat m + unat carry"
    and "(unat l * unat m + unat carry) div 1000000000 \<le> 18446744073709551616"
proof -
  have "unat l * unat m \<le> 999999999 * 18446744073709551615"
    using assms(1) u64_bound [of m] by (intro mult_le_mono) simp_all
  then have b: "unat l * unat m \<le> 18446744055262807541290448385" by simp
  then have p: "unat (ucast l * ucast m :: u128) = unat l * unat m"
    by (subst unat_mult128) simp_all
  show "unat (ucast l * ucast m + carry :: u128) = unat l * unat m + unat carry"
    using b p assms(2) by (subst unat_add128) simp_all
  have "unat l * unat m + unat carry \<le> 1000000000 * 18446744073709551616"
    using b assms(2) by simp
  then show "(unat l * unat m + unat carry) div 1000000000 \<le> 18446744073709551616"
    by (metis div_le_mono nonzero_mult_div_cancel_left zero_neq_numeral)
qed

lemma mul_small_limbs_spec:
  "limbs_ok ls \<Longrightarrow> unat carry \<le> 18446744073709551616 \<Longrightarrow>
     limbs_ok (mul_small_limbs ls m carry) \<and>
     limbs_val (mul_small_limbs ls m carry) = limbs_val ls * unat m + unat carry"
proof (induction ls m carry rule: mul_small_limbs.induct)
  case (1 m carry)
  then show ?case using u128_limbs_spec [of carry] by (simp add: carry128_eq)
next
  case (2 l ls m carry)
  let ?cur = "ucast l * ucast m + carry :: u128"
  from "2.prems" have l: "unat l < 1000000000" by simp
  note cur = mul_small_cur [OF l "2.prems"(2), of m]
  from "2.IH" [OF refl] "2.prems" cur
  have IH: "limbs_ok (mul_small_limbs ls m (?cur div 1000000000))"
    "limbs_val (mul_small_limbs ls m (?cur div 1000000000)) =
      limbs_val ls * unat m + (unat l * unat m + unat carry) div 1000000000"
    by simp_all
  have "limbs_val (mul_small_limbs (l # ls) m carry) =
      (unat l * unat m + unat carry) mod 1000000000 + 1000000000 *
      (limbs_val ls * unat m + (unat l * unat m + unat carry) div 1000000000)"
    by (simp add: Let_def IH(2) cur(1))
  also have "\<dots> = unat l * unat m + unat carry + 1000000000 * (limbs_val ls * unat m)"
    by (rule digit_step)
  finally show ?case
    using IH(1) by (simp add: Let_def distrib_right)
qed

lemma mul_small_limbs_eq_Nil: "mul_small_limbs ls m c = [] \<longleftrightarrow> ls = [] \<and> c = 0"
  by (cases ls) (simp_all add: carry128_eq u128_limbs_eq_Nil Let_def)

lemma mul_small_limbs_canonical:
  "limbs_ok ls \<Longrightarrow> canonical ls \<Longrightarrow> m \<noteq> 0 \<Longrightarrow> unat carry \<le> 18446744073709551616 \<Longrightarrow>
     canonical (mul_small_limbs ls m carry)"
proof (induction ls m carry rule: mul_small_limbs.induct)
  case (1 m carry)
  then show ?case using u128_limbs_spec [of carry] by (simp add: carry128_eq)
next
  case (2 l ls m carry)
  let ?cur = "ucast l * ucast m + carry :: u128"
  from "2.prems" have l: "unat l < 1000000000" by simp
  note cur = mul_small_cur [OF l "2.prems"(4), of m]
  have "canonical ls" using "2.prems"(2) by (auto simp: canonical_def split: if_splits)
  with "2.IH" [OF refl] "2.prems" cur
  have IH: "canonical (mul_small_limbs ls m (?cur div 1000000000))" by simp
  have nz: "ls = [] \<Longrightarrow> 0 < unat l * unat m + unat carry"
    using "2.prems"(2,3) by (simp add: canonical_Cons unat_gt_0)
  show ?case
    using IH nz
    by (auto simp: Let_def canonical_Cons mul_small_limbs_eq_Nil digit128_zero div128_zero cur(1))
qed

lemma biguint_mul_small_assign_val:
  assumes "limbs_ok (limbs a)"
  shows "bval (biguint_mul_small_assign a m) = bval a * unat m"
    and "limbs_ok (limbs (biguint_mul_small_assign a m))"
    and "canonical (limbs a) \<Longrightarrow> canonical (limbs (biguint_mul_small_assign a m))"
  using mul_small_limbs_spec [OF assms, of 0 m] mul_small_limbs_canonical [OF assms, of m 0] assms
  by (auto simp: biguint_mul_small_assign_def bval_def biguint_is_zero_def canonical_def)

lemma biguint_mul_small_assign_wf:
  "wf_big a \<Longrightarrow> wf_big (biguint_mul_small_assign a m)"
  by (simp add: wf_big_def biguint_mul_small_assign_val)

text \<open>Scaling by a power of ten\<close>

lemma unat_pow10: "k < 9 \<Longrightarrow> unat (10 ^ k :: u64) = 10 ^ k"
proof -
  assume "k < 9"
  then have "k \<in> {0, 1, 2, 3, 4, 5, 6, 7, 8}" by auto
  then show ?thesis by auto
qed

lemma biguint_mul_pow10_assign_val:
  assumes "wf_big a"
  shows "bval (biguint_mul_pow10_assign a k) = bval a * 10 ^ k"
    and "wf_big (biguint_mul_pow10_assign a k)"
proof -
  define r q where "r = k mod 9" and "q = k div 9"
  have k: "(10 :: nat) ^ k = 10 ^ r * 1000000000 ^ q"
  proof -
    have "k = r + 9 * q" by (simp add: r_def q_def)
    then have "(10 :: nat) ^ k = 10 ^ r * (10 ^ 9) ^ q"
      by (simp only: power_add power_mult)
    then show ?thesis by simp
  qed
  have k0: "k = 0 \<Longrightarrow> r = 0 \<and> q = 0" by (simp add: r_def q_def)
  define a1 where "a1 = (if 0 < r then biguint_mul_small_assign a (10 ^ r) else a)"
  have a1: "bval a1 = bval a * 10 ^ r" "wf_big a1"
    using assms biguint_mul_small_assign_val [of a "10 ^ r"] biguint_mul_small_assign_wf [of a "10 ^ r"]
    by (auto simp: a1_def wf_big_def unat_pow10 r_def)
  have eq: "biguint_mul_pow10_assign a k =
      (if biguint_is_zero a \<or> k = 0 then a
       else if 0 < q then a1\<lparr>limbs := replicate q 0 @ limbs a1\<rparr> else a1)"
    by (simp add: biguint_mul_pow10_assign_def a1_def r_def q_def Let_def)
  show "bval (biguint_mul_pow10_assign a k) = bval a * 10 ^ k"
    using wf_is_zero [OF assms] a1(1) k k0
    by (auto simp: eq) (simp_all add: bval_def limbs_val_append)
  have "limbs a1 \<noteq> []" if "\<not> biguint_is_zero a"
    using that a1 wf_is_zero [OF a1(2)] wf_is_zero [OF assms] by (auto simp: biguint_is_zero_def)
  then show "wf_big (biguint_mul_pow10_assign a k)"
    using assms a1(2) by (auto simp: eq wf_big_def canonical_def)
qed

text \<open>Division by a machine integer\<close>

lemma div_limbs_msf_spec:
  "div_limbs_msf ls d rem = (qs, r) \<Longrightarrow> limbs_ok ls \<Longrightarrow> unat rem < unat d \<Longrightarrow>
     length qs = length ls \<and> limbs_ok qs \<and> unat r < unat d \<and>
     limbs_val (rev qs) * unat d + unat r = unat rem * 1000000000 ^ length ls + limbs_val (rev ls)"
proof (induction ls arbitrary: rem qs)
  case Nil
  then show ?case by simp
next
  case (Cons l ls)
  define cur where "cur = rem * 1000000000 + (ucast l :: u64)"
  have l: "unat l < 1000000000" using Cons.prems(2) by simp
  have r: "unat rem + 1 \<le> unat d" "unat d < 4294967296"
    using Cons.prems(3) u32_bound [of d] by simp_all
  have p: "unat (rem * 1000000000) = unat rem * 1000000000"
    using r by (subst unat_mult64) simp_all
  have cur: "unat cur = unat rem * 1000000000 + unat l"
    using l r p unfolding cur_def by (subst unat_add64) simp_all
  have curd: "unat cur < 1000000000 * unat d"
    using l r(1) by (simp add: cur)
  let ?q = "ucast (cur div ucast d) :: u32"
  have dq: "unat (cur div ucast d) = unat cur div unat d"
    by (simp add: unat_div_distrib)
  have small: "unat cur div unat d < 1000000000"
    using curd Cons.prems(3) by (simp add: less_mult_imp_div_less)
  then have q: "unat ?q = unat cur div unat d"
    using dq by (subst unat_ucast_64_32) simp_all
  have m: "unat (cur mod ucast d) = unat cur mod unat d"
    by (simp add: unat_mod_distrib)
  obtain qs' where qs': "div_limbs_msf ls d (cur mod ucast d) = (qs', r)" "qs = ?q # qs'"
    using Cons.prems(1) by (auto simp: Let_def cur_def split: prod.splits)
  have "unat (cur mod ucast d) < unat d"
    using Cons.prems(3) by (simp add: m)
  with Cons.IH [OF qs'(1)] Cons.prems(2)
  have IH: "length qs' = length ls" "limbs_ok qs'" "unat r < unat d"
    "limbs_val (rev qs') * unat d + unat r =
       (unat cur mod unat d) * 1000000000 ^ length ls + limbs_val (rev ls)"
    by (simp_all add: m)
  have "limbs_val (rev qs) * unat d + unat r =
      limbs_val (rev qs') * unat d + unat r + 1000000000 ^ length ls * (unat cur div unat d * unat d)"
    by (simp add: qs'(2) limbs_val_append IH(1) q ring_distribs ac_simps)
  also have "\<dots> = 1000000000 ^ length ls * (unat cur mod unat d + unat cur div unat d * unat d)
      + limbs_val (rev ls)"
    unfolding IH(4) by (simp only: ring_distribs ac_simps)
  also have "\<dots> = 1000000000 ^ length ls * (unat rem * 1000000000 + unat l) + limbs_val (rev ls)"
    by (simp only: mod_div_mult_eq cur)
  finally show ?case
    using IH small q by (simp add: qs'(2) limbs_val_append distrib_left ac_simps)
qed

lemma biguint_div_rem_small_val:
  assumes "limbs_ok (limbs a)" and "d \<noteq> 0" and "biguint_div_rem_small a d = (q, r)"
  shows "bval q = bval a div unat d" and "unat r = bval a mod unat d" and "wf_big q"
proof -
  obtain qs rem where e: "div_limbs_msf (rev (limbs a)) d 0 = (qs, rem)" by force
  have d: "0 < unat d" using assms(2) by (simp add: unat_gt_0)
  with div_limbs_msf_spec [OF e] assms(1)
  have s: "limbs_ok qs" "unat rem < unat d" "limbs_val (rev qs) * unat d + unat rem = bval a"
    by (simp_all add: bval_def)
  have q: "q = biguint_normalize \<lparr>limbs = rev qs\<rparr>" and r: "r = ucast rem"
    using assms(3) e by (auto simp: biguint_div_rem_small_def)
  have rem: "unat r = unat rem"
    unfolding r using s(2) u32_bound [of d] by (subst unat_ucast_64_32) simp_all
  show "bval q = bval a div unat d"
    unfolding s(3) [symmetric] q using s(2) by (simp add: bval_def [of "\<lparr>limbs = rev qs\<rparr>"])
  show "unat r = bval a mod unat d"
    unfolding s(3) [symmetric] rem using s(2) by simp
  show "wf_big q" unfolding q using s(1) by (auto intro!: wf_normalize)
qed

lemma biguint_div_small_assign_val:
  assumes "limbs_ok (limbs a)" and "d \<noteq> 0"
  shows "bval (biguint_div_small_assign a d) = bval a div unat d"
    and "wf_big (biguint_div_small_assign a d)"
proof -
  obtain q r where e: "biguint_div_rem_small a d = (q, r)" by force
  then have "biguint_div_small_assign a d = q"
    by (auto simp: biguint_div_rem_small_def biguint_div_small_assign_def biguint_normalize_def
        split: prod.splits)
  with biguint_div_rem_small_val [OF assms e]
  show "bval (biguint_div_small_assign a d) = bval a div unat d"
    and "wf_big (biguint_div_small_assign a d)" by simp_all
qed

text \<open>Schoolbook multiplication\<close>

fun acc_val :: "u128 list \<Rightarrow> nat" where
  "acc_val [] = 0"
| "acc_val (v # vs) = unat v + 1000000000 * acc_val vs"

lemma acc_val_append:
  "acc_val (xs @ ys) = acc_val xs + 1000000000 ^ length xs * acc_val ys"
  by (induction xs) (simp_all add: ring_distribs ac_simps)

lemma acc_val_replicate0 [simp]: "acc_val (replicate n 0) = 0"
  by (induction n) simp_all

lemma acc_val_update:
  "k < length acc \<Longrightarrow> unat (acc ! k + x) = unat (acc ! k) + unat x \<Longrightarrow>
     acc_val (acc[k := acc ! k + x]) = acc_val acc + 1000000000 ^ k * unat x"
proof (induction acc arbitrary: k)
  case (Cons v vs)
  then show ?case by (cases k) (simp_all add: ring_distribs ac_simps)
qed simp

lemma limb_product:
  assumes "unat (a :: u32) < 1000000000" and "unat (b :: u32) < 1000000000"
  shows "unat (ucast a * ucast b :: u128) = unat a * unat b"
    and "unat a * unat b < 1000000000000000000"
proof -
  have "unat a * unat b < 1000000000 * 1000000000"
    using assms by (intro mult_strict_mono) simp_all
  then show "unat a * unat b < 1000000000000000000" by simp
  then show "unat (ucast a * ucast b :: u128) = unat a * unat b"
    by (subst unat_mult128) simp_all
qed

text \<open>
  One row adds to each accumulator at most once: those from \<open>k\<close> on are still bounded
  by \<open>M\<close>, the earlier ones by \<open>M + 10 ^ 18\<close>.
\<close>

lemma mul_row_spec:
  "k + length bs \<le> length acc \<Longrightarrow> unat a < 1000000000 \<Longrightarrow> limbs_ok bs \<Longrightarrow>
   M + 1000000000000000000 < 340282366920938463463374607431768211456 \<Longrightarrow>
   \<forall>i < length acc. unat (acc ! i) \<le> (if i < k then M + 1000000000000000000 else M) \<Longrightarrow>
     length (mul_row acc k a bs) = length acc \<and>
     acc_val (mul_row acc k a bs) = acc_val acc + 1000000000 ^ k * (unat a * limbs_val bs) \<and>
     (\<forall>i < length acc. unat (mul_row acc k a bs ! i) \<le> M + 1000000000000000000)"
proof (induction bs arbitrary: acc k)
  case Nil
  have "\<forall>i < length acc. unat (acc ! i) \<le> M + 1000000000000000000"
  proof (intro allI impI)
    fix i assume "i < length acc"
    with Nil.prems(5) show "unat (acc ! i) \<le> M + 1000000000000000000"
      by (cases "i < k") fastforce+
  qed
  then show ?case by simp
next
  case (Cons b bs)
  have b: "unat b < 1000000000" and k: "k < length acc"
    using Cons.prems(1,3) by simp_all
  note p = limb_product [OF Cons.prems(2) b]
  have "unat (acc ! k) \<le> M" using Cons.prems(5) k by fastforce
  then have le: "unat (acc ! k) + unat a * unat b \<le> M + 1000000000000000000"
    using p(2) by linarith
  then have s: "unat (acc ! k + ucast a * ucast b) = unat (acc ! k) + unat a * unat b"
    using p(1) Cons.prems(4) by (subst unat_add128) simp_all
  let ?acc = "acc[k := acc ! k + ucast a * ucast b]"
  have bd: "\<forall>i < length ?acc. unat (?acc ! i) \<le> (if i < Suc k then M + 1000000000000000000 else M)"
  proof (intro allI impI)
    fix i assume "i < length ?acc"
    then show "unat (?acc ! i) \<le> (if i < Suc k then M + 1000000000000000000 else M)"
      using Cons.prems(5) [rule_format, of i] s le
      by (cases "i = k") (auto simp: nth_list_update less_Suc_eq)
  qed
  have "acc_val ?acc = acc_val acc + 1000000000 ^ k * (unat a * unat b)"
    using acc_val_update [OF k] s p(1) by simp
  moreover from Cons.IH [OF _ Cons.prems(2) _ Cons.prems(4) bd] Cons.prems(1,3)
  have "length (mul_row ?acc (Suc k) a bs) = length acc \<and>
     acc_val (mul_row ?acc (Suc k) a bs) = acc_val ?acc + 1000000000 ^ Suc k * (unat a * limbs_val bs) \<and>
     (\<forall>i < length acc. unat (mul_row ?acc (Suc k) a bs ! i) \<le> M + 1000000000000000000)"
    by simp
  ultimately show ?case by (simp add: ring_distribs ac_simps)
qed

lemma mul_rows_spec:
  "i + length as + length bs \<le> length acc \<Longrightarrow> limbs_ok as \<Longrightarrow> limbs_ok bs \<Longrightarrow>
   M + length as * 1000000000000000000 < 340282366920938463463374607431768211456 \<Longrightarrow>
   \<forall>j < length acc. unat (acc ! j) \<le> M \<Longrightarrow>
     length (mul_rows acc i as bs) = length acc \<and>
     acc_val (mul_rows acc i as bs) = acc_val acc + 1000000000 ^ i * (limbs_val as * limbs_val bs) \<and>
     (\<forall>j < length acc. unat (mul_rows acc i as bs ! j) \<le> M + length as * 1000000000000000000)"
proof (induction as arbitrary: acc i M)
  case Nil
  then show ?case by simp
next
  case (Cons a as)
  have row: "length (mul_row acc i a bs) = length acc \<and>
     acc_val (mul_row acc i a bs) = acc_val acc + 1000000000 ^ i * (unat a * limbs_val bs) \<and>
     (\<forall>j < length acc. unat (mul_row acc i a bs ! j) \<le> M + 1000000000000000000)"
    by (rule mul_row_spec) (use Cons.prems in \<open>auto simp: le_SucI trans_le_add1\<close>)
  have "length (mul_rows (mul_row acc i a bs) (Suc i) as bs) = length (mul_row acc i a bs) \<and>
     acc_val (mul_rows (mul_row acc i a bs) (Suc i) as bs) =
       acc_val (mul_row acc i a bs) + 1000000000 ^ Suc i * (limbs_val as * limbs_val bs) \<and>
     (\<forall>j < length (mul_row acc i a bs). unat (mul_rows (mul_row acc i a bs) (Suc i) as bs ! j) \<le>
        (M + 1000000000000000000) + length as * 1000000000000000000)"
    by (rule Cons.IH) (use Cons.prems row in simp_all)
  with row show ?case by (simp add: ring_distribs ac_simps)
qed

lemma carry_acc_spec:
  "unat carry \<le> N \<Longrightarrow> 2 * N < 340282366920938463463374607431768211456 \<Longrightarrow>
   \<forall>v \<in> set vs. unat v \<le> N \<Longrightarrow>
     limbs_ok (carry_acc vs carry) \<and> limbs_val (carry_acc vs carry) = acc_val vs + unat carry"
proof (induction vs carry rule: carry_acc.induct)
  case (1 carry)
  then show ?case using u128_limbs_spec [of carry] by (simp add: carry128_eq)
next
  case (2 v vs carry)
  let ?cur = "v + carry"
  have v: "unat v \<le> N" using "2.prems"(3) by simp
  then have cur: "unat ?cur = unat v + unat carry"
    using "2.prems"(1,2) by (subst unat_add128) simp_all
  have "unat ?cur div 1000000000 \<le> N"
  proof -
    have "unat ?cur \<le> N * 1000000000" using v "2.prems"(1) cur by simp
    then show ?thesis by (metis div_le_mono nonzero_mult_div_cancel_right zero_neq_numeral)
  qed
  with "2.IH" [OF refl] "2.prems" have IH: "limbs_ok (carry_acc vs (?cur div 1000000000))"
    "limbs_val (carry_acc vs (?cur div 1000000000)) = acc_val vs + unat ?cur div 1000000000"
    by simp_all
  have "limbs_val (carry_acc (v # vs) carry) =
      unat ?cur mod 1000000000 + 1000000000 * (acc_val vs + unat ?cur div 1000000000)"
    by (simp add: Let_def IH(2))
  also have "\<dots> = unat ?cur + 1000000000 * acc_val vs" by (rule digit_step)
  finally show ?case using IH(1) cur by (simp add: Let_def)
qed

text \<open>
  The accumulators cannot overflow for any vector that fits a 64-bit address space.
\<close>

lemma biguint_mul_val:
  assumes "wf_big a" and "wf_big b" and "length (limbs a) < 18446744073709551616"
  shows "bval (biguint_mul a b) = bval a * bval b" and "wf_big (biguint_mul a b)"
proof -
  let ?n = "length (limbs a) + length (limbs b)"
  let ?acc = "mul_rows (replicate ?n 0) 0 (limbs a) (limbs b)"
  let ?N = "18446744073709551616000000000000000000 :: nat"
  have len: "length (limbs a) * 1000000000000000000 \<le> ?N"
    using assms(3) by simp
  have rows: "length ?acc = ?n \<and>
     acc_val ?acc = acc_val (replicate ?n 0) + 1000000000 ^ 0 * (limbs_val (limbs a) * limbs_val (limbs b)) \<and>
     (\<forall>j < ?n. unat (?acc ! j) \<le> 0 + length (limbs a) * 1000000000000000000)"
    using mul_rows_spec [of 0 "limbs a" "limbs b" "replicate ?n 0" 0] assms len
    by (simp add: wf_big_def)
  have "\<forall>v \<in> set ?acc. unat v \<le> ?N"
    using rows len by (fastforce simp: in_set_conv_nth intro: order_trans)
  from carry_acc_spec [OF _ _ this, of 0] rows
  have "limbs_ok (carry_acc ?acc 0)" "limbs_val (carry_acc ?acc 0) = bval a * bval b"
    by (simp_all add: bval_def)
  then show "bval (biguint_mul a b) = bval a * bval b" and "wf_big (biguint_mul a b)"
    using wf_is_zero [OF assms(1)] wf_is_zero [OF assms(2)]
    by (auto simp: biguint_mul_def) (simp add: bval_def)
qed

end
