(* ===== verification/BigUintText.thy ===== *)
theory BigUintText
  imports BigUint
begin

text \<open>
  \<^verbatim>\<open>storage.rs\<close>, \<^verbatim>\<open>impl BigUint\<close>: decimal rendering, the power-of-ten test, the
  digit count and the conversions to machine integers. The rendering is shown to
  be the standard decimal numeral of the value and to be read back by
  \<open>biguint_from_decimal_str\<close>; each conversion is characterised by the range of the
  value.
\<close>

section \<open>Operations\<close>

definition biguint_to_decimal_string :: "big_uint \<Rightarrow> string" where
  "biguint_to_decimal_string b =
     (if biguint_is_zero b then ''0''
      else case rev (limbs b) of
             [] \<Rightarrow> dec_string 0
           | l # it \<Rightarrow> dec_string (unat l) @ concat (map (\<lambda>x. dec_pad 9 (unat x)) it))"

definition pow10_exp :: "u32 \<Rightarrow> u32 option" where
  "pow10_exp l =
     (if l = 1 then Some 0 else if l = 10 then Some 1 else if l = 100 then Some 2
      else if l = 1000 then Some 3 else if l = 10000 then Some 4
      else if l = 100000 then Some 5 else if l = 1000000 then Some 6
      else if l = 10000000 then Some 7 else if l = 100000000 then Some 8 else None)"

fun as_pow10_loop :: "u32 list \<Rightarrow> u32 \<Rightarrow> bool \<Rightarrow> u32 option" where
  "as_pow10_loop [] k seen = (if seen then Some k else None)"
| "as_pow10_loop (l # ls) k seen =
     (if l = 0 then as_pow10_loop ls (k + 9) seen
      else if seen then None
      else case pow10_exp l of
             None \<Rightarrow> None
           | Some e \<Rightarrow> as_pow10_loop ls (k + e) True)"

definition biguint_as_pow10 :: "big_uint \<Rightarrow> u32 option" where
  "biguint_as_pow10 b = as_pow10_loop (limbs b) 0 False"

fun horner_u64 :: "u32 list \<Rightarrow> u64 \<Rightarrow> u64 option" where
  "horner_u64 [] v = Some v"
| "horner_u64 (l # ls) v =
     (case checked_mul v 1000000000 of
        None \<Rightarrow> None
      | Some p \<Rightarrow> (case checked_add p (ucast l) of
                    None \<Rightarrow> None
                  | Some s \<Rightarrow> horner_u64 ls s))"

definition biguint_to_u64 :: "big_uint \<Rightarrow> u64 option" where
  "biguint_to_u64 b = horner_u64 (rev (limbs b)) 0"

fun horner_u128 :: "u32 list \<Rightarrow> u128 \<Rightarrow> u128 option" where
  "horner_u128 [] v = Some v"
| "horner_u128 (l # ls) v =
     (case checked_mul v 1000000000 of
        None \<Rightarrow> None
      | Some p \<Rightarrow> (case checked_add p (ucast l) of
                    None \<Rightarrow> None
                  | Some s \<Rightarrow> horner_u128 ls s))"

definition biguint_to_u128 :: "big_uint \<Rightarrow> u128 option" where
  "biguint_to_u128 b = horner_u128 (rev (limbs b)) 0"

text \<open>\<^verbatim>\<open>i128::checked_mul\<close> and \<^verbatim>\<open>i128::checked_add\<close>: the exact result when it is in range.\<close>

definition i128_range :: "int \<Rightarrow> int option" where
  "i128_range n =
     (if - 170141183460469231731687303715884105728 \<le> n \<and>
         n \<le> 170141183460469231731687303715884105727 then Some n else None)"

fun horner_i128 :: "u32 list \<Rightarrow> int \<Rightarrow> int option" where
  "horner_i128 [] v = Some v"
| "horner_i128 (l # ls) v =
     (case i128_range (v * 1000000000) of
        None \<Rightarrow> None
      | Some p \<Rightarrow> (case i128_range (p + uint l) of
                    None \<Rightarrow> None
                  | Some s \<Rightarrow> horner_i128 ls s))"

definition biguint_to_i128 :: "big_uint \<Rightarrow> int option" where
  "biguint_to_i128 b = horner_i128 (rev (limbs b)) 0"

definition biguint_to_u32 :: "big_uint \<Rightarrow> u32 option" where
  "biguint_to_u32 b =
     (if limbs b = [] then Some 0
      else if 1 < length (limbs b) then None
      else Some (limbs b ! 0))"

fun top_index :: "u32 list \<Rightarrow> nat \<Rightarrow> nat option \<Rightarrow> nat option" where
  "top_index [] i found = found"
| "top_index (l # ls) i found = top_index ls (Suc i) (if l \<noteq> 0 then Some i else found)"

function count_digits :: "u32 \<Rightarrow> u32 \<Rightarrow> u32" where
  "count_digits t d = (if 0 < t then count_digits (t div 10) (d + 1) else d)"
  by pat_completeness auto
termination
  by (relation "measure (\<lambda>(t, d). unat t)") (auto simp: word_less_nat_alt unat_div_distrib)

declare count_digits.simps [simp del]

definition biguint_decimal_digits :: "big_uint \<Rightarrow> u32" where
  "biguint_decimal_digits b =
     (case top_index (limbs b) 0 None of
        None \<Rightarrow> 0
      | Some i \<Rightarrow> count_digits (limbs b ! i) 0 + 9 * of_nat i)"

section \<open>Decimal numerals\<close>

text \<open>The value a string of digits denotes.\<close>

definition digit_val :: "char \<Rightarrow> nat" where
  "digit_val c = of_char c - 48"

definition is_digit :: "char \<Rightarrow> bool" where
  "is_digit c \<longleftrightarrow> 48 \<le> (of_char c :: nat) \<and> (of_char c :: nat) \<le> 57"

fun dec_val :: "string \<Rightarrow> nat" where
  "dec_val [] = 0"
| "dec_val (c # cs) = digit_val c * 10 ^ length cs + dec_val cs"

lemma dec_val_append: "dec_val (xs @ ys) = dec_val xs * 10 ^ length ys + dec_val ys"
  by (induction xs) (simp_all add: ring_distribs power_add)

lemma digit_char: "n < 10 \<Longrightarrow> digit_val (char_of (48 + n)) = n \<and> is_digit (char_of (48 + n))"
  by (simp add: digit_val_def is_digit_def)

lemma char_0 [simp]: "char_of (48 :: nat) = CHR ''0''"
  by (simp add: char_of_def bit_iff_odd)

lemma dec_string_small: "n < 10 \<Longrightarrow> dec_string n = [char_of (48 + n)]"
  by (simp add: dec_string.simps [of n])

lemma dec_string_step: "10 \<le> n \<Longrightarrow> dec_string n = dec_string (n div 10) @ [char_of (48 + n mod 10)]"
  by (simp add: dec_string.simps [of n])

lemma dec_val_dec_string [simp]: "dec_val (dec_string n) = n"
proof (induction n rule: dec_string.induct)
  case (1 n)
  then show ?case
    by (cases "n < 10") (simp_all add: dec_string_small dec_string_step dec_val_append digit_char)
qed

lemma digits_dec_string [simp]: "list_all is_digit (dec_string n)"
proof (induction n rule: dec_string.induct)
  case (1 n)
  then show ?case
    by (cases "n < 10") (simp_all add: dec_string_small dec_string_step digit_char)
qed

lemma dec_string_nonempty [simp]: "dec_string n \<noteq> []"
  by (simp add: dec_string.simps [of n])

lemma dec_pad_step:
  assumes "0 < k" and "lo < 10 ^ Suc k"
  shows "dec_pad (Suc k) lo = dec_pad k (lo div 10) @ [char_of (48 + lo mod 10)]"
proof (cases "lo < 10")
  case True
  then have "replicate k (CHR ''0'') = replicate (k - 1) (CHR ''0'') @ [CHR ''0'']"
    using assms(1) by (metis Suc_diff_1 replicate_Suc replicate_append_same)
  moreover have "dec_string 0 = [CHR ''0'']" by (simp add: dec_string_small)
  ultimately show ?thesis using True by (simp add: dec_pad_def dec_string_small)
next
  case False
  then show ?thesis by (simp add: dec_pad_def dec_string_step)
qed

lemma dec_string_split:
  "0 < hi \<Longrightarrow> lo < 10 ^ Suc k \<Longrightarrow>
     dec_string (hi * 10 ^ Suc k + lo) = dec_string hi @ dec_pad (Suc k) lo"
proof (induction k arbitrary: lo)
  case 0
  then show ?case by (simp add: dec_string_step [of "hi * 10 + lo"] dec_pad_def dec_string_small)
next
  case (Suc k)
  have d: "(hi * 10 ^ Suc (Suc k) + lo) div 10 = hi * 10 ^ Suc k + lo div 10"
    and m: "(hi * 10 ^ Suc (Suc k) + lo) mod 10 = lo mod 10"
  proof -
    have e: "hi * 10 ^ Suc (Suc k) + lo = lo + 10 * (hi * 10 ^ Suc k)" by simp
    show "(hi * 10 ^ Suc (Suc k) + lo) div 10 = hi * 10 ^ Suc k + lo div 10"
      and "(hi * 10 ^ Suc (Suc k) + lo) mod 10 = lo mod 10"
      unfolding e by (simp_all del: power_Suc)
  qed
  have ge: "10 \<le> hi * 10 ^ Suc (Suc k) + lo"
    using Suc.prems(1) by (simp add: trans_le_add1)
  have "lo div 10 < 10 ^ Suc k" using Suc.prems(2) by (simp add: less_mult_imp_div_less)
  from Suc.IH [OF Suc.prems(1) this] show ?case
    unfolding dec_string_step [OF ge] d m dec_pad_step [OF zero_less_Suc Suc.prems(2)] by simp
qed

section \<open>Rendering and parsing\<close>

lemma rendered_limbs:
  "ls \<noteq> [] \<Longrightarrow> limbs_ok ls \<Longrightarrow> last ls \<noteq> 0 \<Longrightarrow>
     (case rev ls of [] \<Rightarrow> dec_string 0
      | l # it \<Rightarrow> dec_string (unat l) @ concat (map (\<lambda>x. dec_pad 9 (unat x)) it)) =
     dec_string (limbs_val ls)"
proof (induction ls)
  case Nil
  then show ?case by simp
next
  case (Cons l ls)
  show ?case
  proof (cases "ls = []")
    case True
    then show ?thesis by simp
  next
    case False
    then obtain t it where t: "rev ls = t # it" by (cases "rev ls") auto
    have can: "canonical ls" using Cons.prems(3) False by (simp add: canonical_def)
    from canonical_lower [OF this False] have pos: "0 < limbs_val ls"
      by (rule less_le_trans [rotated]) simp
    have lo: "unat l < 10 ^ Suc 8" using Cons.prems(2) by simp
    have "dec_string (limbs_val (l # ls)) = dec_string (limbs_val ls * 10 ^ Suc 8 + unat l)"
      by (simp add: ac_simps)
    also have "\<dots> = dec_string (limbs_val ls) @ dec_pad 9 (unat l)"
      unfolding dec_string_split [OF pos lo] by simp
    finally show ?thesis
      using Cons.IH Cons.prems False t by simp
  qed
qed

lemma biguint_to_decimal_string_val:
  assumes "wf_big b"
  shows "biguint_to_decimal_string b = dec_string (bval b)"
proof (cases "limbs b = []")
  case True
  then show ?thesis
    by (simp add: biguint_to_decimal_string_def biguint_is_zero_def bval_def dec_string_small)
next
  case False
  with assms rendered_limbs [of "limbs b"] show ?thesis
    by (simp add: biguint_to_decimal_string_def biguint_is_zero_def wf_big_def canonical_def bval_def)
qed

lemma chunk_val_spec:
  "list_all is_digit cs \<Longrightarrow> length cs + k \<le> 9 \<Longrightarrow> unat v < 10 ^ k \<Longrightarrow>
     unat (chunk_val cs v) = unat v * 10 ^ length cs + dec_val cs \<and>
     unat (chunk_val cs v) < 10 ^ (length cs + k)"
proof (induction cs arbitrary: v k)
  case Nil
  then show ?case by simp
next
  case (Cons c cs)
  have c: "digit_val c \<le> 9" "unat ((of_char c :: u8) - 48) = digit_val c"
  proof -
    have b: "48 \<le> (of_char c :: nat)" "(of_char c :: nat) \<le> 57"
      using Cons.prems(1) by (auto simp: is_digit_def)
    have u: "unat (of_char c :: u8) = of_char c"
    proof -
      have "unat (of_nat (of_char c) :: u8) = (of_char c :: nat) mod 2 ^ LENGTH(8)"
        by (rule unat_of_nat)
      then show ?thesis using b by (simp only: of_nat_of_char) simp
    qed
    show "digit_val c \<le> 9" using b by (simp add: digit_val_def)
    show "unat ((of_char c :: u8) - 48) = digit_val c"
      using b u by (subst unat_sub_le) (simp_all add: digit_val_def)
  qed
  define w where "w = v * 10 + ucast ((of_char c :: u8) - 48)"
  have k: "k \<le> 8" using Cons.prems(2) by simp
  have "(10 :: nat) ^ k \<le> 10 ^ 8" using k by (intro power_increasing) simp_all
  with Cons.prems(3) have v: "unat v < 100000000" by simp
  have p: "unat (v * 10) = unat v * 10"
    using v unat_mult_lem [of v 10] by simp
  have w: "unat w = unat v * 10 + digit_val c"
    using p v c unat_add_lem [of "v * 10" "ucast ((of_char c :: u8) - 48)"] by (simp add: w_def)
  have "unat w < 10 ^ Suc k" using Cons.prems(3) c(1) by (simp add: w)
  moreover have "length cs + Suc k \<le> 9" using Cons.prems(2) by simp
  ultimately have "unat (chunk_val cs w) = unat w * 10 ^ length cs + dec_val cs \<and>
     unat (chunk_val cs w) < 10 ^ (length cs + Suc k)"
    using Cons.IH [of "Suc k" w] Cons.prems(1) by simp
  then show ?case by (simp add: w_def [symmetric] w ring_distribs ac_simps)
qed

lemma decimal_limbs_spec:
  "list_all is_digit bytes \<Longrightarrow> e \<le> length bytes \<Longrightarrow>
     limbs_ok (decimal_limbs bytes e) \<and> limbs_val (decimal_limbs bytes e) = dec_val (take e bytes)"
proof (induction bytes e rule: decimal_limbs.induct)
  case (1 bytes e)
  show ?case
  proof (cases "0 < e")
    case True
    define cs where "cs = take (e - (e - 9)) (drop (e - 9) bytes)"
    have cs: "list_all is_digit cs" "length cs \<le> 9"
      using "1.prems" by (auto simp: cs_def list_all_iff dest: in_set_takeD in_set_dropD)
    have "take e bytes = take (e - 9) bytes @ cs"
      unfolding cs_def by (metis diff_le_self le_add_diff_inverse take_add)
    then have tk: "dec_val (take e bytes) = dec_val (take (e - 9) bytes) * 10 ^ length cs + dec_val cs"
      by (simp add: dec_val_append)
    have len: "length cs = 9 \<or> e - 9 = 0" using "1.prems"(2) by (auto simp: cs_def)
    have chunk: "unat (chunk_val cs 0) = dec_val cs" "unat (chunk_val cs 0) < 1000000000"
      using chunk_val_spec [OF cs(1), of 0 0] cs(2)
        power_increasing [OF cs(2), of "10 :: nat"] by auto
    have "limbs_ok (decimal_limbs bytes (e - 9)) \<and>
        limbs_val (decimal_limbs bytes (e - 9)) = dec_val (take (e - 9) bytes)"
      using "1.IH" [OF True refl] "1.prems" by simp
    with chunk tk len show ?thesis
      by (subst (1 2) decimal_limbs.simps) (auto simp: True Let_def cs_def [symmetric] simp del: decimal_limbs.simps)
  next
    case False
    then show ?thesis by (simp add: decimal_limbs.simps)
  qed
qed

lemma biguint_from_decimal_str_val:
  assumes "list_all is_digit s"
  shows "bval (biguint_from_decimal_str s) = dec_val s" and "wf_big (biguint_from_decimal_str s)"
  using decimal_limbs_spec [OF assms, of "length s"]
  by (auto simp: biguint_from_decimal_str_def intro!: wf_normalize) (simp add: bval_def)

lemma biguint_decimal_roundtrip:
  "wf_big b \<Longrightarrow> biguint_from_decimal_str (biguint_to_decimal_string b) = b"
  by (rule wf_big_inj) (simp_all add: biguint_to_decimal_string_val biguint_from_decimal_str_val)

section \<open>Conversions to machine integers\<close>

lemma horner_u64_spec:
  "horner_u64 ls v =
     (let n = unat v * 1000000000 ^ length ls + limbs_val (rev ls)
      in if n < 2 ^ 64 then Some (of_nat n) else None)"
proof (induction ls arbitrary: v)
  case Nil
  then show ?case using u64_bound [of v] by simp
next
  case (Cons l ls)
  define n where "n = unat v * 1000000000 ^ length (l # ls) + limbs_val (rev (l # ls))"
  have n: "n = (unat v * 1000000000 + unat l) * 1000000000 ^ length ls + limbs_val (rev ls)"
    by (simp add: n_def limbs_val_append ring_distribs ac_simps)
  have ge: "unat v * 1000000000 + unat l \<le> n"
    unfolding n by (rule trans_le_add1) simp
  have none: "n < 2 ^ 64 \<Longrightarrow> unat v * 1000000000 + unat l < 2 ^ 64"
    using ge by linarith
  show ?case
  proof (cases "unat v * 1000000000 + unat l < 2 ^ 64")
    case True
    define s where "s = v * 1000000000 + ucast l"
    have p: "checked_mul v 1000000000 = Some (v * 1000000000)"
      and pu: "unat (v * 1000000000) = unat v * 1000000000"
      using True by (simp_all add: checked_mul_def unat_mult64)
    have a: "checked_add (v * 1000000000) (ucast l) = Some s"
      and su: "unat s = unat v * 1000000000 + unat l"
      using True pu by (simp_all add: checked_add_def s_def unat_add64)
    have "horner_u64 (l # ls) v = horner_u64 ls s" by (simp add: p a)
    then show ?thesis
      unfolding Cons.IH su n_def [symmetric] by (simp only: n)
  next
    case False
    then have "horner_u64 (l # ls) v = None"
      by (auto simp: checked_mul_Some_iff checked_add_Some_iff split: option.split)
    with False none show ?thesis
      unfolding n_def [symmetric] by (auto simp: Let_def)
  qed
qed

lemma horner_u128_spec:
  "horner_u128 ls v =
     (let n = unat v * 1000000000 ^ length ls + limbs_val (rev ls)
      in if n < 2 ^ 128 then Some (of_nat n) else None)"
proof (induction ls arbitrary: v)
  case Nil
  then show ?case using unat_lt [of v] by simp
next
  case (Cons l ls)
  define n where "n = unat v * 1000000000 ^ length (l # ls) + limbs_val (rev (l # ls))"
  have n: "n = (unat v * 1000000000 + unat l) * 1000000000 ^ length ls + limbs_val (rev ls)"
    by (simp add: n_def limbs_val_append ring_distribs ac_simps)
  have ge: "unat v * 1000000000 + unat l \<le> n"
    unfolding n by (rule trans_le_add1) simp
  have none: "n < 2 ^ 128 \<Longrightarrow> unat v * 1000000000 + unat l < 2 ^ 128"
    using ge by linarith
  show ?case
  proof (cases "unat v * 1000000000 + unat l < 2 ^ 128")
    case True
    define s where "s = v * 1000000000 + ucast l"
    have p: "checked_mul v 1000000000 = Some (v * 1000000000)"
      and pu: "unat (v * 1000000000) = unat v * 1000000000"
      using True by (simp_all add: checked_mul_def unat_mult128)
    have a: "checked_add (v * 1000000000) (ucast l) = Some s"
      and su: "unat s = unat v * 1000000000 + unat l"
      using True pu by (simp_all add: checked_add_def s_def unat_add128)
    have "horner_u128 (l # ls) v = horner_u128 ls s" by (simp add: p a)
    then show ?thesis
      unfolding Cons.IH su n_def [symmetric] by (simp only: n)
  next
    case False
    then have "horner_u128 (l # ls) v = None"
      by (auto simp: checked_mul_Some_iff checked_add_Some_iff split: option.split)
    with False none show ?thesis
      unfolding n_def [symmetric] by (auto simp: Let_def)
  qed
qed

lemma horner_i128_spec:
  "0 \<le> v \<Longrightarrow> v < 2 ^ 127 \<Longrightarrow> horner_i128 ls v =
     (let n = v * 1000000000 ^ length ls + int (limbs_val (rev ls))
      in if n < 2 ^ 127 then Some n else None)"
proof (induction ls arbitrary: v)
  case Nil
  then show ?case by simp
next
  case (Cons l ls)
  define n where "n = v * 1000000000 ^ length (l # ls) + int (limbs_val (rev (l # ls)))"
  have n: "n = (v * 1000000000 + uint l) * 1000000000 ^ length ls + int (limbs_val (rev ls))"
    by (simp add: n_def limbs_val_append ring_distribs ac_simps)
  have s0: "0 \<le> v * 1000000000 + uint l" using Cons.prems(1) by simp
  then have "(v * 1000000000 + uint l) * 1 \<le> (v * 1000000000 + uint l) * 1000000000 ^ length ls"
    by (intro mult_left_mono) simp_all
  then have ge: "v * 1000000000 + uint l \<le> n" unfolding n by simp
  show ?case
  proof (cases "v * 1000000000 + uint l < 2 ^ 127")
    case True
    have u: "0 \<le> uint l" by simp
    have t: "v * 1000000000 + uint l \<le> 170141183460469231731687303715884105727"
      using True by simp
    have "- 170141183460469231731687303715884105728 \<le> v * 1000000000"
      and "v * 1000000000 \<le> 170141183460469231731687303715884105727"
      and "- 170141183460469231731687303715884105728 \<le> v * 1000000000 + uint l"
      using u t Cons.prems(1) by linarith+
    with t have "i128_range (v * 1000000000) = Some (v * 1000000000)"
      and "i128_range (v * 1000000000 + uint l) = Some (v * 1000000000 + uint l)"
      by (simp_all only: i128_range_def if_True simp_thms)
    then have "horner_i128 (l # ls) v = horner_i128 ls (v * 1000000000 + uint l)"
      by simp
    also have "\<dots> = (if n < 2 ^ 127 then Some n else None)"
      unfolding Cons.IH [OF s0 True] n by (simp add: Let_def)
    finally show ?thesis unfolding n_def by (simp add: Let_def)
  next
    case False
    then have "horner_i128 (l # ls) v = None"
      by (auto simp: i128_range_def split: option.split)
    with False ge show ?thesis
      unfolding n_def [symmetric] by (auto simp: Let_def)
  qed
qed

lemma biguint_to_u64_val:
  "biguint_to_u64 b = (if bval b < 2 ^ 64 then Some (of_nat (bval b)) else None)"
  by (simp add: biguint_to_u64_def horner_u64_spec bval_def Let_def)

lemma biguint_to_u128_val:
  "biguint_to_u128 b = (if bval b < 2 ^ 128 then Some (of_nat (bval b)) else None)"
  by (simp add: biguint_to_u128_def horner_u128_spec bval_def Let_def)

lemma biguint_to_i128_val:
  "biguint_to_i128 b = (if bval b < 2 ^ 127 then Some (int (bval b)) else None)"
proof -
  have "(int (limbs_val (limbs b)) < 2 ^ 127) = (limbs_val (limbs b) < 2 ^ 127)"
    by (metis of_nat_less_iff of_nat_numeral of_nat_power)
  then show ?thesis
    by (simp add: biguint_to_i128_def horner_i128_spec bval_def Let_def)
qed

text \<open>
  \<^verbatim>\<open>to_u32\<close> answers for a single limb only: a value from \<open>10 ^ 9\<close> to \<open>2 ^ 32 - 1\<close>
  fits a \<^verbatim>\<open>u32\<close> and is still refused.
\<close>

lemma biguint_to_u32_val:
  assumes "wf_big b"
  shows "biguint_to_u32 b = (if bval b < 1000000000 then Some (of_nat (bval b)) else None)"
proof (cases "limbs b")
  case Nil
  then show ?thesis by (simp add: biguint_to_u32_def bval_def)
next
  case (Cons l ls)
  show ?thesis
  proof (cases "ls = []")
    case True
    with Cons assms show ?thesis
      by (simp add: biguint_to_u32_def bval_def wf_big_def)
  next
    case False
    have "1000000000 ^ (length (limbs b) - Suc 0) \<le> bval b"
      using assms Cons unfolding wf_big_def bval_def by (intro canonical_lower) simp_all
    moreover have "(1000000000 :: nat) ^ 1 \<le> 1000000000 ^ (length (limbs b) - Suc 0)"
      using Cons False by (intro power_increasing) (cases ls; simp)+
    ultimately have "1000000000 \<le> bval b" by simp
    with Cons False show ?thesis by (simp add: biguint_to_u32_def)
  qed
qed

section \<open>Digit count\<close>

lemma count_digits_spec:
  "0 < unat t \<Longrightarrow> unat t < 10 ^ k \<Longrightarrow> unat d + k < 2 ^ 32 \<Longrightarrow>
     unat (count_digits t d) = unat d + length (dec_string (unat t))"
proof (induction t d arbitrary: k rule: count_digits.induct)
  case (1 t d)
  have pos: "0 < t" using "1.prems"(1) by (simp add: word_less_nat_alt)
  obtain j where k: "k = Suc j" using "1.prems"(1,2) by (cases k) auto
  have d1: "unat (d + 1) = unat d + 1"
    using "1.prems"(3) k unat_add_lem [of d 1] by simp
  have t10: "unat (t div 10) = unat t div 10" by (simp add: unat_div_distrib)
  have step: "count_digits t d = count_digits (t div 10) (d + 1)"
    using pos by (simp add: count_digits.simps [of t d])
  show ?case
  proof (cases "unat t < 10")
    case True
    then have "t div 10 = 0" using t10 by (metis div_less unat_eq_zero)
    then have "count_digits (t div 10) (d + 1) = d + 1"
      by (simp add: count_digits.simps [of 0])
    with step True d1 show ?thesis by (simp add: dec_string_small)
  next
    case False
    have "unat (count_digits (t div 10) (d + 1)) = unat (d + 1) + length (dec_string (unat (t div 10)))"
      using "1.IH" [OF pos, of j] False "1.prems" k d1 t10 by (simp add: less_mult_imp_div_less)
    with step d1 t10 False show ?thesis by (simp add: dec_string_step [of "unat t"])
  qed
qed

lemma top_index_append:
  "top_index (xs @ ys) i found = top_index ys (i + length xs) (top_index xs i found)"
  by (induction xs arbitrary: i found) simp_all

lemma top_index_last: "ls \<noteq> [] \<Longrightarrow> last ls \<noteq> 0 \<Longrightarrow> top_index ls 0 None = Some (length ls - 1)"
  using top_index_append [of "butlast ls" "[last ls]" 0 None] by simp

lemma length_dec_pad: "n < 10 ^ w \<Longrightarrow> 0 < w \<Longrightarrow> length (dec_pad w n) = w"
proof -
  have "n < 10 ^ Suc k \<Longrightarrow> length (dec_string n) \<le> Suc k" for k
  proof (induction k arbitrary: n)
    case 0
    then show ?case by (simp add: dec_string_small)
  next
    case (Suc k)
    then have "n div 10 < 10 ^ Suc k" by (simp add: less_mult_imp_div_less)
    with Suc.IH show ?case
      by (cases "n < 10") (simp_all add: dec_string_small dec_string_step)
  qed
  then show "n < 10 ^ w \<Longrightarrow> 0 < w \<Longrightarrow> length (dec_pad w n) = w"
    by (cases w) (simp_all add: dec_pad_def)
qed

lemma length_padded:
  "limbs_ok ls \<Longrightarrow> length (concat (map (\<lambda>x. dec_pad 9 (unat x)) ls)) = 9 * length ls"
  by (induction ls) (simp_all add: length_dec_pad)

lemma biguint_decimal_digits_val:
  assumes "wf_big b" and "length (limbs b) < 400000000"
  shows "unat (biguint_decimal_digits b) = (if bval b = 0 then 0 else length (dec_string (bval b)))"
proof (cases "limbs b = []")
  case True
  then show ?thesis by (simp add: biguint_decimal_digits_def bval_def)
next
  case False
  let ?ls = "limbs b" and ?top = "last (limbs b)"
  have top: "?top \<noteq> 0" "limbs_ok ?ls" using assms(1) False by (simp_all add: wf_big_def canonical_def)
  have ls: "?ls = butlast ?ls @ [?top]" using False by simp
  have ok: "limbs_ok (butlast ?ls)" "unat ?top < 1000000000"
    using top(2) by (subst (asm) ls, simp)+
  have pos: "0 < bval b"
    using wf_is_zero [OF assms(1)] False by (simp add: biguint_is_zero_def)
  have "rev ?ls = ?top # rev (butlast ?ls)" by (subst ls) simp
  with rendered_limbs [OF False top(2,1)]
  have dec: "dec_string (bval b) =
      dec_string (unat ?top) @ concat (map (\<lambda>x. dec_pad 9 (unat x)) (rev (butlast ?ls)))"
    by (simp add: bval_def)
  have len: "length (dec_string (bval b)) = length (dec_string (unat ?top)) + 9 * (length ?ls - 1)"
    unfolding dec using length_padded [of "rev (butlast ?ls)"] ok(1) by simp
  have c: "unat (count_digits ?top 0) = length (dec_string (unat ?top))"
    using count_digits_spec [of ?top 9 0] top(1) ok(2) by (simp add: unat_gt_0)
  have le: "length (dec_string (unat ?top)) \<le> 9"
    using length_dec_pad [of "unat ?top" 9] ok(2) by (simp add: dec_pad_def)
  have n: "unat (9 * of_nat (length ?ls - 1) :: u32) = 9 * (length ?ls - 1)"
  proof -
    have "(9 * of_nat (length ?ls - 1) :: u32) = of_nat (9 * (length ?ls - 1))"
      by (simp only: of_nat_mult of_nat_numeral)
    then show ?thesis using assms(2) by (simp only: unat_of_nat) simp
  qed
  have "length (dec_string (unat ?top)) + 9 * (length ?ls - 1) < 4294967296"
    using le assms(2) by linarith
  then have "unat (count_digits ?top 0 + 9 * of_nat (length ?ls - 1)) =
      length (dec_string (unat ?top)) + 9 * (length ?ls - 1)"
    using c n unat_add_lem [of "count_digits ?top 0" "9 * of_nat (length ?ls - 1) :: u32"] by simp
  then have "unat (biguint_decimal_digits b) = length (dec_string (unat ?top)) + 9 * (length ?ls - 1)"
    using top_index_last [OF False top(1)] False
    by (simp add: biguint_decimal_digits_def last_conv_nth)
  with len pos show ?thesis by simp
qed

section \<open>Powers of ten\<close>

lemma pow10_exp_iff: "pow10_exp l = Some e \<longleftrightarrow> unat e < 9 \<and> unat l = 10 ^ unat e"
proof
  show "pow10_exp l = Some e \<Longrightarrow> unat e < 9 \<and> unat l = 10 ^ unat e"
    by (auto simp: pow10_exp_def split: if_splits)
  assume r: "unat e < 9 \<and> unat l = 10 ^ unat e"
  then have "unat e \<in> {0, 1, 2, 3, 4, 5, 6, 7, 8}" by auto
  moreover have "e = of_nat (unat e)" "l = of_nat (10 ^ unat e)"
    using conjunct2 [OF r, symmetric] by simp_all
  ultimately show "pow10_exp l = Some e"
    by (elim insertE emptyE) (simp_all add: pow10_exp_def)
qed

lemma as_pow10_loop_seen: "as_pow10_loop ls k True = Some e \<Longrightarrow> limbs_val ls = 0"
  by (induction ls arbitrary: k) (simp_all split: if_splits)

lemma limb_power_ten:
  assumes "0 < l" and "l < 1000000000" and "l + 1000000000 * x = (10 :: nat) ^ j"
  shows "x = 0 \<and> j < 9"
proof (cases "j < 9")
  case True
  then have "(10 :: nat) ^ j \<le> 10 ^ 8" by (intro power_increasing) simp_all
  then have "1000000000 * x < 1000000000 * 1" using assms by simp
  with True show ?thesis by simp
next
  case False
  then have "(10 :: nat) ^ j = 10 ^ 9 * 10 ^ (j - 9)"
    by (metis le_add_diff_inverse not_less power_add)
  then have "(l + 1000000000 * x) mod 1000000000 = 0"
    using assms(3) by simp
  with assms(1,2) show ?thesis by simp
qed

lemma zero_limb_power_ten:
  "1000000000 * x = (10 :: nat) ^ j \<longleftrightarrow> 9 \<le> j \<and> x = 10 ^ (j - 9)"
proof (cases "9 \<le> j")
  case True
  then have "(10 :: nat) ^ j = 1000000000 * 10 ^ (j - 9)"
    using power_add [of "10 :: nat" 9 "j - 9"] by simp
  with True show ?thesis by simp
next
  case False
  then have "(10 :: nat) ^ j \<le> 10 ^ 8" by (intro power_increasing) simp_all
  moreover have "(0 :: nat) < 10 ^ j" by simp
  ultimately have "1000000000 * x \<noteq> 10 ^ j"
    by (cases x) auto
  with False show ?thesis by simp
qed

lemma as_pow10_loop_spec:
  "limbs_ok ls \<Longrightarrow> canonical ls \<Longrightarrow> unat k + 9 * length ls < 4294967296 \<Longrightarrow>
     as_pow10_loop ls k False = Some e \<longleftrightarrow>
     (\<exists>j. limbs_val ls = 10 ^ j \<and> unat e = unat k + j)"
proof (induction ls arbitrary: k)
  case Nil
  then show ?case by simp
next
  case (Cons l ls)
  show ?case
  proof (cases "l = 0")
    case True
    have k9: "unat (k + 9) = unat k + 9"
      using Cons.prems(3) unat_add_lem [of k 9] by simp
    have "canonical ls" using Cons.prems(2) by (auto simp: canonical_def split: if_splits)
    with Cons.IH [of "k + 9"] Cons.prems(1,3) k9
    have "as_pow10_loop (l # ls) k False = Some e \<longleftrightarrow>
        (\<exists>j. limbs_val ls = 10 ^ j \<and> unat e = unat k + 9 + j)"
      using True by simp
    also have "\<dots> \<longleftrightarrow> (\<exists>j. 1000000000 * limbs_val ls = 10 ^ j \<and> unat e = unat k + j)"
    proof
      assume "\<exists>j. limbs_val ls = 10 ^ j \<and> unat e = unat k + 9 + j"
      then obtain j where "limbs_val ls = 10 ^ j" "unat e = unat k + 9 + j" by blast
      then show "\<exists>j. 1000000000 * limbs_val ls = 10 ^ j \<and> unat e = unat k + j"
        by (intro exI [of _ "9 + j"]) (simp add: zero_limb_power_ten)
    next
      assume "\<exists>j. 1000000000 * limbs_val ls = 10 ^ j \<and> unat e = unat k + j"
      then obtain j where "9 \<le> j" "limbs_val ls = 10 ^ (j - 9)" "unat e = unat k + j"
        by (auto simp: zero_limb_power_ten)
      then show "\<exists>j. limbs_val ls = 10 ^ j \<and> unat e = unat k + 9 + j"
        by (intro exI [of _ "j - 9"]) simp
    qed
    finally show ?thesis using True by simp
  next
    case False
    then have l: "0 < unat l" "unat l < 1000000000"
      using Cons.prems(1) by (simp_all add: unat_gt_0)
    have tail: "limbs_val ls = 0 \<longleftrightarrow> ls = []"
    proof
      assume z: "limbs_val ls = 0"
      show "ls = []"
      proof (rule ccontr)
        assume ne: "ls \<noteq> []"
        then have "canonical ls" using Cons.prems(2) by (simp add: canonical_def)
        from canonical_lower [OF this ne] z show False by simp
      qed
    qed simp
    show ?thesis
    proof
      assume a: "as_pow10_loop (l # ls) k False = Some e"
      then obtain x where x: "pow10_exp l = Some x" "as_pow10_loop ls (k + x) True = Some e"
        using False by (auto split: option.splits)
      with tail have "ls = []" using as_pow10_loop_seen [OF x(2)] by simp
      with x have "e = k + x" by simp
      moreover have xl: "unat x < 9" "unat l = 10 ^ unat x" using x(1) by (simp_all add: pow10_exp_iff)
      moreover have "unat (k + x) = unat k + unat x"
        using xl(1) Cons.prems(3) unat_add_lem [of k x] by simp
      ultimately show "\<exists>j. limbs_val (l # ls) = 10 ^ j \<and> unat e = unat k + j"
        using \<open>ls = []\<close> by auto
    next
      assume "\<exists>j. limbs_val (l # ls) = 10 ^ j \<and> unat e = unat k + j"
      then obtain j where j: "unat l + 1000000000 * limbs_val ls = 10 ^ j" "unat e = unat k + j"
        by auto
      from limb_power_ten [OF l j(1)] have z: "limbs_val ls = 0" "j < 9" by auto
      then have "ls = []" by (simp add: tail)
      have xj: "unat (of_nat j :: u32) = j" using z(2) by (simp add: unat_of_nat)
      have "pow10_exp l = Some (of_nat j)"
        using j(1) z xj by (simp add: pow10_exp_iff)
      moreover have "unat (k + of_nat j) = unat k + j"
        using xj z(2) Cons.prems(3) unat_add_lem [of k "of_nat j"] by simp
      then have "k + of_nat j = e" using j(2) by (metis unat_eq_iff)
      ultimately show "as_pow10_loop (l # ls) k False = Some e"
        using False \<open>ls = []\<close> by simp
    qed
  qed
qed

lemma biguint_as_pow10_iff:
  assumes "wf_big b" and "length (limbs b) < 400000000"
  shows "biguint_as_pow10 b = Some k \<longleftrightarrow> bval b = 10 ^ unat k"
proof
  have s: "biguint_as_pow10 b = Some k \<longleftrightarrow> (\<exists>j. bval b = 10 ^ j \<and> unat k = 0 + j)"
    using as_pow10_loop_spec [of "limbs b" 0 k] assms
    by (simp add: biguint_as_pow10_def wf_big_def bval_def)
  show "biguint_as_pow10 b = Some k \<Longrightarrow> bval b = 10 ^ unat k" using s by auto
  show "bval b = 10 ^ unat k \<Longrightarrow> biguint_as_pow10 b = Some k" using s by auto
qed

section \<open>Properties\<close>

text \<open>
  C17. The decimal text of a canonical number is its standard decimal numeral, and
  parsing that text gives back the same limbs.
\<close>

theorem decimal_text_roundtrip:
  assumes "wf_big b"
  shows "biguint_to_decimal_string b = dec_string (bval b) \<and>
    biguint_from_decimal_str (biguint_to_decimal_string b) = b"
  using biguint_to_decimal_string_val [OF assms] biguint_decimal_roundtrip [OF assms] by blast

theorem decimal_text_roundtrip_witness:
  "biguint_from_decimal_str (biguint_to_decimal_string \<lparr>limbs = [5, 7]\<rparr>) = \<lparr>limbs = [5, 7]\<rparr>"
  by (rule conjunct2 [OF decimal_text_roundtrip]) (simp add: wf_big_def canonical_def)

end
