(* ===== verification/BigUintDiv.thy ===== *)
theory BigUintDiv
  imports BigUint
begin

text \<open>
  \<^verbatim>\<open>storage.rs\<close>, \<^verbatim>\<open>BigUint::div_rem\<close>: long division of base-\<open>10 ^ 9\<close> numbers by
  Knuth's Algorithm D, with the division by a power of ten and the bounded floor
  division that \<^verbatim>\<open>width_bucket\<close> uses. The model keeps the \<^verbatim>\<open>u64\<close> limbs, the
  quotient-digit correction loop, the multiply-subtract pass with its borrow and the
  add-back loop of the source. The add-back loop is not structurally terminating, so
  the whole routine returns an option; the correctness theorem shows that it returns
  for every pair of canonical operands with a nonzero divisor, and what it returns.
\<close>

section \<open>Algorithm D\<close>

subsection \<open>D1: scaling\<close>

fun scale_limbs :: "u32 list \<Rightarrow> u64 \<Rightarrow> u64 \<Rightarrow> u64 list \<times> u64" where
  "scale_limbs [] d carry = ([], carry)"
| "scale_limbs (l # ls) d carry =
     (let t = ucast l * d + carry;
          (r, carry') = scale_limbs ls d (t div 1000000000)
      in (t mod 1000000000 # r, carry'))"

subsection \<open>D3: the quotient digit\<close>

text \<open>The correction loop; \<open>v1\<close>, \<open>v2\<close> are the two top divisor limbs.\<close>

function qhat_correct :: "u64 \<Rightarrow> u64 \<Rightarrow> u64 \<Rightarrow> u64 \<Rightarrow> u64 \<Rightarrow> u64" where
  "qhat_correct v1 v2 u2 qhat rhat =
     (if 1000000000 \<le> qhat \<or> qhat * v2 > 1000000000 * rhat + u2
      then let qhat' = qhat - 1; rhat' = rhat + v1
           in if 1000000000 \<le> rhat' then qhat' else qhat_correct v1 v2 u2 qhat' rhat'
      else qhat)"
  by pat_completeness auto
termination
proof (relation "measure (\<lambda>(v1, v2, u2, qhat, rhat). unat qhat)", goal_cases)
  case (2 v1 v2 u2 qhat rhat x xa)
  then have "qhat \<noteq> 0" by auto
  then show ?case using 2 by (simp add: unat_minus_one unat_gt_0)
qed simp

declare qhat_correct.simps [simp del]

subsection \<open>D4, D5: multiply and subtract\<close>

fun mul_sub :: "u64 list \<Rightarrow> u64 list \<Rightarrow> u64 \<Rightarrow> u64 \<Rightarrow> u64 list \<times> u64" where
  "mul_sub (uj # us) (vi # vs) qhat borrow =
     (let p = qhat * vi + borrow;
          p_lo = p mod 1000000000;
          p_hi = p div 1000000000
      in if p_lo \<le> uj
         then (let (r, b) = mul_sub us vs qhat p_hi in ((uj - p_lo) # r, b))
         else (let (r, b) = mul_sub us vs qhat (p_hi + 1) in ((uj + 1000000000 - p_lo) # r, b)))"
| "mul_sub us vs qhat borrow = ([], borrow)"

subsection \<open>D6: add back\<close>

fun add_row :: "u64 list \<Rightarrow> u64 list \<Rightarrow> u64 \<Rightarrow> u64 list \<times> u64" where
  "add_row (uj # us) (vi # vs) carry =
     (let s = uj + vi + carry;
          (r, c) = add_row us vs (s div 1000000000)
      in (s mod 1000000000 # r, c))"
| "add_row us vs carry = ([], carry)"

text \<open>The top limb is an \<^verbatim>\<open>i64\<close> between \<open>- 2 ^ 32\<close> and \<open>2 ^ 32\<close>, read as an \<open>int\<close>.\<close>

partial_function (option) add_back ::
  "u64 list \<Rightarrow> u64 list \<Rightarrow> int \<Rightarrow> u64 \<Rightarrow> (u64 list \<times> int \<times> u64) option" where
  "add_back seg vs hi qq =
     (if hi < 0
      then let (seg', carry) = add_row seg vs 0
           in add_back seg' vs (hi + uint carry) (qq - 1)
      else Some (seg, hi, qq))"

subsection \<open>D2: the digit loop\<close>

definition div_digit :: "nat \<Rightarrow> u64 list \<Rightarrow> u64 list \<Rightarrow> (u64 list \<times> u64) option" where
  "div_digit j u v =
     (let n = length v;
          num = u ! (j + n) * 1000000000 + u ! (j + n - 1);
          qhat = qhat_correct (v ! (n - 1)) (v ! (n - 2)) (u ! (j + n - 2))
                   (num div v ! (n - 1)) (num mod v ! (n - 1));
          (seg, borrow) = mul_sub (take n (drop j u)) v qhat 0
      in case add_back seg v (uint (u ! (j + n)) - uint borrow) qhat of
           None \<Rightarrow> None
         | Some (seg', hi, qq) \<Rightarrow>
             Some (take j u @ seg' @ word_of_int hi # drop (j + n + 1) u, qq))"

fun div_digits :: "nat \<Rightarrow> u64 list \<Rightarrow> u64 list \<Rightarrow> u32 list \<Rightarrow> (u64 list \<times> u32 list) option" where
  "div_digits 0 u v q = Some (u, q)"
| "div_digits (Suc j) u v q =
     (case div_digit j u v of
        None \<Rightarrow> None
      | Some (u', qq) \<Rightarrow> div_digits j u' v (ucast qq # q))"

subsection \<open>D8: undo the scaling\<close>

text \<open>The list argument is the limbs from the most significant one.\<close>

fun unscale_msf :: "u64 list \<Rightarrow> u64 \<Rightarrow> u64 \<Rightarrow> u32 list" where
  "unscale_msf [] d carry = []"
| "unscale_msf (l # ls) d carry =
     (let cur = carry * 1000000000 + l
      in ucast (cur div d) # unscale_msf ls d (cur mod d))"

definition biguint_div_rem :: "big_uint \<Rightarrow> big_uint \<Rightarrow> (big_uint \<times> big_uint) option" where
  "biguint_div_rem a b =
     (if biguint_cmp a b = Less then Some (biguint_zero, a)
      else if length (limbs b) = 1
      then (let (q, r) = biguint_div_rem_small a (limbs b ! 0)
            in Some (q, if r = 0 then biguint_zero else \<lparr>limbs = [r]\<rparr>))
      else let n = length (limbs b);
               m = length (limbs a) - n;
               d = 1000000000 div (ucast (limbs b ! (n - 1)) + 1);
               v = fst (scale_limbs (limbs b) d 0);
               (ua, carry) = scale_limbs (limbs a) d 0
           in case div_digits (m + 1) (ua @ [carry]) v [] of
                None \<Rightarrow> None
              | Some (u, q) \<Rightarrow>
                  Some (biguint_normalize \<lparr>limbs = q\<rparr>,
                        biguint_normalize \<lparr>limbs = rev (unscale_msf (rev (take n u)) d 0)\<rparr>))"

section \<open>Values of 64-bit limb vectors\<close>

fun lval :: "u64 list \<Rightarrow> nat" where
  "lval [] = 0"
| "lval (l # ls) = unat l + 1000000000 * lval ls"

definition ok64 :: "u64 list \<Rightarrow> bool" where
  "ok64 ls \<longleftrightarrow> (\<forall>l \<in> set ls. unat l < 1000000000)"

lemma ok64_simps [simp]:
  "ok64 []"
  "ok64 (l # ls) \<longleftrightarrow> unat l < 1000000000 \<and> ok64 ls"
  "ok64 (xs @ ys) \<longleftrightarrow> ok64 xs \<and> ok64 ys"
  by (auto simp: ok64_def)

lemma ok64_take_drop [simp]: "ok64 ls \<Longrightarrow> ok64 (take n ls)" "ok64 ls \<Longrightarrow> ok64 (drop n ls)"
  by (auto simp: ok64_def dest: in_set_takeD in_set_dropD)

lemma ok64_nth: "ok64 ls \<Longrightarrow> i < length ls \<Longrightarrow> unat (ls ! i) < 1000000000"
  by (simp add: ok64_def)

lemma lval_append: "lval (xs @ ys) = lval xs + 1000000000 ^ length xs * lval ys"
  by (induction xs) (simp_all add: ring_distribs ac_simps)

lemma lval_bound: "ok64 ls \<Longrightarrow> lval ls < 1000000000 ^ length ls"
proof (induction ls)
  case (Cons l ls)
  then have "lval ls + 1 \<le> 1000000000 ^ length ls" and "unat l < 1000000000"
    by auto
  then have "unat l + 1000000000 * lval ls < 1000000000 * (lval ls + 1)"
    by simp
  also have "\<dots> \<le> 1000000000 * 1000000000 ^ length ls"
    using \<open>lval ls + 1 \<le> 1000000000 ^ length ls\<close> by (intro mult_le_mono) simp_all
  finally show ?case by simp
qed simp

lemma lval_split: "lval ls = lval (take k ls) + 1000000000 ^ min k (length ls) * lval (drop k ls)"
proof -
  have "lval (take k ls @ drop k ls) =
      lval (take k ls) + 1000000000 ^ length (take k ls) * lval (drop k ls)"
    by (rule lval_append)
  then show ?thesis by (simp add: min.commute)
qed

text \<open>A value below \<open>B ^ k\<close> has only zero limbs from \<open>k\<close> on.\<close>

lemma lval_take_small:
  assumes "ok64 ls" and "lval ls < 1000000000 ^ k"
  shows "lval (take k ls) = lval ls"
proof (cases "k \<le> length ls")
  case True
  then have s: "lval ls = lval (take k ls) + 1000000000 ^ k * lval (drop k ls)"
    using lval_split [of ls k] by (simp add: min_absorb1)
  then have "lval (drop k ls) = 0"
    using assms(2) by (cases "lval (drop k ls)") auto
  then show ?thesis using s by simp
qed simp

lemma lval_step_div: "lval ls = lval (take k ls) + 1000000000 ^ k * lval (drop k ls)"
  if "k \<le> length ls"
  using lval_split [of ls k] that by (simp add: min_absorb1)

section \<open>The steps of Algorithm D\<close>

lemma mod64 [simp]: "unat ((w :: u64) mod 1000000000) = unat w mod 1000000000"
  by (simp add: unat_mod_distrib)

text \<open>D1\<close>

lemma scale_limbs_spec:
  "limbs_ok ls \<Longrightarrow> unat d \<le> 1000000000 \<Longrightarrow> unat carry \<le> 1000000000 \<Longrightarrow>
   scale_limbs ls d carry = (r, c) \<Longrightarrow>
     ok64 r \<and> length r = length ls \<and> unat c \<le> 1000000000 \<and>
     lval r + 1000000000 ^ length ls * unat c = limbs_val ls * unat d + unat carry"
proof (induction ls arbitrary: carry r)
  case Nil
  then show ?case by simp
next
  case (Cons l ls)
  define t where "t = ucast l * d + carry"
  have l: "unat l < 1000000000" using Cons.prems(1) by simp
  have "unat l * unat d \<le> 999999999 * 1000000000"
    using l Cons.prems(2) by (intro mult_le_mono) simp_all
  then have b: "unat l * unat d \<le> 999999999000000000" by simp
  then have p: "unat (ucast l * d) = unat l * unat d"
    by (subst unat_mult64) simp_all
  have t: "unat t = unat l * unat d + unat carry"
    unfolding t_def using b p Cons.prems(3) by (subst unat_add64) simp_all
  have "unat t \<le> 1000000000 * 1000000000" using b Cons.prems(3) t by simp
  then have c: "unat (t div 1000000000) \<le> 1000000000"
    by (simp add: div_le_mono [THEN order_trans])
  obtain r' where r': "scale_limbs ls d (t div 1000000000) = (r', c)"
      "r = t mod 1000000000 # r'"
    using Cons.prems(4) by (auto simp: Let_def t_def split: prod.splits)
  from Cons.IH [OF _ Cons.prems(2) c r'(1)] Cons.prems(1)
  have IH: "ok64 r'" "length r' = length ls" "unat c \<le> 1000000000"
    "lval r' + 1000000000 ^ length ls * unat c = limbs_val ls * unat d + unat t div 1000000000"
    by simp_all
  have "lval r + 1000000000 ^ length (l # ls) * unat c =
      unat t mod 1000000000 + 1000000000 * (lval r' + 1000000000 ^ length ls * unat c)"
    by (simp add: r'(2) ring_distribs ac_simps)
  also have "\<dots> = unat t + 1000000000 * (limbs_val ls * unat d)"
    unfolding IH(4) by (rule digit_step)
  also have "\<dots> = limbs_val (l # ls) * unat d + unat carry"
    by (simp add: t ring_distribs ac_simps)
  finally show ?case using IH r'(2) by simp
qed

text \<open>Knuth's normalisation: the scaled divisor has a top limb of at least \<open>B / 2\<close>.\<close>

lemma normalise_factor:
  fixes t :: nat
  assumes "0 < t" and "t < 1000000000" and "d = 1000000000 div (t + 1)"
  shows "0 < d" and "d \<le> 500000000" and "d * (t + 1) \<le> 1000000000" and "500000000 \<le> d * t"
proof -
  show d0: "0 < d" using assms(2,3) by (simp add: div_greater_zero_iff)
  have "1000000000 div (t + 1) \<le> 1000000000 div 2"
    using assms(1) by (intro div_le_mono2) simp_all
  then show "d \<le> 500000000" using assms(3) by simp
  show up: "d * (t + 1) \<le> 1000000000" unfolding assms(3) by (rule div_times_less_eq_dividend)
  have low: "1000000000 < (d + 1) * (t + 1)"
  proof -
    have "1000000000 mod (t + 1) < t + 1" by simp
    moreover have "d * (t + 1) + 1000000000 mod (t + 1) = 1000000000"
      unfolding assms(3) by (rule div_mult_mod_eq)
    ultimately have "1000000000 < d * (t + 1) + (t + 1)" by linarith
    then show ?thesis by (simp add: ring_distribs)
  qed
  show "500000000 \<le> d * t"
  proof (cases "t = 1 \<or> d = 1")
    case True
    then show ?thesis using assms(3) low by auto
  next
    case False
    then have "2 \<le> t" "2 \<le> d" using assms(1) d0 by auto
    then obtain t' d' where e: "t = Suc (Suc t')" "d = Suc (Suc d')"
      by (metis le_add_diff_inverse add_2_eq_Suc)
    have "t + d \<le> d * t" by (simp add: e)
    with low show ?thesis by (simp add: ring_distribs)
  qed
qed

text \<open>D3. The estimate from the top limbs never falls below the true digit.\<close>

lemma qhat_estimate:
  fixes S V :: nat
  assumes "S < (num + 1) * P" and "v1 * P \<le> V" and "0 < v1" and "0 < P"
  shows "S div V \<le> num div v1"
proof -
  have "S div V * (v1 * P) \<le> S div V * V" using assms(2) by (rule mult_le_mono2)
  also have "\<dots> \<le> S" by (simp add: div_times_less_eq_dividend)
  also have "\<dots> < (num + 1) * P" by (rule assms(1))
  finally have "S div V * v1 * P < (num + 1) * P" by (simp add: ac_simps)
  then have "S div V * v1 < num + 1" by (simp only: mult_less_cancel2)
  then have "S div V * v1 \<le> num" by simp
  then show ?thesis using assms(3) by (simp add: less_eq_div_iff_mult_less_eq)
qed

text \<open>
  The correction test only succeeds on an estimate above the true digit. \<open>P2\<close> is the
  weight of the third limb from the top.
\<close>

lemma qhat_test:
  fixes S V :: nat
  assumes "S < ((num * 1000000000 + u2) + 1) * P2" and "(v1 * 1000000000 + v2) * P2 \<le> V"
    and "qh * v1 + rh = num" and "1000000000 * rh + u2 < qh * v2" and "S < 1000000000 * V"
  shows "S div V < qh"
proof -
  have "num * 1000000000 + u2 + 1 \<le> qh * (v1 * 1000000000 + v2)"
    unfolding assms(3) [symmetric] using assms(4) by (simp add: ring_distribs)
  then have "(num * 1000000000 + u2 + 1) * P2 \<le> qh * (v1 * 1000000000 + v2) * P2"
    by (rule mult_le_mono1)
  also have "\<dots> \<le> qh * V"
    using mult_le_mono2 [OF assms(2), of qh] by (simp add: ac_simps)
  finally have "S < qh * V" using assms(1) by simp
  then show ?thesis by (simp add: less_mult_imp_div_less)
qed

lemma qhat_correct_spec:
  assumes v1: "500000000 \<le> unat v1" "unat v1 < 1000000000" and v2: "unat v2 < 1000000000"
    and u2: "unat u2 < 1000000000"
    and S: "S < ((num * 1000000000 + unat u2) + 1) * P2"
      "(unat v1 * 1000000000 + unat v2) * P2 \<le> V" "S < 1000000000 * V"
  shows "unat qhat * unat v1 + unat rhat = num \<Longrightarrow> unat rhat < 1000000000 \<Longrightarrow>
    unat qhat \<le> 2000000000 \<Longrightarrow> S div V \<le> unat qhat \<Longrightarrow>
      S div V \<le> unat (qhat_correct v1 v2 u2 qhat rhat) \<and>
      unat (qhat_correct v1 v2 u2 qhat rhat) \<le> unat qhat"
proof (induction "unat qhat" arbitrary: qhat rhat rule: less_induct)
  case less
  have "unat qhat * unat v2 \<le> 2000000000 * 999999999"
    using less.prems(3) v2 by (intro mult_le_mono) simp_all
  then have m: "unat (qhat * v2) = unat qhat * unat v2"
    by (subst unat_mult64) simp_all
  have br: "unat (1000000000 * rhat) = 1000000000 * unat rhat"
    using less.prems(2) by (subst unat_mult64) simp_all
  have r: "unat (1000000000 * rhat + u2) = 1000000000 * unat rhat + unat u2"
    using less.prems(2) u2 br by (subst unat_add64) simp_all
  show ?case
  proof (cases "1000000000 \<le> qhat \<or> qhat * v2 > 1000000000 * rhat + u2")
    case True
    have lt: "S div V < unat qhat"
    proof (cases "1000000000 \<le> qhat")
      case True
      then have "1000000000 \<le> unat qhat" by (simp add: word_le_nat_alt)
      moreover have "S div V < 1000000000" using S(3) by (simp add: less_mult_imp_div_less)
      ultimately show ?thesis by simp
    next
      case False
      with True have "1000000000 * unat rhat + unat u2 < unat qhat * unat v2"
        by (simp add: word_less_nat_alt m r)
      then show ?thesis by (rule qhat_test [OF S(1,2) less.prems(1) _ S(3)])
    qed
    then have pos: "0 < unat qhat" by simp
    then have q1: "unat (qhat - 1) = unat qhat - 1"
      by (simp add: unat_minus_one unat_gt_0)
    have rv: "unat (rhat + v1) = unat rhat + unat v1"
      using less.prems(2) v1 by (subst unat_add64) simp_all
    have step: "qhat_correct v1 v2 u2 qhat rhat =
        (if 1000000000 \<le> rhat + v1 then qhat - 1
         else qhat_correct v1 v2 u2 (qhat - 1) (rhat + v1))"
      by (subst qhat_correct.simps) (simp add: True Let_def)
    have inv: "unat (qhat - 1) * unat v1 + unat (rhat + v1) = num"
    proof -
      obtain k where "unat qhat = Suc k" using pos by (cases "unat qhat") auto
      then show ?thesis using less.prems(1) by (simp add: q1 rv)
    qed
    show ?thesis
    proof (cases "1000000000 \<le> rhat + v1")
      case True
      with step lt q1 show ?thesis by simp
    next
      case False
      then have "unat (rhat + v1) < 1000000000" by (simp add: word_le_nat_alt)
      with less.hyps [of "qhat - 1" "rhat + v1"] inv lt q1 pos less.prems(3)
      have "S div V \<le> unat (qhat_correct v1 v2 u2 (qhat - 1) (rhat + v1)) \<and>
          unat (qhat_correct v1 v2 u2 (qhat - 1) (rhat + v1)) \<le> unat (qhat - 1)"
        by simp
      moreover have "unat (qhat - 1) \<le> unat qhat" by (simp add: q1)
      moreover have "qhat_correct v1 v2 u2 qhat rhat = qhat_correct v1 v2 u2 (qhat - 1) (rhat + v1)"
        using step False by simp
      ultimately show ?thesis by (simp only:) (blast intro: le_trans)
    qed
  next
    case False
    then have "qhat_correct v1 v2 u2 qhat rhat = qhat"
      by (subst qhat_correct.simps) simp
    with less.prems(4) show ?thesis by simp
  qed
qed

text \<open>D4, D5\<close>

lemma mul_sub_word:
  assumes "unat (vi :: u64) < 1000000000" and "unat qhat \<le> 2000000000" and "unat borrow \<le> 2000000000"
  shows "unat (qhat * vi + borrow) = unat qhat * unat vi + unat borrow"
    and "unat qhat * unat vi + unat borrow \<le> 2000000000000000000"
proof -
  have "unat qhat * unat vi \<le> 2000000000 * 999999999"
    using assms by (intro mult_le_mono) simp_all
  then have b: "unat qhat * unat vi \<le> 1999999998000000000" by simp
  then have p: "unat (qhat * vi) = unat qhat * unat vi"
    by (subst unat_mult64) simp_all
  show "unat (qhat * vi + borrow) = unat qhat * unat vi + unat borrow"
    using b p assms(3) by (subst unat_add64) simp_all
  show "unat qhat * unat vi + unat borrow \<le> 2000000000000000000"
    using b assms(3) by simp
qed

lemma mul_sub_spec:
  "length us = length vs \<Longrightarrow> ok64 us \<Longrightarrow> ok64 vs \<Longrightarrow> unat qhat \<le> 2000000000 \<Longrightarrow>
   unat borrow \<le> 2000000000 \<Longrightarrow> mul_sub us vs qhat borrow = (r, b) \<Longrightarrow>
     ok64 r \<and> length r = length us \<and> unat b \<le> 2000000000 \<and>
     lval r + unat qhat * lval vs + unat borrow = lval us + 1000000000 ^ length us * unat b"
proof (induction us vs arbitrary: borrow r rule: list_induct2)
  case Nil
  then show ?case by simp
next
  case (Cons uj us vi vs)
  define p where "p = qhat * vi + borrow"
  have vi: "unat vi < 1000000000" and uj: "unat uj < 1000000000"
    using Cons.prems by simp_all
  note pw = mul_sub_word [OF vi Cons.prems(3,4)]
  have p: "unat p = unat qhat * unat vi + unat borrow" and pb: "unat p \<le> 2000000000000000000"
    using pw by (simp_all add: p_def)
  define lo hi where "lo = unat p mod 1000000000" and "hi = unat p div 1000000000"
  have lohi: "unat p = lo + 1000000000 * hi" "lo < 1000000000" "hi \<le> 2000000000"
    using pb by (simp_all add: lo_def hi_def)
  have lov: "unat (p mod 1000000000) = lo" and hiv: "unat (p div 1000000000) = hi"
    by (simp_all add: lo_def hi_def)
  show ?case
  proof (cases "p mod 1000000000 \<le> uj")
    case True
    then have le: "lo \<le> unat uj" by (simp add: word_le_nat_alt lo_def)
    obtain r' where r': "mul_sub us vs qhat (p div 1000000000) = (r', b)"
        "r = (uj - p mod 1000000000) # r'"
      using Cons.prems(5) True by (auto simp: Let_def p_def split: prod.splits)
    have d: "unat (uj - p mod 1000000000) = unat uj - lo"
      using le lov by (subst unat_sub_le) simp_all
    from Cons.IH [OF _ _ Cons.prems(3) _ r'(1)] Cons.prems lohi(3) hiv
    have IH: "ok64 r'" "length r' = length us" "unat b \<le> 2000000000"
      "lval r' + unat qhat * lval vs + hi = lval us + 1000000000 ^ length us * unat b"
      by simp_all
    have "lval r + unat qhat * lval (vi # vs) + unat borrow =
        (unat uj - lo) + unat p + 1000000000 * (lval r' + unat qhat * lval vs)"
      by (simp add: r'(2) d p ring_distribs ac_simps)
    also have "\<dots> = unat uj + 1000000000 * (lval r' + unat qhat * lval vs + hi)"
      using le unfolding lohi(1) by (simp add: ring_distribs)
    also have "\<dots> = lval (uj # us) + 1000000000 ^ length (uj # us) * unat b"
      unfolding IH(4) by (simp add: ring_distribs)
    finally show ?thesis using IH r'(2) d uj by simp
  next
    case False
    then have lt: "unat uj < lo" by (simp add: word_le_nat_alt lo_def)
    obtain r' where r': "mul_sub us vs qhat (p div 1000000000 + 1) = (r', b)"
        "r = (uj + 1000000000 - p mod 1000000000) # r'"
      using Cons.prems(5) False by (auto simp: Let_def p_def split: prod.splits)
    have u9: "unat (uj + 1000000000) = unat uj + 1000000000"
      using uj by (subst unat_add64) simp_all
    have d: "unat (uj + 1000000000 - p mod 1000000000) = unat uj + 1000000000 - lo"
      using lohi(2) lov u9 by (subst unat_sub_le) simp_all
    have h1: "unat (p div 1000000000 + 1) = hi + 1"
      using hiv lohi(3) by (subst unat_add64) simp_all
    have "hi + 1 \<le> 2000000000" using lohi pb lt by simp
    with Cons.IH [OF _ _ Cons.prems(3) _ r'(1)] Cons.prems h1
    have IH: "ok64 r'" "length r' = length us" "unat b \<le> 2000000000"
      "lval r' + unat qhat * lval vs + (hi + 1) = lval us + 1000000000 ^ length us * unat b"
      by simp_all
    have "lval r + unat qhat * lval (vi # vs) + unat borrow =
        (unat uj + 1000000000 - lo) + unat p + 1000000000 * (lval r' + unat qhat * lval vs)"
      by (simp add: r'(2) d p ring_distribs ac_simps)
    also have "\<dots> = unat uj + 1000000000 * (lval r' + unat qhat * lval vs + (hi + 1))"
      using lohi(2) unfolding lohi(1) by (simp add: ring_distribs)
    also have "\<dots> = lval (uj # us) + 1000000000 ^ length (uj # us) * unat b"
      unfolding IH(4) by (simp add: ring_distribs)
    finally show ?thesis using IH r'(2) d uj lt lohi(2) by simp
  qed
qed

text \<open>D6\<close>

lemma add_row_spec:
  "length us = length vs \<Longrightarrow> ok64 us \<Longrightarrow> ok64 vs \<Longrightarrow> unat carry \<le> 1 \<Longrightarrow>
   add_row us vs carry = (r, c) \<Longrightarrow>
     ok64 r \<and> length r = length us \<and> unat c \<le> 1 \<and>
     lval r + 1000000000 ^ length us * unat c = lval us + lval vs + unat carry"
proof (induction us vs arbitrary: carry r rule: list_induct2)
  case Nil
  then show ?case by simp
next
  case (Cons uj us vi vs)
  define s where "s = uj + vi + carry"
  have b: "unat uj < 1000000000" "unat vi < 1000000000" "unat carry \<le> 1"
    using Cons.prems by simp_all
  have s2: "unat (uj + vi) = unat uj + unat vi"
    using b by (subst unat_add64) simp_all
  have s: "unat s = unat uj + unat vi + unat carry"
    unfolding s_def using b s2 by (subst unat_add64) simp_all
  have c1: "unat (s div 1000000000) \<le> 1" using b by (simp add: s)
  obtain r' where r': "add_row us vs (s div 1000000000) = (r', c)" "r = s mod 1000000000 # r'"
    using Cons.prems(4) by (auto simp: Let_def s_def split: prod.splits)
  from Cons.IH [OF _ _ c1 r'(1)] Cons.prems
  have IH: "ok64 r'" "length r' = length us" "unat c \<le> 1"
    "lval r' + 1000000000 ^ length us * unat c = lval us + lval vs + unat s div 1000000000"
    by simp_all
  have "lval r + 1000000000 ^ length (uj # us) * unat c =
      unat s mod 1000000000 + 1000000000 * (lval r' + 1000000000 ^ length us * unat c)"
    by (simp add: r'(2) ring_distribs ac_simps)
  also have "\<dots> = unat s + 1000000000 * (lval us + lval vs)"
    unfolding IH(4) by (rule digit_step)
  also have "\<dots> = lval (uj # us) + lval (vi # vs) + unat carry"
    by (simp add: s ring_distribs ac_simps)
  finally show ?case using IH r'(2) by simp
qed

lemma add_back_spec:
  assumes vs: "ok64 vs" "length vs = n" "0 < lval vs"
  shows "ok64 seg \<Longrightarrow> length seg = n \<Longrightarrow>
    int (lval seg) + hi * 1000000000 ^ n = int S - int (unat qq) * int (lval vs) \<Longrightarrow>
    S div lval vs \<le> unat qq \<Longrightarrow>
      \<exists>seg' qq'. add_back seg vs hi qq = Some (seg', 0, qq') \<and> ok64 seg' \<and> length seg' = n \<and>
        lval seg' = S mod lval vs \<and> unat qq' = S div lval vs"
proof (induction "unat qq" arbitrary: seg hi qq rule: less_induct)
  case less
  let ?V = "lval vs" and ?B = "1000000000 :: int"
  let ?T = "int (lval seg) + hi * ?B ^ n"
  have segb: "int (lval seg) < ?B ^ n"
    using lval_bound [OF less.prems(1)] less.prems(2)
    by (metis of_nat_less_iff of_nat_numeral of_nat_power)
  have Vb: "int ?V < ?B ^ n"
    using lval_bound [OF vs(1)] vs(2) by (metis of_nat_less_iff of_nat_numeral of_nat_power)
  have SV: "int S = int (S div ?V) * int ?V + int (S mod ?V)"
    by (metis div_mult_mod_eq of_nat_add of_nat_mult)
  have rV: "int (S mod ?V) < int ?V" using vs(3) by simp
  show ?case
  proof (cases "hi < 0")
    case True
    then have "hi * ?B ^ n \<le> (- 1) * ?B ^ n" by (intro mult_right_mono) simp_all
    with segb have T0: "?T < 0" by linarith
    have qlt: "S div ?V < unat qq"
    proof (rule ccontr)
      assume "\<not> S div ?V < unat qq"
      with less.prems(4) have "unat qq = S div ?V" by simp
      with T0 SV less.prems(3) show False by simp
    qed
    then have pos: "0 < unat qq" by simp
    then have q1: "unat (qq - 1) = unat qq - 1" by (simp add: unat_minus_one unat_gt_0)
    obtain seg1 c where a: "add_row seg vs 0 = (seg1, c)" by force
    from add_row_spec [OF _ less.prems(1) vs(1) _ a] less.prems(2) vs(2)
    have s1: "ok64 seg1" "length seg1 = n" "lval seg1 + 1000000000 ^ n * unat c = lval seg + ?V"
      by simp_all
    have s1i: "int (lval seg1) + uint c * ?B ^ n = int (lval seg) + int ?V"
      using arg_cong [OF s1(3), of int] by (simp add: ac_simps)
    have step: "add_back seg vs hi qq = add_back seg1 vs (hi + uint c) (qq - 1)"
      by (subst add_back.simps) (simp add: True a)
    have "int (lval seg1) + (hi + uint c) * ?B ^ n = int S - int (unat (qq - 1)) * int ?V"
    proof -
      have "int (unat (qq - 1)) = int (unat qq) - 1" using pos by (simp add: q1)
      then show ?thesis using s1i less.prems(3) by (simp add: ring_distribs) 
    qed
    from less.hyps [of "qq - 1", OF _ s1(1,2) this] qlt q1 pos show ?thesis
      unfolding step by simp
  next
    case False
    then have "0 \<le> hi * ?B ^ n" by simp
    then have T0: "0 \<le> ?T" by simp
    have qle: "int (unat qq) * int ?V \<le> int S" using T0 less.prems(3) by simp
    have "unat qq \<le> S div ?V"
    proof -
      have "unat qq * ?V \<le> S" using qle by (metis of_nat_le_iff of_nat_mult)
      then show ?thesis using vs(3) by (simp add: less_eq_div_iff_mult_less_eq)
    qed
    with less.prems(4) have q: "unat qq = S div ?V" by simp
    then have T: "?T = int (S mod ?V)" using SV less.prems(3) by simp
    have "hi = 0"
    proof (rule ccontr)
      assume "hi \<noteq> 0"
      with False have "1 \<le> hi" by simp
      then have "1 * ?B ^ n \<le> hi * ?B ^ n" by (intro mult_right_mono) simp_all
      with T rV Vb show False by simp
    qed
    moreover from this T have "lval seg = S mod ?V" by simp
    moreover have "add_back seg vs hi qq = Some (seg, hi, qq)"
      by (subst add_back.simps) (simp add: False)
    ultimately show ?thesis using less.prems(1,2) q by simp
  qed
qed

text \<open>One quotient digit\<close>

lemma lval_take_Suc:
  "k < length ls \<Longrightarrow> lval (take (Suc k) ls) = lval (take k ls) + 1000000000 ^ k * unat (ls ! k)"
  by (simp add: take_Suc_conv_app_nth lval_append)

lemma lval_take_bound: "ok64 ls \<Longrightarrow> lval (take k ls) < 1000000000 ^ k"
proof -
  assume "ok64 ls"
  then have "lval (take k ls) < 1000000000 ^ length (take k ls)"
    by (intro lval_bound) simp
  also have "\<dots> \<le> 1000000000 ^ k" by (intro power_increasing) simp_all
  finally show ?thesis .
qed

text \<open>The three top limbs of an \<open>n + 1\<close>-limb window, and the two of the divisor.\<close>

lemma window_limbs:
  assumes "ok64 w" and "length w = Suc (Suc (Suc k))"
  shows "lval w < ((unat (w ! Suc (Suc k)) * 1000000000 + unat (w ! Suc k)) + 1) * 1000000000 ^ Suc k"
    and "lval w < ((unat (w ! Suc (Suc k)) * 1000000000 + unat (w ! Suc k)) * 1000000000
           + unat (w ! k) + 1) * 1000000000 ^ k"
proof -
  have e: "lval w = lval (take k w) + 1000000000 ^ k * unat (w ! k)
      + 1000000000 ^ Suc k * unat (w ! Suc k) + 1000000000 ^ Suc (Suc k) * unat (w ! Suc (Suc k))"
    using lval_take_Suc [of k w] lval_take_Suc [of "Suc k" w] lval_take_Suc [of "Suc (Suc k)" w] assms(2)
    by simp
  have b: "lval (take k w) < 1000000000 ^ k" by (rule lval_take_bound [OF assms(1)])
  then show "lval w < ((unat (w ! Suc (Suc k)) * 1000000000 + unat (w ! Suc k)) * 1000000000
           + unat (w ! k) + 1) * 1000000000 ^ k"
    unfolding e by (simp add: ring_distribs ac_simps)
  have b1: "lval (take (Suc k) w) < 1000000000 ^ Suc k" by (rule lval_take_bound [OF assms(1)])
  have e1: "lval w = lval (take (Suc k) w)
      + 1000000000 ^ Suc k * unat (w ! Suc k) + 1000000000 ^ Suc (Suc k) * unat (w ! Suc (Suc k))"
    using lval_take_Suc [of "Suc k" w] lval_take_Suc [of "Suc (Suc k)" w] assms(2) by simp
  from b1 show "lval w < ((unat (w ! Suc (Suc k)) * 1000000000 + unat (w ! Suc k)) + 1) * 1000000000 ^ Suc k"
    unfolding e1 by (simp add: ring_distribs ac_simps)
qed

lemma divisor_limbs:
  assumes "length v = Suc (Suc k)"
  shows "(unat (v ! Suc k) * 1000000000 + unat (v ! k)) * 1000000000 ^ k \<le> lval v"
    and "unat (v ! Suc k) * 1000000000 ^ Suc k \<le> lval v"
proof -
  have "lval v = lval (take k v) + 1000000000 ^ k * unat (v ! k) + 1000000000 ^ Suc k * unat (v ! Suc k)"
    using lval_take_Suc [of k v] lval_take_Suc [of "Suc k" v] assms by simp
  then show "(unat (v ! Suc k) * 1000000000 + unat (v ! k)) * 1000000000 ^ k \<le> lval v"
    and "unat (v ! Suc k) * 1000000000 ^ Suc k \<le> lval v"
    by (simp_all add: ring_distribs ac_simps)
qed

lemma div_digit_spec:
  assumes u: "ok64 u" "j + length v < length u"
    and v: "ok64 v" "2 \<le> length v" "500000000 \<le> unat (v ! (length v - 1))"
    and S: "S = lval (take (Suc (length v)) (drop j u))" "S < 1000000000 * lval v"
  shows "\<exists>seg q. div_digit j u v =
      Some (take j u @ seg @ 0 # drop (j + length v + 1) u, q) \<and>
      ok64 seg \<and> length seg = length v \<and> lval seg = S mod lval v \<and> unat q = S div lval v"
proof -
  define n where "n = length v"
  obtain k where k: "n = Suc (Suc k)" using v(2) n_def by (metis Suc_le_D add_2_eq_Suc less_eqE)
  define w where "w = take (Suc n) (drop j u)"
  have w: "ok64 w" "length w = Suc (Suc (Suc k))" "S = lval w"
    using u S(1) by (simp_all add: w_def n_def [symmetric] k)
  have wn: "w ! i = u ! (j + i)" if "i \<le> n" for i
    using that u(2) by (simp add: w_def n_def)
  define num where "num = u ! (j + n) * 1000000000 + u ! (j + n - 1)"
  have un: "unat (u ! (j + i)) < 1000000000" if "i \<le> n" for i
    using that u by (intro ok64_nth) (simp_all add: n_def)
  have ul: "unat (u ! (j + n)) < 1000000000" "unat (u ! (j + n - 1)) < 1000000000"
    "unat (u ! (j + n - 2)) < 1000000000"
    using un [of n] un [of "Suc k"] un [of k] k by simp_all
  have "unat (u ! (j + n) * 1000000000) = unat (u ! (j + n)) * 1000000000"
    using ul by (subst unat_mult64) simp_all
  then have num: "unat num = unat (u ! (j + n)) * 1000000000 + unat (u ! (j + n - 1))"
    unfolding num_def using ul by (subst unat_add64) simp_all
  have v1: "500000000 \<le> unat (v ! (n - 1))" "unat (v ! (n - 1)) < 1000000000"
    and v2: "unat (v ! (n - 2)) < 1000000000"
    using v by (auto simp: n_def intro: ok64_nth)
  have V: "0 < lval v" using S(2) by (cases "lval v") simp_all
  have i1: "j + n - 1 = j + Suc k" and i2: "j + n - 2 = j + k" and i0: "j + n = j + Suc (Suc k)"
    using k by simp_all
  have win: "S < (unat num + 1) * 1000000000 ^ Suc k"
    "S < (unat num * 1000000000 + unat (u ! (j + n - 2)) + 1) * 1000000000 ^ k"
    using window_limbs [OF w(1,2)] wn [of "Suc (Suc k)"] wn [of "Suc k"] wn [of k] k
    unfolding num w(3) i1 i2 i0 by simp_all
  have dv: "(unat (v ! (n - 1)) * 1000000000 + unat (v ! (n - 2))) * 1000000000 ^ k \<le> lval v"
    "unat (v ! (n - 1)) * 1000000000 ^ Suc k \<le> lval v"
    using divisor_limbs [of v k] k n_def by simp_all
  define qh rh where "qh = num div v ! (n - 1)" and "rh = num mod v ! (n - 1)"
  have qr: "unat qh = unat num div unat (v ! (n - 1))" "unat rh = unat num mod unat (v ! (n - 1))"
    by (simp_all add: qh_def rh_def unat_div_distrib unat_mod_distrib)
  have numb: "unat num < 1000000000000000000" using ul by (simp add: num)
  have "unat qh \<le> 2000000000"
  proof -
    have "unat num div unat (v ! (n - 1)) \<le> unat num div 500000000"
      using v1 by (intro div_le_mono2) simp_all
    also have "\<dots> \<le> 1000000000000000000 div 500000000" using numb by (intro div_le_mono) simp
    finally show ?thesis by (simp add: qr)
  qed
  moreover have "S div lval v \<le> unat qh"
    unfolding qr by (rule qhat_estimate [OF win(1) dv(2)]) (use v1 in simp_all)
  moreover have "unat qh * unat (v ! (n - 1)) + unat rh = unat num" by (simp add: qr)
  moreover have "unat rh < 1000000000"
    using v1 by (simp add: qr) (metis mod_less_divisor less_trans zero_less_numeral less_le_trans)
  ultimately have q: "S div lval v \<le> unat (qhat_correct (v ! (n - 1)) (v ! (n - 2)) (u ! (j + n - 2)) qh rh)"
    "unat (qhat_correct (v ! (n - 1)) (v ! (n - 2)) (u ! (j + n - 2)) qh rh) \<le> 2000000000"
    using qhat_correct_spec [OF v1 v2 ul(3) win(2) dv(1) S(2), of qh rh] by auto
  define qhat where "qhat = qhat_correct (v ! (n - 1)) (v ! (n - 2)) (u ! (j + n - 2)) qh rh"
  obtain seg b where ms: "mul_sub (take n (drop j u)) v qhat 0 = (seg, b)" by force
  have tk: "length (take n (drop j u)) = length v" "ok64 (take n (drop j u))"
    using u by (simp_all add: n_def)
  from mul_sub_spec [OF tk v(1) _ _ ms] q(2)
  have seg: "ok64 seg" "length seg = n"
    "lval seg + unat qhat * lval v = lval (take n (drop j u)) + 1000000000 ^ n * unat b"
    using tk(1) by (simp_all add: qhat_def n_def)
  have Sw: "S = lval (take n (drop j u)) + 1000000000 ^ n * unat (u ! (j + n))"
    unfolding S(1) using lval_take_Suc [of n "drop j u"] u(2) by (simp add: n_def)
  define hi where "hi = uint (u ! (j + n)) - uint b"
  have "int (lval seg) + hi * 1000000000 ^ n = int S - int (unat qhat) * int (lval v)"
  proof -
    have "int (lval seg) + int (unat qhat) * int (lval v) =
        int (lval (take n (drop j u))) + 1000000000 ^ n * uint b"
      using arg_cong [OF seg(3), of int] by simp
    moreover have "int S = int (lval (take n (drop j u))) + 1000000000 ^ n * uint (u ! (j + n))"
      using arg_cong [OF Sw, of int] by simp
    ultimately show ?thesis by (simp add: hi_def ring_distribs ac_simps)
  qed
  from add_back_spec [OF v(1) n_def [symmetric] V seg(1,2) this] q(1)
  obtain seg' qq where ab: "add_back seg v hi qhat = Some (seg', 0, qq)" "ok64 seg'"
      "length seg' = n" "lval seg' = S mod lval v" "unat qq = S div lval v"
    unfolding qhat_def by blast
  have "div_digit j u v = Some (take j u @ seg' @ 0 # drop (j + n + 1) u, qq)"
    unfolding div_digit_def Let_def n_def [symmetric] num_def [symmetric] qh_def [symmetric]
      rh_def [symmetric] qhat_def [symmetric] ms
    by (simp add: hi_def [symmetric] ab(1))
  with ab(2-5) show ?thesis
    unfolding n_def [symmetric] by (intro exI [of _ seg'] exI [of _ qq]) simp
qed

text \<open>All digits\<close>

lemma div_digits_spec:
  assumes v: "ok64 v" "2 \<le> length v" "500000000 \<le> unat (v ! (length v - 1))"
  shows "ok64 u \<Longrightarrow> k + length v \<le> length u \<Longrightarrow> lval (drop k u) < lval v \<Longrightarrow>
    \<exists>u' qs. div_digits k u v q = Some (u', qs @ q) \<and> length qs = k \<and> limbs_ok qs \<and>
      ok64 u' \<and> length u' = length u \<and> lval u' < lval v \<and>
      lval u = limbs_val qs * lval v + lval u'"
proof (induction k arbitrary: u q)
  case 0
  then show ?case by simp
next
  case (Suc j)
  define S where "S = lval (drop j u)"
  have j: "j < length u" using Suc.prems(2) by simp
  have dj: "drop j u = u ! j # drop (Suc j) u" using j by (simp add: Cons_nth_drop_Suc)
  have uj: "unat (u ! j) < 1000000000" using Suc.prems(1) j by (rule ok64_nth)
  have "S = unat (u ! j) + 1000000000 * lval (drop (Suc j) u)"
    by (simp add: S_def dj)
  moreover have "lval (drop (Suc j) u) + 1 \<le> lval v" using Suc.prems(3) by simp
  ultimately have Slt: "S < 1000000000 * lval v" using uj by linarith
  have Sw: "S = lval (take (Suc (length v)) (drop j u))"
    unfolding S_def
  proof (rule lval_take_small [symmetric])
    show "ok64 (drop j u)" using Suc.prems(1) by simp
    have "S < 1000000000 * 1000000000 ^ length v"
      using Slt lval_bound [OF v(1)] by linarith
    then show "lval (drop j u) < 1000000000 ^ Suc (length v)" by (simp add: S_def)
  qed
  from div_digit_spec [OF Suc.prems(1) _ v Sw Slt] Suc.prems(2)
  obtain seg qq where d: "div_digit j u v =
      Some (take j u @ seg @ 0 # drop (j + length v + 1) u, qq)"
    "ok64 seg" "length seg = length v" "lval seg = S mod lval v" "unat qq = S div lval v"
    by auto
  define rest where "rest = drop (j + length v + 1) u"
  define u1 where "u1 = take j u @ seg @ 0 # rest"
  have rest0: "lval rest = 0"
  proof -
    have "lval (drop j u) = lval (take (Suc (length v)) (drop j u)) +
        1000000000 ^ Suc (length v) * lval (drop (Suc (length v)) (drop j u))"
      by (rule lval_step_div) (use Suc.prems(2) in simp)
    then show ?thesis using Sw by (simp add: S_def rest_def ac_simps)
  qed
  have V: "0 < lval v" using Suc.prems(3) by simp
  have u1: "ok64 u1" "length u1 = length u"
    using Suc.prems(1,2) d(2,3) by (simp_all add: u1_def rest_def)
  have dr: "drop j u1 = seg @ 0 # rest" and tk: "take j u1 = take j u"
    using j by (simp_all add: u1_def)
  have lv: "lval (drop j u1) = S mod lval v" by (simp add: dr lval_append d(4) rest0)
  have "lval (drop j u1) < lval v" using V by (simp add: lv)
  with Suc.IH [of u1 "ucast qq # q"] u1 Suc.prems(2)
  obtain u' qs where IH: "div_digits j u1 v (ucast qq # q) = Some (u', qs @ ucast qq # q)"
      "length qs = j" "limbs_ok qs" "ok64 u'" "length u' = length u" "lval u' < lval v"
      "lval u1 = limbs_val qs * lval v + lval u'"
    by auto
  have qb: "S div lval v < 1000000000" using Slt by (simp add: less_mult_imp_div_less)
  then have qq: "unat (ucast qq :: u32) = S div lval v"
    using d(5) by (subst unat_ucast_64_32) simp_all
  have "lval u = lval (take j u) + 1000000000 ^ j * S"
    using lval_step_div [of j u] j by (simp add: S_def)
  also have "\<dots> = lval (take j u) + 1000000000 ^ j * (S mod lval v + S div lval v * lval v)"
    by simp
  also have "\<dots> = lval u1 + 1000000000 ^ j * (S div lval v * lval v)"
    using lval_step_div [of j u1] j u1(2) unfolding lv tk by (simp only: ring_distribs)
  also have "\<dots> = limbs_val (qs @ [ucast qq]) * lval v + lval u'"
    unfolding IH(7) by (simp add: limbs_val_append IH(2) qq ring_distribs ac_simps)
  finally have val: "lval u = limbs_val (qs @ [ucast qq]) * lval v + lval u'" .
  have "div_digits (Suc j) u v q = Some (u', (qs @ [ucast qq]) @ q)"
    using IH(1) by (simp add: d(1) u1_def rest_def)
  with IH(2-6) val qb qq show ?case
    by (intro exI [of _ u'] exI [of _ "qs @ [ucast qq]"]) simp
qed

text \<open>D8\<close>

lemma unscale_msf_spec:
  "ok64 ls \<Longrightarrow> 0 < unat d \<Longrightarrow> unat d \<le> 1000000000 \<Longrightarrow> unat carry < unat d \<Longrightarrow>
     limbs_ok (unscale_msf ls d carry) \<and> length (unscale_msf ls d carry) = length ls \<and>
     limbs_val (rev (unscale_msf ls d carry)) =
       (unat carry * 1000000000 ^ length ls + lval (rev ls)) div unat d"
proof (induction ls arbitrary: carry)
  case Nil
  then show ?case by simp
next
  case (Cons l ls)
  define cur where "cur = carry * 1000000000 + l"
  have l: "unat l < 1000000000" using Cons.prems(1) by simp
  have c: "unat carry + 1 \<le> unat d" "unat carry < 1000000000" using Cons.prems(3,4) by simp_all
  have p: "unat (carry * 1000000000) = unat carry * 1000000000"
    using c by (subst unat_mult64) simp_all
  have cur: "unat cur = unat carry * 1000000000 + unat l"
    unfolding cur_def using l c p by (subst unat_add64) simp_all
  have "unat cur < 1000000000 * unat d" using l c(1) by (simp add: cur)
  then have qb: "unat cur div unat d < 1000000000" by (simp add: less_mult_imp_div_less)
  have q: "unat (ucast (cur div d) :: u32) = unat cur div unat d"
    using qb by (subst unat_ucast_64_32) (simp_all add: unat_div_distrib)
  have m: "unat (cur mod d) = unat cur mod unat d" by (simp add: unat_mod_distrib)
  have mb: "unat (cur mod d) < unat d" using Cons.prems(2) by (simp add: m)
  from Cons.IH [OF _ Cons.prems(2,3) mb] Cons.prems(1)
  have IH: "limbs_ok (unscale_msf ls d (cur mod d))"
    "length (unscale_msf ls d (cur mod d)) = length ls"
    "limbs_val (rev (unscale_msf ls d (cur mod d))) =
       (unat cur mod unat d * 1000000000 ^ length ls + lval (rev ls)) div unat d"
    by (simp_all add: m)
  have "unat carry * 1000000000 ^ length (l # ls) + lval (rev (l # ls)) =
      unat cur * 1000000000 ^ length ls + lval (rev ls)"
    by (simp add: cur lval_append ring_distribs ac_simps)
  also have "\<dots> = (unat cur mod unat d * 1000000000 ^ length ls + lval (rev ls)) +
      unat d * (unat cur div unat d * 1000000000 ^ length ls)"
  proof -
    have "unat cur = unat cur mod unat d + unat d * (unat cur div unat d)" by simp
    then have "unat cur * 1000000000 ^ length ls =
        (unat cur mod unat d + unat d * (unat cur div unat d)) * 1000000000 ^ length ls"
      by (rule arg_cong)
    then show ?thesis by (simp only: ring_distribs ac_simps)
  qed
  finally have "(unat carry * 1000000000 ^ length (l # ls) + lval (rev (l # ls))) div unat d =
      unat cur div unat d * 1000000000 ^ length ls +
      (unat cur mod unat d * 1000000000 ^ length ls + lval (rev ls)) div unat d"
    using Cons.prems(2) by simp
  moreover have "unscale_msf (l # ls) d carry = ucast (cur div d) # unscale_msf ls d (cur mod d)"
    by (simp add: Let_def cur_def)
  ultimately show ?case using IH q qb
    by (simp add: limbs_val_append ac_simps)
qed

section \<open>Correctness of the division\<close>

lemma top_limb:
  assumes "wf_big b" and "limbs b \<noteq> []" and "n = length (limbs b)" and "t = unat (limbs b ! (n - 1))"
  shows "0 < t" and "t < 1000000000" and "bval b < 1000000000 ^ (n - 1) * (t + 1)"
    and "1000000000 ^ (n - 1) * t \<le> bval b"
proof -
  have tl: "t = unat (last (limbs b))" using assms(2) by (simp add: last_conv_nth assms(3,4))
  show "0 < t" "t < 1000000000"
    using assms(1,2) unfolding tl by (auto simp: wf_big_def canonical_def limbs_ok_def unat_gt_0)
  have "limbs b = butlast (limbs b) @ [last (limbs b)]" using assms(2) by simp
  then have "limbs_val (limbs b) = limbs_val (butlast (limbs b) @ [last (limbs b)])" by simp
  also have "\<dots> = limbs_val (butlast (limbs b)) + 1000000000 ^ (n - 1) * t"
    unfolding limbs_val_append tl by (simp add: assms(3))
  finally have s: "bval b = limbs_val (butlast (limbs b)) + 1000000000 ^ (n - 1) * t"
    by (simp add: bval_def)
  have "limbs_val (butlast (limbs b)) < 1000000000 ^ (n - 1)"
    using limbs_val_bound [of "butlast (limbs b)"] assms(1)
    by (simp add: wf_big_def limbs_ok_def assms(3) in_set_butlastD)
  with s show "bval b < 1000000000 ^ (n - 1) * (t + 1)" and "1000000000 ^ (n - 1) * t \<le> bval b"
    by simp_all
qed

lemma scaled_divisor:
  assumes b: "wf_big b" "n = length (limbs b)" "2 \<le> n"
    and d: "d = 1000000000 div (ucast (limbs b ! (n - 1)) + 1)"
    and vs: "scale_limbs (limbs b) d 0 = (v, c)"
  shows "0 < unat d" and "unat d \<le> 500000000" and "ok64 v" and "length v = n"
    and "lval v = bval b * unat d" and "500000000 \<le> unat (v ! (length v - 1))"
proof -
  define t where "t = unat (limbs b ! (n - 1))"
  have bne: "limbs b \<noteq> []" using b(2,3) by auto
  note t = top_limb [OF b(1) bne b(2) t_def]
  have "unat (ucast (limbs b ! (n - 1)) + 1 :: u64) = t + 1"
    using t by (subst unat_add64) (simp_all add: t_def)
  then have du: "unat d = 1000000000 div (t + 1)" by (simp add: d unat_div_distrib)
  note nf = normalise_factor [OF t(1,2) du]
  show "0 < unat d" "unat d \<le> 500000000" by (rule nf)+
  have v: "ok64 v" "length v = n" "lval v + 1000000000 ^ n * unat c = bval b * unat d"
    using scale_limbs_spec [OF _ _ _ vs] b(1) nf(2)
    by (simp_all add: wf_big_def bval_def b(2))
  show "ok64 v" "length v = n" by (rule v)+
  have Bn: "(1000000000 :: nat) ^ n = 1000000000 ^ (n - 1) * 1000000000"
    using b(3) by (cases n) simp_all
  have "bval b * unat d < 1000000000 ^ (n - 1) * (t + 1) * unat d"
    using t(3) nf(1) by (rule mult_less_mono1)
  also have "\<dots> = 1000000000 ^ (n - 1) * (unat d * (t + 1))" by (simp only: ac_simps)
  also have "\<dots> \<le> 1000000000 ^ n" unfolding Bn by (rule mult_le_mono2 [OF nf(3)])
  finally have "bval b * unat d < 1000000000 ^ n" .
  then have "unat c = 0" using v(3) by (cases "unat c") auto
  with v(3) show V: "lval v = bval b * unat d" by simp
  have "lval v = lval (take (n - 1) v) + 1000000000 ^ (n - 1) * unat (v ! (n - 1))"
    using lval_take_Suc [of "n - 1" v] v(2) b(3) by simp
  moreover have "lval (take (n - 1) v) < 1000000000 ^ (n - 1)" by (rule lval_take_bound [OF v(1)])
  moreover have "1000000000 ^ (n - 1) * t * unat d \<le> lval v"
    unfolding V by (rule mult_le_mono1 [OF t(4)])
  ultimately have "1000000000 ^ (n - 1) * (unat d * t) < 1000000000 ^ (n - 1) * (unat (v ! (n - 1)) + 1)"
    by (simp add: ring_distribs ac_simps)
  then have "unat d * t < unat (v ! (n - 1)) + 1" by (simp only: mult_less_cancel1)
  with nf(4) v(2) show "500000000 \<le> unat (v ! (length v - 1))" by simp
qed

lemma scaled_dividend:
  assumes "wf_big a" and "0 < unat d" and "unat d \<le> 500000000"
    and us: "scale_limbs (limbs a) d 0 = (ua, carry)"
  shows "ok64 (ua @ [carry])" and "length (ua @ [carry]) = length (limbs a) + 1"
    and "lval (ua @ [carry]) = bval a * unat d"
    and "bval a * unat d < 1000000000 ^ length (limbs a) * unat d"
proof -
  have u: "ok64 ua" "length ua = length (limbs a)"
    "lval ua + 1000000000 ^ length (limbs a) * unat carry = bval a * unat d"
    using scale_limbs_spec [OF _ _ _ us] assms(1,3) by (simp_all add: wf_big_def bval_def)
  show lt: "bval a * unat d < 1000000000 ^ length (limbs a) * unat d"
    using limbs_val_bound [of "limbs a"] assms(1,2)
    by (intro mult_less_mono1) (simp_all add: wf_big_def bval_def)
  have "1000000000 ^ length (limbs a) * unat carry \<le> bval a * unat d"
    using u(3) by simp
  also note lt
  finally have "unat carry < unat d" by (simp only: mult_less_cancel1)
  with u assms(3) show "ok64 (ua @ [carry])" "length (ua @ [carry]) = length (limbs a) + 1"
    "lval (ua @ [carry]) = bval a * unat d"
    by (simp_all add: lval_append)
qed

text \<open>The multi-limb branch: Algorithm D proper.\<close>

lemma div_rem_long:
  assumes ab: "wf_big a" "wf_big b" "bval b \<le> bval a"
    and n: "n = length (limbs b)" "2 \<le> n" and m: "m = length (limbs a) - n"
    and d: "d = 1000000000 div (ucast (limbs b ! (n - 1)) + 1)"
    and vs: "scale_limbs (limbs b) d 0 = (v, c)" and us: "scale_limbs (limbs a) d 0 = (ua, carry)"
  shows "\<exists>u q. div_digits (m + 1) (ua @ [carry]) v [] = Some (u, q) \<and> limbs_ok q \<and>
    ok64 u \<and> limbs_val q = bval a div bval b \<and> lval u = (bval a mod bval b) * unat d \<and>
    lval u < 1000000000 ^ n"
proof -
  note sd = scaled_divisor [OF ab(2) n d vs]
  note sv = scaled_dividend [OF ab(1) sd(1,2) us]
  have len: "n \<le> length (limbs a)"
    using canonical_longer [OF ab(1,2)] ab(3) n(1) by linarith
  have "1000000000 ^ (m + 1) * lval (drop (m + 1) (ua @ [carry])) \<le> bval a * unat d"
    using lval_step_div [of "m + 1" "ua @ [carry]"] sv(2,3) m len by simp
  also note sv(4)
  also have "1000000000 ^ length (limbs a) * unat d =
      1000000000 ^ (m + 1) * (1000000000 ^ (n - 1) * unat d)"
  proof -
    have "length (limbs a) = (m + 1) + (n - 1)" using len n(2) m by simp
    then have "(1000000000 :: nat) ^ length (limbs a) = 1000000000 ^ (m + 1) * 1000000000 ^ (n - 1)"
      by (simp only: power_add)
    then show ?thesis by (simp only: mult.assoc)
  qed
  also have "\<dots> \<le> 1000000000 ^ (m + 1) * lval v"
  proof -
    have "limbs b \<noteq> []" using n by auto
    then have "1000000000 ^ (n - 1) \<le> bval b"
      using canonical_lower [of "limbs b"] ab(2) by (simp add: wf_big_def bval_def n(1))
    then show ?thesis unfolding sd(5) by (intro mult_le_mono2 mult_le_mono1)
  qed
  finally have top: "lval (drop (m + 1) (ua @ [carry])) < lval v" by (simp only: mult_less_cancel1)
  have v2: "2 \<le> length v" using sd(4) n(2) by simp
  have ul: "m + 1 + length v \<le> length (ua @ [carry])" using sv(2) sd(4) m len by simp
  from div_digits_spec [OF sd(3) v2 sd(6) sv(1) ul top, of "[]"]
  obtain u q where dd: "div_digits (m + 1) (ua @ [carry]) v [] = Some (u, q)" "limbs_ok q"
      "ok64 u" "lval u < lval v" "bval a * unat d = limbs_val q * lval v + lval u"
    unfolding sv(3) by auto
  have "limbs_val q = (bval a * unat d) div lval v" "lval u = (bval a * unat d) mod lval v"
    unfolding dd(5) using dd(4) by simp_all
  then have "limbs_val q = bval a div bval b" "lval u = (bval a mod bval b) * unat d"
    unfolding sd(5) using sd(1) by (simp_all add: mod_mult_mult2)
  moreover have "lval u < 1000000000 ^ n" using dd(4) lval_bound [OF sd(3)] sd(4) by simp
  ultimately show ?thesis using dd(1-3) by blast
qed

lemma biguint_div_rem_val:
  assumes "wf_big a" and "wf_big b" and "bval b \<noteq> 0"
  shows "\<exists>q r. biguint_div_rem a b = Some (q, r) \<and> wf_big q \<and> wf_big r \<and>
    bval q = bval a div bval b \<and> bval r = bval a mod bval b"
proof -
  consider (less) "biguint_cmp a b = Less"
    | (single) "biguint_cmp a b \<noteq> Less" "length (limbs b) = 1"
    | (long) "biguint_cmp a b \<noteq> Less" "length (limbs b) \<noteq> 1" by blast
  then show ?thesis
  proof cases
    case less
    then have "bval a < bval b" using assms by (simp add: biguint_cmp_val)
    with less assms show ?thesis by (simp add: biguint_div_rem_def)
  next
    case single
    then obtain l where l: "limbs b = [l]" by (cases "limbs b") auto
    have bl: "bval b = unat l" by (simp add: bval_def l)
    then have lz: "l \<noteq> 0" using assms(3) by auto
    obtain q r where qr: "biguint_div_rem_small a l = (q, r)" by force
    have s: "bval q = bval a div unat l" "unat r = bval a mod unat l" "wf_big q"
      using biguint_div_rem_small_val [OF _ lz qr] assms(1) by (simp_all add: wf_big_def)
    have "unat r < unat l" using lz s(2) by (simp add: unat_gt_0)
    then have "unat r < 1000000000" using assms(2) l by (simp add: wf_big_def)
    then have "wf_big (if r = 0 then biguint_zero else \<lparr>limbs = [r]\<rparr>)"
      "bval (if r = 0 then biguint_zero else \<lparr>limbs = [r]\<rparr>) = unat r"
      by (simp_all add: wf_big_def canonical_def bval_def biguint_zero_def)
    with single s l bl qr show ?thesis by (simp add: biguint_div_rem_def)
  next
    case long
    have ab: "bval b \<le> bval a" using long(1) assms by (simp add: biguint_cmp_val not_less)
    define n where "n = length (limbs b)"
    have "limbs b \<noteq> []" using assms(3) by (auto simp: bval_def)
    then have n2: "2 \<le> n" using long(2) by (cases "limbs b"; cases "tl (limbs b)") (auto simp: n_def)
    define d :: u64 where "d = 1000000000 div (ucast (limbs b ! (n - 1)) + 1)"
    obtain v c where vs: "scale_limbs (limbs b) d 0 = (v, c)" by force
    obtain ua carry where us: "scale_limbs (limbs a) d 0 = (ua, carry)" by force
    note sd = scaled_divisor [OF assms(2) n_def n2 d_def vs]
    obtain u q where dd: "div_digits (length (limbs a) - n + 1) (ua @ [carry]) v [] = Some (u, q)"
        "limbs_ok q" "ok64 u" "limbs_val q = bval a div bval b"
        "lval u = (bval a mod bval b) * unat d" "lval u < 1000000000 ^ n"
      using div_rem_long [OF assms(1,2) ab n_def n2 refl d_def vs us] by blast
    define rl where "rl = unscale_msf (rev (take n u)) d 0"
    have ok: "ok64 (rev (take n u))" using dd(3) by (auto simp: ok64_def dest: in_set_takeD)
    have rl: "limbs_ok rl" "limbs_val (rev rl) = bval a mod bval b"
      using unscale_msf_spec [OF ok, of d 0] sd(1,2) dd(5) lval_take_small [OF dd(3,6)]
      by (simp_all add: rl_def)
    have "biguint_div_rem a b =
        Some (biguint_normalize \<lparr>limbs = q\<rparr>, biguint_normalize \<lparr>limbs = rev rl\<rparr>)"
      unfolding biguint_div_rem_def Let_def n_def [symmetric] d_def [symmetric] vs us
      using long n_def dd(1) by (simp add: rl_def)
    then show ?thesis
      using dd(2,4) rl by (auto intro!: wf_normalize) (simp_all add: bval_def)
  qed
qed

section \<open>Division by a power of ten\<close>

definition biguint_div_rem_pow10 :: "big_uint \<Rightarrow> nat \<Rightarrow> big_uint \<times> big_uint" where
  "biguint_div_rem_pow10 a k =
     (if biguint_is_zero a \<or> k = 0 then (a, biguint_zero)
      else let full = k div 9;
               part = k mod 9;
               (q, rem) =
                 (if 0 < part
                  then (let (qs, r) = div_limbs_msf (rev (limbs a)) (10 ^ part) 0
                        in (pop_zeros (rev qs), r))
                  else (limbs a, 0));
               (q_limbs, r_lo) =
                 (if length q \<le> full then ([], q) else (drop full q, take full q));
               r1 = \<lparr>limbs = r_lo\<rparr>;
               r2 = (if 0 < part then biguint_mul_small_assign r1 (10 ^ part) else r1);
               r3 = (if 0 < rem then biguint_add_small_assign r2 (ucast rem) else r2)
           in (\<lparr>limbs = q_limbs\<rparr>, biguint_normalize r3))"

lemma unat_pow10_32: "k < 9 \<Longrightarrow> unat (10 ^ k :: u32) = 10 ^ k"
proof -
  assume "k < 9"
  then have "k \<in> {0, 1, 2, 3, 4, 5, 6, 7, 8}" by auto
  then show ?thesis by auto
qed

text \<open>Step 1: the quotient and remainder by the partial power.\<close>

lemma pow10_part:
  assumes "wf_big a" and "p < 9"
  shows "\<exists>q rem. (if 0 < p
           then (case div_limbs_msf (rev (limbs a)) (10 ^ p) 0 of (qs, r) \<Rightarrow> (pop_zeros (rev qs), r))
           else (limbs a, 0)) = (q, rem) \<and>
    limbs_ok q \<and> canonical q \<and> bval a = limbs_val q * 10 ^ p + unat rem \<and> unat rem < 10 ^ p"
proof (cases "0 < p")
  case True
  obtain qs r where e: "div_limbs_msf (rev (limbs a)) (10 ^ p) 0 = (qs, r)" by force
  have "unat (10 ^ p :: u32) = 10 ^ p" by (rule unat_pow10_32 [OF assms(2)])
  with div_limbs_msf_spec [OF e] assms(1) True e show ?thesis
    by (simp add: wf_big_def bval_def)
next
  case False
  with assms show ?thesis by (simp add: wf_big_def bval_def)
qed

text \<open>Step 2: splitting at a limb boundary divides by a power of the base.\<close>

lemma limb_split:
  assumes "limbs_ok q" and "canonical q"
    and "(hi, lo) = (if length q \<le> full then ([], q) else (drop full q, take full q))"
  shows "limbs_val q = limbs_val hi * 1000000000 ^ full + limbs_val lo"
    and "limbs_ok hi" and "canonical hi" and "limbs_ok lo" and "limbs_val lo < 1000000000 ^ full"
proof -
  have td: "limbs_ok (take full q)" "limbs_ok (drop full q)"
    using assms(1) by (auto simp: limbs_ok_def dest: in_set_takeD in_set_dropD)
  show "limbs_ok hi" "limbs_ok lo" "canonical hi"
    using assms td by (auto simp: canonical_def split: if_splits)
  have lo: "limbs_val lo < 1000000000 ^ length lo"
    using \<open>limbs_ok lo\<close> by (rule limbs_val_bound)
  also have "\<dots> \<le> 1000000000 ^ full"
    using assms(3) by (intro power_increasing) (auto split: if_splits)
  finally show "limbs_val lo < 1000000000 ^ full" .
  have "limbs_val (take full q @ drop full q) =
      limbs_val (take full q) + 1000000000 ^ length (take full q) * limbs_val (drop full q)"
    by (rule limbs_val_append)
  then show "limbs_val q = limbs_val hi * 1000000000 ^ full + limbs_val lo"
    using assms(3) by (auto simp: min_absorb2 split: if_splits)
qed

lemma pow10_digits: "(10 :: nat) ^ k = 1000000000 ^ (k div 9) * 10 ^ (k mod 9)"
proof -
  have "(10 :: nat) ^ (9 * (k div 9) + k mod 9) = (10 ^ 9) ^ (k div 9) * 10 ^ (k mod 9)"
    by (simp only: power_add power_mult)
  then show ?thesis by simp
qed

lemma split_div_mod:
  fixes x :: nat
  assumes "x = (h * B + l) * p + r" and "r < p" and "l < B"
  shows "x div (B * p) = h" and "x mod (B * p) = l * p + r"
proof -
  have "l * p + r < l * p + p" using assms(2) by simp
  also have "\<dots> = (l + 1) * p" by simp
  also have "\<dots> \<le> B * p" using assms(3) by (intro mult_le_mono1) simp
  finally have lt: "l * p + r < B * p" .
  have "x = h * (B * p) + (l * p + r)" unfolding assms(1) by (simp add: ring_distribs ac_simps)
  moreover have "(h * c + y) div c = h" "(h * c + y) mod c = y" if "y < c" for c y :: nat
    using that by simp_all
  ultimately show "x div (B * p) = h" and "x mod (B * p) = l * p + r" using lt by metis+
qed

lemma biguint_div_rem_pow10_val:
  assumes "wf_big a" and "biguint_div_rem_pow10 a k = (q, r)"
  shows "bval q = bval a div 10 ^ k \<and> bval r = bval a mod 10 ^ k \<and> wf_big q \<and> wf_big r"
proof (cases "biguint_is_zero a \<or> k = 0")
  case True
  then show ?thesis
    using assms wf_is_zero [OF assms(1)] by (auto simp: biguint_div_rem_pow10_def)
next
  case False
  define p full where "p = k mod 9" and "full = k div 9"
  have p9: "p < 9" by (simp add: p_def)
  obtain q1 rem where s1: "(if 0 < p
      then (case div_limbs_msf (rev (limbs a)) (10 ^ p) 0 of (qs, r) \<Rightarrow> (pop_zeros (rev qs), r))
      else (limbs a, 0)) = (q1, rem)" "limbs_ok q1" "canonical q1"
      "bval a = limbs_val q1 * 10 ^ p + unat rem" "unat rem < 10 ^ p"
    using pow10_part [OF assms(1) p9] by blast
  obtain hi lo where s2: "(hi, lo) =
      (if length q1 \<le> full then ([], q1) else (drop full q1, take full q1))"
    by (metis surj_pair)
  note ls = limb_split [OF s1(2,3) s2]
  define r2 where "r2 = (if 0 < p then biguint_mul_small_assign \<lparr>limbs = lo\<rparr> (10 ^ p) else \<lparr>limbs = lo\<rparr>)"
  define r3 where "r3 = (if 0 < rem then biguint_add_small_assign r2 (ucast rem) else r2)"
  have qr: "q = \<lparr>limbs = hi\<rparr>" "r = biguint_normalize r3"
    using assms(2) False
    unfolding biguint_div_rem_pow10_def Let_def p_def [symmetric] full_def [symmetric] s1(1) prod.case
      s2 [symmetric] r2_def [symmetric] r3_def [symmetric]
    by simp_all
  have r2: "bval r2 = limbs_val lo * 10 ^ p" "limbs_ok (limbs r2)"
    using biguint_mul_small_assign_val [of "\<lparr>limbs = lo\<rparr>" "10 ^ p"] ls(4) unat_pow10 [OF p9]
    by (auto simp: r2_def bval_def)
  have remb: "unat rem < 1000000000"
  proof -
    have "(10 :: nat) ^ p \<le> 10 ^ 8" using p9 by (intro power_increasing) simp_all
    with s1(5) show ?thesis by simp
  qed
  then have ru: "unat (ucast rem :: u32) = unat rem" by (subst unat_ucast_64_32) simp_all
  have r3: "bval r3 = limbs_val lo * 10 ^ p + unat rem" "limbs_ok (limbs r3)"
    using biguint_add_small_assign_val [OF r2(2), of "ucast rem"] r2 ru remb
    by (auto simp: r3_def word_gt_0)
  have v: "bval a = (limbs_val hi * 1000000000 ^ full + limbs_val lo) * 10 ^ p + unat rem"
    using s1(4) ls(1) by simp
  note dm = split_div_mod [OF v s1(5) ls(5), folded p_def full_def]
  have "(10 :: nat) ^ k = 1000000000 ^ full * 10 ^ p"
    unfolding p_def full_def by (rule pow10_digits)
  with dm r3 ls(2,3) show ?thesis
    unfolding qr by (auto simp: wf_big_def bval_def biguint_normalize_def)
qed

section \<open>Bounded floor division\<close>

text \<open>The bisection of \<^verbatim>\<open>floor_div_bounded\<close>; the first argument is the number of rounds.\<close>

fun floor_div_loop :: "nat \<Rightarrow> big_uint \<Rightarrow> big_uint \<Rightarrow> big_uint \<Rightarrow> big_uint \<Rightarrow> big_uint" where
  "floor_div_loop 0 a b lo hi = lo"
| "floor_div_loop (Suc k) a b lo hi =
     (let mid = biguint_div_small_assign (biguint_add_assign lo hi) 2
      in if biguint_cmp (biguint_mul mid b) a \<noteq> Greater
         then floor_div_loop k a b mid hi
         else floor_div_loop k a b lo mid)"

definition biguint_floor_div_bounded :: "big_uint \<Rightarrow> big_uint \<Rightarrow> big_uint option" where
  "biguint_floor_div_bounded a b =
     (let limit = biguint_mul_small_assign b 2147483648
      in if biguint_cmp a limit \<noteq> Less then None
         else Some (floor_div_loop 31 a b biguint_zero (biguint_from_u64 2147483648)))"

lemma small_length: "wf_big b \<Longrightarrow> bval b < 1000000000 ^ k \<Longrightarrow> length (limbs b) \<le> k"
proof (rule ccontr)
  assume w: "wf_big b" and lt: "bval b < 1000000000 ^ k" and "\<not> length (limbs b) \<le> k"
  then have k: "k \<le> length (limbs b) - Suc 0" and ne: "limbs b \<noteq> []" by auto
  have "(1000000000 :: nat) ^ k \<le> 1000000000 ^ (length (limbs b) - Suc 0)"
    using k by (intro power_increasing) simp_all
  also have "\<dots> \<le> bval b" using canonical_lower [OF _ ne] w by (simp add: wf_big_def bval_def)
  finally show False using lt by simp
qed

lemma floor_div_loop_spec:
  assumes ab: "wf_big a" "wf_big b"
  shows "wf_big lo \<Longrightarrow> wf_big hi \<Longrightarrow> bval hi = bval lo + 2 ^ k \<Longrightarrow> bval hi \<le> 2147483648 \<Longrightarrow>
    bval lo * bval b \<le> bval a \<Longrightarrow> bval a < bval hi * bval b \<Longrightarrow>
      wf_big (floor_div_loop k a b lo hi) \<and> bval (floor_div_loop k a b lo hi) = bval a div bval b"
proof (induction k arbitrary: lo hi)
  case 0
  have "bval a div bval b = bval lo"
  proof (rule div_nat_eqI)
    show "bval b * bval lo \<le> bval a" using 0 by (simp add: ac_simps)
    show "bval a < bval b * Suc (bval lo)" using 0 by (simp add: ac_simps)
  qed
  with 0 show ?case by simp
next
  case (Suc k)
  define mid where "mid = biguint_div_small_assign (biguint_add_assign lo hi) 2"
  have s: "bval (biguint_add_assign lo hi) = bval lo + bval hi" "wf_big (biguint_add_assign lo hi)"
    using biguint_add_assign_val [OF Suc.prems(1,2)] by simp_all
  have mid: "bval mid = bval lo + 2 ^ k" "wf_big mid"
    using biguint_div_small_assign_val [of "biguint_add_assign lo hi" 2] s Suc.prems(3)
    by (auto simp: mid_def wf_big_def)
  have "bval mid < 1000000000 ^ 2" using mid(1) Suc.prems(3,4) by simp
  then have "length (limbs mid) \<le> 2" by (rule small_length [OF mid(2)])
  then have mul: "bval (biguint_mul mid b) = bval mid * bval b" "wf_big (biguint_mul mid b)"
    using biguint_mul_val [OF mid(2) ab(2)] by simp_all
  have c: "biguint_cmp (biguint_mul mid b) a \<noteq> Greater \<longleftrightarrow> bval mid * bval b \<le> bval a"
    by (simp add: biguint_cmp_val [OF mul(2) ab(1)] mul(1) not_less)
  have h: "bval hi = bval mid + 2 ^ k" "bval mid \<le> 2147483648"
    using mid(1) Suc.prems(3,4) by simp_all
  show ?case
  proof (cases "bval mid * bval b \<le> bval a")
    case True
    with Suc.IH [OF mid(2) Suc.prems(2) h(1) Suc.prems(4) _ Suc.prems(6)] c show ?thesis
      by (simp add: mid_def [symmetric])
  next
    case False
    then have "bval a < bval mid * bval b" by simp
    with Suc.IH [OF Suc.prems(1) mid(2) mid(1) h(2) Suc.prems(5)] c False show ?thesis
      by (simp add: mid_def [symmetric])
  qed
qed

lemma biguint_floor_div_bounded_val:
  assumes "wf_big a" and "wf_big b" and "bval b \<noteq> 0"
  shows "if bval a div bval b < 2147483648
    then \<exists>q. biguint_floor_div_bounded a b = Some q \<and> wf_big q \<and> bval q = bval a div bval b
    else biguint_floor_div_bounded a b = None"
proof -
  have lim: "bval (biguint_mul_small_assign b 2147483648) = bval b * 2147483648"
    "wf_big (biguint_mul_small_assign b 2147483648)"
    using assms(2) biguint_mul_small_assign_val [of b] biguint_mul_small_assign_wf
    by (simp_all add: wf_big_def)
  have eq: "biguint_cmp a (biguint_mul_small_assign b 2147483648) \<noteq> Less \<longleftrightarrow>
      \<not> bval a div bval b < 2147483648"
    using assms(3) by (simp add: biguint_cmp_val [OF assms(1) lim(2)] lim(1) div_less_iff_less_mult ac_simps)
  show ?thesis
  proof (cases "bval a div bval b < 2147483648")
    case True
    then have "bval a < 2147483648 * bval b"
      using assms(3) by (simp add: div_less_iff_less_mult)
    then show ?thesis
      using floor_div_loop_spec [OF assms(1,2) wf_zero wf_from_u64, of 2147483648 31] True eq
      by (simp add: biguint_floor_div_bounded_def Let_def)
  next
    case False
    with eq show ?thesis by (simp add: biguint_floor_div_bounded_def Let_def)
  qed
qed

section \<open>Properties\<close>

text \<open>
  C16. Addition, subtraction, multiplication and comparison of canonical numbers are the
  operations on the natural numbers they denote, and their results are canonical: no
  limb, carry or borrow wraps around.
\<close>

theorem biguint_arithmetic:
  assumes "wf_big a" and "wf_big b" and "length (limbs a) < 2 ^ 64"
  shows "bval (biguint_add_assign a b) = bval a + bval b \<and> wf_big (biguint_add_assign a b) \<and>
    (bval b \<le> bval a \<longrightarrow>
      bval (biguint_sub_assign a b) = bval a - bval b \<and> wf_big (biguint_sub_assign a b)) \<and>
    bval (biguint_mul a b) = bval a * bval b \<and> wf_big (biguint_mul a b) \<and>
    biguint_cmp a b = ord_cmp (bval a) (bval b)"
  using assms biguint_add_assign_val biguint_sub_assign_val biguint_mul_val biguint_cmp_val
  by simp

lemma biguint_arithmetic_witness:
  "bval (biguint_mul \<lparr>limbs = [999999999, 3]\<rparr> \<lparr>limbs = [7, 999999999]\<rparr>) =
     bval \<lparr>limbs = [999999999, 3]\<rparr> * bval \<lparr>limbs = [7, 999999999]\<rparr>"
  using biguint_arithmetic [of "\<lparr>limbs = [999999999, 3]\<rparr>" "\<lparr>limbs = [7, 999999999]\<rparr>"]
  by (simp add: wf_big_def canonical_def)

text \<open>
  C15. Knuth division returns for every pair of canonical operands with a nonzero divisor
  (its correction and add-back loops end), and returns the quotient and the remainder
  of the values, in canonical form.
\<close>

theorem knuth_division:
  assumes "wf_big a" and "wf_big b" and "bval b \<noteq> 0"
  shows "\<exists>q r. biguint_div_rem a b = Some (q, r) \<and> wf_big q \<and> wf_big r \<and>
    bval q = bval a div bval b \<and> bval r = bval a mod bval b"
  using assms by (rule biguint_div_rem_val)

lemma knuth_division_witness:
  "\<exists>q r. biguint_div_rem \<lparr>limbs = [0, 0, 500000000]\<rparr> \<lparr>limbs = [999999999, 1]\<rparr> = Some (q, r) \<and>
     bval r = bval \<lparr>limbs = [0, 0, 500000000]\<rparr> mod bval \<lparr>limbs = [999999999, 1]\<rparr>"
proof -
  have "wf_big \<lparr>limbs = [0, 0, 500000000]\<rparr>" "wf_big \<lparr>limbs = [999999999, 1]\<rparr>"
    "bval \<lparr>limbs = [999999999, 1]\<rparr> \<noteq> 0"
    by (simp_all add: wf_big_def canonical_def bval_def)
  from knuth_division [OF this] show ?thesis by blast
qed

text \<open>
  Division by \<open>10 ^ k\<close> by limb shifting agrees with integer division, and the
  bounded bisection returns the floor quotient exactly when it is below \<open>2 ^ 31\<close>.
\<close>

theorem division_fast_paths:
  assumes "wf_big a" and "wf_big b" and "bval b \<noteq> 0"
  shows "bval (fst (biguint_div_rem_pow10 a k)) = bval a div 10 ^ k \<and>
    bval (snd (biguint_div_rem_pow10 a k)) = bval a mod 10 ^ k \<and>
    map_option bval (biguint_floor_div_bounded a b) =
      (if bval a div bval b < 2 ^ 31 then Some (bval a div bval b) else None)"
proof -
  have "biguint_div_rem_pow10 a k = (fst (biguint_div_rem_pow10 a k), snd (biguint_div_rem_pow10 a k))"
    by simp
  from biguint_div_rem_pow10_val [OF assms(1) this] biguint_floor_div_bounded_val [OF assms]
  show ?thesis by (auto split: if_splits)
qed

lemma division_fast_paths_witness:
  "bval (snd (biguint_div_rem_pow10 \<lparr>limbs = [123456789, 42]\<rparr> 4)) = bval \<lparr>limbs = [123456789, 42]\<rparr> mod 10 ^ 4"
  using division_fast_paths [of "\<lparr>limbs = [123456789, 42]\<rparr>" "\<lparr>limbs = [7]\<rparr>" 4]
  by (simp add: wf_big_def canonical_def bval_def)

end
