(* ===== verification/SqlTypes.thy ===== *)
theory SqlTypes
  imports BigUint
begin

unbundle bit_operations_syntax

text \<open>
  \<^verbatim>\<open>storage.rs\<close>: the data model. SQL column types (\<^verbatim>\<open>ColType\<close>, \<^verbatim>\<open>ArrayElem\<close>,
  \<^verbatim>\<open>RangeElem\<close>), the cell values (\<^verbatim>\<open>Value\<close> and the composite values it holds), bit
  strings and the TOAST compression codes. Signed machine integers are words read
  through \<open>sint\<close>; a float is its IEEE bit pattern; a Rust string is its UTF-8 bytes.
\<close>

section \<open>Column types\<close>

type_synonym i16 = "16 word"
type_synonym i32 = "32 word"
type_synonym i64 = "64 word"

datatype range_elem =
    ReInt4
  | ReInt8
  | ReInt2
  | ReNum
  | ReDate
  | ReTs
  | ReTstz
  | ReText
  | ReFloat8

datatype array_elem =
    AeBool
  | AeBytea
  | AeSingleChar
  | AeName
  | AeSmallInt
  | AeInt
  | AeText
  | AeChar
  | AeVarchar
  | AeBigInt
  | AeFloat4
  | AeFloat
  | AeDate
  | AeTimestamp
  | AeTimestamptz
  | AeTime
  | AeTimeTz
  | AeInterval
  | AeNumeric
  | AeUuid
  | AeRegclass
  | AeJson
  | AeRecord
  | AePgLsn
  | AeXid
  | AeBit
  | AeTid
  | AeTsVector
  | AeTsQuery

datatype col_type =
    CtInt
  | CtBigInt
  | CtSmallInt
  | CtFloat
  | CtFloat4
  | CtNumeric "(u32 \<times> i32) option"
  | CtText
  | CtChar "i32 option"
  | CtVarchar "i32 option"
  | CtSingleChar
  | CtBool
  | CtDate
  | CtTimestamp
  | CtTimestamptz
  | CtTime
  | CtTimeTz
  | CtInterval
  | CtBytea
  | CtBit
  | CtUuid
  | CtRegclass
  | CtRegproc
  | CtOid
  | CtInet
  | CtName
  | CtPgLsn
  | CtXid
  | CtTid
  | CtRecord
  | CtComposite
  | CtJson
  | CtJsonb
  | CtJsonpath
  | CtRange range_elem
  | CtMultirange range_elem
  | CtTsVector
  | CtTsQuery
  | CtArray array_elem


text \<open>The derived \<^verbatim>\<open>Ord\<close> of \<^verbatim>\<open>RangeElem\<close> is the order of the declaration.\<close>

fun range_elem_rank :: "range_elem \<Rightarrow> nat" where
  "range_elem_rank ReInt4 = 0"
| "range_elem_rank ReInt8 = 1"
| "range_elem_rank ReInt2 = 2"
| "range_elem_rank ReNum = 3"
| "range_elem_rank ReDate = 4"
| "range_elem_rank ReTs = 5"
| "range_elem_rank ReTstz = 6"
| "range_elem_rank ReText = 7"
| "range_elem_rank ReFloat8 = 8"

lemma range_elem_rank_inj: "range_elem_rank a = range_elem_rank b \<Longrightarrow> a = b"
  by (cases a; cases b) simp_all

instantiation range_elem :: linorder
begin

definition less_eq_range_elem :: "range_elem \<Rightarrow> range_elem \<Rightarrow> bool" where
  "less_eq_range_elem a b \<longleftrightarrow> range_elem_rank a \<le> range_elem_rank b"

definition less_range_elem :: "range_elem \<Rightarrow> range_elem \<Rightarrow> bool" where
  "less_range_elem a b \<longleftrightarrow> range_elem_rank a < range_elem_rank b"

instance
  by standard (auto simp: less_eq_range_elem_def less_range_elem_def intro: range_elem_rank_inj)

end

fun discrete :: "range_elem \<Rightarrow> bool" where
  "discrete ReInt4 = True"
| "discrete ReInt8 = True"
| "discrete ReInt2 = True"
| "discrete ReDate = True"
| "discrete _ = False"

fun range_name :: "range_elem \<Rightarrow> string option" where
  "range_name ReInt4 = Some ''int4range''"
| "range_name ReInt8 = Some ''int8range''"
| "range_name ReNum = Some ''numrange''"
| "range_name ReDate = Some ''daterange''"
| "range_name ReTs = Some ''tsrange''"
| "range_name ReTstz = Some ''tstzrange''"
| "range_name _ = None"

fun multirange_name :: "range_elem \<Rightarrow> string option" where
  "multirange_name ReInt4 = Some ''int4multirange''"
| "multirange_name ReInt8 = Some ''int8multirange''"
| "multirange_name ReNum = Some ''nummultirange''"
| "multirange_name ReDate = Some ''datemultirange''"
| "multirange_name ReTs = Some ''tsmultirange''"
| "multirange_name ReTstz = Some ''tstzmultirange''"
| "multirange_name _ = None"

fun elem_typname :: "range_elem \<Rightarrow> string" where
  "elem_typname ReInt4 = ''integer''"
| "elem_typname ReInt8 = ''bigint''"
| "elem_typname ReInt2 = ''smallint''"
| "elem_typname ReNum = ''numeric''"
| "elem_typname ReDate = ''date''"
| "elem_typname ReTs = ''timestamp without time zone''"
| "elem_typname ReTstz = ''timestamp with time zone''"
| "elem_typname ReText = ''text''"
| "elem_typname ReFloat8 = ''double precision''"

fun range_elem_code :: "range_elem \<Rightarrow> u8" where
  "range_elem_code ReInt4 = 0"
| "range_elem_code ReInt8 = 1"
| "range_elem_code ReNum = 2"
| "range_elem_code ReDate = 3"
| "range_elem_code ReTs = 4"
| "range_elem_code ReTstz = 5"
| "range_elem_code ReInt2 = 6"
| "range_elem_code ReText = 7"
| "range_elem_code ReFloat8 = 8"

definition range_elem_from_code :: "u8 \<Rightarrow> range_elem option" where
  "range_elem_from_code c =
     (if c = 0 then Some ReInt4 else if c = 1 then Some ReInt8 else if c = 2 then Some ReNum
      else if c = 3 then Some ReDate else if c = 4 then Some ReTs else if c = 5 then Some ReTstz
      else if c = 6 then Some ReInt2 else if c = 7 then Some ReText
      else if c = 8 then Some ReFloat8 else None)"

fun range_elem_of_coltype :: "col_type \<Rightarrow> range_elem option" where
  "range_elem_of_coltype CtInt = Some ReInt4"
| "range_elem_of_coltype CtBigInt = Some ReInt8"
| "range_elem_of_coltype CtSmallInt = Some ReInt2"
| "range_elem_of_coltype (CtNumeric _) = Some ReNum"
| "range_elem_of_coltype CtDate = Some ReDate"
| "range_elem_of_coltype CtTimestamp = Some ReTs"
| "range_elem_of_coltype CtTimestamptz = Some ReTstz"
| "range_elem_of_coltype CtText = Some ReText"
| "range_elem_of_coltype (CtChar _) = Some ReText"
| "range_elem_of_coltype (CtVarchar _) = Some ReText"
| "range_elem_of_coltype CtFloat = Some ReFloat8"
| "range_elem_of_coltype _ = None"

fun array_oid :: "array_elem \<Rightarrow> nat" where
  "array_oid AeBool = 1000"
| "array_oid AeBytea = 1001"
| "array_oid AeSingleChar = 1002"
| "array_oid AeName = 1003"
| "array_oid AeSmallInt = 1005"
| "array_oid AeInt = 1007"
| "array_oid AeText = 1009"
| "array_oid AeChar = 1014"
| "array_oid AeVarchar = 1015"
| "array_oid AeBigInt = 1016"
| "array_oid AeFloat4 = 1021"
| "array_oid AeFloat = 1022"
| "array_oid AeDate = 1182"
| "array_oid AeTimestamp = 1115"
| "array_oid AeTimestamptz = 1185"
| "array_oid AeTime = 1183"
| "array_oid AeTimeTz = 1270"
| "array_oid AeInterval = 1187"
| "array_oid AeNumeric = 1231"
| "array_oid AeUuid = 2951"
| "array_oid AeRegclass = 2206"
| "array_oid AeJson = 199"
| "array_oid AeRecord = 2287"
| "array_oid AePgLsn = 3221"
| "array_oid AeXid = 1011"
| "array_oid AeTid = 1010"
| "array_oid AeTsVector = 3616"
| "array_oid AeTsQuery = 3645"
| "array_oid AeBit = 1561"

fun array_elem_sql_name :: "array_elem \<Rightarrow> string" where
  "array_elem_sql_name AeBool = ''boolean''"
| "array_elem_sql_name AeBytea = ''bytea''"
| "array_elem_sql_name AeSingleChar = CHR 0x22 # ''char'' @ [CHR 0x22]"
| "array_elem_sql_name AeName = ''name''"
| "array_elem_sql_name AeSmallInt = ''smallint''"
| "array_elem_sql_name AeInt = ''integer''"
| "array_elem_sql_name AeText = ''text''"
| "array_elem_sql_name AeChar = ''character''"
| "array_elem_sql_name AeVarchar = ''character varying''"
| "array_elem_sql_name AeBigInt = ''bigint''"
| "array_elem_sql_name AeFloat4 = ''real''"
| "array_elem_sql_name AeFloat = ''double precision''"
| "array_elem_sql_name AeDate = ''date''"
| "array_elem_sql_name AeTimestamp = ''timestamp without time zone''"
| "array_elem_sql_name AeTimestamptz = ''timestamp with time zone''"
| "array_elem_sql_name AeTime = ''time without time zone''"
| "array_elem_sql_name AeTimeTz = ''time with time zone''"
| "array_elem_sql_name AeInterval = ''interval''"
| "array_elem_sql_name AeNumeric = ''numeric''"
| "array_elem_sql_name AeUuid = ''uuid''"
| "array_elem_sql_name AeRegclass = ''regclass''"
| "array_elem_sql_name AeJson = ''json''"
| "array_elem_sql_name AeRecord = ''record''"
| "array_elem_sql_name AePgLsn = ''pg_lsn''"
| "array_elem_sql_name AeXid = ''xid''"
| "array_elem_sql_name AeBit = ''bit''"
| "array_elem_sql_name AeTid = ''tid''"
| "array_elem_sql_name AeTsVector = ''tsvector''"
| "array_elem_sql_name AeTsQuery = ''tsquery''"

fun array_elem_typname :: "array_elem \<Rightarrow> string" where
  "array_elem_typname AeBool = ''bool''"
| "array_elem_typname AeBytea = ''bytea''"
| "array_elem_typname AeSingleChar = ''char''"
| "array_elem_typname AeName = ''name''"
| "array_elem_typname AeSmallInt = ''int2''"
| "array_elem_typname AeInt = ''int4''"
| "array_elem_typname AeText = ''text''"
| "array_elem_typname AeChar = ''bpchar''"
| "array_elem_typname AeVarchar = ''varchar''"
| "array_elem_typname AeBigInt = ''int8''"
| "array_elem_typname AeFloat4 = ''float4''"
| "array_elem_typname AeFloat = ''float8''"
| "array_elem_typname AeDate = ''date''"
| "array_elem_typname AeTimestamp = ''timestamp''"
| "array_elem_typname AeTimestamptz = ''timestamptz''"
| "array_elem_typname AeTime = ''time''"
| "array_elem_typname AeTimeTz = ''timetz''"
| "array_elem_typname AeInterval = ''interval''"
| "array_elem_typname AeNumeric = ''numeric''"
| "array_elem_typname AeUuid = ''uuid''"
| "array_elem_typname AeRegclass = ''regclass''"
| "array_elem_typname AeJson = ''json''"
| "array_elem_typname AeRecord = ''record''"
| "array_elem_typname AePgLsn = ''pg_lsn''"
| "array_elem_typname AeXid = ''xid''"
| "array_elem_typname AeBit = ''bit''"
| "array_elem_typname AeTid = ''tid''"
| "array_elem_typname AeTsVector = ''tsvector''"
| "array_elem_typname AeTsQuery = ''tsquery''"

fun array_elem_of :: "col_type \<Rightarrow> array_elem" where
  "array_elem_of (CtArray e) = e"
| "array_elem_of CtBool = AeBool"
| "array_elem_of CtBytea = AeBytea"
| "array_elem_of CtBit = AeBit"
| "array_elem_of CtSingleChar = AeSingleChar"
| "array_elem_of CtName = AeName"
| "array_elem_of CtSmallInt = AeSmallInt"
| "array_elem_of CtInt = AeInt"
| "array_elem_of CtText = AeText"
| "array_elem_of (CtChar _) = AeChar"
| "array_elem_of (CtVarchar _) = AeVarchar"
| "array_elem_of CtBigInt = AeBigInt"
| "array_elem_of CtFloat4 = AeFloat4"
| "array_elem_of CtFloat = AeFloat"
| "array_elem_of CtDate = AeDate"
| "array_elem_of CtTimestamp = AeTimestamp"
| "array_elem_of CtTimestamptz = AeTimestamptz"
| "array_elem_of CtTime = AeTime"
| "array_elem_of CtTimeTz = AeTimeTz"
| "array_elem_of CtInterval = AeInterval"
| "array_elem_of (CtNumeric _) = AeNumeric"
| "array_elem_of CtUuid = AeUuid"
| "array_elem_of CtRegclass = AeRegclass"
| "array_elem_of CtRegproc = AeRecord"
| "array_elem_of CtOid = AeInt"
| "array_elem_of CtInet = AeText"
| "array_elem_of CtJson = AeJson"
| "array_elem_of CtJsonb = AeJson"
| "array_elem_of CtJsonpath = AeJson"
| "array_elem_of CtRecord = AeRecord"
| "array_elem_of CtTsVector = AeTsVector"
| "array_elem_of CtTsQuery = AeTsQuery"
| "array_elem_of CtComposite = AeRecord"
| "array_elem_of CtPgLsn = AePgLsn"
| "array_elem_of CtXid = AeXid"
| "array_elem_of CtTid = AeTid"
| "array_elem_of (CtRange _) = AeRecord"
| "array_elem_of (CtMultirange _) = AeRecord"

fun range_oid :: "range_elem \<Rightarrow> nat" where
  "range_oid ReInt4 = 3904"
| "range_oid ReNum = 3906"
| "range_oid ReTs = 3908"
| "range_oid ReTstz = 3910"
| "range_oid ReDate = 3912"
| "range_oid ReInt8 = 3926"
| "range_oid _ = 2249"

fun multirange_oid :: "range_elem \<Rightarrow> nat" where
  "multirange_oid ReInt4 = 4451"
| "multirange_oid ReNum = 4532"
| "multirange_oid ReTs = 4533"
| "multirange_oid ReTstz = 4534"
| "multirange_oid ReDate = 4535"
| "multirange_oid ReInt8 = 4536"
| "multirange_oid _ = 2249"

fun col_type_oid :: "col_type \<Rightarrow> nat" where
  "col_type_oid CtInt = 23"
| "col_type_oid CtBigInt = 20"
| "col_type_oid CtSmallInt = 21"
| "col_type_oid CtText = 25"
| "col_type_oid (CtChar _) = 1042"
| "col_type_oid (CtVarchar _) = 1043"
| "col_type_oid CtSingleChar = 18"
| "col_type_oid CtPgLsn = 3220"
| "col_type_oid CtXid = 28"
| "col_type_oid CtTid = 27"
| "col_type_oid CtBool = 16"
| "col_type_oid CtFloat = 701"
| "col_type_oid CtFloat4 = 700"
| "col_type_oid (CtNumeric _) = 1700"
| "col_type_oid CtDate = 1082"
| "col_type_oid CtTimestamp = 1114"
| "col_type_oid CtTimestamptz = 1184"
| "col_type_oid CtTime = 1083"
| "col_type_oid CtTimeTz = 1266"
| "col_type_oid CtInterval = 1186"
| "col_type_oid CtBytea = 17"
| "col_type_oid CtBit = 1560"
| "col_type_oid CtUuid = 2950"
| "col_type_oid CtRegclass = 2205"
| "col_type_oid CtRegproc = 24"
| "col_type_oid CtOid = 26"
| "col_type_oid CtInet = 869"
| "col_type_oid CtName = 19"
| "col_type_oid CtRecord = 2249"
| "col_type_oid CtComposite = 2249"
| "col_type_oid CtJson = 114"
| "col_type_oid CtJsonb = 3802"
| "col_type_oid CtJsonpath = 4072"
| "col_type_oid CtTsVector = 3614"
| "col_type_oid CtTsQuery = 3615"
| "col_type_oid (CtRange e) = range_oid e"
| "col_type_oid (CtMultirange e) = multirange_oid e"
| "col_type_oid (CtArray e) = array_oid e"

fun col_type_sql_name :: "col_type \<Rightarrow> string" where
  "col_type_sql_name CtInt = ''integer''"
| "col_type_sql_name CtBigInt = ''bigint''"
| "col_type_sql_name CtSmallInt = ''smallint''"
| "col_type_sql_name CtFloat = ''double precision''"
| "col_type_sql_name CtFloat4 = ''real''"
| "col_type_sql_name (CtNumeric _) = ''numeric''"
| "col_type_sql_name CtText = ''text''"
| "col_type_sql_name (CtChar _) = ''character''"
| "col_type_sql_name (CtVarchar _) = ''character varying''"
| "col_type_sql_name CtSingleChar = CHR 0x22 # ''char'' @ [CHR 0x22]"
| "col_type_sql_name CtBool = ''boolean''"
| "col_type_sql_name CtDate = ''date''"
| "col_type_sql_name CtTimestamp = ''timestamp without time zone''"
| "col_type_sql_name CtTimestamptz = ''timestamp with time zone''"
| "col_type_sql_name CtTime = ''time without time zone''"
| "col_type_sql_name CtTimeTz = ''time with time zone''"
| "col_type_sql_name CtInterval = ''interval''"
| "col_type_sql_name CtBytea = ''bytea''"
| "col_type_sql_name CtBit = ''bit''"
| "col_type_sql_name CtUuid = ''uuid''"
| "col_type_sql_name CtPgLsn = ''pg_lsn''"
| "col_type_sql_name CtXid = ''xid''"
| "col_type_sql_name CtTid = ''tid''"
| "col_type_sql_name CtRegclass = ''regclass''"
| "col_type_sql_name CtRegproc = ''regproc''"
| "col_type_sql_name CtOid = ''oid''"
| "col_type_sql_name CtInet = ''inet''"
| "col_type_sql_name CtName = ''name''"
| "col_type_sql_name CtRecord = ''record''"
| "col_type_sql_name CtComposite = ''record''"
| "col_type_sql_name CtJson = ''json''"
| "col_type_sql_name CtJsonb = ''jsonb''"
| "col_type_sql_name CtJsonpath = ''jsonpath''"
| "col_type_sql_name CtTsVector = ''tsvector''"
| "col_type_sql_name CtTsQuery = ''tsquery''"
| "col_type_sql_name (CtRange e) = (case range_name e of Some n \<Rightarrow> n | None \<Rightarrow> elem_typname e @ ''range'')"
| "col_type_sql_name (CtMultirange e) = (case multirange_name e of Some n \<Rightarrow> n | None \<Rightarrow> elem_typname e @ ''multirange'')"
| "col_type_sql_name (CtArray e) = array_elem_sql_name e @ ''[]''"

fun col_type_pg_typname :: "col_type \<Rightarrow> string" where
  "col_type_pg_typname CtInt = ''int4''"
| "col_type_pg_typname CtBigInt = ''int8''"
| "col_type_pg_typname CtSmallInt = ''int2''"
| "col_type_pg_typname CtFloat = ''float8''"
| "col_type_pg_typname CtFloat4 = ''float4''"
| "col_type_pg_typname (CtNumeric _) = ''numeric''"
| "col_type_pg_typname CtText = ''text''"
| "col_type_pg_typname (CtChar _) = ''bpchar''"
| "col_type_pg_typname (CtVarchar _) = ''varchar''"
| "col_type_pg_typname CtSingleChar = ''char''"
| "col_type_pg_typname CtBool = ''bool''"
| "col_type_pg_typname CtDate = ''date''"
| "col_type_pg_typname CtTimestamp = ''timestamp''"
| "col_type_pg_typname CtTimestamptz = ''timestamptz''"
| "col_type_pg_typname CtTime = ''time''"
| "col_type_pg_typname CtTimeTz = ''timetz''"
| "col_type_pg_typname CtInterval = ''interval''"
| "col_type_pg_typname CtBytea = ''bytea''"
| "col_type_pg_typname CtBit = ''bit''"
| "col_type_pg_typname CtUuid = ''uuid''"
| "col_type_pg_typname CtPgLsn = ''pg_lsn''"
| "col_type_pg_typname CtXid = ''xid''"
| "col_type_pg_typname CtTid = ''tid''"
| "col_type_pg_typname CtRegclass = ''regclass''"
| "col_type_pg_typname CtRegproc = ''regproc''"
| "col_type_pg_typname CtOid = ''oid''"
| "col_type_pg_typname CtInet = ''inet''"
| "col_type_pg_typname CtName = ''name''"
| "col_type_pg_typname CtRecord = ''record''"
| "col_type_pg_typname CtComposite = ''record''"
| "col_type_pg_typname CtJson = ''json''"
| "col_type_pg_typname CtJsonb = ''jsonb''"
| "col_type_pg_typname CtJsonpath = ''jsonpath''"
| "col_type_pg_typname CtTsVector = ''tsvector''"
| "col_type_pg_typname CtTsQuery = ''tsquery''"
| "col_type_pg_typname (CtRange e) = (case range_name e of Some n \<Rightarrow> n | None \<Rightarrow> elem_typname e @ ''range'')"
| "col_type_pg_typname (CtMultirange e) = (case multirange_name e of Some n \<Rightarrow> n | None \<Rightarrow> elem_typname e @ ''multirange'')"
| "col_type_pg_typname (CtArray e) = CHR ''_'' # array_elem_typname e"

fun is_toastable :: "col_type \<Rightarrow> bool" where
  "is_toastable CtText = True"
| "is_toastable (CtChar _) = True"
| "is_toastable (CtVarchar _) = True"
| "is_toastable CtBytea = True"
| "is_toastable (CtNumeric _) = True"
| "is_toastable _ = False"

text \<open>The \<^verbatim>\<open>toast_storage\<close> codes \<^verbatim>\<open>b'p'\<close>, \<^verbatim>\<open>b'x'\<close> and \<^verbatim>\<open>b'm'\<close>.\<close>

definition default_toast_storage :: "col_type \<Rightarrow> u8" where
  "default_toast_storage t =
     (if \<not> is_toastable t then 112
      else case t of CtNumeric _ \<Rightarrow> 109 | _ \<Rightarrow> 120)"

datatype toast_compression = Pglz | Lz4

fun toast_compression_code :: "toast_compression \<Rightarrow> u8" where
  "toast_compression_code Pglz = 112"
| "toast_compression_code Lz4 = 108"

definition toast_compression_from_code :: "u8 \<Rightarrow> toast_compression option" where
  "toast_compression_from_code b = (if b = 112 then Some Pglz else if b = 108 then Some Lz4 else None)"

record toast_meta =
  compressed :: bool
  compress_method :: toast_compression

section \<open>Cell values\<close>

datatype numeric_special = NFinite | NNaN | NPosInf | NNegInf

record numeric =
  unscaled :: int
  nscale :: int
  dscale :: int
  special :: numeric_special
  big :: "big_uint option"

record interval =
  months :: i32
  days :: i32
  micros :: i64

record bit_string =
  bitlen :: u32
  bit_bytes :: "u8 list"

datatype tsquery_node =
    TsVal string u8 bool u32
  | TsStop
  | TsNot tsquery_node
  | TsAnd tsquery_node tsquery_node
  | TsOr tsquery_node tsquery_node
  | TsPhrase tsquery_node tsquery_node u16

datatype sql_value =
    VSmallInt i16
  | VInt i64
  | VBigInt i64
  | VFloat4 u32
  | VFloat u64
  | VNumeric numeric
  | VText string
  | VBpChar string
  | VSingleChar u8
  | VBool bool
  | VDate i32
  | VTimestamp i64
  | VTimestamptz i64
  | VTime i64
  | VTimeTz i64 i32
  | VInterval interval
  | VBytea "u8 list"
  | VUuid "u8 list"
  | VBitString bit_string
  | VPgLsn u64
  | VJsonb string
  | VJsonpath string
  | VRange range_val
  | VMultirange range_elem "string option" "range_val list"
  | VTsVector "(string \<times> (u16 \<times> u8) list) list"
  | VTsQuery "tsquery_node option"
  | VRecord "(string \<times> sql_value) list"
  | VArray array_elem "i32 list" "i32 list" "sql_value list"
  | VTid u32 u32
  | VNull
and range_val =
    RangeVal (rv_elem: range_elem) (rv_name: "string option") (rv_empty: bool)
      (rv_lo: "sql_value option") (rv_lo_inc: bool) (rv_hi: "sql_value option") (rv_hi_inc: bool)

type_synonym row = "sql_value list"

section \<open>Bit strings\<close>

text \<open>The bits of the digits, most significant first; \<^verbatim>\<open>Err\<close> carries the offending character.\<close>

fun binary_bits :: "string \<Rightarrow> char + u8 list" where
  "binary_bits [] = Inr []"
| "binary_bits (c # cs) =
     (if c = CHR ''0'' then (case binary_bits cs of Inl e \<Rightarrow> Inl e | Inr bs \<Rightarrow> Inr (0 # bs))
      else if c = CHR ''1'' then (case binary_bits cs of Inl e \<Rightarrow> Inl e | Inr bs \<Rightarrow> Inr (1 # bs))
      else Inl c)"

definition hex_digit :: "char \<Rightarrow> nat option" where
  "hex_digit c =
     (let n = of_char c :: nat
      in if 48 \<le> n \<and> n \<le> 57 then Some (n - 48)
         else if 97 \<le> n \<and> n \<le> 102 then Some (n - 87)
         else if 65 \<le> n \<and> n \<le> 70 then Some (n - 55)
         else None)"

fun hex_bits :: "string \<Rightarrow> char + u8 list" where
  "hex_bits [] = Inr []"
| "hex_bits (c # cs) =
     (case hex_digit c of
        None \<Rightarrow> Inl c
      | Some d \<Rightarrow>
          (case hex_bits cs of
             Inl e \<Rightarrow> Inl e
           | Inr bs \<Rightarrow>
               Inr (of_nat (d div 8 mod 2) # of_nat (d div 4 mod 2) # of_nat (d div 2 mod 2)
                    # of_nat (d mod 2) # bs)))"

fun set_bits :: "u8 list \<Rightarrow> nat \<Rightarrow> u8 list \<Rightarrow> u8 list" where
  "set_bits bytes i [] = bytes"
| "set_bits bytes i (b # bs) =
     set_bits (if b = 1 then bytes[i div 8 := bytes ! (i div 8) OR push_bit (7 - i mod 8) 1] else bytes)
       (Suc i) bs"

datatype bit_error = InvalidPrefix | InvalidDigit char

definition bit_string_parse :: "char \<Rightarrow> string \<Rightarrow> bit_error + bit_string" where
  "bit_string_parse marker digits =
     (let bits =
            (if marker = CHR ''b'' \<or> marker = CHR ''B'' then map_sum InvalidDigit id (binary_bits digits)
             else if marker = CHR ''x'' \<or> marker = CHR ''X'' then map_sum InvalidDigit id (hex_bits digits)
             else Inl InvalidPrefix)
      in case bits of
           Inl e \<Rightarrow> Inl e
         | Inr bs \<Rightarrow>
             Inr \<lparr>bitlen = of_nat (length bs),
                  bit_bytes = set_bits (replicate ((length bs + 7) div 8) 0) 0 bs\<rparr>)"

definition bit_string_parse_input :: "string \<Rightarrow> bit_error + bit_string" where
  "bit_string_parse_input s =
     (case s of
        [] \<Rightarrow> bit_string_parse (CHR ''b'') s
      | c # cs \<Rightarrow>
          if c = CHR ''b'' \<or> c = CHR ''B'' \<or> c = CHR ''x'' \<or> c = CHR ''X''
          then bit_string_parse c cs else bit_string_parse (CHR ''b'') s)"

definition to_bit_chars :: "bit_string \<Rightarrow> string" where
  "to_bit_chars b =
     map (\<lambda>i. if bit_bytes b ! (i div 8) AND push_bit (7 - i mod 8) 1 \<noteq> 0 then CHR ''1'' else CHR ''0'')
       [0..<unat (bitlen b)]"

section \<open>Codes and object identifiers\<close>

lemma range_elem_code_roundtrip [simp]: "range_elem_from_code (range_elem_code e) = Some e"
  by (cases e) (simp_all add: range_elem_from_code_def)

lemma range_elem_from_code_iff: "range_elem_from_code c = Some e \<longleftrightarrow> c = range_elem_code e"
  by (cases e) (auto simp: range_elem_from_code_def)

lemma toast_compression_code_roundtrip [simp]:
  "toast_compression_from_code (toast_compression_code m) = Some m"
  by (cases m) (simp_all add: toast_compression_from_code_def)

end
