(* ===== verification/Numeric.thy ===== *)
theory Numeric
  imports Complex_Main SqlTypes BigUintText BigUintDiv
begin

text \<open>
  \<^verbatim>\<open>storage.rs\<close>, \<^verbatim>\<open>Numeric\<close> and \<^verbatim>\<open>BigDec\<close>: SQL NUMERIC. A finite numeric is
  \<open>unscaled * 10 ^ - scale\<close> with an \<^verbatim>\<open>i128\<close> mantissa, or, when \<open>big\<close> is set, the
  exact magnitude there with the sign in \<open>unscaled\<close>; NaN and the infinities are a
  separate tag. The abstraction \<open>num_val\<close> reads the rational a numeric stands for. The
  lemmas relate construction, negation, addition, comparison and the hash key to it.
\<close>

section \<open>Exact decimals\<close>

record bigdec =
  bd_neg :: bool
  bd_mag :: big_uint
  bd_scale :: int

definition bigdec_zero :: bigdec where
  "bigdec_zero = \<lparr>bd_neg = False, bd_mag = biguint_zero, bd_scale = 0\<rparr>"

definition bigdec_is_zero :: "bigdec \<Rightarrow> bool" where
  "bigdec_is_zero d \<longleftrightarrow> biguint_is_zero (bd_mag d)"

definition bigdec_normalize :: "bigdec \<Rightarrow> bigdec" where
  "bigdec_normalize d = (if biguint_is_zero (bd_mag d) then d\<lparr>bd_neg := False\<rparr> else d)"

text \<open>\<^verbatim>\<open>scale_pad\<close>: the distance of two scales, as a \<^verbatim>\<open>u32\<close>.\<close>

definition scale_pad :: "int \<Rightarrow> int \<Rightarrow> nat" where
  "scale_pad a b = nat \<bar>a - b\<bar>"

definition bigdec_from_i64 :: "i64 \<Rightarrow> bigdec" where
  "bigdec_from_i64 v =
     bigdec_normalize
       \<lparr>bd_neg = sint v < 0, bd_mag = biguint_from_u64 (word_of_int \<bar>sint v\<bar>), bd_scale = 0\<rparr>"

definition bigdec_neg :: "bigdec \<Rightarrow> bigdec" where
  "bigdec_neg d = bigdec_normalize (d\<lparr>bd_neg := \<not> bd_neg d\<rparr>)"

definition bigdec_cmp :: "bigdec \<Rightarrow> bigdec \<Rightarrow> ordering" where
  "bigdec_cmp a b =
     (if bigdec_is_zero a \<and> bigdec_is_zero b then Equal
      else if bd_neg a \<noteq> bd_neg b then (if bd_neg a then Less else Greater)
      else let ord =
             (if bd_scale a = bd_scale b then biguint_cmp (bd_mag a) (bd_mag b)
              else if bd_scale b < bd_scale a
              then biguint_cmp (bd_mag a)
                     (biguint_mul_pow10_assign (bd_mag b) (scale_pad (bd_scale a) (bd_scale b)))
              else biguint_cmp
                     (biguint_mul_pow10_assign (bd_mag a) (scale_pad (bd_scale b) (bd_scale a)))
                     (bd_mag b))
           in if bd_neg a then ord_reverse ord else ord)"

definition bigdec_sub :: "bigdec \<Rightarrow> bigdec \<Rightarrow> bigdec" where
  "bigdec_sub a b =
     (let (ma, mb, s) =
            (if bd_scale b \<le> bd_scale a
             then (bd_mag a,
                   biguint_mul_pow10_assign (bd_mag b) (scale_pad (bd_scale a) (bd_scale b)),
                   bd_scale a)
             else (biguint_mul_pow10_assign (bd_mag a) (scale_pad (bd_scale b) (bd_scale a)),
                   bd_mag b, bd_scale b))
      in if bd_neg a = bd_neg b
         then (case biguint_cmp ma mb of
                 Equal \<Rightarrow> bigdec_zero
               | Greater \<Rightarrow>
                   bigdec_normalize
                     \<lparr>bd_neg = bd_neg a, bd_mag = biguint_sub_assign ma mb, bd_scale = s\<rparr>
               | Less \<Rightarrow>
                   bigdec_normalize
                     \<lparr>bd_neg = \<not> bd_neg a, bd_mag = biguint_sub_assign mb ma, bd_scale = s\<rparr>)
         else bigdec_normalize
                \<lparr>bd_neg = bd_neg a, bd_mag = biguint_add_assign ma mb, bd_scale = s\<rparr>)"

definition bigdec_add :: "bigdec \<Rightarrow> bigdec \<Rightarrow> bigdec" where
  "bigdec_add a b = bigdec_sub a (bigdec_neg b)"

definition clamp_i32 :: "int \<Rightarrow> int" where
  "clamp_i32 s = max (- 2147483648) (min s 2147483647)"

definition bigdec_mul_exact :: "bigdec \<Rightarrow> bigdec \<Rightarrow> bigdec option" where
  "bigdec_mul_exact a b =
     Some (bigdec_normalize
       \<lparr>bd_neg = (bd_neg a \<noteq> bd_neg b), bd_mag = biguint_mul (bd_mag a) (bd_mag b),
        bd_scale = clamp_i32 (bd_scale a + bd_scale b)\<rparr>)"

definition bigdec_int_digits :: "bigdec \<Rightarrow> int" where
  "bigdec_int_digits d = int (unat (biguint_decimal_digits (bd_mag d))) - bd_scale d"

text \<open>The \<^verbatim>\<open>None\<close> of \<open>biguint_div_rem\<close> would be a division that does not return.\<close>

definition bigdec_round_to_scale :: "bigdec \<Rightarrow> int \<Rightarrow> bigdec option" where
  "bigdec_round_to_scale d rscale =
     (if bd_scale d \<le> rscale
      then Some (bigdec_normalize
             (d\<lparr>bd_mag := biguint_mul_pow10_assign (bd_mag d) (nat (rscale - bd_scale d)),
                bd_scale := rscale\<rparr>))
      else let drop = bd_scale d - rscale
           in if 1000000 < drop then Some bigdec_zero
              else let pow10 = biguint_mul_pow10_assign (biguint_from_u64 1) (nat drop)
                   in case biguint_div_rem (bd_mag d) pow10 of
                        None \<Rightarrow> None
                      | Some (q, r) \<Rightarrow>
                          let q' = (if biguint_cmp (biguint_add_assign r r) pow10 \<noteq> Less
                                    then biguint_add_small_assign q 1 else q)
                          in Some (bigdec_normalize
                               \<lparr>bd_neg = bd_neg d, bd_mag = q', bd_scale = rscale\<rparr>))"

section \<open>Numerics\<close>

definition with_dscale :: "numeric \<Rightarrow> int \<Rightarrow> numeric" where
  "with_dscale n ds = n\<lparr>dscale := max ds 0\<rparr>"

definition numeric_special_value :: "numeric_special \<Rightarrow> numeric" where
  "numeric_special_value s =
     \<lparr>unscaled = 0, nscale = 0, dscale = 0, special = s, big = None\<rparr>"

abbreviation numeric_nan :: numeric where
  "numeric_nan \<equiv> numeric_special_value NNaN"

abbreviation numeric_infinity :: numeric where
  "numeric_infinity \<equiv> numeric_special_value NPosInf"

abbreviation numeric_neg_infinity :: numeric where
  "numeric_neg_infinity \<equiv> numeric_special_value NNegInf"

abbreviation numeric_zero :: numeric where
  "numeric_zero \<equiv> numeric_special_value NFinite"

definition numeric_is_zero :: "numeric \<Rightarrow> bool" where
  "numeric_is_zero n \<longleftrightarrow> special n = NFinite \<and> unscaled n = 0"

text \<open>Trailing zeros go while the scale is positive; \<^verbatim>\<open>% 10\<close> tests divisibility for either sign.\<close>

function strip_zeros :: "int \<Rightarrow> int \<Rightarrow> int \<times> int" where
  "strip_zeros u s = (if 0 < s \<and> u mod 10 = 0 then strip_zeros (u div 10) (s - 1) else (u, s))"
  by pat_completeness auto
termination
  by (relation "measure (\<lambda>(u, s). nat s)") auto

declare strip_zeros.simps [simp del]

text \<open>\<^verbatim>\<open>Numeric::new\<close> normalizes a value whose \<open>big\<close> is unset.\<close>

definition numeric_new :: "int \<Rightarrow> int \<Rightarrow> numeric" where
  "numeric_new u s =
     (let (u', s') = (if u = 0 then (u, 0) else strip_zeros u s)
      in \<lparr>unscaled = u', nscale = s', dscale = max s 0, special = NFinite, big = None\<rparr>)"

definition numeric_mag :: "numeric \<Rightarrow> big_uint" where
  "numeric_mag n =
     (case big n of Some m \<Rightarrow> m | None \<Rightarrow> biguint_from_u128 (word_of_int \<bar>unscaled n\<bar>))"

definition saturating_neg_i128 :: "int \<Rightarrow> int" where
  "saturating_neg_i128 u = min (- u) 170141183460469231731687303715884105727"

fun numeric_neg :: "numeric \<Rightarrow> numeric" where
  "numeric_neg n =
     (case special n of
        NNaN \<Rightarrow> numeric_nan
      | NPosInf \<Rightarrow> numeric_neg_infinity
      | NNegInf \<Rightarrow> numeric_infinity
      | NFinite \<Rightarrow>
          let m = with_dscale (numeric_new (saturating_neg_i128 (unscaled n)) (nscale n)) (dscale n)
          in if big n \<noteq> None then m\<lparr>big := big n\<rparr> else m)"

declare numeric_neg.simps [simp del]

definition bigdec_from_numeric :: "numeric \<Rightarrow> bigdec option" where
  "bigdec_from_numeric n =
     (if special n \<noteq> NFinite then None
      else Some (bigdec_normalize
             \<lparr>bd_neg = unscaled n < 0, bd_mag = numeric_mag n, bd_scale = nscale n\<rparr>))"

function strip_big :: "big_uint \<Rightarrow> int \<Rightarrow> big_uint \<times> int" where
  "strip_big m s =
     (if 0 < s
      then let (q, r) = biguint_div_rem_small m 10
           in if r \<noteq> 0 then (m, s) else strip_big q (s - 1)
      else (m, s))"
  by pat_completeness auto
termination
  by (relation "measure (\<lambda>(m, s). nat s)") auto

declare strip_big.simps [simp del]

definition numeric_from_big :: "bool \<Rightarrow> big_uint \<Rightarrow> int \<Rightarrow> int \<Rightarrow> numeric option" where
  "numeric_from_big neg mag s ds =
     (if biguint_is_zero mag then Some (with_dscale numeric_zero ds)
      else let (m, s') = strip_big mag s;
               int_digits = int (unat (biguint_decimal_digits m)) - s'
           in if 131072 < int_digits then None
              else case biguint_to_i128 m of
                     Some u \<Rightarrow> Some (with_dscale (numeric_new (if neg then - u else u) s') ds)
                   | None \<Rightarrow>
                       Some \<lparr>unscaled = (if neg then - 1 else 1), nscale = s', dscale = max ds 0,
                             special = NFinite, big = Some m\<rparr>)"

definition numeric_from_bigdec :: "bigdec \<Rightarrow> int \<Rightarrow> numeric option" where
  "numeric_from_bigdec d ds =
     numeric_from_big (bd_neg d \<and> \<not> biguint_is_zero (bd_mag d)) (bd_mag d) (bd_scale d) ds"

text \<open>\<^verbatim>\<open>i128::checked_pow\<close> and \<^verbatim>\<open>checked_mul\<close> to a common scale.\<close>

definition scale_up_i128 :: "numeric \<Rightarrow> int \<Rightarrow> int option" where
  "scale_up_i128 n s =
     (case i128_range (10 ^ nat (s - nscale n)) of
        None \<Rightarrow> None
      | Some p \<Rightarrow> i128_range (unscaled n * p))"

definition numeric_aligned :: "numeric \<Rightarrow> numeric \<Rightarrow> (int \<times> int \<times> int) option" where
  "numeric_aligned a b =
     (let s = max (nscale a) (nscale b)
      in case scale_up_i128 a s of
           None \<Rightarrow> None
         | Some x \<Rightarrow>
             (case scale_up_i128 b s of None \<Rightarrow> None | Some y \<Rightarrow> Some (x, y, s)))"

text \<open>The digit count of \<^verbatim>\<open>cmp\<close> for an \<^verbatim>\<open>i128\<close> mantissa: one less than the number of digits.\<close>

function log_digits :: "nat \<Rightarrow> int" where
  "log_digits v = (if 10 \<le> v then log_digits (v div 10) + 1 else 0)"
  by pat_completeness auto
termination
  by (relation "measure id") auto

declare log_digits.simps [simp del]

definition cmp_magnitude :: "numeric \<Rightarrow> int" where
  "cmp_magnitude n =
     (case big n of
        Some m \<Rightarrow> int (unat (biguint_decimal_digits m))
      | None \<Rightarrow> log_digits (nat \<bar>unscaled n\<bar>)) - nscale n"

definition bigdec_cmp_numeric :: "numeric \<Rightarrow> numeric \<Rightarrow> ordering" where
  "bigdec_cmp_numeric a b =
     (case (bigdec_from_numeric a, bigdec_from_numeric b) of
        (Some x, Some y) \<Rightarrow> bigdec_cmp x y
      | _ \<Rightarrow> Equal) \<comment> \<open>not reached: both are finite\<close>"

definition numeric_cmp_finite :: "numeric \<Rightarrow> numeric \<Rightarrow> ordering" where
  "numeric_cmp_finite a b =
     (if unscaled a = 0 \<and> unscaled b = 0 then Equal
      else if (unscaled a < 0) \<noteq> (unscaled b < 0) then (if unscaled a < 0 then Less else Greater)
      else if unscaled a = 0 then (if unscaled b < 0 then Greater else Less)
      else if unscaled b = 0 then (if unscaled a < 0 then Less else Greater)
      else let ma = cmp_magnitude a; mb = cmp_magnitude b
           in if ma \<noteq> mb then (if unscaled a < 0 then ord_cmp mb ma else ord_cmp ma mb)
              else if big a \<noteq> None \<or> big b \<noteq> None then bigdec_cmp_numeric a b
              else case numeric_aligned a b of
                     Some (x, y, _) \<Rightarrow> ord_cmp x y
                   | None \<Rightarrow> bigdec_cmp_numeric a b)"

fun numeric_cmp :: "numeric \<Rightarrow> numeric \<Rightarrow> ordering" where
  "numeric_cmp a b =
     (case (special a, special b) of
        (NNaN, NNaN) \<Rightarrow> Equal
      | (NNaN, _) \<Rightarrow> Greater
      | (_, NNaN) \<Rightarrow> Less
      | (NNegInf, NNegInf) \<Rightarrow> Equal
      | (NPosInf, NPosInf) \<Rightarrow> Equal
      | (NNegInf, _) \<Rightarrow> Less
      | (_, NNegInf) \<Rightarrow> Greater
      | (NPosInf, _) \<Rightarrow> Greater
      | (_, NPosInf) \<Rightarrow> Less
      | (NFinite, NFinite) \<Rightarrow> numeric_cmp_finite a b)"

declare numeric_cmp.simps [simp del]

fun numeric_checked_add :: "numeric \<Rightarrow> numeric \<Rightarrow> numeric option" where
  "numeric_checked_add a b =
     (case (special a, special b) of
        (NNaN, _) \<Rightarrow> Some numeric_nan
      | (_, NNaN) \<Rightarrow> Some numeric_nan
      | (NFinite, NFinite) \<Rightarrow>
          (let ds = max (dscale a) (dscale b);
               exact = (case (bigdec_from_numeric a, bigdec_from_numeric b) of
                          (Some x, Some y) \<Rightarrow> numeric_from_bigdec (bigdec_add x y) ds
                        | _ \<Rightarrow> None)
           in if big a \<noteq> None \<or> big b \<noteq> None then exact
              else case numeric_aligned a b of
                     None \<Rightarrow> exact
                   | Some (x, y, s) \<Rightarrow>
                       (case i128_range (x + y) of
                          Some t \<Rightarrow> Some (with_dscale (numeric_new t s) ds)
                        | None \<Rightarrow> exact))
      | (sa, sb) \<Rightarrow>
          (if sa = NPosInf \<and> sb = NNegInf \<or> sa = NNegInf \<and> sb = NPosInf then Some numeric_nan
           else Some (if sa = NPosInf \<or> sb = NPosInf then numeric_infinity
                      else numeric_neg_infinity)))"

declare numeric_checked_add.simps [simp del]

definition numeric_checked_sub :: "numeric \<Rightarrow> numeric \<Rightarrow> numeric option" where
  "numeric_checked_sub a b = numeric_checked_add a (numeric_neg b)"

subsection \<open>The hash key\<close>

datatype num_key_mag = KeySmall u128 | KeyBig big_uint

fun special_code :: "numeric_special \<Rightarrow> u8" where
  "special_code NFinite = 0"
| "special_code NNaN = 1"
| "special_code NPosInf = 2"
| "special_code NNegInf = 3"

function strip_u128 :: "u128 \<Rightarrow> int \<Rightarrow> u128 \<times> int" where
  "strip_u128 m s =
     (if 0 < s then (if m mod 10 \<noteq> 0 then (m, s) else strip_u128 (m div 10) (s - 1)) else (m, s))"
  by pat_completeness auto
termination
  by (relation "measure (\<lambda>(m, s). nat s)") auto

declare strip_u128.simps [simp del]

definition numeric_hash_key :: "numeric \<Rightarrow> u8 \<times> bool \<times> num_key_mag \<times> int" where
  "numeric_hash_key n =
     (if special n \<noteq> NFinite then (special_code (special n), False, KeySmall 0, 0)
      else let neg = unscaled n < 0;
               s = max (nscale n) 0
           in case big n of
                None \<Rightarrow>
                  (let (m, s') = strip_u128 (word_of_int \<bar>unscaled n\<bar>) s
                   in (special_code NFinite, neg, KeySmall m, s'))
              | Some _ \<Rightarrow>
                  (let (m, s') = strip_big (numeric_mag n) s
                   in (special_code NFinite, neg,
                       (case biguint_to_u128 m of Some v \<Rightarrow> KeySmall v | None \<Rightarrow> KeyBig m), s')))"

section \<open>Values\<close>

text \<open>The rational \<open>m * 10 ^ - s\<close>.\<close>

definition dec :: "int \<Rightarrow> int \<Rightarrow> rat" where
  "dec m s = of_int m * 10 powi (- s)"

definition bd_int :: "bigdec \<Rightarrow> int" where
  "bd_int d = (if bd_neg d then - int (bval (bd_mag d)) else int (bval (bd_mag d)))"

definition bd_val :: "bigdec \<Rightarrow> rat" where
  "bd_val d = dec (bd_int d) (bd_scale d)"

definition wf_bd :: "bigdec \<Rightarrow> bool" where
  "wf_bd d \<longleftrightarrow> wf_big (bd_mag d) \<and> (bval (bd_mag d) = 0 \<longrightarrow> \<not> bd_neg d)"

definition num_int :: "numeric \<Rightarrow> int" where
  "num_int n = (case big n of None \<Rightarrow> unscaled n | Some m \<Rightarrow> unscaled n * int (bval m))"

definition num_val :: "numeric \<Rightarrow> rat" where
  "num_val n = dec (num_int n) (nscale n)"

text \<open>
  The representation invariant of a finite numeric: an \<^verbatim>\<open>i128\<close> mantissa or a sign
  with a positive canonical magnitude, no trailing zero while the scale is positive.
\<close>

definition wf_num :: "numeric \<Rightarrow> bool" where
  "wf_num n \<longleftrightarrow>
     special n = NFinite \<and> - (2 ^ 127) \<le> unscaled n \<and> unscaled n < 2 ^ 127 \<and>
     (unscaled n = 0 \<longrightarrow> nscale n = 0) \<and>
     (case big n of None \<Rightarrow> True | Some m \<Rightarrow> wf_big m \<and> 0 < bval m \<and> \<bar>unscaled n\<bar> = 1) \<and>
     (0 < nscale n \<longrightarrow> num_int n mod 10 \<noteq> 0)"

lemma powi_nonneg: "0 \<le> k \<Longrightarrow> (10 :: rat) powi k = 10 ^ nat k"
  by (simp add: power_int_def)

text \<open>Writing a decimal at a finer scale multiplies its mantissa.\<close>

lemma dec_rescale: "s \<le> t \<Longrightarrow> dec m s = dec (m * 10 ^ nat (t - s)) t"
proof -
  assume "s \<le> t"
  then have "(10 :: rat) powi (- s) = 10 powi (t - s) * 10 powi (- t)"
    by (simp add: power_int_add [symmetric])
  also have "\<dots> = of_int (10 ^ nat (t - s)) * 10 powi (- t)"
    using \<open>s \<le> t\<close> by (simp add: powi_nonneg)
  finally show ?thesis by (simp add: dec_def)
qed

lemma dec_pos: "(0 :: rat) < 10 powi k"
  by (simp add: zero_less_power_int)

lemma dec_add: "dec m s + dec n s = dec (m + n) s"
  by (simp add: dec_def ring_distribs)

lemma dec_less_iff [simp]: "dec m s < dec n s \<longleftrightarrow> m < n"
  by (simp add: dec_def dec_pos)

lemma dec_eq_iff [simp]: "dec m s = dec n s \<longleftrightarrow> m = n"
  using dec_pos [of "- s"] by (simp add: dec_def)

lemma ord_cmp_dec [simp]: "ord_cmp (dec m s) (dec n s) = ord_cmp m n"
  by (simp add: ord_cmp_def)

lemma dec_mult: "dec m s * dec n t = dec (m * n) (s + t)"
  using power_int_add [of "10 :: rat" "- s" "- t"] by (simp add: dec_def ac_simps)

lemma dec_uminus: "- dec m s = dec (- m) s"
  by (simp add: dec_def)

lemma dec_0 [simp]: "dec 0 s = 0"
  by (simp add: dec_def)

lemma dec_0_iff [simp]: "dec m s = 0 \<longleftrightarrow> m = 0"
  using dec_pos [of "- s"] by (simp add: dec_def)

lemma dec_sign: "dec m s < 0 \<longleftrightarrow> m < 0" "0 < dec m s \<longleftrightarrow> 0 < m"
  using dec_less_iff [of m s 0] dec_less_iff [of 0 s m] by (simp_all del: dec_less_iff)

section \<open>Exact decimals\<close>

lemma bd_int_normalize [simp]: "bd_int (bigdec_normalize d) = bd_int d"
  by (simp add: bigdec_normalize_def bd_int_def biguint_is_zero_def bval_def)

lemma bd_val_normalize [simp]: "bd_val (bigdec_normalize d) = bd_val d"
  by (simp add: bd_val_def) (simp add: bigdec_normalize_def)

lemma wf_bd_normalize: "wf_big (bd_mag d) \<Longrightarrow> wf_bd (bigdec_normalize d)"
  by (simp add: wf_bd_def bigdec_normalize_def wf_is_zero)

lemma bd_val_fields: "bd_val \<lparr>bd_neg = n, bd_mag = m, bd_scale = s\<rparr> =
    dec (if n then - int (bval m) else int (bval m)) s"
  by (simp add: bd_val_def bd_int_def)

text \<open>Two decimals at the larger of their scales, as the operations align them.\<close>

lemma align_left:
  assumes "wf_bd a" and "bd_scale b \<le> bd_scale a" and "wf_big (bd_mag b)"
  shows "bd_val b = dec ((if bd_neg b then - 1 else 1) *
      int (bval (biguint_mul_pow10_assign (bd_mag b) (scale_pad (bd_scale a) (bd_scale b))))) (bd_scale a)"
proof -
  have "bd_val b = dec (bd_int b * 10 ^ nat (bd_scale a - bd_scale b)) (bd_scale a)"
    unfolding bd_val_def by (rule dec_rescale [OF assms(2)])
  then show ?thesis
    using biguint_mul_pow10_assign_val(1) [OF assms(3)] assms(2)
    by (simp add: bd_int_def scale_pad_def abs_of_nonneg)
qed

lemma bigdec_cmp_aligned:
  assumes "wf_big m" and "wf_big n"
  shows "(if s then ord_reverse (biguint_cmp m n) else biguint_cmp m n) =
    ord_cmp ((if s then - 1 else 1) * int (bval m)) ((if s then - 1 else 1) * int (bval n))"
  using assms by (auto simp: biguint_cmp_val ord_cmp_def)

lemma bigdec_cmp_val:
  assumes "wf_bd a" and "wf_bd b"
  shows "bigdec_cmp a b = ord_cmp (bd_val a) (bd_val b)"
proof -
  have w: "wf_big (bd_mag a)" "wf_big (bd_mag b)" using assms by (simp_all add: wf_bd_def)
  note p = biguint_mul_pow10_assign_val
  consider (zero) "bigdec_is_zero a \<and> bigdec_is_zero b"
    | (signs) "\<not> (bigdec_is_zero a \<and> bigdec_is_zero b)" "bd_neg a \<noteq> bd_neg b"
    | (same) "\<not> (bigdec_is_zero a \<and> bigdec_is_zero b)" "bd_neg a = bd_neg b"
    by blast
  then show ?thesis
  proof cases
    case zero
    then have "bd_val a = 0" "bd_val b = 0"
      using w by (simp_all add: bd_val_def bd_int_def bigdec_is_zero_def wf_is_zero)
    with zero show ?thesis by (simp add: bigdec_cmp_def)
  next
    case signs
    have "0 < bval (bd_mag (if bd_neg a then a else b))"
      using signs(2) assms by (auto simp: wf_bd_def)
    then have "if bd_neg a then bd_val a < 0 \<and> 0 \<le> bd_val b else 0 \<le> bd_val a \<and> bd_val b < 0"
      using signs(2) dec_pos by (auto simp: bd_val_def bd_int_def dec_def less_imp_le)
    then have "if bd_neg a then bd_val a < bd_val b else bd_val b < bd_val a"
      by (auto split: if_splits)
    with signs show ?thesis by (auto simp: bigdec_cmp_def split: if_splits)
  next
    case same
    let ?sg = "(if bd_neg a then - 1 else 1) :: int"
    have va: "bd_val a = dec (?sg * int (bval (bd_mag a))) (bd_scale a)"
      and vb: "bd_val b = dec (?sg * int (bval (bd_mag b))) (bd_scale b)"
      using same(2) by (simp_all add: bd_val_def bd_int_def)
    consider (eq) "bd_scale a = bd_scale b" | (gt) "bd_scale b < bd_scale a"
      | (lt) "bd_scale a < bd_scale b" by linarith
    then show ?thesis
    proof cases
      case eq
      then have "bigdec_cmp a b = ord_cmp (?sg * int (bval (bd_mag a))) (?sg * int (bval (bd_mag b)))"
        using same bigdec_cmp_aligned [OF w] by (auto simp: bigdec_cmp_def Let_def)
      with eq show ?thesis unfolding va vb by simp
    next
      case gt
      let ?p = "biguint_mul_pow10_assign (bd_mag b) (scale_pad (bd_scale a) (bd_scale b))"
      have "bigdec_cmp a b = ord_cmp (?sg * int (bval (bd_mag a))) (?sg * int (bval ?p))"
        using same gt bigdec_cmp_aligned [OF w(1) p(2) [OF w(2)]] by (auto simp add: bigdec_cmp_def Let_def)
      moreover have "bd_val b = dec (?sg * int (bval ?p)) (bd_scale a)"
        using align_left [OF assms(1) _ w(2)] gt same(2) by simp
      ultimately show ?thesis unfolding va by simp
    next
      case lt
      let ?p = "biguint_mul_pow10_assign (bd_mag a) (scale_pad (bd_scale b) (bd_scale a))"
      have "bigdec_cmp a b = ord_cmp (?sg * int (bval ?p)) (?sg * int (bval (bd_mag b)))"
        using same lt bigdec_cmp_aligned [OF p(2) [OF w(1)] w(2)] by (auto simp add: bigdec_cmp_def Let_def)
      moreover have "bd_val a = dec (?sg * int (bval ?p)) (bd_scale b)"
        using align_left [OF assms(2) _ w(1)] lt same(2) by simp
      ultimately show ?thesis unfolding vb by simp
    qed
  qed
qed

lemma bigdec_neg_val [simp]: "bd_val (bigdec_neg d) = - bd_val d"
  by (simp add: bigdec_neg_def) (simp add: bd_val_def bd_int_def dec_uminus)

lemma wf_bigdec_neg: "wf_bd d \<Longrightarrow> wf_bd (bigdec_neg d)"
  unfolding bigdec_neg_def by (rule wf_bd_normalize) (simp add: wf_bd_def)

lemma wf_bigdec_zero [simp]: "wf_bd bigdec_zero" "bd_val bigdec_zero = 0"
  by (simp_all add: bigdec_zero_def wf_bd_def bd_val_fields)

text \<open>Signed subtraction of aligned magnitudes.\<close>

lemma sub_aligned:
  assumes w: "wf_big ma" "wf_big mb"
    and d: "d = (if na = nb
         then (case biguint_cmp ma mb of
                 Equal \<Rightarrow> bigdec_zero
               | Greater \<Rightarrow>
                   bigdec_normalize \<lparr>bd_neg = na, bd_mag = biguint_sub_assign ma mb, bd_scale = s\<rparr>
               | Less \<Rightarrow>
                   bigdec_normalize \<lparr>bd_neg = \<not> na, bd_mag = biguint_sub_assign mb ma, bd_scale = s\<rparr>)
         else bigdec_normalize \<lparr>bd_neg = na, bd_mag = biguint_add_assign ma mb, bd_scale = s\<rparr>)"
  shows "wf_bd d \<and> bd_val d =
    dec ((if na then - 1 else 1) * int (bval ma)) s - dec ((if nb then - 1 else 1) * int (bval mb)) s"
proof -
  have sub: "dec x s - dec y s = dec (x - y) s" for x y
    by (simp add: dec_def left_diff_distrib)
  show ?thesis
  proof (cases "na = nb")
    case False
    then have e: "d = bigdec_normalize \<lparr>bd_neg = na, bd_mag = biguint_add_assign ma mb, bd_scale = s\<rparr>"
      using d by simp
    show ?thesis unfolding e sub
      using False wf_bd_normalize biguint_add_assign_val [OF w] by (auto simp: bd_val_fields)
  next
    case True
    show ?thesis
    proof (cases "bval ma" "bval mb" rule: linorder_cases)
      case less
      then have e: "d = bigdec_normalize \<lparr>bd_neg = \<not> na, bd_mag = biguint_sub_assign mb ma, bd_scale = s\<rparr>"
        using d True w by (simp add: biguint_cmp_val)
      show ?thesis unfolding e sub
        using True less wf_bd_normalize biguint_sub_assign_val [OF w(2,1)]
        by (auto simp: bd_val_fields of_nat_diff)
    next
      case equal
      then have e: "d = bigdec_zero" using d True w by (simp add: biguint_cmp_val)
      show ?thesis unfolding e sub using True equal by simp
    next
      case greater
      then have e: "d = bigdec_normalize \<lparr>bd_neg = na, bd_mag = biguint_sub_assign ma mb, bd_scale = s\<rparr>"
        using d True w by (simp add: biguint_cmp_val)
      show ?thesis unfolding e sub
        using True greater wf_bd_normalize biguint_sub_assign_val [OF w]
        by (auto simp: bd_val_fields of_nat_diff)
    qed
  qed
qed

lemma bigdec_sub_val:
  assumes "wf_bd a" and "wf_bd b"
  shows "wf_bd (bigdec_sub a b) \<and> bd_val (bigdec_sub a b) = bd_val a - bd_val b"
proof -
  have w: "wf_big (bd_mag a)" "wf_big (bd_mag b)" using assms by (simp_all add: wf_bd_def)
  note p = biguint_mul_pow10_assign_val(2)
  have sg: "bd_val d = dec ((if bd_neg d then - 1 else 1) * int (bval (bd_mag d))) (bd_scale d)" for d
    by (simp add: bd_val_def bd_int_def)
  show ?thesis
  proof (cases "bd_scale b \<le> bd_scale a")
    case True
    show ?thesis
      unfolding sg [of a] align_left [OF assms(1) True w(2)]
      by (rule sub_aligned [OF w(1) p [OF w(2)]]) (simp add: bigdec_sub_def True)
  next
    case False
    then have le: "bd_scale a \<le> bd_scale b" by simp
    show ?thesis
      unfolding sg [of b] align_left [OF assms(2) le w(1)]
      by (rule sub_aligned [OF p [OF w(1)] w(2)]) (simp add: bigdec_sub_def False)
  qed
qed

lemma bigdec_add_val:
  assumes "wf_bd a" and "wf_bd b"
  shows "wf_bd (bigdec_add a b) \<and> bd_val (bigdec_add a b) = bd_val a + bd_val b"
  using bigdec_sub_val [OF assms(1) wf_bigdec_neg [OF assms(2)]] by (simp add: bigdec_add_def)

lemma bigdec_mul_exact_val:
  assumes "wf_bd a" and "wf_bd b" and "length (limbs (bd_mag a)) < 2 ^ 64"
    and "- 2147483648 \<le> bd_scale a + bd_scale b" and "bd_scale a + bd_scale b \<le> 2147483647"
  shows "\<exists>p. bigdec_mul_exact a b = Some p \<and> wf_bd p \<and> bd_val p = bd_val a * bd_val b"
proof -
  have w: "wf_big (bd_mag a)" "wf_big (bd_mag b)" using assms by (simp_all add: wf_bd_def)
  have l: "length (limbs (bd_mag a)) < 18446744073709551616" using assms(3) by simp
  have s: "clamp_i32 (bd_scale a + bd_scale b) = bd_scale a + bd_scale b"
    using assms(4,5) by (simp add: clamp_i32_def)
  show ?thesis
    using biguint_mul_val [OF w l] wf_bd_normalize
    by (auto simp: bigdec_mul_exact_def bd_val_fields s bd_val_def [of a] bd_val_def [of b]
        bd_int_def dec_mult)
qed

section \<open>Construction and normal form\<close>

lemma strip_zeros_spec:
  "strip_zeros u s = (u', s') \<Longrightarrow>
     dec u' s' = dec u s \<and> \<bar>u'\<bar> \<le> \<bar>u\<bar> \<and> (u' = 0 \<longleftrightarrow> u = 0) \<and> (u' < 0 \<longleftrightarrow> u < 0) \<and>
     (0 < s' \<longrightarrow> u' mod 10 \<noteq> 0)"
proof (induction u s rule: strip_zeros.induct)
  case (1 u s)
  show ?case
  proof (cases "0 < s \<and> u mod 10 = 0")
    case True
    then obtain v where v: "u = v * 10" by auto
    have "strip_zeros v (s - 1) = (u', s')"
      using "1.prems" True unfolding v by (simp add: strip_zeros.simps [of "v * 10" s])
    with "1.IH" [OF True] v have "dec u' s' = dec v (s - 1) \<and> \<bar>u'\<bar> \<le> \<bar>v\<bar> \<and> (u' = 0 \<longleftrightarrow> v = 0) \<and>
      (u' < 0 \<longleftrightarrow> v < 0) \<and> (0 < s' \<longrightarrow> u' mod 10 \<noteq> 0)" by simp
    moreover have "dec v (s - 1) = dec u s" using dec_rescale [of "s - 1" s v] by (simp add: v)
    ultimately show ?thesis using v by auto
  next
    case False
    with "1.prems" show ?thesis by (auto simp: strip_zeros.simps [of u s])
  qed
qed

lemma numeric_new_val:
  "num_val (numeric_new u s) = dec u s"
  "- (2 ^ 127) \<le> u \<Longrightarrow> u < 2 ^ 127 \<Longrightarrow> wf_num (numeric_new u s)"
  "big (numeric_new u s) = None" "special (numeric_new u s) = NFinite"
proof -
  obtain u' s' where e: "(if u = 0 then (u, 0) else strip_zeros u s) = (u', s')" by force
  have n: "numeric_new u s =
      \<lparr>unscaled = u', nscale = s', dscale = max s 0, special = NFinite, big = None\<rparr>"
    by (simp add: numeric_new_def e)
  have p: "dec u' s' = dec u s \<and> \<bar>u'\<bar> \<le> \<bar>u\<bar> \<and> (u' = 0 \<longrightarrow> s' = 0) \<and> (0 < s' \<longrightarrow> u' mod 10 \<noteq> 0)"
    using strip_zeros_spec [of u s u' s'] e by (cases "u = 0") auto
  then show "num_val (numeric_new u s) = dec u s" by (simp add: n num_val_def num_int_def)
  have sg: "(u' < 0 \<longleftrightarrow> u < 0)"
    using strip_zeros_spec [of u s u' s'] e by (cases "u = 0") auto
  show "- (2 ^ 127) \<le> u \<Longrightarrow> u < 2 ^ 127 \<Longrightarrow> wf_num (numeric_new u s)"
    using p sg by (auto simp: n wf_num_def num_int_def abs_if split: if_splits)
  show "big (numeric_new u s) = None" "special (numeric_new u s) = NFinite" by (simp_all add: n)
qed

lemma with_dscale_simps [simp]:
  "num_val (with_dscale n ds) = num_val n" "wf_num (with_dscale n ds) = wf_num n"
  "big (with_dscale n ds) = big n" "special (with_dscale n ds) = special n"
  by (simp_all add: with_dscale_def num_val_def num_int_def wf_num_def split: option.split)

lemma zero_val [simp]: "num_val (numeric_special_value s) = 0" "wf_num (numeric_special_value NFinite)"
  by (simp_all add: numeric_special_value_def num_val_def num_int_def wf_num_def)

lemma numeric_mag_val:
  assumes "wf_num n"
  shows "bval (numeric_mag n) = nat \<bar>num_int n\<bar>" and "wf_big (numeric_mag n)"
proof -
  have "unat (word_of_int \<bar>unscaled n\<bar> :: u128) = nat \<bar>unscaled n\<bar>"
    using assms by (auto simp: wf_num_def unat_eq_nat_uint uint_word_of_int abs_if)
  then show "bval (numeric_mag n) = nat \<bar>num_int n\<bar>" and "wf_big (numeric_mag n)"
    using assms by (auto simp: numeric_mag_def num_int_def wf_num_def abs_mult split: option.splits)
qed

lemma num_int_sign:
  "wf_num n \<Longrightarrow> num_int n = 0 \<longleftrightarrow> unscaled n = 0"
  "wf_num n \<Longrightarrow> num_int n < 0 \<longleftrightarrow> unscaled n < 0"
  by (auto simp: num_int_def wf_num_def mult_less_0_iff split: option.splits)

lemma bigdec_from_numeric_val:
  assumes "wf_num n"
  shows "\<exists>d. bigdec_from_numeric n = Some d \<and> wf_bd d \<and> bd_val d = num_val n"
proof -
  let ?d = "\<lparr>bd_neg = unscaled n < 0, bd_mag = numeric_mag n, bd_scale = nscale n\<rparr>"
  have "bd_val ?d = num_val n"
    using numeric_mag_val [OF assms] num_int_sign [OF assms]
    by (auto simp: bd_val_fields num_val_def)
  moreover have "wf_bd (bigdec_normalize ?d)"
    using numeric_mag_val [OF assms] by (intro wf_bd_normalize) simp
  moreover have "special n = NFinite" using assms by (simp add: wf_num_def)
  ultimately show ?thesis by (simp add: bigdec_from_numeric_def)
qed

lemma numeric_neg_val:
  assumes "wf_num n" and "unscaled n \<noteq> - (2 ^ 127)"
  shows "wf_num (numeric_neg n) \<and> num_val (numeric_neg n) = - num_val n"
proof -
  have sat: "saturating_neg_i128 (unscaled n) = - unscaled n"
    using assms by (auto simp: wf_num_def saturating_neg_i128_def)
  have fin: "special n = NFinite" and u: "- (2 ^ 127) \<le> - unscaled n" "- unscaled n < 2 ^ 127"
    using assms by (auto simp: wf_num_def)
  let ?m = "with_dscale (numeric_new (- unscaled n) (nscale n)) (dscale n)"
  show ?thesis
  proof (cases "big n")
    case None
    then have "numeric_neg n = ?m" by (simp add: numeric_neg.simps fin sat Let_def)
    with None numeric_new_val(1,2) u show ?thesis
      by (simp add: num_val_def [of n] num_int_def dec_uminus)
  next
    case (Some m)
    then have one: "\<bar>unscaled n\<bar> = 1" using assms by (simp add: wf_num_def)
    then have st: "strip_zeros (- unscaled n) (nscale n) = (- unscaled n, nscale n)"
      by (subst strip_zeros.simps) (auto simp: abs_if split: if_splits)
    have e: "numeric_neg n = \<lparr>unscaled = - unscaled n, nscale = nscale n, dscale = max (dscale n) 0,
        special = NFinite, big = Some m\<rparr>"
      using Some one by (auto simp: numeric_neg.simps fin sat Let_def numeric_new_def st with_dscale_def)
    show ?thesis unfolding e
      using assms Some
      by (simp add: wf_num_def num_val_def num_int_def dec_uminus flip: dvd_eq_mod_eq_0)
  qed
qed

lemma strip_big_spec:
  "strip_big m s = (m', s') \<Longrightarrow> wf_big m \<Longrightarrow> 0 < bval m \<Longrightarrow>
     wf_big m' \<and> 0 < bval m' \<and> dec (int (bval m')) s' = dec (int (bval m)) s \<and>
     (0 < s' \<longrightarrow> bval m' mod 10 \<noteq> 0)"
proof (induction m s rule: strip_big.induct)
  case (1 m s)
  obtain q r where qr: "biguint_div_rem_small m 10 = (q, r)" by force
  have d: "bval q = bval m div 10" "unat r = bval m mod 10" "wf_big q"
    using biguint_div_rem_small_val [OF _ _ qr] "1.prems"(2) by (simp_all add: wf_big_def)
  show ?case
  proof (cases "0 < s \<and> r = 0")
    case True
    then have "bval m mod 10 = 0" using d(2) by simp
    then have m: "bval m = bval q * 10" using d(1) by auto
    have "strip_big q (s - 1) = (m', s')"
      using "1.prems"(1) True by (simp add: strip_big.simps [of m s] qr)
    with "1.IH" [OF _ qr [symmetric] refl] True d(3) m "1.prems"(3)
    have "wf_big m' \<and> 0 < bval m' \<and> dec (int (bval m')) s' = dec (int (bval q)) (s - 1) \<and>
      (0 < s' \<longrightarrow> bval m' mod 10 \<noteq> 0)" by simp
    moreover have "dec (int (bval q)) (s - 1) = dec (int (bval m)) s"
      using dec_rescale [of "s - 1" s "int (bval q)"] by (simp add: m)
    ultimately show ?thesis by simp
  next
    case False
    then have "r \<noteq> 0 \<Longrightarrow> bval m mod 10 \<noteq> 0" using d(2) by (metis unat_0_iff)
    then show ?thesis
      using False "1.prems" by (auto simp: strip_big.simps [of m s] qr split: if_splits)
  qed
qed

text \<open>
  Building from an exact decimal keeps the value; it refuses only a number of more than
  131072 integer digits.
\<close>

lemma numeric_from_big_val:
  assumes "wf_big mag" and "numeric_from_big neg mag s ds = Some n"
  shows "wf_num n \<and> num_val n = dec (if neg then - int (bval mag) else int (bval mag)) s"
proof (cases "biguint_is_zero mag")
  case True
  then have "bval mag = 0" using wf_is_zero [OF assms(1)] by simp
  moreover have "n = with_dscale numeric_zero ds" using assms(2) True by (simp add: numeric_from_big_def)
  ultimately show ?thesis by simp
next
  case False
  then have pos: "0 < bval mag" using wf_is_zero [OF assms(1)] by simp
  obtain m s' where ms: "strip_big mag s = (m, s')" by force
  note st = strip_big_spec [OF ms assms(1) pos]
  have neg_dec: "dec (- int (bval m)) s' = dec (- int (bval mag)) s"
    using st by (metis dec_uminus)
  show ?thesis
  proof (cases "bval m < 2 ^ 127")
    case True
    then have "biguint_to_i128 m = Some (int (bval m))" by (simp add: biguint_to_i128_val)
    then have n: "n = with_dscale (numeric_new (if neg then - int (bval m) else int (bval m)) s') ds"
      using assms(2) False by (auto simp: numeric_from_big_def ms Let_def split: if_splits)
    have "int (bval m) < 2 ^ 127" using True by (metis of_nat_less_iff of_nat_numeral of_nat_power)
    then have "wf_num n" unfolding n by (simp add: numeric_new_val(2))
    moreover have "num_val n = dec (if neg then - int (bval m) else int (bval m)) s'"
      unfolding n by (simp add: numeric_new_val(1))
    ultimately show ?thesis using st neg_dec by simp
  next
    case False2: False
    then have "biguint_to_i128 m = None" by (simp add: biguint_to_i128_val)
    then have n: "n = \<lparr>unscaled = (if neg then - 1 else 1), nscale = s', dscale = max ds 0,
         special = NFinite, big = Some m\<rparr>"
      using assms(2) False by (auto simp: numeric_from_big_def ms Let_def split: if_splits)
    have m10: "0 < s' \<Longrightarrow> int (bval m) mod 10 \<noteq> 0" using st by (metis of_nat_eq_0_iff of_nat_mod of_nat_numeral)
    show ?thesis
      using st neg_dec m10
      by (auto simp: n wf_num_def num_val_def num_int_def simp flip: dvd_eq_mod_eq_0)
  qed
qed

lemma numeric_from_bigdec_val:
  assumes "wf_bd d" and "numeric_from_bigdec d ds = Some n"
  shows "wf_num n \<and> num_val n = bd_val d"
proof -
  have w: "wf_big (bd_mag d)" "biguint_is_zero (bd_mag d) \<longrightarrow> \<not> bd_neg d"
    using assms(1) wf_is_zero by (auto simp: wf_bd_def)
  with numeric_from_big_val [OF w(1) assms(2) [unfolded numeric_from_bigdec_def]]
  show ?thesis by (auto simp: bd_val_def bd_int_def)
qed

section \<open>Addition\<close>

lemma scale_up_i128_Some:
  "scale_up_i128 n s = Some x \<Longrightarrow> x = unscaled n * 10 ^ nat (s - nscale n)"
  by (auto simp: scale_up_i128_def i128_range_def split: option.splits if_splits)

lemma numeric_aligned_val:
  assumes "wf_num a" and "wf_num b" and "big a = None" and "big b = None"
    and "numeric_aligned a b = Some (x, y, s)"
  shows "num_val a = dec x s" and "num_val b = dec y s"
proof -
  have s: "s = max (nscale a) (nscale b)" "scale_up_i128 a s = Some x" "scale_up_i128 b s = Some y"
    using assms(5) by (auto simp: numeric_aligned_def Let_def split: option.splits)
  show "num_val a = dec x s"
    using dec_rescale [of "nscale a" s "unscaled a"] scale_up_i128_Some [OF s(2)] s(1) assms(3)
    by (simp add: num_val_def num_int_def)
  show "num_val b = dec y s"
    using dec_rescale [of "nscale b" s "unscaled b"] scale_up_i128_Some [OF s(3)] s(1) assms(4)
    by (simp add: num_val_def num_int_def)
qed

lemma numeric_checked_add_val:
  assumes "wf_num a" and "wf_num b" and "numeric_checked_add a b = Some r"
  shows "wf_num r \<and> num_val r = num_val a + num_val b"
proof -
  have fin: "special a = NFinite" "special b = NFinite" using assms by (simp_all add: wf_num_def)
  obtain x y where xy: "bigdec_from_numeric a = Some x" "wf_bd x" "bd_val x = num_val a"
      "bigdec_from_numeric b = Some y" "wf_bd y" "bd_val y = num_val b"
    using bigdec_from_numeric_val [OF assms(1)] bigdec_from_numeric_val [OF assms(2)] by blast
  have exact: "wf_num r \<and> num_val r = num_val a + num_val b"
    if "numeric_from_bigdec (bigdec_add x y) ds = Some r" for ds
    using numeric_from_bigdec_val [OF _ that] bigdec_add_val [OF xy(2,5)] xy(3,6) by simp
  show ?thesis
  proof (cases "big a = None \<and> big b = None \<and> numeric_aligned a b \<noteq> None")
    case False
    then have "numeric_from_bigdec (bigdec_add x y) (max (dscale a) (dscale b)) = Some r"
      using assms(3) fin xy(1,4) by (auto simp: numeric_checked_add.simps Let_def split: if_splits option.splits)
    then show ?thesis by (rule exact)
  next
    case True
    then obtain p q s where al: "numeric_aligned a b = Some (p, q, s)" by auto
    have v: "num_val a + num_val b = dec (p + q) s"
      using numeric_aligned_val [OF assms(1,2) _ _ al] True by (simp add: dec_add)
    show ?thesis
    proof (cases "i128_range (p + q)")
      case None
      then have "numeric_from_bigdec (bigdec_add x y) (max (dscale a) (dscale b)) = Some r"
        using assms(3) fin xy(1,4) True al by (auto simp: numeric_checked_add.simps Let_def)
      then show ?thesis by (rule exact)
    next
      case (Some t)
      then have t: "t = p + q" by (simp add: i128_range_def split: if_splits)
      have r: "r = with_dscale (numeric_new (p + q) s) (max (dscale a) (dscale b))"
        using assms(3) fin xy(1,4) True al Some t by (auto simp: numeric_checked_add.simps Let_def)
      have "- (2 ^ 127) \<le> p + q" "p + q < 2 ^ 127"
        using Some by (auto simp: i128_range_def split: if_splits)
      then show ?thesis unfolding r by (simp add: numeric_new_val v)
    qed
  qed
qed

section \<open>Comparison\<close>

lemma dec_string_bounds:
  "0 < n \<Longrightarrow> 10 ^ (length (dec_string n) - 1) \<le> n \<and> n < 10 ^ length (dec_string n)"
proof (induction n rule: dec_string.induct)
  case (1 n)
  show ?case
  proof (cases "n < 10")
    case True
    with "1.prems" show ?thesis by (simp add: dec_string_small)
  next
    case False
    then have "0 < n div 10" by (simp add: div_greater_zero_iff)
    with "1.IH" False have IH: "10 ^ (length (dec_string (n div 10)) - 1) \<le> n div 10"
      "n div 10 < 10 ^ length (dec_string (n div 10))" by auto
    obtain k where k: "length (dec_string (n div 10)) = Suc k"
      by (cases "length (dec_string (n div 10))") auto
    have "10 * 10 ^ k \<le> 10 * (n div 10)" using IH(1) k by simp
    also have "\<dots> \<le> n" by simp
    finally have "10 ^ Suc k \<le> n" by simp
    moreover have "n < 10 * 10 ^ Suc k" using IH(2) k by (simp add: div_less_iff_less_mult)
    ultimately show ?thesis using False k by (simp add: dec_string_step)
  qed
qed

lemma log_digits_val: "0 < v \<Longrightarrow> log_digits v = int (length (dec_string v)) - 1"
proof (induction v rule: log_digits.induct)
  case (1 v)
  then show ?case
    by (cases "10 \<le> v")
      (simp_all add: log_digits.simps [of v] dec_string_small dec_string_step div_greater_zero_iff)
qed

text \<open>The magnitude of a number of \<open>L\<close> digits.\<close>

definition num_digits :: "numeric \<Rightarrow> nat" where
  "num_digits n = length (dec_string (nat \<bar>num_int n\<bar>))"

lemma num_val_bounds:
  assumes "num_int n \<noteq> 0"
  shows "10 powi (int (num_digits n) - 1 - nscale n) \<le> \<bar>num_val n\<bar>"
    and "\<bar>num_val n\<bar> < 10 powi (int (num_digits n) - nscale n)"
proof -
  define L where "L = num_digits n"
  have b: "10 ^ (L - 1) \<le> nat \<bar>num_int n\<bar>" "nat \<bar>num_int n\<bar> < 10 ^ L"
    using dec_string_bounds [of "nat \<bar>num_int n\<bar>"] assms by (simp_all add: L_def num_digits_def)
  have L1: "1 \<le> L" using dec_string_nonempty [of "nat \<bar>num_int n\<bar>"]
    by (simp add: L_def num_digits_def Suc_le_eq)
  have i: "10 ^ (L - 1) \<le> \<bar>num_int n\<bar>" "\<bar>num_int n\<bar> < 10 ^ L"
    using b by (simp_all add: nat_less_iff le_nat_iff)
  have v: "\<bar>num_val n\<bar> = of_int \<bar>num_int n\<bar> * 10 powi (- nscale n)"
    by (simp add: num_val_def dec_def abs_mult dec_pos less_imp_le)
  have p: "(10 :: rat) powi (int k - nscale n) = of_int (10 ^ k) * 10 powi (- nscale n)" for k
    using power_int_add [of "10 :: rat" "int k" "- nscale n"] by simp
  have e: "int L - 1 - nscale n = int (L - 1) - nscale n" using L1 by simp
  show "10 powi (int (num_digits n) - 1 - nscale n) \<le> \<bar>num_val n\<bar>"
    unfolding L_def [symmetric] e v p using i(1)
    by (intro mult_right_mono) (simp_all only: of_int_le_iff dec_pos [THEN less_imp_le])
  show "\<bar>num_val n\<bar> < 10 powi (int (num_digits n) - nscale n)"
    unfolding L_def [symmetric] v p using i(2)
    by (intro mult_strict_right_mono) (simp_all only: of_int_less_iff dec_pos)
qed

lemma powi_mono: "a \<le> b \<Longrightarrow> (10 :: rat) powi a \<le> 10 powi b"
  by (simp add: power_int_increasing)

lemma num_abs_less:
  assumes "num_int a \<noteq> 0" and "num_int b \<noteq> 0"
    and "int (num_digits a) - nscale a < int (num_digits b) - nscale b"
  shows "\<bar>num_val a\<bar> < \<bar>num_val b\<bar>"
proof -
  note num_val_bounds(2) [OF assms(1)]
  also have "10 powi (int (num_digits a) - nscale a) \<le> (10 :: rat) powi (int (num_digits b) - 1 - nscale b)"
    using assms(3) by (intro powi_mono) simp
  also note num_val_bounds(1) [OF assms(2)]
  finally show ?thesis .
qed

text \<open>
  The digit count of \<^verbatim>\<open>cmp\<close> is one less for an \<^verbatim>\<open>i128\<close> mantissa than for a big one.
\<close>

definition limbs_small :: "numeric \<Rightarrow> bool" where
  "limbs_small n \<longleftrightarrow> (case big n of None \<Rightarrow> True | Some m \<Rightarrow> length (limbs m) < 400000000)"

lemma cmp_magnitude_val:
  assumes "wf_num n" and "unscaled n \<noteq> 0" and "limbs_small n"
  shows "cmp_magnitude n =
    int (num_digits n) - nscale n - (case big n of None \<Rightarrow> 1 | Some _ \<Rightarrow> 0)"
proof (cases "big n")
  case None
  then show ?thesis
    using log_digits_val [of "nat \<bar>unscaled n\<bar>"] assms(2)
    by (simp add: cmp_magnitude_def num_digits_def num_int_def)
next
  case (Some m)
  then have "wf_big m" "0 < bval m" "\<bar>unscaled n\<bar> = 1" "length (limbs m) < 400000000"
    using assms by (simp_all add: wf_num_def limbs_small_def)
  with Some biguint_decimal_digits_val [of m] show ?thesis
    by (simp add: cmp_magnitude_def num_digits_def num_int_def abs_mult)
qed

lemma ord_cmp_abs:
  fixes x y :: rat
  assumes "(x < 0) = (y < 0)" and "\<bar>x\<bar> < \<bar>y\<bar>"
  shows "ord_cmp x y = (if x < 0 then Greater else Less)" "ord_cmp y x = (if x < 0 then Less else Greater)"
proof -
  have "if x < 0 then y < x else x < y"
  proof (cases "x < 0")
    case True
    then show ?thesis using assms by (simp add: abs_of_neg)
  next
    case False
    then show ?thesis using assms by (simp add: abs_of_nonneg)
  qed
  then show "ord_cmp x y = (if x < 0 then Greater else Less)"
    and "ord_cmp y x = (if x < 0 then Less else Greater)"
    by (simp_all split: if_splits)
qed

lemma num_val_sign:
  assumes "wf_num n"
  shows "num_val n < 0 \<longleftrightarrow> unscaled n < 0" and "num_val n = 0 \<longleftrightarrow> unscaled n = 0"
    and "0 < num_val n \<longleftrightarrow> 0 < unscaled n"
proof -
  show a: "num_val n < 0 \<longleftrightarrow> unscaled n < 0" and b: "num_val n = 0 \<longleftrightarrow> unscaled n = 0"
    using num_int_sign [OF assms] by (simp_all add: num_val_def dec_sign)
  show "0 < num_val n \<longleftrightarrow> 0 < unscaled n" using a b by auto
qed

lemma bigdec_cmp_numeric_val:
  assumes "wf_num a" and "wf_num b"
  shows "bigdec_cmp_numeric a b = ord_cmp (num_val a) (num_val b)"
  using bigdec_from_numeric_val [OF assms(1)] bigdec_from_numeric_val [OF assms(2)]
  by (auto simp: bigdec_cmp_numeric_def bigdec_cmp_val)

lemma numeric_cmp_val:
  assumes w: "wf_num a" "wf_num b" and s: "limbs_small a" "limbs_small b"
    and same: "big a = None \<longleftrightarrow> big b = None"
  shows "numeric_cmp a b = ord_cmp (num_val a) (num_val b)"
proof -
  note sa = num_val_sign [OF w(1)] and sb = num_val_sign [OF w(2)]
  have fin: "special a = NFinite" "special b = NFinite" using w by (simp_all add: wf_num_def)
  have e: "numeric_cmp a b = numeric_cmp_finite a b" by (simp add: numeric_cmp.simps fin)
  show ?thesis
  proof (cases "unscaled a \<noteq> 0 \<and> unscaled b \<noteq> 0 \<and> (unscaled a < 0) = (unscaled b < 0)")
    case False
    then consider "unscaled a = 0" | "unscaled b = 0"
      | "unscaled a < 0" "0 < unscaled b" | "0 < unscaled a" "unscaled b < 0"
      by linarith
    then show ?thesis
      unfolding e using sa sb
      by cases (auto simp: numeric_cmp_finite_def ord_cmp_def not_less)
  next
    case True
    have nz: "num_int a \<noteq> 0" "num_int b \<noteq> 0" using True num_int_sign w by simp_all
    have m: "cmp_magnitude a - cmp_magnitude b =
        (int (num_digits a) - nscale a) - (int (num_digits b) - nscale b)"
      using cmp_magnitude_val [OF w(1) _ s(1)] cmp_magnitude_val [OF w(2) _ s(2)] True same
      by (auto split: option.splits)
    have sg: "(num_val a < 0) = (num_val b < 0)" using sa sb True by simp
    consider (lt) "cmp_magnitude a < cmp_magnitude b" | (gt) "cmp_magnitude b < cmp_magnitude a"
      | (eq) "cmp_magnitude a = cmp_magnitude b" by linarith
    then show ?thesis
    proof cases
      case lt
      then have "\<bar>num_val a\<bar> < \<bar>num_val b\<bar>" using m by (intro num_abs_less [OF nz]) simp
      from ord_cmp_abs(1) [OF sg this] show ?thesis
        unfolding e using True lt sa by (simp add: numeric_cmp_finite_def Let_def)
    next
      case gt
      then have "\<bar>num_val b\<bar> < \<bar>num_val a\<bar>" using m by (intro num_abs_less [OF nz(2,1)]) simp
      from ord_cmp_abs(2) [OF sg [symmetric] this] show ?thesis
        unfolding e using True gt sa sb by (simp add: numeric_cmp_finite_def Let_def)
    next
      case eq
      show ?thesis
      proof (cases "big a \<noteq> None \<or> numeric_aligned a b = None")
        case True2: True
        then have "numeric_cmp_finite a b = bigdec_cmp_numeric a b"
          using True eq same by (auto simp: numeric_cmp_finite_def)
        with e show ?thesis by (simp add: bigdec_cmp_numeric_val [OF w])
      next
        case False
        then obtain x y t where al: "numeric_aligned a b = Some (x, y, t)" "big a = None" "big b = None"
          using same by auto
        then have "numeric_cmp_finite a b = ord_cmp x y"
          using True eq by (simp add: numeric_cmp_finite_def)
        with e numeric_aligned_val [OF w al(2,3,1)] show ?thesis by simp
      qed
    qed
  qed
qed

section \<open>The hash key\<close>

text \<open>Two normalized decimals of non-negative scale are equal only field by field.\<close>

lemma dec_inj_normal:
  assumes "dec m s = dec n t" and "0 \<le> s" and "0 \<le> t"
    and "0 < s \<Longrightarrow> m mod 10 \<noteq> 0" and "0 < t \<Longrightarrow> n mod 10 \<noteq> 0"
  shows "m = n \<and> s = t"
proof -
  have no: "\<not> s' < t'" if "dec m' s' = dec n' t'" "0 \<le> s'" "0 < t' \<Longrightarrow> n' mod 10 \<noteq> 0"
    for m' n' s' t'
  proof
    assume lt: "s' < t'"
    then have "dec (m' * 10 ^ nat (t' - s')) t' = dec n' t'"
      using that(1) dec_rescale [of s' t' m'] by simp
    then have "n' = m' * 10 ^ nat (t' - s')" by simp
    moreover obtain k where "nat (t' - s') = Suc k" using lt by (cases "nat (t' - s')") auto
    ultimately have "n' mod 10 = 0" by simp
    with that(2,3) lt show False by simp
  qed
  have "s = t" using no [OF assms(1,2,5)] no [OF assms(1) [symmetric] assms(3,4)] by linarith
  with assms(1) show ?thesis by simp
qed

lemma mod10_word: "(m :: u128) mod 10 = 0 \<longleftrightarrow> unat m mod 10 = 0"
proof -
  have "unat (m mod 10) = unat m mod 10" by (simp add: unat_mod_distrib)
  then show ?thesis by (metis unat_eq_zero)
qed

text \<open>On a normalized numeric of non-negative scale the defensive stripping does nothing.\<close>

definition key_mag :: "big_uint \<Rightarrow> num_key_mag" where
  "key_mag m = (case biguint_to_u128 m of Some v \<Rightarrow> KeySmall v | None \<Rightarrow> KeyBig m)"

lemma key_mag_iff:
  assumes "wf_big m" and "wf_big n"
  shows "key_mag m = key_mag n \<longleftrightarrow> bval m = bval n"
proof
  assume eq: "key_mag m = key_mag n"
  have word: "bval m = bval n" if "bval m < 2 ^ 128" "bval n < 2 ^ 128"
      "(of_nat (bval m) :: u128) = of_nat (bval n)"
    using arg_cong [OF that(3), of unat] that(1,2) by (simp add: unat_of_nat)
  show "bval m = bval n"
    using eq word by (auto simp: key_mag_def biguint_to_u128_val split: if_splits)
next
  assume "bval m = bval n"
  then show "key_mag m = key_mag n" using wf_big_inj [OF assms] by simp
qed

lemma numeric_hash_key_normal:
  assumes "wf_num n" and "0 \<le> nscale n"
  shows "numeric_hash_key n = (0, num_int n < 0, key_mag (numeric_mag n), nscale n)"
proof -
  have fin: "special n = NFinite" using assms(1) by (simp add: wf_num_def)
  have nz: "0 < nscale n \<Longrightarrow> nat \<bar>num_int n\<bar> mod 10 \<noteq> 0"
  proof -
    assume "0 < nscale n"
    then have "\<not> 10 dvd num_int n" using assms(1) by (auto simp: wf_num_def)
    then show "nat \<bar>num_int n\<bar> mod 10 \<noteq> 0" by (simp flip: dvd_eq_mod_eq_0 add: dvd_nat_abs_iff)
  qed
  show ?thesis
  proof (cases "big n")
    case None
    let ?w = "word_of_int \<bar>unscaled n\<bar> :: u128"
    have mag: "numeric_mag n = biguint_from_u128 ?w" by (simp add: numeric_mag_def None)
    then have u: "unat ?w = nat \<bar>num_int n\<bar>" using numeric_mag_val(1) [OF assms(1)] by simp
    have "strip_u128 ?w (nscale n) = (?w, nscale n)"
      using nz u mod10_word [of ?w] by (subst strip_u128.simps) auto
    moreover have "key_mag (numeric_mag n) = KeySmall ?w"
      using unat_lt [of ?w] by (simp add: mag key_mag_def biguint_to_u128_val)
    ultimately show ?thesis
      using fin assms(2) num_int_sign(2) [OF assms(1)]
      by (simp add: numeric_hash_key_def None max_def)
  next
    case (Some m)
    have mv: "bval (numeric_mag n) = nat \<bar>num_int n\<bar>" "wf_big (numeric_mag n)"
      using numeric_mag_val [OF assms(1)] by simp_all
    obtain q r where qr: "biguint_div_rem_small (numeric_mag n) 10 = (q, r)" by force
    then have "unat r = nat \<bar>num_int n\<bar> mod 10"
      using biguint_div_rem_small_val(2) [OF _ _ qr] mv by (simp add: wf_big_def)
    then have "0 < nscale n \<Longrightarrow> r \<noteq> 0" using nz by auto
    then have "strip_big (numeric_mag n) (nscale n) = (numeric_mag n, nscale n)"
      by (subst strip_big.simps) (simp add: qr)
    then show ?thesis
      using fin assms(2) num_int_sign(2) [OF assms(1)]
      by (simp add: numeric_hash_key_def Some max_def key_mag_def)
  qed
qed

lemma numeric_hash_key_iff:
  assumes "wf_num a" and "wf_num b" and "0 \<le> nscale a" and "0 \<le> nscale b"
  shows "numeric_hash_key a = numeric_hash_key b \<longleftrightarrow> num_val a = num_val b"
proof
  note m = numeric_mag_val [OF assms(1)] numeric_mag_val [OF assms(2)]
  assume "numeric_hash_key a = numeric_hash_key b"
  then have "(num_int a < 0) = (num_int b < 0)" "nat \<bar>num_int a\<bar> = nat \<bar>num_int b\<bar>" "nscale a = nscale b"
    using numeric_hash_key_normal [OF assms(1,3)] numeric_hash_key_normal [OF assms(2,4)]
      key_mag_iff [OF m(2,4)] m(1,3) by simp_all
  then have "num_int a = num_int b" by linarith
  with \<open>nscale a = nscale b\<close> show "num_val a = num_val b" by (simp add: num_val_def)
next
  note m = numeric_mag_val [OF assms(1)] numeric_mag_val [OF assms(2)]
  assume "num_val a = num_val b"
  then have "num_int a = num_int b \<and> nscale a = nscale b"
    unfolding num_val_def using assms by (intro dec_inj_normal) (simp_all add: wf_num_def)
  then show "numeric_hash_key a = numeric_hash_key b"
    using numeric_hash_key_normal [OF assms(1,3)] numeric_hash_key_normal [OF assms(2,4)]
      key_mag_iff [OF m(2,4)] m(1,3) by simp
qed

text \<open>A 40-digit decimal just above 1, which only a big mantissa holds.\<close>

definition one_and_a_bit :: numeric where
  "one_and_a_bit = \<lparr>unscaled = 1, nscale = 39, dscale = 39, special = NFinite,
     big = Some \<lparr>limbs = [1, 0, 0, 0, 1000]\<rparr>\<rparr>"

section \<open>Properties\<close>

text \<open>
  C18. Numeric comparison is the order of the values for two finite numerics held in the
  same representation (both with an \<^verbatim>\<open>i128\<close> mantissa, or both with a big one); NaN
  is above everything and the infinities bound the finite numerics.
\<close>

theorem numeric_cmp_correct:
  assumes "wf_num a" and "wf_num b" and "limbs_small a" and "limbs_small b"
    and "big a = None \<longleftrightarrow> big b = None"
  shows "numeric_cmp a b = ord_cmp (num_val a) (num_val b) \<and>
    numeric_cmp a numeric_nan = Less \<and> numeric_cmp a numeric_infinity = Less \<and>
    numeric_cmp a numeric_neg_infinity = Greater"
  using numeric_cmp_val [OF assms] assms(1)
  by (simp add: wf_num_def numeric_cmp.simps numeric_special_value_def)

lemma numeric_cmp_correct_witness:
  "numeric_cmp (numeric_new 15 1) (numeric_new (- 2) 0) =
     ord_cmp (num_val (numeric_new 15 1)) (num_val (numeric_new (- 2) 0))"
  using numeric_cmp_correct [of "numeric_new 15 1" "numeric_new (- 2) 0"]
  by (simp add: numeric_new_val limbs_small_def)

text \<open>
  The digit count \<^verbatim>\<open>cmp\<close> compares first is one larger for a big mantissa than for
  an \<^verbatim>\<open>i128\<close> one, so across the two representations the order is wrong: a 40-digit
  decimal just above 1 compares greater than 5.
\<close>

theorem numeric_cmp_mixed_wrong:
  "wf_num one_and_a_bit \<and> wf_num (numeric_new 5 0) \<and>
   num_val one_and_a_bit < num_val (numeric_new 5 0) \<and>
   numeric_cmp one_and_a_bit (numeric_new 5 0) = Greater"
proof -
  have five: "numeric_new 5 0 = \<lparr>unscaled = 5, nscale = 0, dscale = 0, special = NFinite, big = None\<rparr>"
    by (simp add: numeric_new_def strip_zeros.simps)
  have v: "num_int one_and_a_bit = 1000000000000000000000000000000000000001"
    by (simp add: one_and_a_bit_def num_int_def bval_def)
  have w: "wf_num one_and_a_bit"
    unfolding wf_num_def v by (simp add: one_and_a_bit_def wf_big_def canonical_def bval_def)
  have "dec 5 0 = dec (5 * 10 ^ 39) 39" using dec_rescale [of 0 39 5] by simp
  then have "num_val one_and_a_bit < num_val (numeric_new 5 0)"
    unfolding numeric_new_val(1) num_val_def [of one_and_a_bit] v by (simp add: one_and_a_bit_def)
  moreover have "cmp_magnitude one_and_a_bit = 1"
    by (simp add: cmp_magnitude_def one_and_a_bit_def biguint_decimal_digits_def
        count_digits.simps word_less_nat_alt unat_div_distrib)
  moreover have "cmp_magnitude (numeric_new 5 0) = 0"
    by (simp add: five cmp_magnitude_def log_digits.simps)
  moreover have "special one_and_a_bit = NFinite" "unscaled one_and_a_bit = 1"
    by (simp_all add: one_and_a_bit_def)
  moreover have "special (numeric_new 5 0) = NFinite" "unscaled (numeric_new 5 0) = 5"
    by (simp_all add: five)
  ultimately show ?thesis
    using w numeric_new_val(2) [of 5 0]
    by (simp add: numeric_cmp.simps numeric_cmp_finite_def)
qed

text \<open>
  C20. Finite numerics of non-negative scale have the same hash key exactly when their
  values are equal, whichever representation each is in.
\<close>

theorem hash_key_correct:
  assumes "wf_num a" and "wf_num b" and "0 \<le> nscale a" and "0 \<le> nscale b"
  shows "numeric_hash_key a = numeric_hash_key b \<longleftrightarrow> num_val a = num_val b"
  using assms by (rule numeric_hash_key_iff)

lemma hash_key_correct_witness:
  "numeric_hash_key (numeric_new 150 2) = numeric_hash_key (numeric_new 15 1) \<longleftrightarrow>
     num_val (numeric_new 150 2) = num_val (numeric_new 15 1)"
  by (rule hash_key_correct)
    (simp_all add: wf_num_def num_int_def numeric_new_def strip_zeros.simps)


text \<open>
  C19. Addition of finite numerics, on the \<^verbatim>\<open>i128\<close> path and on the exact path it falls
  back to, is exact whenever it returns a result, and negation is exact for every
  mantissa but \<open>- 2 ^ 127\<close>.
\<close>

theorem numeric_add_exact:
  assumes "wf_num a" and "wf_num b" and "numeric_checked_add a b = Some r"
    and "unscaled a \<noteq> - (2 ^ 127)"
  shows "num_val r = num_val a + num_val b \<and> wf_num r \<and> num_val (numeric_neg a) = - num_val a"
  using numeric_checked_add_val [OF assms(1-3)] numeric_neg_val [OF assms(1,4)] by simp

lemma numeric_add_exact_witness:
  "num_val (numeric_new 2 0) = num_val (numeric_new 15 1) + num_val (numeric_new 5 1)"
proof -
  have "numeric_checked_add (numeric_new 15 1) (numeric_new 5 1) = Some (with_dscale (numeric_new 20 1) 1)"
    by (simp add: numeric_checked_add.simps numeric_aligned_def scale_up_i128_def i128_range_def
        numeric_new_def strip_zeros.simps)
  from numeric_add_exact [OF _ _ this] show ?thesis
    by (simp add: numeric_new_val) (simp add: numeric_new_def strip_zeros.simps dec_def)
qed

text \<open>
  The mantissa \<open>- 2 ^ 127\<close> is produced by an addition that stays in range, and its
  negation saturates to \<open>2 ^ 127 - 1\<close>, one less than the value.
\<close>

theorem numeric_neg_saturates:
  "numeric_checked_add (numeric_new (- (2 ^ 127 - 1)) 0) (numeric_new (- 1) 0) =
     Some (numeric_new (- (2 ^ 127)) 0) \<and>
   num_val (numeric_neg (numeric_new (- (2 ^ 127)) 0)) =
     - num_val (numeric_new (- (2 ^ 127)) 0) - 1"
proof -
  have n: "numeric_new u 0 = \<lparr>unscaled = u, nscale = 0, dscale = 0, special = NFinite, big = None\<rparr>" for u
    by (simp add: numeric_new_def strip_zeros.simps)
  show ?thesis
    by (simp add: n numeric_checked_add.simps numeric_aligned_def scale_up_i128_def i128_range_def
        with_dscale_def numeric_neg.simps saturating_neg_i128_def num_val_def num_int_def dec_def)
qed

end
