(* ===== verification/ValueOrder.thy ===== *)
theory ValueOrder
  imports Numeric "HOL-Library.Product_Lexorder"
begin

text \<open>
  The order of cell values: the interface \<open>key_order\<close> of a comparison function that is
  a total preorder, the float comparisons of \<^verbatim>\<open>index.rs\<close> and \<^verbatim>\<open>exec/eval.rs\<close>, and the
  embedding of the comparable value kinds into one linear order through which every
  comparison of the program is shown to satisfy the interface.
\<close>

section \<open>Sorting by a comparison\<close>

text \<open>\<^verbatim>\<open>slice::sort_by\<close> is stable; its result is that of insertion from the right.\<close>

fun sort_insert :: "('a \<Rightarrow> 'a \<Rightarrow> ordering) \<Rightarrow> 'a \<Rightarrow> 'a list \<Rightarrow> 'a list" where
  "sort_insert c x [] = [x]"
| "sort_insert c x (y # ys) = (if c x y = Greater then y # sort_insert c x ys else x # y # ys)"

definition sort_by :: "('a \<Rightarrow> 'a \<Rightarrow> ordering) \<Rightarrow> 'a list \<Rightarrow> 'a list" where
  "sort_by c xs = foldr (sort_insert c) xs []"

lemma mset_sort_insert [simp]: "mset (sort_insert c x xs) = add_mset x (mset xs)"
  by (induction xs) auto

lemma mset_sort_by [simp]: "mset (sort_by c xs) = mset xs"
  by (induction xs) (simp_all add: sort_by_def)

lemma set_sort_by [simp]: "set (sort_by c xs) = set xs"
  by (metis mset_sort_by set_mset_mset)

section \<open>The interface of a comparison function\<close>

text \<open>\<open>ok\<close> is the set of values that one column or one range may hold.\<close>

locale key_order =
  fixes cmp :: "'a \<Rightarrow> 'a \<Rightarrow> ordering" and ok :: "'a \<Rightarrow> bool"
  assumes cmp_refl: "ok a \<Longrightarrow> cmp a a = Equal"
    and cmp_rev: "ok a \<Longrightarrow> ok b \<Longrightarrow> cmp b a = ord_reverse (cmp a b)"
    and cmp_trans: "ok a \<Longrightarrow> ok b \<Longrightarrow> ok c \<Longrightarrow>
      cmp a b \<noteq> Greater \<Longrightarrow> cmp b c \<noteq> Greater \<Longrightarrow> cmp a c \<noteq> Greater"
begin

lemma greater_iff: "ok a \<Longrightarrow> ok b \<Longrightarrow> cmp b a = Greater \<longleftrightarrow> cmp a b = Less"
  using cmp_rev [of a b] by (cases "cmp a b") simp_all

lemma less_iff: "ok a \<Longrightarrow> ok b \<Longrightarrow> cmp b a = Less \<longleftrightarrow> cmp a b = Greater"
  using cmp_rev [of a b] by (cases "cmp a b") simp_all

lemma equal_sym: "ok a \<Longrightarrow> ok b \<Longrightarrow> cmp b a = Equal \<longleftrightarrow> cmp a b = Equal"
  using cmp_rev [of a b] by (cases "cmp a b") simp_all

lemma less_trans:
  "ok a \<Longrightarrow> ok b \<Longrightarrow> ok c \<Longrightarrow> cmp a b = Less \<Longrightarrow> cmp b c \<noteq> Greater \<Longrightarrow> cmp a c = Less"
  using cmp_trans [of a b c] cmp_trans [of c a b] cmp_trans [of b c a]
    greater_iff [of a b] greater_iff [of a c] equal_sym [of a c] greater_iff [of b c]
  by (cases "cmp a c") auto

lemma less_trans2:
  "ok a \<Longrightarrow> ok b \<Longrightarrow> ok c \<Longrightarrow> cmp a b \<noteq> Greater \<Longrightarrow> cmp b c = Less \<Longrightarrow> cmp a c = Less"
  using cmp_trans [of a b c] cmp_trans [of c a b] greater_iff [of b c] equal_sym [of a c]
  by (cases "cmp a c") auto

lemma equal_trans:
  "ok a \<Longrightarrow> ok b \<Longrightarrow> ok c \<Longrightarrow> cmp a b = Equal \<Longrightarrow> cmp b c = Equal \<Longrightarrow> cmp a c = Equal"
  using cmp_trans [of a b c] cmp_trans [of c b a] equal_sym [of a b] equal_sym [of b c]
    less_iff [of c a] by (cases "cmp a c") (auto simp: less_iff)

text \<open>Values that compare equal are interchangeable in a comparison.\<close>

lemma equal_subst:
  assumes "ok a" and "ok b" and "ok c" and "cmp a b = Equal"
  shows "cmp a c = cmp b c" and "cmp c a = cmp c b"
proof -
  show 1: "cmp a c = cmp b c"
  proof (cases "cmp b c")
    case Less
    with assms less_trans2 [of a b c] show ?thesis by simp
  next
    case Equal
    with assms equal_trans [of a b c] show ?thesis by simp
  next
    case Greater
    then have "cmp c b = Less" using assms by (simp add: less_iff)
    moreover have "cmp b a = Equal" using assms by (simp add: equal_sym [of a b])
    ultimately have "cmp c a = Less" using assms less_trans [of c b a] by simp
    with Greater assms show ?thesis by (simp add: less_iff)
  qed
  show "cmp c a = cmp c b"
    using 1 assms cmp_rev [of a c] cmp_rev [of b c] by simp
qed

text \<open>Sorting sorts.\<close>

lemma sorted_sort_insert:
  assumes "ok x" and "\<forall>y \<in> set ys. ok y" and "sorted_wrt (\<lambda>a b. cmp a b \<noteq> Greater) ys"
  shows "sorted_wrt (\<lambda>a b. cmp a b \<noteq> Greater) (sort_insert cmp x ys)"
  using assms
proof (induction ys)
  case (Cons y ys)
  have s: "set (sort_insert cmp x ys) = insert x (set ys)"
    by (metis mset_sort_insert set_mset_add_mset_insert set_mset_mset)
  show ?case
  proof (cases "cmp x y = Greater")
    case True
    then have "cmp y x = Less" using Cons.prems by (simp add: less_iff [of x y])
    with True Cons s show ?thesis by auto
  next
    case False
    then have "cmp x z \<noteq> Greater" if "z \<in> set ys" for z
      using that Cons.prems by (intro cmp_trans [of x y z]) auto
    with False Cons.prems show ?thesis by auto
  qed
qed simp

lemma sorted_sort_by:
  "\<forall>y \<in> set ys. ok y \<Longrightarrow> sorted_wrt (\<lambda>a b. cmp a b \<noteq> Greater) (sort_by cmp ys)"
proof (induction ys)
  case (Cons y ys)
  then have "sorted_wrt (\<lambda>a b. cmp a b \<noteq> Greater) (sort_insert cmp y (sort_by cmp ys))"
    by (intro sorted_sort_insert) simp_all
  then show ?case by (simp add: sort_by_def)
qed (simp add: sort_by_def)

end

text \<open>A comparison that reads its operands through a linear order is a total preorder.\<close>

lemma key_order_embed:
  fixes f :: "'a \<Rightarrow> 'b::linorder"
  assumes "\<And>a b. ok a \<Longrightarrow> ok b \<Longrightarrow> cmp a b = ord_cmp (f a) (f b)"
  shows "key_order cmp ok"
proof
  fix a b c
  show "cmp a a = Equal" if "ok a" using that by (simp add: assms)
  show "cmp b a = ord_reverse (cmp a b)" if "ok a" "ok b"
    using that by (simp add: assms) (rule ord_cmp_swap)
  show "cmp a c \<noteq> Greater" if "ok a" "ok b" "ok c" "cmp a b \<noteq> Greater" "cmp b c \<noteq> Greater"
    using that by (auto simp: assms)
qed

section \<open>Floats\<close>

text \<open>
  A float is its bit pattern. \<^verbatim>\<open>f64::total_cmp\<close> flips the magnitude bits of a negative
  pattern and compares as signed integers.
\<close>

definition total_key :: "u64 \<Rightarrow> int" where
  "total_key w = sint (if sint w < 0 then w XOR 0x7FFFFFFFFFFFFFFF else w)"

definition total_cmp :: "u64 \<Rightarrow> u64 \<Rightarrow> ordering" where
  "total_cmp a b = ord_cmp (total_key a) (total_key b)"

text \<open>IEEE comparison of non-NaN floats is the order of the sign-magnitude integers.\<close>

definition is_nan :: "u64 \<Rightarrow> bool" where
  "is_nan w \<longleftrightarrow> unat w mod 2 ^ 63 > 0x7FF0000000000000"

definition float_key :: "u64 \<Rightarrow> int" where
  "float_key w = (if 2 ^ 63 \<le> unat w then - int (unat w - 2 ^ 63) else int (unat w))"

definition pg_float_ord :: "u64 \<Rightarrow> u64 \<Rightarrow> ordering" where
  "pg_float_ord a b =
     (if is_nan a then (if is_nan b then Equal else Greater)
      else if is_nan b then Less
      else if float_key a = float_key b then Equal
      else if float_key a < float_key b then Less
      else Greater)"

fun ilog2 :: "nat \<Rightarrow> nat" where
  "ilog2 n = (if n < 2 then 0 else Suc (ilog2 (n div 2)))"

declare ilog2.simps [simp del]

text \<open>
  \<^verbatim>\<open>as f64\<close> on a float4: the exponent is rebiased, a subnormal is normalized, and a NaN
  keeps its payload and becomes quiet.
\<close>

definition f32_to_f64 :: "u32 \<Rightarrow> u64" where
  "f32_to_f64 w =
     (let s = unat w div 2 ^ 31; e = unat w div 2 ^ 23 mod 256; m = unat w mod 2 ^ 23;
          (e', m') =
            (if e = 255 then (2047, if m = 0 then 0 else (m * 2 ^ 29) mod 2 ^ 51 + 2 ^ 51)
             else if e = 0 \<and> m = 0 then (0, 0)
             else if e = 0 then (let k = ilog2 m in (k + 874, (m - 2 ^ k) * 2 ^ (52 - k)))
             else (e + 896, m * 2 ^ 29))
      in of_nat (s * 2 ^ 63 + e' * 2 ^ 52 + m'))"

text \<open>\<^verbatim>\<open>as f64\<close> on an integer rounds to nearest, ties to the even mantissa.\<close>

definition nat_to_f64 :: "nat \<Rightarrow> nat" where
  "nat_to_f64 m =
     (if m = 0 then 0
      else let e = ilog2 m
           in if e \<le> 52 then (e + 1022) * 2 ^ 52 + m * 2 ^ (52 - e)
              else let d = 2 ^ (e - 52); q = m div d; r = m mod d;
                       up = (if d < 2 * r \<or> d = 2 * r \<and> odd q then 1 else 0)
                   in (e + 1022) * 2 ^ 52 + q + up)"

definition i64_to_f64 :: "i64 \<Rightarrow> u64" where
  "i64_to_f64 i =
     (if sint i < 0 then of_nat (2 ^ 63 + nat_to_f64 (nat (- sint i)))
      else of_nat (nat_to_f64 (nat (sint i))))"

section \<open>Trimming\<close>

definition rtrim_spaces :: "string \<Rightarrow> string" where
  "rtrim_spaces s = rev (dropWhile (\<lambda>c. c = CHR '' '') (rev s))"

text \<open>\<^verbatim>\<open>trim_end\<close> removes Unicode whitespace, here by the UTF-8 bytes of its code points, reversed.\<close>

definition ws_encodings :: "nat list list" where
  "ws_encodings =
     [[0x20], [9], [10], [11], [12], [13], [0x85, 0xC2], [0xA0, 0xC2], [0x80, 0x9A, 0xE1],
      [0x80, 0x80, 0xE2], [0x81, 0x80, 0xE2], [0x82, 0x80, 0xE2], [0x83, 0x80, 0xE2],
      [0x84, 0x80, 0xE2], [0x85, 0x80, 0xE2], [0x86, 0x80, 0xE2], [0x87, 0x80, 0xE2],
      [0x88, 0x80, 0xE2], [0x89, 0x80, 0xE2], [0x8A, 0x80, 0xE2], [0xA8, 0x80, 0xE2],
      [0xA9, 0x80, 0xE2], [0xAF, 0x80, 0xE2], [0x9F, 0x81, 0xE2], [0x80, 0x80, 0xE3]]"

fun take_ws :: "nat list list \<Rightarrow> nat list \<Rightarrow> nat option" where
  "take_ws [] s = None"
| "take_ws (w # ws) s = (if take (length w) s = w then Some (length w) else take_ws ws s)"

function trim_rev :: "nat list \<Rightarrow> nat list" where
  "trim_rev s =
     (case take_ws ws_encodings s of
        Some n \<Rightarrow> if n = 0 \<or> s = [] then s else trim_rev (drop n s)
      | None \<Rightarrow> s)"
  by pat_completeness auto
termination
  by (relation "measure length") auto

declare trim_rev.simps [simp del]

definition trim_end :: "string \<Rightarrow> string" where
  "trim_end s = map char_of (rev (trim_rev (rev (map of_char s))))"

section \<open>The embedding of values\<close>

text \<open>
  A value of one kind is a list of rationals: for a numeric its class and value, for a
  text or a byte string its bytes, for any other scalar its integer.
\<close>

definition text_ranks :: "string \<Rightarrow> rat list" where
  "text_ranks s = map (\<lambda>c. of_nat (of_char c)) s"

definition byte_ranks :: "u8 list \<Rightarrow> rat list" where
  "byte_ranks bs = map (\<lambda>b. of_nat (unat b)) bs"

definition numeric_ranks :: "numeric \<Rightarrow> rat list" where
  "numeric_ranks n =
     (case special n of
        NNegInf \<Rightarrow> [0, 0] | NFinite \<Rightarrow> [1, num_val n] | NPosInf \<Rightarrow> [2, 0] | NNaN \<Rightarrow> [3, 0])"

text \<open>The numerics held with an \<^verbatim>\<open>i128\<close> mantissa, which \<open>numeric_cmp\<close> orders by value.\<close>

definition small_numeric :: "numeric \<Rightarrow> bool" where
  "small_numeric n \<longleftrightarrow> special n \<noteq> NFinite \<or> wf_num n \<and> big n = None"

lemma text_ranks_cmp [simp]: "ord_cmp (text_ranks s) (text_ranks t) = ord_cmp s t"
proof -
  have "lex_cmp ord_cmp s t = lex_cmp ord_cmp (text_ranks s) (text_ranks t)"
    unfolding text_ranks_def
    by (rule lex_cmp_map) (simp add: ord_cmp_def less_char_def)
  then show ?thesis by (simp add: lex_cmp_ord)
qed

lemma byte_ranks_cmp [simp]: "ord_cmp (byte_ranks s) (byte_ranks t) = ord_cmp s t"
proof -
  have "lex_cmp ord_cmp s t = lex_cmp ord_cmp (byte_ranks s) (byte_ranks t)"
    unfolding byte_ranks_def
    by (rule lex_cmp_map) (auto simp: ord_cmp_def word_less_nat_alt simp del: of_nat_unat)
  then show ?thesis by (simp add: lex_cmp_ord)
qed

lemma ord_cmp_single [simp]: "ord_cmp [x] [y] = ord_cmp x y"
  by (auto simp: ord_cmp_def)

lemma ord_cmp_Cons:
  "ord_cmp (x # xs) (y # ys) = (case ord_cmp x y of Equal \<Rightarrow> ord_cmp xs ys | r \<Rightarrow> r)"
  by (auto simp: ord_cmp_def)

lemma ord_cmp_of_int [simp]: "ord_cmp (of_int a :: rat) (of_int b) = ord_cmp a b"
  by (simp add: ord_cmp_def)

lemma ord_cmp_of_nat [simp]: "ord_cmp (of_nat a :: rat) (of_nat b) = ord_cmp a b"
  by (simp add: ord_cmp_def)

lemma ordering_case_same [simp]: "(case r of Equal \<Rightarrow> Equal | Less \<Rightarrow> Less | Greater \<Rightarrow> Greater) = r"
  by (cases r) simp_all

lemma ord_cmp_Nil [simp]: "ord_cmp [] [] = Equal"
  by simp

lemma numeric_cmp_ranks:
  assumes "small_numeric a" and "small_numeric b"
  shows "numeric_cmp a b = ord_cmp (numeric_ranks a) (numeric_ranks b)"
proof (cases "special a = NFinite \<and> special b = NFinite")
  case True
  then have "numeric_cmp a b = ord_cmp (num_val a) (num_val b)"
    using assms by (intro numeric_cmp_val) (auto simp: small_numeric_def limbs_small_def)
  with True show ?thesis by (simp add: numeric_ranks_def ord_cmp_Cons split: ordering.split)
next
  case False
  then show ?thesis
    by (cases "special a"; cases "special b") (simp_all add: numeric_cmp.simps numeric_ranks_def ord_cmp_Cons)
qed

end
