(* ===== verification/Calendar.thy ===== *)
theory Calendar
  imports Prelude "HOL-Library.Signed_Division"
begin

text \<open>
  \<^verbatim>\<open>datetime.rs\<close>: the proleptic Gregorian calendar as days since 1970-01-01, and the
  limits of finite dates and timestamps. Rust's \<^verbatim>\<open>/\<close> and \<^verbatim>\<open>%\<close> on signed integers are
  \<open>sdiv\<close> and \<open>smod\<close>; the intermediate values stay far inside \<^verbatim>\<open>i64\<close> for years and
  days of \<^verbatim>\<open>i32\<close> size and are read as integers.
\<close>

definition DATE_INFINITY :: int where
  "DATE_INFINITY = 2147483647"

definition DATE_NEG_INFINITY :: int where
  "DATE_NEG_INFINITY = - 2147483648"

definition as_i32 :: "int \<Rightarrow> int" where
  "as_i32 x = (x + 2147483648) mod 4294967296 - 2147483648"

definition days_from_civil :: "int \<Rightarrow> int \<Rightarrow> int \<Rightarrow> int" where
  "days_from_civil y0 m d =
     (let y = (if m \<le> 2 then y0 - 1 else y0);
          era = (if 0 \<le> y then y else y - 399) sdiv 400;
          yoe = y - era * 400;
          mp = (m + 9) smod 12;
          doy = (153 * mp + 2) sdiv 5 + d - 1;
          doe = yoe * 365 + yoe sdiv 4 - yoe sdiv 100 + doy
      in era * 146097 + doe - 719468)"

definition civil_from_days :: "int \<Rightarrow> int \<times> int \<times> int" where
  "civil_from_days z0 =
     (let z = z0 + 719468;
          era = (if 0 \<le> z then z else z - 146096) sdiv 146097;
          doe = z - era * 146097;
          yoe = (doe - doe sdiv 1460 + doe sdiv 36524 - doe sdiv 146096) sdiv 365;
          y = yoe + era * 400;
          doy = doe - (365 * yoe + yoe sdiv 4 - yoe sdiv 100);
          mp = (5 * doy + 2) sdiv 153;
          d = doy - (153 * mp + 2) sdiv 5 + 1;
          m = (if mp < 10 then mp + 3 else mp - 9)
      in (as_i32 (if m \<le> 2 then y + 1 else y), m, d))"

definition is_leap_year :: "int \<Rightarrow> bool" where
  "is_leap_year y \<longleftrightarrow> y smod 4 = 0 \<and> y smod 100 \<noteq> 0 \<or> y smod 400 = 0"

definition days_in_month :: "int \<Rightarrow> int \<Rightarrow> int" where
  "days_in_month y m =
     (if m \<in> {1, 3, 5, 7, 8, 10, 12} then 31
      else if m \<in> {4, 6, 9, 11} then 30
      else if m = 2 then (if is_leap_year y then 29 else 28)
      else 0)"

definition date_min_days :: int where
  "date_min_days = - 2440588"

definition date_max_days :: int where
  "date_max_days = days_from_civil 5874897 12 31"

definition ts_min_micros :: int where
  "ts_min_micros = date_min_days * 86400000000"

definition ts_max_micros_excl :: int where
  "ts_max_micros_excl = 9223372036854775807"

definition is_valid_date_days :: "int \<Rightarrow> bool" where
  "is_valid_date_days days \<longleftrightarrow> date_min_days \<le> days \<and> days \<le> date_max_days"

definition is_valid_ts_micros :: "int \<Rightarrow> bool" where
  "is_valid_ts_micros us \<longleftrightarrow> ts_min_micros \<le> us \<and> us < ts_max_micros_excl"

definition split_micros :: "int \<Rightarrow> int \<times> int" where
  "split_micros us =
     (let days = us sdiv 86400000000; tod = us smod 86400000000
      in if tod < 0 then (days - 1, tod + 86400000000) else (days, tod))"

lemma date_max_days_eval: "date_max_days = 2145042905"
  by (simp add: date_max_days_def days_from_civil_def Let_def)

text \<open>For a dividend that is not negative, truncating division is floor division.\<close>

lemma sdiv_nonneg: "0 \<le> a \<Longrightarrow> 0 < b \<Longrightarrow> a sdiv b = a div b" for a b :: int
  by (cases "a = 0") (simp_all add: signed_divide_int_def)

lemma smod_nonneg: "0 \<le> a \<Longrightarrow> 0 < b \<Longrightarrow> a smod b = a mod b" for a b :: int
  by (cases "a = 0") (simp_all add: signed_modulo_int_def)

lemma sdiv_floor:
  fixes a b :: int
  assumes "0 < b"
  shows "(if 0 \<le> a then a else a - (b - 1)) sdiv b = a div b"
proof (cases "0 \<le> a")
  case True
  with assms show ?thesis by (simp add: sdiv_nonneg)
next
  case False
  then have "(a - (b - 1)) sdiv b = - ((b - 1 - a) div b)"
    using assms by (simp add: signed_divide_int_def sgn_if)
  also have "(b - 1 - a) div b = - (a div b)"
  proof (rule int_div_pos_eq)
    show "b - 1 - a = b * - (a div b) + (b - 1 - a mod b)"
      unfolding mult_minus_right using mult_div_mod_eq [of b a] by linarith
  qed (use assms pos_mod_bound [OF assms, of a] pos_mod_sign [OF assms, of a] in simp_all)
  finally show ?thesis using False by simp
qed

lemma div_Suc_int:
  fixes y n :: int
  assumes "0 < n"
  shows "(y + 1) div n = y div n + (if y mod n = n - 1 then 1 else 0)"
proof (cases "y mod n = n - 1")
  case True
  then have "(y + 1) div n = y div n + 1"
    using mult_div_mod_eq [of n y] assms
    by (intro int_div_pos_eq [where r = 0]) (simp_all add: ring_distribs)
  with True show ?thesis by simp
next
  case False
  then have "(y + 1) div n = y div n"
    using mult_div_mod_eq [of n y] pos_mod_bound [OF assms, of y] pos_mod_sign [OF assms, of y]
    by (intro int_div_pos_eq [where r = "y mod n + 1"]) simp_all
  with False show ?thesis by simp
qed

lemma div_bounds_int: "0 < n \<Longrightarrow> n * (x div n) \<le> x \<and> x < n * (x div n) + n" for x n :: int
  using mult_div_mod_eq [of n x] pos_mod_bound [of n x] pos_mod_sign [of n x] by linarith

text \<open>
  The year of a 400-year era: within century \<open>c\<close>, 4-year cycle \<open>q\<close> and day \<open>r\<close> of the
  cycle, the estimate is corrected by at most one day per 1460.
\<close>

lemma yoe_cycle:
  fixes c q r :: int
  assumes c: "c \<in> {0, 1, 2, 3}" and q: "0 \<le> q" "q \<le> 24" and r: "0 \<le> r" "r \<le> 1460"
    and fin: "q = 24 \<longrightarrow> r < 1460 \<or> c = 3"
    and doe: "doe = 36524 * c + 1461 * q + r"
  shows "(doe - doe div 1460 + doe div 36524 - doe div 146096) div 365 =
    100 * c + 4 * q + (if r = 1460 then 3 else r div 365)"
proof -
  define e :: int where "e = (if 1460 \<le> 24 * c + q + r then 1 else 0)"
  have A: "doe div 1460 = 25 * c + q + e"
    by (rule int_div_pos_eq [where r = "24 * c + q + r - 1460 * e"])
      (use c q r in \<open>auto simp: doe e_def\<close>)
  have BC: "doe div 36524 - doe div 146096 = c"
  proof (cases "q = 24 \<and> r = 1460")
    case True
    with fin have "c = 3" by simp
    with True show ?thesis by (simp add: doe)
  next
    case False
    then have "1461 * q + r < 36524" using q r by auto
    then have "doe div 36524 = c"
      by (intro int_div_pos_eq [where r = "1461 * q + r"]) (use q r in \<open>auto simp: doe\<close>)
    moreover have "doe div 146096 = 0"
      using c q r \<open>1461 * q + r < 36524\<close> by (intro div_pos_pos_trivial) (auto simp: doe)
    ultimately show ?thesis by simp
  qed
  have "doe - doe div 1460 + doe div 36524 - doe div 146096 = (r - e) + (100 * c + 4 * q) * 365"
    using A BC by (simp add: doe)
  then have "(doe - doe div 1460 + doe div 36524 - doe div 146096) div 365 =
      100 * c + 4 * q + (r - e) div 365"
    by (simp only: div_mult_self1)
  also have "(r - e) div 365 = (if r = 1460 then 3 else r div 365)"
  proof (cases "1460 \<le> 24 * c + q + r")
    case True
    then have "1364 \<le> r" using c q by auto
    then have "(r - 1) div 365 = 3" "r \<noteq> 1460 \<Longrightarrow> r div 365 = 3"
      using r by (simp_all add: int_div_pos_eq [where q = 3 and r = "r - 1096"]
          int_div_pos_eq [where q = 3 and r = "r - 1095"])
    with True show ?thesis by (simp add: e_def)
  qed (use c q in \<open>auto simp: e_def\<close>)
  finally show ?thesis .
qed

lemma doe_split:
  assumes "0 \<le> doe" and "doe \<le> 146096"
  obtains c q r :: int where "doe = 36524 * c + 1461 * q + r" "c \<in> {0, 1, 2, 3}" "0 \<le> q" "q \<le> 24"
    "0 \<le> r" "r \<le> 1460" "q = 24 \<longrightarrow> r < 1460 \<or> c = 3"
proof -
  define c where "c = min 3 (doe div 36524)"
  define d where "d = doe - 36524 * c"
  have "c \<in> {0,1,2,3}" using assms unfolding c_def by (auto simp: min_def)
  have d: "0 \<le> d" "d \<le> 36524" "d = 36524 \<longrightarrow> c = 3"
    using assms unfolding d_def c_def by (auto simp: min_def split: if_splits)
  have "d mod 1461 < 1460 \<or> c = 3" if "d div 1461 = 24"
    using that d mult_div_mod_eq [of 1461 d] by linarith
  with d \<open>c \<in> _\<close> mult_div_mod_eq [of 1461 d] pos_mod_bound [of 1461 d] show thesis
    by (intro that [of c "d div 1461" "d mod 1461"]) (auto simp: d_def)
qed

text \<open>The days before year \<open>y\<close> of an era, and the last day a year has.\<close>

definition era_days :: "int \<Rightarrow> int" where
  "era_days y = 365 * y + y div 4 - y div 100"

definition last_doy :: "int \<Rightarrow> int" where
  "last_doy y = (if y mod 4 = 3 \<and> (y mod 100 \<noteq> 99 \<or> y = 399) then 365 else 364)"

definition yoe_of :: "int \<Rightarrow> int" where
  "yoe_of doe = (doe - doe div 1460 + doe div 36524 - doe div 146096) div 365"

lemma yoe_of_decode:
  assumes "0 \<le> doe" and "doe \<le> 146096"
  shows "0 \<le> yoe_of doe \<and> yoe_of doe \<le> 399 \<and> 0 \<le> doe - era_days (yoe_of doe) \<and>
    doe - era_days (yoe_of doe) \<le> last_doy (yoe_of doe)"
proof -
  from assms obtain c q r where cqr: "doe = 36524 * c + 1461 * q + r" "c \<in> {0, 1, 2, 3}"
    "0 \<le> q" "q \<le> 24" "0 \<le> r" "r \<le> 1460" "q = 24 \<longrightarrow> r < 1460 \<or> c = 3"
    by (rule doe_split)
  define k where "k = (if r = 1460 then 3 else r div 365)"
  have k: "0 \<le> k" "k \<le> 3" "0 \<le> r - 365 * k" "r - 365 * k \<le> (if k = 3 then 365 else 364)"
    "r - 365 * k = 365 \<longrightarrow> r = 1460"
    using cqr(5,6) mult_div_mod_eq [of 365 r] pos_mod_bound [of 365 r] pos_mod_sign [of 365 r]
    by (auto simp: k_def)
  have y: "yoe_of doe = 100 * c + (4 * q + k)"
    unfolding yoe_of_def using yoe_cycle [OF cqr(2-7,1)] by (simp add: k_def)
  have d4: "(100 * c + (4 * q + k)) div 4 = 25 * c + q"
    by (rule int_div_pos_eq [where r = k]) (use k in simp_all)
  have d100: "(100 * c + (4 * q + k)) div 100 = c"
    by (rule int_div_pos_eq [where r = "4 * q + k"]) (use k cqr in simp_all)
  have e: "doe - era_days (yoe_of doe) = r - 365 * k"
    unfolding y era_days_def d4 d100 by (simp add: cqr(1))
  have "r - 365 * k \<le> last_doy (yoe_of doe)"
  proof (cases "r = 1460")
    case True
    then have "k = 3" by (simp add: k_def)
    moreover have "(100 * c + (4 * q + 3)) mod 4 = 3"
      using d4 \<open>k = 3\<close> mult_div_mod_eq [of 4 "100 * c + (4 * q + 3)"] by simp
    moreover have "(100 * c + (4 * q + 3)) mod 100 = 4 * q + 3"
      using d100 \<open>k = 3\<close> mult_div_mod_eq [of 100 "100 * c + (4 * q + 3)"] by simp
    ultimately have "last_doy (100 * c + (4 * q + k)) = 365"
      using True \<open>k = 3\<close> cqr(2-4,7) by (auto simp: last_doy_def)
    with True \<open>k = 3\<close> show ?thesis by (simp only: y)
  next
    case False
    then have "r - 365 * k \<le> 364" using k by (cases "k = 3") auto
    then show ?thesis by (simp add: last_doy_def)
  qed
  moreover have "0 \<le> yoe_of doe" "yoe_of doe \<le> 399" unfolding y using cqr(2-4) k by auto
  ultimately show ?thesis unfolding e using k by simp
qed

lemma era_days_Suc:
  "era_days (y + 1) =
     era_days y + 365 + (if y mod 4 = 3 then 1 else 0) - (if y mod 100 = 99 then 1 else 0)"
  using div_Suc_int [of 4 y] div_Suc_int [of 100 y] by (simp add: era_days_def)

lemma last_doy_less:
  assumes "y < 399"
  shows "era_days y + last_doy y < era_days (y + 1)"
proof -
  have "y mod 100 = 99 \<Longrightarrow> y mod 4 = 3" using mod_mod_cancel [of 4 100 y] by simp
  with assms show ?thesis unfolding era_days_Suc last_doy_def by (simp split: if_split)
qed

lemma era_days_le:
  assumes "y \<le> y'"
  shows "era_days y \<le> era_days y'"
proof -
  have "y' div 100 \<le> (y + (y' - y) * 100) div 100"
    using assms by (intro zdiv_mono1) simp_all
  then have "y' div 100 \<le> y div 100 + (y' - y)" by (simp only: div_mult_self1)
  moreover have "y div 4 \<le> y' div 4" using assms by (intro zdiv_mono1) simp_all
  ultimately show ?thesis using assms unfolding era_days_def by linarith
qed

lemma era_days_mono:
  assumes "y < y'" and "y' \<le> 399"
  shows "era_days y + last_doy y < era_days y'"
  using last_doy_less [of y] era_days_le [of "y + 1" y'] assms by linarith

lemma yoe_of_encode:
  assumes "0 \<le> y" and "y \<le> 399" and "0 \<le> doy" and "doy \<le> last_doy y"
  shows "yoe_of (era_days y + doy) = y"
proof -
  let ?d = "era_days y + doy"
  have "era_days y \<le> era_days 399" "0 \<le> era_days y"
    using assms by (simp_all add: era_days_def)
  then have b: "0 \<le> ?d" "?d \<le> 146096"
    using assms by (auto simp: era_days_def last_doy_def split: if_splits)
  then show ?thesis
    using yoe_of_decode [OF b] era_days_mono [of y "yoe_of ?d"] era_days_mono [of "yoe_of ?d" y] assms
    by linarith
qed

text \<open>The shifted month: \<open>mp\<close> counts from March, so the leap day is the last of the year.\<close>

definition month_start :: "int \<Rightarrow> int" where
  "month_start mp = (153 * mp + 2) div 5"

lemma month_cases:
  fixes mp :: int
  assumes "0 \<le> mp" and "mp \<le> 11"
  obtains "mp = 0" | "mp = 1" | "mp = 2" | "mp = 3" | "mp = 4" | "mp = 5" | "mp = 6" | "mp = 7"
    | "mp = 8" | "mp = 9" | "mp = 10" | "mp = 11"
  using assms by atomize_elim presburger

lemma month_of_doy:
  assumes "0 \<le> doy" and "doy \<le> 365"
  shows "0 \<le> (5 * doy + 2) div 153 \<and> (5 * doy + 2) div 153 \<le> 11 \<and>
    month_start ((5 * doy + 2) div 153) \<le> doy \<and> doy < month_start ((5 * doy + 2) div 153 + 1)"
proof -
  define mp where "mp = (5 * doy + 2) div 153"
  define S where "S = (153 * mp + 2) div 5"
  define N where "N = (153 * (mp + 1) + 2) div 5"
  have "153 * mp \<le> 5 * doy + 2" "5 * doy + 2 < 153 * mp + 153"
    using div_bounds_int [of 153 "5 * doy + 2"] by (simp_all add: mp_def)
  moreover have "5 * S \<le> 153 * mp + 2" "153 * mp + 155 < 5 * N + 5"
    using div_bounds_int [of 5 "153 * mp + 2"] div_bounds_int [of 5 "153 * (mp + 1) + 2"]
    unfolding S_def [symmetric] N_def [symmetric] by simp_all
  ultimately have "0 \<le> mp \<and> mp \<le> 11 \<and> S \<le> doy \<and> doy < N" using assms by simp
  then show ?thesis unfolding mp_def S_def N_def month_start_def .
qed

lemma doy_of_month:
  assumes "month_start mp \<le> doy" and "doy < month_start (mp + 1)"
  shows "(5 * doy + 2) div 153 = mp"
  using assms div_bounds_int [of 5 "153 * mp + 2"] div_bounds_int [of 5 "153 * (mp + 1) + 2"]
  by (intro int_div_pos_eq [where r = "5 * doy + 2 - 153 * mp"]) (auto simp: month_start_def)


section \<open>The round trips\<close>

definition valid_ymd :: "int \<Rightarrow> int \<Rightarrow> int \<Rightarrow> bool" where
  "valid_ymd y m d \<longleftrightarrow> 1 \<le> m \<and> m \<le> 12 \<and> 1 \<le> d \<and> d \<le> days_in_month y m"

text \<open>The month shifted to March, the year it belongs to and the day of that year.\<close>

definition mp_of :: "int \<Rightarrow> int" where
  "mp_of m = (if m \<le> 2 then m + 9 else m - 3)"

definition shifted_year :: "int \<Rightarrow> int \<Rightarrow> int" where
  "shifted_year y m = (if m \<le> 2 then y - 1 else y)"

lemma smod_zero_iff: "0 < b \<Longrightarrow> a smod b = 0 \<longleftrightarrow> b dvd a" for a b :: int
  by (simp add: signed_modulo_int_def sgn_if flip: dvd_eq_mod_eq_0)

lemma days_from_civil_eq:
  assumes "1 \<le> m" and "m \<le> 12"
  shows "days_from_civil y m d =
    shifted_year y m div 400 * 146097 + era_days (shifted_year y m mod 400) +
    (month_start (mp_of m) + d - 1) - 719468"
proof -
  have mp: "(m + 9) smod 12 = mp_of m"
  proof (cases "m \<le> 2")
    case False
    then have "(m + 9) mod 12 = m - 3"
      using assms mod_add_self2 [of "m - 3" 12] by (simp add: mod_pos_pos_trivial add.commute)
    with assms False show ?thesis by (simp add: smod_nonneg mp_of_def)
  qed (use assms in \<open>simp add: smod_nonneg mp_of_def mod_pos_pos_trivial\<close>)
  have era: "(if 0 \<le> s then s else s - 399) sdiv 400 = s div 400" for s :: int
    using sdiv_floor [of 400 s] by (cases "0 \<le> s") simp_all
  have yoe: "s - s div 400 * 400 = s mod 400" for s :: int
    by (simp add: minus_div_mult_eq_mod)
  have "0 \<le> mp_of m" using assms by (simp add: mp_of_def)
  then show ?thesis
    unfolding days_from_civil_def Let_def mp shifted_year_def [symmetric] era yoe
    by (simp add: sdiv_nonneg era_days_def month_start_def)
qed

lemma civil_from_days_eq:
  "civil_from_days z0 =
    (let z = z0 + 719468; doe = z mod 146097; yoe = yoe_of doe; doy = doe - era_days yoe;
         mp = (5 * doy + 2) div 153; m = (if mp < 10 then mp + 3 else mp - 9);
         y = yoe + z div 146097 * 400
     in (as_i32 (if m \<le> 2 then y + 1 else y), m, doy - month_start mp + 1))"
proof -
  define z where "z = z0 + 719468"
  have era: "(if 0 \<le> z then z else z - 146096) sdiv 146097 = z div 146097"
    using sdiv_floor [of 146097 z] by (cases "0 \<le> z") simp_all
  have doe: "z - z div 146097 * 146097 = z mod 146097" by (simp add: minus_div_mult_eq_mod)
  have b: "0 \<le> z mod 146097" "z mod 146097 \<le> 146096" using pos_mod_bound [of 146097 z] by simp_all
  note dec = yoe_of_decode [OF b]
  have y: "(z mod 146097 - z mod 146097 sdiv 1460 + z mod 146097 sdiv 36524 - z mod 146097 sdiv 146096)
      sdiv 365 = yoe_of (z mod 146097)"
  proof -
    have "0 \<le> z mod 146097 - z mod 146097 div 1460" using b by (simp add: zdiv_mono2 [of _ 1 1460, simplified])
    moreover have "z mod 146097 div 146096 \<le> z mod 146097 div 36524" using b by (intro zdiv_mono2) simp_all
    ultimately show ?thesis using b by (simp add: sdiv_nonneg yoe_of_def)
  qed
  have e: "365 * yoe_of doe + yoe_of doe sdiv 4 - yoe_of doe sdiv 100 = era_days (yoe_of doe)"
    if "0 \<le> yoe_of doe" for doe
    using that by (simp add: sdiv_nonneg era_days_def)
  have m: "(5 * doy + 2) sdiv 153 = (5 * doy + 2) div 153"
    "(153 * ((5 * doy + 2) div 153) + 2) sdiv 5 = month_start ((5 * doy + 2) div 153)" if "0 \<le> doy" for doy :: int
    using that by (simp_all add: sdiv_nonneg month_start_def)
  have "0 \<le> yoe_of (z mod 146097)" "0 \<le> z mod 146097 - era_days (yoe_of (z mod 146097))"
    using dec by simp_all
  show ?thesis
    unfolding civil_from_days_def Let_def z_def [symmetric] era doe y
    by (simp only: e [OF \<open>0 \<le> yoe_of (z mod 146097)\<close>]
        m [OF \<open>0 \<le> z mod 146097 - era_days (yoe_of (z mod 146097))\<close>])
qed

lemma leap_last_doy:
  assumes "0 \<le> s" and "s \<le> 399"
  shows "is_leap_year (e * 400 + s + 1) \<longleftrightarrow> last_doy s = 365"
proof -
  have a: "k dvd e * 400 + s + 1 \<longleftrightarrow> k dvd s + 1" if "k dvd 400" for k :: int
    using that dvd_add_right_iff [of k "e * 400" "s + 1"] by (simp add: add.assoc)
  have b: "k dvd s + 1 \<longleftrightarrow> s mod k = k - 1" if "0 < k" for k :: int
  proof (cases "s mod k = k - 1")
    case True
    then have "s + 1 = k * (s div k + 1)" using mult_div_mod_eq [of k s] by (simp add: ring_distribs)
    with True show ?thesis by simp
  next
    case False
    then have "(s + 1) mod k = s mod k + 1"
      using mult_div_mod_eq [of k s] pos_mod_bound [OF that, of s] pos_mod_sign [OF that, of s] that
      by (intro int_mod_pos_eq [where q = "s div k"]) linarith+
    then show ?thesis using False pos_mod_sign [OF that, of s] by (simp add: dvd_eq_mod_eq_0)
  qed
  have c: "s mod 400 = s" using assms by simp
  show ?thesis
    unfolding is_leap_year_def by (auto simp: smod_zero_iff a b c last_doy_def)
qed

lemma days_in_month_last:
  assumes "0 \<le> mp" and "mp \<le> 11" and "0 \<le> s" and "s \<le> 399"
    and m: "m = (if mp < 10 then mp + 3 else mp - 9)"
    and y: "y = e * 400 + s + (if m \<le> 2 then 1 else 0)"
  shows "month_start mp + days_in_month y m = min (month_start (mp + 1)) (last_doy s + 1)"
  using assms(1,2)
proof (cases rule: month_cases)
  case 12
  then have "days_in_month y m = (if last_doy s = 365 then 29 else 28)"
    using leap_last_doy [OF assms(3,4), of e] m y by (simp add: days_in_month_def)
  with 12 show ?thesis by (auto simp: month_start_def last_doy_def)
qed (simp_all add: m days_in_month_def month_start_def last_doy_def)

lemma as_i32_id: "- 2147483648 \<le> x \<Longrightarrow> x \<le> 2147483647 \<Longrightarrow> as_i32 x = x"
  by (simp add: as_i32_def)

lemma civil_from_days_valid:
  assumes c: "civil_from_days z = (y, m, d)" and r: "- 2147483648 \<le> z" "z \<le> 2147483647"
  shows "valid_ymd y m d \<and> days_from_civil y m d = z"
proof -
  define e where "e = (z + 719468) div 146097"
  define doe where "doe = (z + 719468) mod 146097"
  define s where "s = yoe_of doe"
  define doy where "doy = doe - era_days s"
  define mp where "mp = (5 * doy + 2) div 153"
  have z: "z = e * 146097 + doe - 719468"
    using mult_div_mod_eq [of 146097 "z + 719468"] by (simp add: e_def doe_def)
  have b: "0 \<le> doe" "doe \<le> 146096" using pos_mod_bound [of 146097] by (simp_all add: doe_def)
  have s: "0 \<le> s" "s \<le> 399" "0 \<le> doy" "doy \<le> last_doy s"
    using yoe_of_decode [OF b] by (simp_all add: s_def doy_def)
  then have doy: "doy \<le> 365" by (auto simp: last_doy_def split: if_splits)
  note mp = month_of_doy [OF s(3) doy, folded mp_def]
  have er: "- 14700 \<le> e" "e \<le> 14704" using z b r by linarith+
  have eq: "m = (if mp < 10 then mp + 3 else mp - 9)" "d = doy - month_start mp + 1"
    "y = as_i32 (if m \<le> 2 then s + e * 400 + 1 else s + e * 400)"
    using c unfolding civil_from_days_eq Let_def e_def [symmetric] doe_def [symmetric] s_def [symmetric]
      doy_def [symmetric] mp_def [symmetric] by auto
  have y: "y = e * 400 + s + (if m \<le> 2 then 1 else 0)"
    unfolding eq(3) using er s by (subst as_i32_id) auto
  have m: "1 \<le> m" "m \<le> 12" "mp_of m = mp" using mp eq(1) by (auto simp: mp_of_def)
  have "shifted_year y m = e * 400 + s" by (simp add: shifted_year_def y)
  then have "days_from_civil y m d = z"
    using s by (simp add: days_from_civil_eq [OF m(1,2)] m(3) eq(2) z doy_def)
  moreover have "1 \<le> d" "d \<le> days_in_month y m"
    using days_in_month_last [OF _ _ s(1,2) eq(1) y] mp s(4) eq(2) by (auto simp: min_def split: if_splits)
  ultimately show ?thesis using m by (simp add: valid_ymd_def)
qed

lemma civil_from_days_of_civil:
  assumes v: "valid_ymd y m d" and r: "- 2147483648 < y" "y \<le> 2147483647"
  shows "civil_from_days (days_from_civil y m d) = (y, m, d)"
proof -
  define e where "e = shifted_year y m div 400"
  define s where "s = shifted_year y m mod 400"
  define doy where "doy = month_start (mp_of m) + d - 1"
  have m: "1 \<le> m" "m \<le> 12" "1 \<le> d" "d \<le> days_in_month y m" using v by (simp_all add: valid_ymd_def)
  have mp: "0 \<le> mp_of m" "mp_of m \<le> 11" "m = (if mp_of m < 10 then mp_of m + 3 else mp_of m - 9)"
    using m by (auto simp: mp_of_def)
  have s: "0 \<le> s" "s \<le> 399" using pos_mod_bound [of 400] by (simp_all add: s_def)
  have sy: "shifted_year y m = e * 400 + s"
    using mult_div_mod_eq [of 400 "shifted_year y m"] by (simp add: e_def s_def)
  then have y: "y = e * 400 + s + (if m \<le> 2 then 1 else 0)"
    by (simp add: shifted_year_def split: if_splits)
  have doy: "month_start (mp_of m) \<le> doy" "doy < month_start (mp_of m + 1)" "doy \<le> last_doy s" "0 \<le> doy"
    using days_in_month_last [OF mp(1,2) s mp(3) y] m mp(1) by (auto simp: doy_def month_start_def)
  have yoe: "yoe_of (era_days s + doy) = s" by (rule yoe_of_encode [OF s doy(4,3)])
  have "era_days s \<le> era_days 399" "era_days 0 \<le> era_days s" using s by (auto intro: era_days_le)
  then have "0 \<le> era_days s + doy" "era_days s + doy < 146097"
    using doy(3,4) by (auto simp: era_days_def last_doy_def split: if_splits)
  then have dm: "(e * 146097 + (era_days s + doy)) div 146097 = e"
    "(e * 146097 + (era_days s + doy)) mod 146097 = era_days s + doy"
    by simp_all
  have d: "days_from_civil y m d + 719468 = e * 146097 + (era_days s + doy)"
    by (simp add: days_from_civil_eq [OF m(1,2)] e_def s_def doy_def)
  have "as_i32 (if m \<le> 2 then s + e * 400 + 1 else s + e * 400) = y"
    using r y by (subst as_i32_id) auto
  moreover have "(5 * doy + 2) div 153 = mp_of m" by (rule doy_of_month [OF doy(1,2)])
  moreover have "doy - month_start (mp_of m) + 1 = d" by (simp add: doy_def)
  ultimately show ?thesis
    unfolding civil_from_days_eq Let_def d dm yoe by (simp only: add_diff_cancel_left' mp(3) [symmetric])
qed

lemma split_micros_euclidean: "split_micros us = (us div 86400000000, us mod 86400000000)"
proof -
  define q where "q = us sdiv 86400000000"
  define r where "r = us smod 86400000000"
  have us: "us = q * 86400000000 + r" by (simp add: q_def r_def sdiv_mult_smod_eq)
  have "\<bar>r\<bar> < 86400000000" by (simp add: r_def signed_modulo_int_def abs_mult sgn_if)
  then have "us div 86400000000 = (if r < 0 then q - 1 else q) \<and>
      us mod 86400000000 = (if r < 0 then r + 86400000000 else r)"
    using us int_div_pos_eq [of us 86400000000 q r] int_mod_pos_eq [of us 86400000000 q r]
      int_div_pos_eq [of us 86400000000 "q - 1" "r + 86400000000"]
      int_mod_pos_eq [of us 86400000000 "q - 1" "r + 86400000000"]
    by (simp split: if_split)
  then show ?thesis by (simp add: split_micros_def Let_def q_def r_def)
qed

section \<open>Properties\<close>

text \<open>
  C22. Dates and day numbers are in bijection: for every day number of a finite date the
  decoded year, month and day are a valid calendar date that encodes to the same number,
  and every valid date of an \<^verbatim>\<open>i32\<close> year is decoded back from its day number.
\<close>

theorem calendar_roundtrip:
  "(is_valid_date_days z \<longrightarrow>
     (case civil_from_days z of (y, m, d) \<Rightarrow> valid_ymd y m d \<and> days_from_civil y m d = z)) \<and>
   (valid_ymd y m d \<and> - 2147483648 < y \<and> y \<le> 2147483647 \<longrightarrow>
     civil_from_days (days_from_civil y m d) = (y, m, d))"
  using civil_from_days_valid [of z] civil_from_days_of_civil [of y m d]
  by (auto simp: is_valid_date_days_def date_min_days_def date_max_days_eval split: prod.split)

lemma calendar_roundtrip_witness:
  "days_from_civil 2024 2 29 = 19782 \<and> civil_from_days 19782 = (2024, 2, 29)"
proof -
  have d: "days_from_civil 2024 2 29 = 19782" by (simp add: days_from_civil_def Let_def)
  have "valid_ymd 2024 2 29"
    by (simp add: valid_ymd_def days_in_month_def is_leap_year_def signed_modulo_int_def)
  with d calendar_roundtrip [of 0 2024 2 29] show ?thesis by simp
qed

end
