(* ===== verification/Ranges.thy ===== *)
theory Ranges
  imports ValueOrder Calendar
begin

text \<open>
  \<^verbatim>\<open>exec/ranges.rs\<close>: range and multirange values. Bound comparison, canonical
  construction, the containment and position predicates, and the set operations on ranges
  and multiranges. The text form of a value (\<^verbatim>\<open>Value::to_text\<close>), which \<open>bound_cmp\<close> falls
  back to for bounds of different kinds, is the parameter \<open>tx\<close>. The lemmas read a range
  as the set of the values it contains and show each operation to be the set operation.
\<close>

section \<open>Errors and names\<close>

datatype exec_error = ExecErr string string \<comment> \<open>SQLSTATE and message\<close>

fun elem_coltype :: "range_elem \<Rightarrow> col_type" where
  "elem_coltype ReInt4 = CtInt"
| "elem_coltype ReInt8 = CtBigInt"
| "elem_coltype ReInt2 = CtSmallInt"
| "elem_coltype ReNum = CtNumeric None"
| "elem_coltype ReDate = CtDate"
| "elem_coltype ReTs = CtTimestamp"
| "elem_coltype ReTstz = CtTimestamptz"
| "elem_coltype ReText = CtText"
| "elem_coltype ReFloat8 = CtFloat"

definition range_type_name :: "range_elem \<Rightarrow> string option \<Rightarrow> string" where
  "range_type_name e name =
     (case name of Some n \<Rightarrow> n
      | None \<Rightarrow> (case range_name e of Some n \<Rightarrow> n | None \<Rightarrow> ''range''))"

definition multirange_type_name :: "range_elem \<Rightarrow> string option \<Rightarrow> string" where
  "multirange_type_name e name =
     (case name of Some n \<Rightarrow> n
      | None \<Rightarrow> (case multirange_name e of Some n \<Rightarrow> n | None \<Rightarrow> ''multirange''))"

section \<open>Bounds\<close>

definition bound_cmp :: "(sql_value \<Rightarrow> string) \<Rightarrow> sql_value \<Rightarrow> sql_value \<Rightarrow> ordering" where
  "bound_cmp tx a b =
     (case (a, b) of
        (VSmallInt x, VSmallInt y) \<Rightarrow> ord_cmp (sint x) (sint y)
      | (VInt x, VInt y) \<Rightarrow> ord_cmp (sint x) (sint y)
      | (VBigInt x, VBigInt y) \<Rightarrow> ord_cmp (sint x) (sint y)
      | (VSmallInt x, VInt y) \<Rightarrow> ord_cmp (sint x) (sint y)
      | (VInt y, VSmallInt x) \<Rightarrow> ord_reverse (ord_cmp (sint x) (sint y))
      | (VNumeric x, VNumeric y) \<Rightarrow> numeric_cmp x y
      | (VDate x, VDate y) \<Rightarrow> ord_cmp (sint x) (sint y)
      | (VTimestamp x, VTimestamp y) \<Rightarrow> ord_cmp (sint x) (sint y)
      | (VTimestamptz x, VTimestamptz y) \<Rightarrow> ord_cmp (sint x) (sint y)
      | (VText x, VText y) \<Rightarrow> ord_cmp x y
      | (VBpChar x, VBpChar y) \<Rightarrow> ord_cmp (trim_end x) (trim_end y)
      | (VText x, VBpChar y) \<Rightarrow> ord_cmp x (trim_end y)
      | (VBpChar x, VText y) \<Rightarrow> ord_cmp (trim_end x) y
      | (VFloat x, VFloat y) \<Rightarrow> pg_float_ord x y
      | (VFloat4 x, VFloat4 y) \<Rightarrow> pg_float_ord (f32_to_f64 x) (f32_to_f64 y)
      | _ \<Rightarrow> ord_cmp (tx a) (tx b))"

definition bound_eq :: "(sql_value \<Rightarrow> string) \<Rightarrow> sql_value \<Rightarrow> sql_value \<Rightarrow> bool" where
  "bound_eq tx a b \<longleftrightarrow> bound_cmp tx a b = Equal"

text \<open>One canonical step up; \<^verbatim>\<open>i32::MAX\<close> bounds an \<^verbatim>\<open>int4\<close>, which is held as an \<^verbatim>\<open>i64\<close>.\<close>

definition step_up :: "range_elem \<Rightarrow> sql_value \<Rightarrow> exec_error + sql_value" where
  "step_up e v =
     (case (e, v) of
        (ReInt4, VInt x) \<Rightarrow>
          if sint x = 2147483647 then Inl (ExecErr ''22003'' ''integer out of range'')
          else Inr (VInt (x + 1))
      | (ReInt2, VSmallInt x) \<Rightarrow>
          if sint x = 32767 then Inl (ExecErr ''22003'' ''smallint out of range'')
          else Inr (VSmallInt (x + 1))
      | (ReInt8, VBigInt x) \<Rightarrow>
          if sint x = 9223372036854775807 then Inl (ExecErr ''22003'' ''bigint out of range'')
          else Inr (VBigInt (x + 1))
      | (ReDate, VDate d) \<Rightarrow>
          if sint d = DATE_INFINITY \<or> sint d = DATE_NEG_INFINITY then Inr (VDate d)
          else if date_max_days < sint d + 1 then Inl (ExecErr ''22008'' ''date out of range'')
          else Inr (VDate (d + 1))
      | _ \<Rightarrow> Inr v)"

section \<open>Construction\<close>

definition empty_range :: "range_elem \<Rightarrow> string option \<Rightarrow> range_val" where
  "empty_range e name = RangeVal e name True None False None False"

definition not_finite :: "range_elem \<Rightarrow> sql_value \<Rightarrow> bool" where
  "not_finite e v \<longleftrightarrow>
     e = ReDate \<and>
     (case v of VDate d \<Rightarrow> sint d = DATE_INFINITY \<or> sint d = DATE_NEG_INFINITY | _ \<Rightarrow> False)"

text \<open>A bound that is stepped up flips its inclusivity; the flag tells which side steps.\<close>

definition canonical_bound ::
  "range_elem \<Rightarrow> bool \<Rightarrow> sql_value option \<Rightarrow> bool \<Rightarrow> exec_error + sql_value option \<times> bool" where
  "canonical_bound e steps b inc =
     (case b of
        None \<Rightarrow> Inr (b, inc)
      | Some v \<Rightarrow>
          if inc = steps \<and> \<not> not_finite e v
          then (case step_up e v of Inl x \<Rightarrow> Inl x | Inr v' \<Rightarrow> Inr (Some v', \<not> inc))
          else Inr (b, inc))"

definition make_range ::
  "(sql_value \<Rightarrow> string) \<Rightarrow> range_elem \<Rightarrow> string option \<Rightarrow> sql_value option \<Rightarrow> bool \<Rightarrow>
   sql_value option \<Rightarrow> bool \<Rightarrow> exec_error + range_val" where
  "make_range tx e name lo lo_inc hi hi_inc =
     (let ord = (case (lo, hi) of (Some l, Some u) \<Rightarrow> Some (bound_cmp tx l u) | _ \<Rightarrow> None)
      in if ord = Some Greater
         then Inl (ExecErr ''22000''
                ''range lower bound must be less than or equal to range upper bound'')
         else if ord = Some Equal \<and> \<not> (lo_inc \<and> hi_inc) then Inr (empty_range e name)
         else let lo_inc = (lo \<noteq> None \<and> lo_inc); hi_inc = (hi \<noteq> None \<and> hi_inc)
              in if discrete e
                 then (case canonical_bound e False lo lo_inc of
                         Inl x \<Rightarrow> Inl x
                       | Inr (lo', lo_inc') \<Rightarrow>
                           (case canonical_bound e True hi hi_inc of
                              Inl x \<Rightarrow> Inl x
                            | Inr (hi', hi_inc') \<Rightarrow>
                                (case (lo', hi') of
                                   (Some l, Some u) \<Rightarrow>
                                     if bound_cmp tx l u \<noteq> Less then Inr (empty_range e name)
                                     else Inr (RangeVal e name False lo' lo_inc' hi' hi_inc')
                                 | _ \<Rightarrow> Inr (RangeVal e name False lo' lo_inc' hi' hi_inc'))))
                 else Inr (RangeVal e name False lo lo_inc hi hi_inc))"

definition construct_range ::
  "(sql_value \<Rightarrow> string) \<Rightarrow> range_elem \<Rightarrow> string option \<Rightarrow> sql_value \<Rightarrow> sql_value \<Rightarrow> string option \<Rightarrow>
   exec_error + range_val" where
  "construct_range tx e name lo hi flags =
     (let bad = Inl (ExecErr ''42601'' ''invalid range bound flags'');
          build = (\<lambda>lo_inc hi_inc. make_range tx e name
                     (if lo = VNull then None else Some lo) lo_inc
                     (if hi = VNull then None else Some hi) hi_inc)
      in case flags of
           None \<Rightarrow> build True False
         | Some [a, b] \<Rightarrow>
             if a \<noteq> CHR ''['' \<and> a \<noteq> CHR ''('' then bad
             else if b \<noteq> CHR '']'' \<and> b \<noteq> CHR '')'' then bad
             else build (a = CHR ''['') (b = CHR '']'')
         | Some _ \<Rightarrow> bad)"

section \<open>Bound order, gaps and normalization\<close>

definition lo_cmp :: "(sql_value \<Rightarrow> string) \<Rightarrow> range_val \<Rightarrow> range_val \<Rightarrow> ordering" where
  "lo_cmp tx a b =
     (case (rv_lo a, rv_lo b) of
        (None, None) \<Rightarrow> Equal
      | (None, Some _) \<Rightarrow> Less
      | (Some _, None) \<Rightarrow> Greater
      | (Some x, Some y) \<Rightarrow>
          (case bound_cmp tx x y of
             Equal \<Rightarrow> if rv_lo_inc a \<and> \<not> rv_lo_inc b then Less
                      else if \<not> rv_lo_inc a \<and> rv_lo_inc b then Greater else Equal
           | r \<Rightarrow> r))"

definition hi_cmp :: "(sql_value \<Rightarrow> string) \<Rightarrow> range_val \<Rightarrow> range_val \<Rightarrow> ordering" where
  "hi_cmp tx a b =
     (case (rv_hi a, rv_hi b) of
        (None, None) \<Rightarrow> Equal
      | (None, Some _) \<Rightarrow> Greater
      | (Some _, None) \<Rightarrow> Less
      | (Some x, Some y) \<Rightarrow>
          (case bound_cmp tx x y of
             Equal \<Rightarrow> if \<not> rv_hi_inc a \<and> rv_hi_inc b then Less
                      else if rv_hi_inc a \<and> \<not> rv_hi_inc b then Greater else Equal
           | r \<Rightarrow> r))"

definition gap_between :: "(sql_value \<Rightarrow> string) \<Rightarrow> range_val \<Rightarrow> range_val \<Rightarrow> bool" where
  "gap_between tx a b =
     (case (rv_hi a, rv_lo b) of
        (Some u, Some l) \<Rightarrow>
          (case bound_cmp tx u l of
             Less \<Rightarrow> True | Greater \<Rightarrow> False | Equal \<Rightarrow> \<not> (rv_hi_inc a \<or> rv_lo_inc b))
      | _ \<Rightarrow> False)"

record multi_val =
  mv_elem :: range_elem
  mv_name :: "string option"
  mv_ranges :: "range_val list"

fun then_with :: "ordering \<Rightarrow> ordering \<Rightarrow> ordering" where
  "then_with Equal r = r"
| "then_with l r = l"

definition range_sort_cmp :: "(sql_value \<Rightarrow> string) \<Rightarrow> range_val \<Rightarrow> range_val \<Rightarrow> ordering" where
  "range_sort_cmp tx a b = then_with (lo_cmp tx a b) (hi_cmp tx a b)"

text \<open>The loop of \<^verbatim>\<open>normalize_multi\<close>: \<open>cur\<close> is the last range of the output.\<close>

definition merge_into :: "(sql_value \<Rightarrow> string) \<Rightarrow> range_val \<Rightarrow> range_val \<Rightarrow> range_val" where
  "merge_into tx cur r =
     (if hi_cmp tx r cur = Greater
      then RangeVal (rv_elem cur) (rv_name cur) (rv_empty cur) (rv_lo cur) (rv_lo_inc cur)
             (rv_hi r) (rv_hi_inc r)
      else cur)"

fun merge_ranges :: "(sql_value \<Rightarrow> string) \<Rightarrow> range_val \<Rightarrow> range_val list \<Rightarrow> range_val list" where
  "merge_ranges tx cur [] = [cur]"
| "merge_ranges tx cur (r # rs) =
     (if \<not> gap_between tx cur r then merge_ranges tx (merge_into tx cur r) rs
      else cur # merge_ranges tx r rs)"

definition normalize_multi ::
  "(sql_value \<Rightarrow> string) \<Rightarrow> range_elem \<Rightarrow> string option \<Rightarrow> range_val list \<Rightarrow> multi_val" where
  "normalize_multi tx e name ranges =
     (let rs = sort_by (range_sort_cmp tx) (filter (\<lambda>r. \<not> rv_empty r) ranges)
      in \<lparr>mv_elem = e, mv_name = name,
          mv_ranges = (case rs of [] \<Rightarrow> [] | r # rs' \<Rightarrow> merge_ranges tx r rs')\<rparr>)"

definition multi_from_range :: "(sql_value \<Rightarrow> string) \<Rightarrow> range_val \<Rightarrow> multi_val" where
  "multi_from_range tx r = normalize_multi tx (rv_elem r) (rv_name r) [r]"

section \<open>Predicates\<close>

definition range_contains_elem :: "(sql_value \<Rightarrow> string) \<Rightarrow> range_val \<Rightarrow> sql_value \<Rightarrow> bool" where
  "range_contains_elem tx r v \<longleftrightarrow>
     \<not> rv_empty r \<and>
     (case rv_lo r of
        None \<Rightarrow> True
      | Some l \<Rightarrow> (case bound_cmp tx v l of Less \<Rightarrow> False | Equal \<Rightarrow> rv_lo_inc r | Greater \<Rightarrow> True)) \<and>
     (case rv_hi r of
        None \<Rightarrow> True
      | Some u \<Rightarrow> (case bound_cmp tx v u of Greater \<Rightarrow> False | Equal \<Rightarrow> rv_hi_inc r | Less \<Rightarrow> True))"

definition range_contains_range :: "(sql_value \<Rightarrow> string) \<Rightarrow> range_val \<Rightarrow> range_val \<Rightarrow> bool" where
  "range_contains_range tx a b \<longleftrightarrow>
     (if rv_empty b then True
      else if rv_empty a then False
      else (case (rv_lo a, rv_lo b) of
              (None, _) \<Rightarrow> True
            | (Some _, None) \<Rightarrow> False
            | (Some x, Some y) \<Rightarrow>
                (case bound_cmp tx x y of
                   Less \<Rightarrow> True | Greater \<Rightarrow> False | Equal \<Rightarrow> rv_lo_inc a \<or> \<not> rv_lo_inc b)) \<and>
           (case (rv_hi a, rv_hi b) of
              (None, _) \<Rightarrow> True
            | (Some _, None) \<Rightarrow> False
            | (Some x, Some y) \<Rightarrow>
                (case bound_cmp tx x y of
                   Greater \<Rightarrow> True | Less \<Rightarrow> False | Equal \<Rightarrow> rv_hi_inc a \<or> \<not> rv_hi_inc b)))"

definition range_intersect ::
  "(sql_value \<Rightarrow> string) \<Rightarrow> range_val \<Rightarrow> range_val \<Rightarrow> range_val" where
  "range_intersect tx a b =
     (if rv_empty a \<or> rv_empty b then empty_range (rv_elem a) (rv_name a)
      else let (lo, lo_inc) = (if lo_cmp tx a b = Greater then (rv_lo a, rv_lo_inc a)
                               else (rv_lo b, rv_lo_inc b));
               (hi, hi_inc) = (if hi_cmp tx a b = Greater then (rv_hi b, rv_hi_inc b)
                               else (rv_hi a, rv_hi_inc a))
           in case make_range tx (rv_elem a) (rv_name a) lo lo_inc hi hi_inc of
                Inr r \<Rightarrow> r
              | Inl _ \<Rightarrow> empty_range (rv_elem a) (rv_name a))"

definition range_overlaps :: "(sql_value \<Rightarrow> string) \<Rightarrow> range_val \<Rightarrow> range_val \<Rightarrow> bool" where
  "range_overlaps tx a b \<longleftrightarrow>
     \<not> (rv_empty a \<or> rv_empty b) \<and> \<not> rv_empty (range_intersect tx a b)"

definition bounds_meet :: "(sql_value \<Rightarrow> string) \<Rightarrow> range_val \<Rightarrow> range_val \<Rightarrow> bool" where
  "bounds_meet tx u l \<longleftrightarrow>
     (case (rv_hi u, rv_lo l) of
        (Some x, Some y) \<Rightarrow> bound_eq tx x y \<and> (rv_hi_inc u \<noteq> rv_lo_inc l)
      | _ \<Rightarrow> False)"

definition range_adjacent :: "(sql_value \<Rightarrow> string) \<Rightarrow> range_val \<Rightarrow> range_val \<Rightarrow> bool" where
  "range_adjacent tx a b \<longleftrightarrow>
     \<not> (rv_empty a \<or> rv_empty b) \<and> \<not> range_overlaps tx a b \<and>
     (bounds_meet tx a b \<or> bounds_meet tx b a)"

section \<open>Position predicates\<close>

record bnd =
  bnd_val :: "sql_value option"
  bnd_inc :: bool
  bnd_lower :: bool

definition lo_bnd :: "range_val \<Rightarrow> bnd" where
  "lo_bnd r = \<lparr>bnd_val = rv_lo r, bnd_inc = rv_lo_inc r, bnd_lower = True\<rparr>"

definition hi_bnd :: "range_val \<Rightarrow> bnd" where
  "hi_bnd r = \<lparr>bnd_val = rv_hi r, bnd_inc = rv_hi_inc r, bnd_lower = False\<rparr>"

definition cmp_bounds :: "(sql_value \<Rightarrow> string) \<Rightarrow> bnd \<Rightarrow> bnd \<Rightarrow> ordering" where
  "cmp_bounds tx a b =
     (case (bnd_val a, bnd_val b) of
        (None, None) \<Rightarrow>
          if bnd_lower a = bnd_lower b then Equal else if bnd_lower a then Less else Greater
      | (None, Some _) \<Rightarrow> if bnd_lower a then Less else Greater
      | (Some _, None) \<Rightarrow> if bnd_lower b then Greater else Less
      | (Some x, Some y) \<Rightarrow>
          (case bound_cmp tx x y of
             Equal \<Rightarrow>
               if \<not> bnd_inc a \<and> \<not> bnd_inc b
               then (if bnd_lower a = bnd_lower b then Equal
                     else if bnd_lower a then Greater else Less)
               else if \<not> bnd_inc a then (if bnd_lower a then Greater else Less)
               else if \<not> bnd_inc b then (if bnd_lower b then Less else Greater)
               else Equal
           | r \<Rightarrow> r))"

datatype operand = OpR range_val | OpM multi_val | OpE sql_value

fun components :: "operand \<Rightarrow> range_val list" where
  "components (OpR r) = (if rv_empty r then [] else [r])"
| "components (OpM m) = mv_ranges m"
| "components (OpE v) = []"

definition position_pred ::
  "(sql_value \<Rightarrow> string) \<Rightarrow> string \<Rightarrow> operand \<Rightarrow> operand \<Rightarrow> bool" where
  "position_pred tx kind a b =
     (let ca = components a; cb = components b
      in if ca = [] \<or> cb = [] then False
         else if kind = ''before'' then cmp_bounds tx (hi_bnd (last ca)) (lo_bnd (hd cb)) = Less
         else if kind = ''after'' then cmp_bounds tx (lo_bnd (hd ca)) (hi_bnd (last cb)) = Greater
         else if kind = ''overleft''
         then cmp_bounds tx (hi_bnd (last ca)) (hi_bnd (last cb)) \<noteq> Greater
         else if kind = ''overright'' then cmp_bounds tx (lo_bnd (hd ca)) (lo_bnd (hd cb)) \<noteq> Less
         else if kind = ''adjacent''
         then (if length ca = 1 \<and> length cb = 1 then range_adjacent tx (hd ca) (hd cb)
               else bounds_meet tx (last ca) (hd cb) \<or> bounds_meet tx (last cb) (hd ca))
         else False)"

section \<open>Set operations\<close>

definition range_union ::
  "(sql_value \<Rightarrow> string) \<Rightarrow> range_val \<Rightarrow> range_val \<Rightarrow> exec_error + range_val" where
  "range_union tx a b =
     (if rv_empty a then Inr b
      else if rv_empty b then Inr a
      else let (first, second) = (if lo_cmp tx a b = Greater then (b, a) else (a, b))
           in if gap_between tx first second
              then Inl (ExecErr ''22000'' ''result of range union would not be contiguous'')
              else let (lo, lo_inc) = (if lo_cmp tx a b = Greater then (rv_lo b, rv_lo_inc b)
                                       else (rv_lo a, rv_lo_inc a));
                       (hi, hi_inc) = (if hi_cmp tx a b = Less then (rv_hi b, rv_hi_inc b)
                                       else (rv_hi a, rv_hi_inc a))
                   in make_range tx (rv_elem a) (rv_name a) lo lo_inc hi hi_inc)"

definition nonempty_part :: "exec_error + range_val \<Rightarrow> range_val list" where
  "nonempty_part x = (case x of Inr r \<Rightarrow> if \<not> rv_empty r then [r] else [] | Inl _ \<Rightarrow> [])"

definition range_minus_multi_inner ::
  "(sql_value \<Rightarrow> string) \<Rightarrow> range_val \<Rightarrow> range_val \<Rightarrow> range_val list" where
  "range_minus_multi_inner tx a b =
     (if rv_empty a then []
      else if rv_empty b \<or> \<not> range_overlaps tx a b then [a]
      else (if lo_cmp tx a b = Less
            then nonempty_part (make_range tx (rv_elem a) (rv_name a)
                   (rv_lo a) (rv_lo_inc a) (rv_lo b) (\<not> rv_lo_inc b))
            else [])
           @ (if hi_cmp tx a b = Greater
              then nonempty_part (make_range tx (rv_elem a) (rv_name a)
                     (rv_hi b) (\<not> rv_hi_inc b) (rv_hi a) (rv_hi_inc a))
              else []))"

definition range_minus ::
  "(sql_value \<Rightarrow> string) \<Rightarrow> range_val \<Rightarrow> range_val \<Rightarrow> exec_error + range_val" where
  "range_minus tx a b =
     (case range_minus_multi_inner tx a b of
        [] \<Rightarrow> Inr (empty_range (rv_elem a) (rv_name a))
      | [r] \<Rightarrow> Inr r
      | _ \<Rightarrow> Inl (ExecErr ''22000'' ''result of range difference would not be contiguous''))"

definition multi_minus :: "(sql_value \<Rightarrow> string) \<Rightarrow> multi_val \<Rightarrow> multi_val \<Rightarrow> multi_val" where
  "multi_minus tx a b =
     normalize_multi tx (mv_elem a) (mv_name a)
       (fold (\<lambda>br pieces. concat (map (\<lambda>p. range_minus_multi_inner tx p br) pieces))
          (mv_ranges b) (mv_ranges a))"

definition multi_union :: "(sql_value \<Rightarrow> string) \<Rightarrow> multi_val \<Rightarrow> multi_val \<Rightarrow> multi_val" where
  "multi_union tx a b =
     normalize_multi tx (mv_elem a) (mv_name a) (mv_ranges a @ mv_ranges b)"

definition multi_intersect :: "(sql_value \<Rightarrow> string) \<Rightarrow> multi_val \<Rightarrow> multi_val \<Rightarrow> multi_val" where
  "multi_intersect tx a b =
     normalize_multi tx (mv_elem a) (mv_name a)
       (filter (\<lambda>i. \<not> rv_empty i)
          (concat (map (\<lambda>x. map (\<lambda>y. range_intersect tx x y) (mv_ranges b)) (mv_ranges a))))"

definition multi_contains_range :: "(sql_value \<Rightarrow> string) \<Rightarrow> multi_val \<Rightarrow> range_val \<Rightarrow> bool" where
  "multi_contains_range tx m r \<longleftrightarrow>
     rv_empty r \<or> list_ex (\<lambda>x. range_contains_range tx x r) (mv_ranges m)"

definition multi_contains_multi :: "(sql_value \<Rightarrow> string) \<Rightarrow> multi_val \<Rightarrow> multi_val \<Rightarrow> bool" where
  "multi_contains_multi tx a b \<longleftrightarrow> list_all (multi_contains_range tx a) (mv_ranges b)"

definition multi_contains_elem :: "(sql_value \<Rightarrow> string) \<Rightarrow> multi_val \<Rightarrow> sql_value \<Rightarrow> bool" where
  "multi_contains_elem tx m v \<longleftrightarrow> list_ex (\<lambda>x. range_contains_elem tx x v) (mv_ranges m)"

definition multi_overlaps :: "(sql_value \<Rightarrow> string) \<Rightarrow> multi_val \<Rightarrow> multi_val \<Rightarrow> bool" where
  "multi_overlaps tx a b \<longleftrightarrow>
     list_ex (\<lambda>x. list_ex (range_overlaps tx x) (mv_ranges b)) (mv_ranges a)"

definition range_cmp :: "(sql_value \<Rightarrow> string) \<Rightarrow> range_val \<Rightarrow> range_val \<Rightarrow> ordering" where
  "range_cmp tx a b =
     (if rv_empty a then (if rv_empty b then Equal else Less)
      else if rv_empty b then Greater
      else then_with (lo_cmp tx a b) (hi_cmp tx a b))"

fun ranges_cmp :: "(sql_value \<Rightarrow> string) \<Rightarrow> range_val list \<Rightarrow> range_val list \<Rightarrow> ordering option" where
  "ranges_cmp tx (x # xs) (y # ys) =
     (if range_cmp tx x y \<noteq> Equal then Some (range_cmp tx x y) else ranges_cmp tx xs ys)"
| "ranges_cmp tx xs ys = None"

definition multirange_cmp :: "(sql_value \<Rightarrow> string) \<Rightarrow> range_val list \<Rightarrow> range_val list \<Rightarrow> ordering" where
  "multirange_cmp tx as bs =
     (case ranges_cmp tx as bs of
        Some r \<Rightarrow> r | None \<Rightarrow> ord_cmp (length as) (length bs))"

section \<open>Bounds of one element type\<close>

text \<open>
  The values a bound of each element type takes: an \<^verbatim>\<open>int4\<close> inside its 32 bits, a
  numeric with an \<^verbatim>\<open>i128\<close> mantissa, a finite date inside the calendar or one of the
  infinities, any float.
\<close>

definition bound_ok :: "range_elem \<Rightarrow> sql_value \<Rightarrow> bool" where
  "bound_ok e v =
     (case (e, v) of
        (ReInt4, VInt x) \<Rightarrow> - 2147483648 \<le> sint x \<and> sint x \<le> 2147483647
      | (ReInt8, VBigInt x) \<Rightarrow> True
      | (ReInt2, VSmallInt x) \<Rightarrow> True
      | (ReNum, VNumeric n) \<Rightarrow> small_numeric n
      | (ReDate, VDate d) \<Rightarrow>
          sint d = DATE_INFINITY \<or> sint d = DATE_NEG_INFINITY \<or> is_valid_date_days (sint d)
      | (ReTs, VTimestamp x) \<Rightarrow> True
      | (ReTstz, VTimestamptz x) \<Rightarrow> True
      | (ReText, VText s) \<Rightarrow> True
      | (ReFloat8, VFloat f) \<Rightarrow> True
      | _ \<Rightarrow> False)"

declare of_int_sint [simp del]

definition float_ranks :: "u64 \<Rightarrow> rat list" where
  "float_ranks w = (if is_nan w then [1] else [0, of_int (float_key w)])"

definition bound_ranks :: "sql_value \<Rightarrow> rat list" where
  "bound_ranks v =
     (case v of
        VSmallInt x \<Rightarrow> [of_int (sint x)]
      | VInt x \<Rightarrow> [of_int (sint x)]
      | VBigInt x \<Rightarrow> [of_int (sint x)]
      | VNumeric n \<Rightarrow> numeric_ranks n
      | VDate d \<Rightarrow> [of_int (sint d)]
      | VTimestamp x \<Rightarrow> [of_int (sint x)]
      | VTimestamptz x \<Rightarrow> [of_int (sint x)]
      | VText s \<Rightarrow> text_ranks s
      | VFloat f \<Rightarrow> float_ranks f
      | _ \<Rightarrow> [])"

lemma pg_float_ord_ranks: "pg_float_ord a b = ord_cmp (float_ranks a) (float_ranks b)"
  by (auto simp: pg_float_ord_def float_ranks_def ord_cmp_Cons ord_cmp_def)

lemma bound_ok_cases [consumes 1]:
  assumes "bound_ok e v"
  obtains (int4) x where "e = ReInt4" "v = VInt x" "- 2147483648 \<le> sint x" "sint x \<le> 2147483647"
    | (int8) x where "e = ReInt8" "v = VBigInt x"
    | (int2) x where "e = ReInt2" "v = VSmallInt x"
    | (num) n where "e = ReNum" "v = VNumeric n" "small_numeric n"
    | (date) d where "e = ReDate" "v = VDate d"
        "sint d = DATE_INFINITY \<or> sint d = DATE_NEG_INFINITY \<or> is_valid_date_days (sint d)"
    | (ts) x where "e = ReTs" "v = VTimestamp x"
    | (tstz) x where "e = ReTstz" "v = VTimestamptz x"
    | (str) s where "e = ReText" "v = VText s"
    | (flt) f where "e = ReFloat8" "v = VFloat f"
  using assms unfolding bound_ok_def
  by (cases e; cases v) simp_all

lemma bound_cmp_simps [simp]:
  "bound_cmp tx (VSmallInt x1) (VSmallInt y1) = ord_cmp (sint x1) (sint y1)"
  "bound_cmp tx (VInt x2) (VInt y2) = ord_cmp (sint x2) (sint y2)"
  "bound_cmp tx (VBigInt x2) (VBigInt y2) = ord_cmp (sint x2) (sint y2)"
  "bound_cmp tx (VNumeric m) (VNumeric n) = numeric_cmp m n"
  "bound_cmp tx (VDate d1) (VDate d2) = ord_cmp (sint d1) (sint d2)"
  "bound_cmp tx (VTimestamp x2) (VTimestamp y2) = ord_cmp (sint x2) (sint y2)"
  "bound_cmp tx (VTimestamptz x2) (VTimestamptz y2) = ord_cmp (sint x2) (sint y2)"
  "bound_cmp tx (VText s) (VText t) = ord_cmp s t"
  "bound_cmp tx (VFloat f) (VFloat g) = pg_float_ord f g"
  by (simp_all add: bound_cmp_def)

lemma bound_ranks_simps [simp]:
  "bound_ranks (VSmallInt x1) = [of_int (sint x1)]"
  "bound_ranks (VInt x2) = [of_int (sint x2)]"
  "bound_ranks (VBigInt x2) = [of_int (sint x2)]"
  "bound_ranks (VNumeric m) = numeric_ranks m"
  "bound_ranks (VDate d1) = [of_int (sint d1)]"
  "bound_ranks (VTimestamp x2) = [of_int (sint x2)]"
  "bound_ranks (VTimestamptz x2) = [of_int (sint x2)]"
  "bound_ranks (VText s) = text_ranks s"
  "bound_ranks (VFloat f) = float_ranks f"
  by (simp_all add: bound_ranks_def)

lemma bound_cmp_ranks:
  assumes "bound_ok e a" and "bound_ok e b"
  shows "bound_cmp tx a b = ord_cmp (bound_ranks a) (bound_ranks b)"
  using assms(1)
  by (cases rule: bound_ok_cases; use assms(2) in \<open>cases rule: bound_ok_cases\<close>)
    (simp_all add: pg_float_ord_ranks numeric_cmp_ranks)


section \<open>Cuts\<close>

text \<open>
  The lower and the upper bound of a range as elements of one linear order: a lower bound
  is infinite, or a value and whether it excludes it; an upper bound likewise. A value is
  above a lower bound when the bound is at most the value's own inclusive cut.
\<close>

type_synonym cut = "nat \<times> rat list \<times> nat"

fun lo_cut :: "sql_value option \<Rightarrow> bool \<Rightarrow> cut" where
  "lo_cut None i = (0, [], 0)"
| "lo_cut (Some l) i = (1, bound_ranks l, if i then 0 else 1)"

fun hi_cut :: "sql_value option \<Rightarrow> bool \<Rightarrow> cut" where
  "hi_cut None i = (1, [], 0)"
| "hi_cut (Some u) i = (0, bound_ranks u, if i then 1 else 0)"

abbreviation lo_of :: "range_val \<Rightarrow> cut" where
  "lo_of r \<equiv> lo_cut (rv_lo r) (rv_lo_inc r)"

abbreviation hi_of :: "range_val \<Rightarrow> cut" where
  "hi_of r \<equiv> hi_cut (rv_hi r) (rv_hi_inc r)"

definition above :: "cut \<Rightarrow> sql_value \<Rightarrow> bool" where
  "above c v \<longleftrightarrow> c \<le> (1, bound_ranks v, 0)"

definition below :: "cut \<Rightarrow> sql_value \<Rightarrow> bool" where
  "below c v \<longleftrightarrow> (0, bound_ranks v, 1) \<le> c"

definition opt_ok :: "range_elem \<Rightarrow> sql_value option \<Rightarrow> bool" where
  "opt_ok e b = (case b of None \<Rightarrow> True | Some v \<Rightarrow> bound_ok e v \<and> \<not> not_finite e v)"

text \<open>A lower and an upper cut that leave room for a value.\<close>

definition cuts_meet :: "cut \<Rightarrow> cut \<Rightarrow> bool" where
  "cuts_meet lo hi \<longleftrightarrow>
     fst lo = 0 \<or> fst hi = 1 \<or> fst (snd lo) < fst (snd hi) \<or>
     fst (snd lo) = fst (snd hi) \<and> snd (snd lo) = 0 \<and> snd (snd hi) = 1"

text \<open>
  The representation invariant: finite bounds of the element type in order; a discrete
  range is in the form \<open>[lo, hi)\<close>; an infinite bound is not inclusive.
\<close>

definition wf_range :: "range_val \<Rightarrow> bool" where
  "wf_range r \<longleftrightarrow>
     rv_empty r \<or>
     opt_ok (rv_elem r) (rv_lo r) \<and> opt_ok (rv_elem r) (rv_hi r) \<and>
     (rv_lo r = None \<longrightarrow> \<not> rv_lo_inc r) \<and> (rv_hi r = None \<longrightarrow> \<not> rv_hi_inc r) \<and>
     (discrete (rv_elem r) \<longrightarrow> (rv_lo r \<noteq> None \<longrightarrow> rv_lo_inc r) \<and> \<not> rv_hi_inc r) \<and>
     cuts_meet (lo_of r) (hi_of r)"

lemma lo_cmp_cut:
  assumes "opt_ok e (rv_lo a)" and "opt_ok e (rv_lo b)"
  shows "lo_cmp tx a b = ord_cmp (lo_of a) (lo_of b)"
  using assms bound_cmp_ranks [of e]
  by (auto simp: lo_cmp_def opt_ok_def ord_cmp_def less_prod_def' split: option.splits)

lemma hi_cmp_cut:
  assumes "opt_ok e (rv_hi a)" and "opt_ok e (rv_hi b)"
  shows "hi_cmp tx a b = ord_cmp (hi_of a) (hi_of b)"
  using assms bound_cmp_ranks [of e]
  by (auto simp: hi_cmp_def opt_ok_def ord_cmp_def less_prod_def' split: option.splits)

lemma range_contains_cut:
  assumes "bound_ok e v" and "opt_ok e (rv_lo r)" and "opt_ok e (rv_hi r)"
  shows "range_contains_elem tx r v \<longleftrightarrow>
    \<not> rv_empty r \<and> above (lo_of r) v \<and> below (hi_of r) v"
  using assms bound_cmp_ranks [of e v]
  by (auto simp: range_contains_elem_def opt_ok_def above_def below_def less_eq_prod_def ord_cmp_def
      split: option.splits)

lemma gap_between_cut:
  assumes "opt_ok e (rv_hi a)" and "opt_ok e (rv_lo b)"
  shows "gap_between tx a b \<longleftrightarrow>
    rv_hi a \<noteq> None \<and> rv_lo b \<noteq> None \<and>
    (fst (snd (hi_of a)) < fst (snd (lo_of b)) \<or>
     fst (snd (hi_of a)) = fst (snd (lo_of b)) \<and> \<not> rv_hi_inc a \<and> \<not> rv_lo_inc b)"
  using assms bound_cmp_ranks [of e]
  by (auto simp: gap_between_def opt_ok_def ord_cmp_def split: option.splits)

section \<open>Canonical construction\<close>

lemma sint_add_one:
  "sint x < 2 ^ (LENGTH('a) - 1) - 1 \<Longrightarrow> sint (x + 1) = sint x + 1" for x :: "'a::len word"
proof -
  assume a: "sint x < 2 ^ (LENGTH('a) - 1) - 1"
  have "- (2 ^ (LENGTH('a) - 1)) \<le> sint x" by (rule sint_ge)
  then have "signed_take_bit (LENGTH('a) - Suc 0) (sint x + 1) = sint x + 1"
    using a by (intro signed_take_bit_int_eq_self) simp_all
  moreover have "x + 1 = word_of_int (sint x + 1)" by (simp add: of_int_sint)
  ultimately show ?thesis by (metis sint_sbintrunc' One_nat_def)
qed

lemma of_int_step [simp]: "(of_int a :: rat) + 1 \<le> of_int b \<longleftrightarrow> a < b"
proof -
  have "(of_int a :: rat) + 1 \<le> of_int b \<longleftrightarrow> (of_int (a + 1) :: rat) \<le> of_int b" by simp
  then show ?thesis by (simp only: of_int_le_iff) linarith
qed

lemma discrete_ranks:
  assumes "discrete e" and "bound_ok e v"
  obtains k where "bound_ranks v = [of_int k]"
  using assms(2) by (cases rule: bound_ok_cases) (use assms(1) in auto)

lemma discrete_step:
  assumes "discrete e" and "bound_ok e v"
  shows "[of_int k] < bound_ranks v \<longleftrightarrow> [of_int k + 1] \<le> bound_ranks v"
proof -
  obtain j where j: "bound_ranks v = [of_int j]" by (rule discrete_ranks [OF assms])
  have "((of_int k :: rat) + 1 < of_int j \<or> (of_int k :: rat) + 1 = of_int j) \<longleftrightarrow> k < j"
    unfolding le_less [symmetric] by (rule of_int_step)
  with j show ?thesis by simp
qed

lemma step_up_spec:
  assumes "discrete e" and "bound_ok e l" and "\<not> not_finite e l" and "step_up e l = Inr l'"
  shows "bound_ok e l' \<and> \<not> not_finite e l' \<and>
    (\<forall>v. bound_ok e v \<longrightarrow> (bound_ranks l < bound_ranks v \<longleftrightarrow> bound_ranks l' \<le> bound_ranks v))"
  using assms(2)
proof (cases rule: bound_ok_cases)
  case (int4 x)
  then have "sint x < 2147483647" "l' = VInt (x + 1)" using assms(4) by (auto simp: step_up_def split: if_splits)
  moreover have "sint (x + 1) = sint x + 1" using \<open>sint x < 2147483647\<close> by (intro sint_add_one) simp
  ultimately have "bound_ok e l' \<and> \<not> not_finite e l'" "bound_ranks l' = [of_int (sint x) + 1]"
    using int4 by (simp_all add: bound_ok_def not_finite_def)
  with int4 show ?thesis using discrete_step [OF assms(1)] by simp
next
  case (int8 x)
  then have "sint x \<noteq> 9223372036854775807" "l' = VBigInt (x + 1)"
    using assms(4) by (auto simp: step_up_def split: if_splits)
  moreover have "sint (x + 1) = sint x + 1"
    using \<open>sint x \<noteq> _\<close> sint_lt [of x] by (intro sint_add_one) simp
  ultimately have "bound_ok e l' \<and> \<not> not_finite e l'" "bound_ranks l' = [of_int (sint x) + 1]"
    using int8 by (simp_all add: bound_ok_def not_finite_def)
  with int8 show ?thesis using discrete_step [OF assms(1)] by simp
next
  case (int2 x)
  then have "sint x \<noteq> 32767" "l' = VSmallInt (x + 1)"
    using assms(4) by (auto simp: step_up_def split: if_splits)
  moreover have "sint (x + 1) = sint x + 1"
    using \<open>sint x \<noteq> _\<close> sint_lt [of x] by (intro sint_add_one) simp
  ultimately have "bound_ok e l' \<and> \<not> not_finite e l'" "bound_ranks l' = [of_int (sint x) + 1]"
    using int2 by (simp_all add: bound_ok_def not_finite_def)
  with int2 show ?thesis using discrete_step [OF assms(1)] by simp
next
  case (date d)
  then have d: "is_valid_date_days (sint d)" "sint d < date_max_days" "l' = VDate (d + 1)"
    using assms(3,4) by (auto simp: step_up_def not_finite_def split: if_splits)
  then have "sint (d + 1) = sint d + 1" by (intro sint_add_one) (simp add: date_max_days_eval)
  with d date have "bound_ok e l' \<and> \<not> not_finite e l'" "bound_ranks l' = [of_int (sint d) + 1]"
    by (simp_all add: bound_ok_def not_finite_def is_valid_date_days_def date_max_days_eval
        date_min_days_def DATE_INFINITY_def DATE_NEG_INFINITY_def)
  with date show ?thesis using discrete_step [OF assms(1)] by simp
qed (use assms(1) in simp_all)


lemma canonical_lo:
  assumes "discrete e" and "opt_ok e b" and "b = None \<longrightarrow> \<not> inc"
    and "canonical_bound e False b inc = Inr (b', inc')"
  shows "opt_ok e b' \<and> (b' = None \<longleftrightarrow> b = None) \<and> inc' = (b' \<noteq> None) \<and>
    (\<forall>v. bound_ok e v \<longrightarrow> above (lo_cut b' inc') v = above (lo_cut b inc) v)"
proof (cases b)
  case None
  with assms show ?thesis by (auto simp: canonical_bound_def)
next
  case (Some l)
  with assms have l: "bound_ok e l" "\<not> not_finite e l" by (simp_all add: opt_ok_def)
  show ?thesis
  proof (cases inc)
    case True
    with assms Some show ?thesis by (auto simp: canonical_bound_def)
  next
    case False
    with assms(4) Some l obtain l' where s: "step_up e l = Inr l'" "b' = Some l'" "inc'"
      by (auto simp: canonical_bound_def split: sum.splits)
    with step_up_spec [OF assms(1) l s(1)] Some False show ?thesis
      by (auto simp: opt_ok_def above_def less_eq_prod_def)
  qed
qed

lemma canonical_hi:
  assumes "discrete e" and "opt_ok e b" and "b = None \<longrightarrow> \<not> inc"
    and "canonical_bound e True b inc = Inr (b', inc')"
  shows "opt_ok e b' \<and> (b' = None \<longleftrightarrow> b = None) \<and> \<not> inc' \<and>
    (\<forall>v. bound_ok e v \<longrightarrow> below (hi_cut b' inc') v = below (hi_cut b inc) v)"
proof (cases b)
  case None
  with assms show ?thesis by (auto simp: canonical_bound_def)
next
  case (Some l)
  with assms have l: "bound_ok e l" "\<not> not_finite e l" by (simp_all add: opt_ok_def)
  show ?thesis
  proof (cases inc)
    case False
    with assms Some show ?thesis by (auto simp: canonical_bound_def)
  next
    case True
    with assms(4) Some l obtain l' where s: "step_up e l = Inr l'" "b' = Some l'" "\<not> inc'"
      by (auto simp: canonical_bound_def split: sum.splits)
    with step_up_spec [OF assms(1) l s(1)] Some True show ?thesis
      by (auto simp: opt_ok_def below_def less_eq_prod_def not_less)
  qed
qed

text \<open>Cuts that do not meet leave room for no value.\<close>

lemma no_room:
  "\<not> cuts_meet (lo_cut lo li) (hi_cut hi ui) \<Longrightarrow> above (lo_cut lo li) v \<Longrightarrow> \<not> below (hi_cut hi ui) v"
  by (cases lo; cases hi) (auto simp: cuts_meet_def above_def below_def less_eq_prod_def split: if_splits)

lemma cuts_meet_iff:
  assumes "opt_ok e lo" and "opt_ok e hi"
  shows "cuts_meet (lo_cut lo li) (hi_cut hi ui) \<longleftrightarrow>
    (case (lo, hi) of
       (Some l, Some u) \<Rightarrow> bound_cmp tx l u = Less \<or> bound_cmp tx l u = Equal \<and> li \<and> ui
     | _ \<Rightarrow> True)"
  using assms bound_cmp_ranks [of e]
  by (auto simp: cuts_meet_def opt_ok_def split: option.splits)

lemma cut_None_inc [simp]:
  "lo_cut b (b \<noteq> None \<and> i) = lo_cut b i" "hi_cut b (b \<noteq> None \<and> i) = hi_cut b i"
  by (cases b; simp)+

lemma wf_range_empty [simp]: "wf_range (empty_range e name)"
  by (simp add: wf_range_def empty_range_def)

lemma range_contains_empty [simp]: "\<not> range_contains_elem tx (empty_range e name) v"
  by (simp add: range_contains_elem_def empty_range_def)

lemma empty_range_simps [simp]:
  "rv_elem (empty_range e name) = e" "rv_name (empty_range e name) = name" "rv_empty (empty_range e name)"
  by (simp_all add: empty_range_def)

text \<open>A range with bounds in order, of a continuous type or already in canonical form.\<close>

lemma wf_range_build:
  assumes "opt_ok e lo" and "opt_ok e hi" and "lo = None \<longrightarrow> \<not> li" and "hi = None \<longrightarrow> \<not> ui"
    and "discrete e \<longrightarrow> (lo \<noteq> None \<longrightarrow> li) \<and> \<not> ui" and "cuts_meet (lo_cut lo li) (hi_cut hi ui)"
  shows "wf_range (RangeVal e name False lo li hi ui) \<and>
    (\<forall>v. bound_ok e v \<longrightarrow> range_contains_elem tx (RangeVal e name False lo li hi ui) v =
      (above (lo_cut lo li) v \<and> below (hi_cut hi ui) v))"
  using assms by (simp add: wf_range_def range_contains_cut [of e])

lemma make_range_spec:
  assumes ok: "opt_ok e lo" "opt_ok e hi" and r: "make_range tx e name lo li hi ui = Inr r"
  shows "wf_range r \<and> rv_elem r = e \<and> rv_name r = name \<and>
    (\<forall>v. bound_ok e v \<longrightarrow>
      range_contains_elem tx r v = (above (lo_cut lo li) v \<and> below (hi_cut hi ui) v))"
proof -
  define ord where "ord = (case (lo, hi) of (Some l, Some u) \<Rightarrow> Some (bound_cmp tx l u) | _ \<Rightarrow> None)"
  define li' where "li' = (lo \<noteq> None \<and> li)"
  define ui' where "ui' = (hi \<noteq> None \<and> ui)"
  have inc: "lo_cut lo li' = lo_cut lo li" "hi_cut hi ui' = hi_cut hi ui"
    "lo = None \<longrightarrow> \<not> li'" "hi = None \<longrightarrow> \<not> ui'"
    unfolding li'_def ui'_def by ((cases lo; cases hi; simp)+)
  note r = r [unfolded make_range_def Let_def, folded ord_def li'_def ui'_def]
  have ng: "ord \<noteq> Some Greater" using r by auto
  have meet: "cuts_meet (lo_cut lo li) (hi_cut hi ui) \<longleftrightarrow> \<not> (ord = Some Equal \<and> \<not> (li \<and> ui))"
  proof (cases "lo = None \<or> hi = None")
    case True
    then show ?thesis by (auto simp: cuts_meet_iff [OF ok, where tx = tx] ord_def split: option.splits)
  next
    case False
    then obtain l u where "lo = Some l" "hi = Some u" by auto
    with ng cuts_meet_iff [OF ok, where tx = tx and li = li and ui = ui] show ?thesis
      by (cases "bound_cmp tx l u") (simp_all add: ord_def)
  qed
  show ?thesis
  proof (cases "ord = Some Equal \<and> \<not> (li \<and> ui)")
    case True
    then have "r = empty_range e name" using r ng by (simp split: if_splits)
    moreover have "\<not> cuts_meet (lo_cut lo li) (hi_cut hi ui)" using meet True by simp
    ultimately show ?thesis using no_room by auto
  next
    case False
    then have m: "cuts_meet (lo_cut lo li') (hi_cut hi ui')" using meet inc by simp
    show ?thesis
    proof (cases "discrete e")
      case True
      have nf: "(ord = Some Greater) = False" "(ord = Some Equal \<and> \<not> (li \<and> ui)) = False" "discrete e = True"
        using False ng True by simp_all
      note r = r [unfolded nf if_False if_True]
      then obtain l' i' u' j' where
        l: "canonical_bound e False lo li' = Inr (l', i')" and u: "canonical_bound e True hi ui' = Inr (u', j')"
        by (auto split: sum.splits)
      note L = canonical_lo [OF True ok(1) inc(3) l] and U = canonical_hi [OF True ok(2) inc(4) u]
      have r': "r = (if cuts_meet (lo_cut l' i') (hi_cut u' j') then RangeVal e name False l' i' u' j'
                     else empty_range e name)"
      proof (cases "l' = None \<or> u' = None")
        case None: True
        then have "cuts_meet (lo_cut l' i') (hi_cut u' j')" by (auto simp: cuts_meet_def)
        with r l u None show ?thesis by (auto split: option.splits)
      next
        case Some: False
        then obtain x y where xy: "l' = Some x" "u' = Some y" by auto
        have "cuts_meet (lo_cut l' i') (hi_cut u' j') \<longleftrightarrow> bound_cmp tx x y = Less"
          using L U xy cuts_meet_iff [where e = e and lo = l' and hi = u' and tx = tx and li = i' and ui = j']
          by simp
        with r l u xy show ?thesis by (cases "bound_cmp tx x y = Less") simp_all
      qed
      show ?thesis
      proof (cases "cuts_meet (lo_cut l' i') (hi_cut u' j')")
        case True
        with r' have r'': "r = RangeVal e name False l' i' u' j'" by simp
        have L': "opt_ok e l'" "l' = None \<longrightarrow> \<not> i'" "l' \<noteq> None \<longrightarrow> i'" using L by blast+
        have U': "opt_ok e u'" "u' = None \<longrightarrow> \<not> j'" "\<not> j'" using U by blast+
        note B = wf_range_build [OF L'(1) U'(1) L'(2) U'(2) _ True, where name = name and tx = tx]
        have eq: "above (lo_cut l' i') v = above (lo_cut lo li) v" "below (hi_cut u' j') v = below (hi_cut hi ui) v"
          if "bound_ok e v" for v
          using that L [unfolded inc(1)] U [unfolded inc(2)] by blast+
        show ?thesis unfolding r'' using B [OF impI [OF conjI [OF L'(3) U'(3)]]] by (simp add: eq)
      next
        case False
        with r' have "r = empty_range e name" by simp
        moreover have "\<not> (above (lo_cut lo li) v \<and> below (hi_cut hi ui) v)" if "bound_ok e v" for v
          using no_room [OF False] L U inc(1,2) that by metis
        ultimately show ?thesis by simp
      qed
    next
      case False2: False
      then have nf: "(ord = Some Greater) = False" "(ord = Some Equal \<and> \<not> (li \<and> ui)) = False"
        "discrete e = False"
        using False ng by simp_all
      have "r = RangeVal e name False lo li' hi ui'" using r [unfolded nf if_False] by simp
      with ok inc m False2 show ?thesis by (simp add: wf_range_build)
    qed
  qed
qed

section \<open>Set operations on ranges\<close>

text \<open>The ranges of one element type that satisfy the invariant.\<close>

definition range_of :: "range_elem \<Rightarrow> range_val \<Rightarrow> bool" where
  "range_of e r \<longleftrightarrow> wf_range r \<and> rv_elem r = e"

lemma range_ofD:
  assumes "range_of e r" and "\<not> rv_empty r"
  shows "opt_ok e (rv_lo r)" "opt_ok e (rv_hi r)" "rv_lo r = None \<Longrightarrow> \<not> rv_lo_inc r"
    "rv_hi r = None \<Longrightarrow> \<not> rv_hi_inc r" "discrete e \<Longrightarrow> rv_lo r \<noteq> None \<Longrightarrow> rv_lo_inc r"
    "discrete e \<Longrightarrow> \<not> rv_hi_inc r" "cuts_meet (lo_of r) (hi_of r)" "rv_elem r = e"
  using assms unfolding range_of_def wf_range_def by auto

lemma range_of_contains:
  assumes "range_of e r" and "bound_ok e v"
  shows "range_contains_elem tx r v \<longleftrightarrow> \<not> rv_empty r \<and> above (lo_of r) v \<and> below (hi_of r) v"
proof (cases "rv_empty r")
  case True
  then show ?thesis by (simp add: range_contains_elem_def)
next
  case False
  from range_contains_cut [OF assms(2) range_ofD(1,2) [OF assms(1) False]] show ?thesis .
qed

lemma range_of_empty [simp]: "range_of e (empty_range e name)"
  by (simp add: range_of_def)

lemma above_max: "above (max c d) v \<longleftrightarrow> above c v \<and> above d v"
  by (auto simp: above_def)

lemma below_min: "below (min c d) v \<longleftrightarrow> below c v \<and> below d v"
  by (auto simp: below_def)

lemma above_min: "above (min c d) v \<longleftrightarrow> above c v \<or> above d v"
  by (auto simp: above_def min_le_iff_disj)

lemma below_max: "below (max c d) v \<longleftrightarrow> below c v \<or> below d v"
  by (auto simp: below_def le_max_iff_disj)

text \<open>On bounds that are canonical already, construction only checks that the bounds meet.\<close>

lemma make_range_canonical:
  assumes "opt_ok e lo" and "opt_ok e hi" and "lo = None \<longrightarrow> \<not> li" and "hi = None \<longrightarrow> \<not> ui"
    and "discrete e \<longrightarrow> (lo \<noteq> None \<longrightarrow> li) \<and> \<not> ui"
  shows "cuts_meet (lo_cut lo li) (hi_cut hi ui) \<Longrightarrow>
      make_range tx e name lo li hi ui = Inr (RangeVal e name False lo li hi ui)"
    and "\<not> cuts_meet (lo_cut lo li) (hi_cut hi ui) \<Longrightarrow>
      make_range tx e name lo li hi ui = Inr (empty_range e name) \<or>
      (\<exists>x. make_range tx e name lo li hi ui = Inl x)"
  using assms
  by (auto simp: make_range_def Let_def canonical_bound_def cuts_meet_iff [where e = e and lo = lo and hi = hi and tx = tx]
      split: option.splits) (metis ordering.exhaust)+

lemma lo_of_pick:
  assumes "range_of e a" and "range_of e b" and "\<not> rv_empty a" and "\<not> rv_empty b"
  shows "lo_cmp tx a b = ord_cmp (lo_of a) (lo_of b)" "hi_cmp tx a b = ord_cmp (hi_of a) (hi_of b)"
  using assms by (auto intro: lo_cmp_cut [of e] hi_cmp_cut [of e] dest: range_ofD)

lemma range_intersect_cases:
  assumes ab: "range_of e a" "range_of e b" and ne: "\<not> rv_empty a" "\<not> rv_empty b"
  shows "if cuts_meet (max (lo_of a) (lo_of b)) (min (hi_of a) (hi_of b))
    then \<exists>r. range_intersect tx a b = r \<and> range_of e r \<and> \<not> rv_empty r \<and>
      lo_of r = max (lo_of a) (lo_of b) \<and> hi_of r = min (hi_of a) (hi_of b)
    else range_intersect tx a b = empty_range e (rv_name a)"
proof -
  define l where "l = (if lo_cmp tx a b = Greater then a else b)"
  define u where "u = (if hi_cmp tx a b = Greater then b else a)"
  have l: "range_of e l" "\<not> rv_empty l" "lo_of l = max (lo_of a) (lo_of b)"
    and u: "range_of e u" "\<not> rv_empty u" "hi_of u = min (hi_of a) (hi_of b)"
    using ab ne by (auto simp: l_def u_def lo_of_pick [OF ab ne])
  note L = range_ofD [OF l(1,2)] and U = range_ofD [OF u(1,2)]
  have i: "range_intersect tx a b =
      (case make_range tx e (rv_name a) (rv_lo l) (rv_lo_inc l) (rv_hi u) (rv_hi_inc u) of
         Inr r \<Rightarrow> r | Inl _ \<Rightarrow> empty_range e (rv_name a))"
    using ab ne by (auto simp: range_intersect_def l_def u_def range_of_def)
  have C: "rv_lo l = None \<longrightarrow> \<not> rv_lo_inc l" "rv_hi u = None \<longrightarrow> \<not> rv_hi_inc u"
    "discrete e \<longrightarrow> (rv_lo l \<noteq> None \<longrightarrow> rv_lo_inc l) \<and> \<not> rv_hi_inc u"
    using L(3,5) U(4,6) by auto
  note M = make_range_canonical [OF L(1) U(2) C, where tx = tx and name = "rv_name a"]
  show ?thesis
  proof (cases "cuts_meet (lo_of l) (hi_of u)")
    case True
    then have r: "range_intersect tx a b =
        RangeVal e (rv_name a) False (rv_lo l) (rv_lo_inc l) (rv_hi u) (rv_hi_inc u)"
      using i M(1) by simp
    moreover have "range_of e (range_intersect tx a b)"
      unfolding r range_of_def using L U True by (simp add: wf_range_def)
    ultimately show ?thesis using True l u by simp
  next
    case False
    from M(2) [OF this] i have "range_intersect tx a b = empty_range e (rv_name a)" by auto
    with False l u show ?thesis by simp
  qed
qed

lemma range_intersect_spec:
  assumes "range_of e a" and "range_of e b"
  shows "range_of e (range_intersect tx a b)"
    and "bound_ok e v \<Longrightarrow> range_contains_elem tx (range_intersect tx a b) v \<longleftrightarrow>
      range_contains_elem tx a v \<and> range_contains_elem tx b v"
proof -
  have "range_of e (range_intersect tx a b) \<and> (bound_ok e v \<longrightarrow>
      range_contains_elem tx (range_intersect tx a b) v =
      (range_contains_elem tx a v \<and> range_contains_elem tx b v))"
  proof (cases "rv_empty a \<or> rv_empty b")
    case True
    with assms show ?thesis by (auto simp: range_intersect_def range_of_def range_contains_elem_def)
  next
    case False
    note c = range_intersect_cases [OF assms, of tx]
    show ?thesis
    proof (cases "cuts_meet (max (lo_of a) (lo_of b)) (min (hi_of a) (hi_of b))")
      case True
      with c False show ?thesis
        using range_of_contains [OF assms(1)] range_of_contains [OF assms(2)]
        by (auto simp: range_of_contains [of e] above_max below_min)
    next
      case no: False
      have "\<not> (above (max (lo_of a) (lo_of b)) v \<and> below (min (hi_of a) (hi_of b)) v)"
        using no_room no by (metis (no_types, lifting) max_def min_def)
      with c no False show ?thesis
        using range_of_contains [OF assms(1)] range_of_contains [OF assms(2)]
        by (auto simp: above_max below_min)
    qed
  qed
  then show "range_of e (range_intersect tx a b)"
    and "bound_ok e v \<Longrightarrow> range_contains_elem tx (range_intersect tx a b) v \<longleftrightarrow>
      range_contains_elem tx a v \<and> range_contains_elem tx b v" by auto
qed

lemma range_overlaps_cut:
  assumes "range_of e a" and "range_of e b"
  shows "range_overlaps tx a b \<longleftrightarrow> \<not> rv_empty a \<and> \<not> rv_empty b \<and>
    cuts_meet (max (lo_of a) (lo_of b)) (min (hi_of a) (hi_of b))"
  using range_intersect_cases [OF assms, of tx]
  by (auto simp: range_overlaps_def split: if_splits)

lemma range_overlaps_disjoint:
  assumes "range_of e a" and "range_of e b" and "\<not> range_overlaps tx a b" and "bound_ok e v"
  shows "\<not> (range_contains_elem tx a v \<and> range_contains_elem tx b v)"
  using range_intersect_spec(2) [OF assms(1,2,4), of tx] assms(3)
  by (auto simp: range_overlaps_def range_contains_elem_def)

text \<open>A difference leaves the parts of the first range on either side of the second.\<close>

lemma above_flip: "b \<noteq> None \<Longrightarrow> below (hi_cut b (\<not> i)) v \<longleftrightarrow> \<not> above (lo_cut b i) v"
  by (cases b) (auto simp: above_def below_def less_eq_prod_def not_less)

lemma below_flip: "b \<noteq> None \<Longrightarrow> above (lo_cut b (\<not> i)) v \<longleftrightarrow> \<not> below (hi_cut b i) v"
  by (cases b) (auto simp: above_def below_def less_eq_prod_def not_less)

lemma fst_lo_cut: "fst (lo_cut b i) = 0 \<longleftrightarrow> b = None" and fst_hi_cut: "fst (hi_cut b i) = 1 \<longleftrightarrow> b = None"
  by (cases b; simp)+

text \<open>When the bounds of two ranges meet, below one's lower bound is inside the other's upper.\<close>

lemma meet_lower:
  assumes "cuts_meet (max (lo_of a) (lo_of b)) (min (hi_of a) (hi_of b))" and "\<not> above (lo_of b) v"
  shows "below (hi_of a) v"
  using assms
  by (cases "rv_lo a"; cases "rv_lo b"; cases "rv_hi a"; cases "rv_hi b")
    (auto simp: cuts_meet_def above_def below_def less_eq_prod_def max_def min_def split: if_splits)

lemma meet_upper:
  assumes "cuts_meet (max (lo_of a) (lo_of b)) (min (hi_of a) (hi_of b))" and "\<not> below (hi_of b) v"
  shows "above (lo_of a) v"
  using assms
  by (cases "rv_lo a"; cases "rv_lo b"; cases "rv_hi a"; cases "rv_hi b")
    (auto simp: cuts_meet_def above_def below_def less_eq_prod_def max_def min_def split: if_splits)

lemma nonempty_part_spec:
  assumes "opt_ok e lo" and "opt_ok e hi" and "lo = None \<longrightarrow> \<not> li" and "hi = None \<longrightarrow> \<not> ui"
    and "discrete e \<longrightarrow> (lo \<noteq> None \<longrightarrow> li) \<and> \<not> ui"
  shows "(\<forall>r \<in> set (nonempty_part (make_range tx e name lo li hi ui)). range_of e r \<and> \<not> rv_empty r) \<and>
    (bound_ok e v \<longrightarrow>
      ((\<exists>r \<in> set (nonempty_part (make_range tx e name lo li hi ui)). range_contains_elem tx r v) \<longleftrightarrow>
       above (lo_cut lo li) v \<and> below (hi_cut hi ui) v))"
proof (cases "cuts_meet (lo_cut lo li) (hi_cut hi ui)")
  case True
  note m = make_range_canonical(1) [OF assms True, where tx = tx and name = name]
  from wf_range_build [OF assms True, where tx = tx and name = name] m show ?thesis
    by (simp add: nonempty_part_def range_of_def)
next
  case False
  from make_range_canonical(2) [OF assms False, where tx = tx and name = name]
  have "nonempty_part (make_range tx e name lo li hi ui) = []" by (auto simp: nonempty_part_def)
  with no_room [OF False] show ?thesis by auto
qed

lemma range_minus_multi_inner_spec:
  assumes a: "range_of e a" and b: "range_of e b"
  shows "(\<forall>r \<in> set (range_minus_multi_inner tx a b). range_of e r \<and> \<not> rv_empty r) \<and>
    (bound_ok e v \<longrightarrow>
      ((\<exists>r \<in> set (range_minus_multi_inner tx a b). range_contains_elem tx r v) \<longleftrightarrow>
       range_contains_elem tx a v \<and> \<not> range_contains_elem tx b v))"
proof (cases "range_overlaps tx a b")
  case False
  have "\<not> (range_contains_elem tx a v \<and> range_contains_elem tx b v)" if "bound_ok e v"
    using range_overlaps_disjoint [OF a b False that] .
  moreover have "\<not> range_contains_elem tx a v" if "rv_empty a"
    using that by (simp add: range_contains_elem_def)
  ultimately show ?thesis using a False by (auto simp: range_minus_multi_inner_def)
next
  case True
  then have ne: "\<not> rv_empty a" "\<not> rv_empty b"
    and m: "cuts_meet (max (lo_of a) (lo_of b)) (min (hi_of a) (hi_of b))"
    using range_overlaps_cut [OF a b] by auto
  note A = range_ofD [OF a ne(1)] and B = range_ofD [OF b ne(2)] and ord = lo_of_pick [OF a b ne]
  define L where "L = (if lo_cmp tx a b = Less
    then nonempty_part (make_range tx e (rv_name a) (rv_lo a) (rv_lo_inc a) (rv_lo b) (\<not> rv_lo_inc b)) else [])"
  define U where "U = (if hi_cmp tx a b = Greater
    then nonempty_part (make_range tx e (rv_name a) (rv_hi b) (\<not> rv_hi_inc b) (rv_hi a) (rv_hi_inc a)) else [])"
  have parts: "range_minus_multi_inner tx a b = L @ U"
    using True ne A(8) by (simp add: range_minus_multi_inner_def L_def U_def)
  have L: "(\<forall>r \<in> set L. range_of e r \<and> \<not> rv_empty r) \<and> (bound_ok e v \<longrightarrow>
      ((\<exists>r \<in> set L. range_contains_elem tx r v) \<longleftrightarrow> above (lo_of a) v \<and> \<not> above (lo_of b) v))"
  proof (cases "lo_cmp tx a b = Less")
    case less: True
    then have "lo_of a < lo_of b" using ord by simp
    then have "rv_lo b \<noteq> None" using A(3) by (cases "rv_lo a"; cases "rv_lo b") auto
    with less A B above_flip [OF this] show ?thesis
      using nonempty_part_spec [of e "rv_lo a" "rv_lo b" "rv_lo_inc a" "\<not> rv_lo_inc b" tx "rv_name a" v]
      by (auto simp: L_def)
  next
    case nless: False
    then have "lo_of b \<le> lo_of a" using ord by simp
    then have "above (lo_of a) v \<longrightarrow> above (lo_of b) v" by (auto simp: above_def)
    with nless show ?thesis by (auto simp: L_def)
  qed
  have U: "(\<forall>r \<in> set U. range_of e r \<and> \<not> rv_empty r) \<and> (bound_ok e v \<longrightarrow>
      ((\<exists>r \<in> set U. range_contains_elem tx r v) \<longleftrightarrow> below (hi_of a) v \<and> \<not> below (hi_of b) v))"
  proof (cases "hi_cmp tx a b = Greater")
    case gr: True
    then have "hi_of b < hi_of a" using ord by simp
    then have "rv_hi b \<noteq> None" using A(4) by (cases "rv_hi a"; cases "rv_hi b") auto
    with gr A B below_flip [OF this] show ?thesis
      using nonempty_part_spec [of e "rv_hi b" "rv_hi a" "\<not> rv_hi_inc b" "rv_hi_inc a" tx "rv_name a" v]
      by (auto simp: U_def)
  next
    case ngr: False
    then have "hi_of a \<le> hi_of b" using ord by simp
    then have "below (hi_of a) v \<longrightarrow> below (hi_of b) v" by (auto simp: below_def)
    with ngr show ?thesis by (auto simp: U_def)
  qed
  show ?thesis
    unfolding parts using L U ne range_of_contains [OF a] range_of_contains [OF b]
      meet_lower [OF m, of v] meet_upper [OF m, of v]
    by (auto simp: ball_Un bex_Un)
qed

lemma range_minus_spec:
  assumes a: "range_of e a" and b: "range_of e b" and r: "range_minus tx a b = Inr r"
  shows "range_of e r \<and> (bound_ok e v \<longrightarrow>
    (range_contains_elem tx r v \<longleftrightarrow> range_contains_elem tx a v \<and> \<not> range_contains_elem tx b v))"
  using range_minus_multi_inner_spec [OF a b, of tx v] r a
  by (auto simp: range_minus_def range_of_def split: list.splits)

text \<open>Union, when the ranges touch.\<close>

lemma no_gap_between:
  assumes "range_of e f" and "range_of e s" and "\<not> rv_empty f" and "\<not> rv_empty s"
    and "\<not> gap_between tx f s"
  shows "below (hi_of f) v \<or> above (lo_of s) v"
proof -
  note F = range_ofD [OF assms(1,3)] and S = range_ofD [OF assms(2,4)]
  show ?thesis
    using gap_between_cut [OF F(2) S(1), of tx] assms(5)
    by (cases "rv_hi f"; cases "rv_lo s") (auto simp: above_def below_def less_eq_prod_def not_less split: if_splits)
qed

lemma range_union_spec:
  assumes a: "range_of e a" and b: "range_of e b" and r: "range_union tx a b = Inr r"
  shows "range_of e r \<and> (bound_ok e v \<longrightarrow>
    (range_contains_elem tx r v \<longleftrightarrow> range_contains_elem tx a v \<or> range_contains_elem tx b v))"
proof (cases "rv_empty a \<or> rv_empty b")
  case True
  with a b r show ?thesis by (auto simp: range_union_def range_contains_elem_def split: if_splits)
next
  case False
  then have ne: "\<not> rv_empty a" "\<not> rv_empty b" by auto
  note ord = lo_of_pick [OF a b ne]
  define l where "l = (if lo_cmp tx a b = Greater then b else a)"
  define s where "s = (if lo_cmp tx a b = Greater then a else b)"
  define u where "u = (if hi_cmp tx a b = Less then b else a)"
  have l: "range_of e l" "\<not> rv_empty l" "lo_of l = min (lo_of a) (lo_of b)"
    and u: "range_of e u" "\<not> rv_empty u" "hi_of u = max (hi_of a) (hi_of b)"
    and s: "range_of e s" "\<not> rv_empty s"
    using a b ne by (auto simp: l_def u_def s_def ord)
  have ng: "\<not> gap_between tx l s"
    using r ne by (auto simp: range_union_def l_def s_def split: if_splits)
  have mk: "make_range tx e (rv_name a) (rv_lo l) (rv_lo_inc l) (rv_hi u) (rv_hi_inc u) = Inr r"
    using r ne ng a by (auto simp: range_union_def l_def s_def u_def range_of_def split: if_splits)
  have sp: "wf_range r \<and> rv_elem r = e \<and> rv_name r = rv_name a \<and> (\<forall>v. bound_ok e v \<longrightarrow>
      range_contains_elem tx r v = (above (lo_of l) v \<and> below (hi_of u) v))"
    by (rule make_range_spec [OF range_ofD(1) [OF l(1,2)] range_ofD(2) [OF u(1,2)] mk])
  have g: "below (hi_of l) v \<or> above (lo_of s) v" by (rule no_gap_between [OF l(1) s(1) l(2) s(2) ng])
  have "above (lo_of l) v \<and> below (hi_of u) v \<longleftrightarrow>
      above (lo_of a) v \<and> below (hi_of a) v \<or> above (lo_of b) v \<and> below (hi_of b) v"
    using g unfolding l(3) u(3) above_min below_max
    by (auto simp: l_def s_def ord above_def below_def split: if_splits dest: order_trans)
  with sp ne show ?thesis
    using range_of_contains [OF a] range_of_contains [OF b] by (auto simp: range_of_def)
qed

section \<open>Containment of a range\<close>

lemma range_contains_range_spec:
  assumes a: "range_of e a" and b: "range_of e b" and c: "range_contains_range tx a b"
    and v: "bound_ok e v" and m: "range_contains_elem tx b v"
  shows "range_contains_elem tx a v"
proof -
  have ne: "\<not> rv_empty b" using m by (auto simp: range_contains_elem_def)
  with c have na: "\<not> rv_empty a" by (auto simp: range_contains_range_def)
  note A = range_ofD [OF a na] and B = range_ofD [OF b ne] and C = bound_cmp_ranks [of e _ _ tx]
  have "lo_of a \<le> lo_of b"
    using c ne na A(1) B(1) C
    by (auto simp: range_contains_range_def opt_ok_def less_eq_prod_def split: option.splits ordering.splits)
  moreover have "hi_of b \<le> hi_of a"
    using c ne na A(2) B(2) C
    by (auto simp: range_contains_range_def opt_ok_def less_eq_prod_def split: option.splits ordering.splits)
  ultimately show ?thesis
    using m range_of_contains [OF a v] range_of_contains [OF b v] na
    by (auto simp: above_def below_def dest: order_trans)
qed

section \<open>Normalization of a multirange\<close>

lemma then_with_pairs: "then_with (ord_cmp a b) (ord_cmp c d) = ord_cmp (a, c) (b, d)"
  by (cases "ord_cmp a b") (auto simp: ord_cmp_def split: if_splits)

interpretation rsort: key_order "range_sort_cmp tx" "\<lambda>r. range_of e r \<and> \<not> rv_empty r" for tx e
  by (rule key_order_embed [where f = "\<lambda>r. (lo_of r, hi_of r)"])
    (simp add: range_sort_cmp_def lo_of_pick [of e] then_with_pairs)

lemma gap_trans:
  assumes "range_of e x" "range_of e y" "range_of e z" and "\<not> rv_empty x" "\<not> rv_empty y" "\<not> rv_empty z"
    and "gap_between tx x y" and "gap_between tx y z"
  shows "gap_between tx x z"
proof -
  note X = range_ofD [OF assms(1,4)] and Y = range_ofD [OF assms(2,5)] and Z = range_ofD [OF assms(3,6)]
  show ?thesis
    using assms(7,8) Y(7) gap_between_cut [OF X(2) Y(1), of tx] gap_between_cut [OF Y(2) Z(1), of tx]
      gap_between_cut [OF X(2) Z(1), of tx]
    by (auto simp: cuts_meet_def split: if_splits)
qed

lemma cuts_meet_mono: "cuts_meet l (hi_cut b i) \<Longrightarrow> hi_cut b i \<le> hi_cut b' i' \<Longrightarrow> cuts_meet l (hi_cut b' i')"
  by (cases b; cases b'; cases l)
    (auto simp: cuts_meet_def less_eq_prod_def split: if_splits)

lemma merge_into_spec:
  assumes c: "range_of e c" "\<not> rv_empty c" and r: "range_of e r" "\<not> rv_empty r"
    and le: "lo_of c \<le> lo_of r" and ng: "\<not> gap_between tx c r"
  shows "range_of e (merge_into tx c r) \<and> \<not> rv_empty (merge_into tx c r) \<and>
    rv_lo (merge_into tx c r) = rv_lo c \<and> rv_lo_inc (merge_into tx c r) = rv_lo_inc c \<and>
    (bound_ok e v \<longrightarrow> (range_contains_elem tx (merge_into tx c r) v \<longleftrightarrow>
      range_contains_elem tx c v \<or> range_contains_elem tx r v))"
proof -
  note C = range_ofD [OF c] and R = range_ofD [OF r]
  have h: "hi_cmp tx r c = ord_cmp (hi_of r) (hi_of c)" by (rule lo_of_pick(2) [OF r(1) c(1) r(2) c(2)])
  have shape: "rv_elem (merge_into tx c r) = e" "\<not> rv_empty (merge_into tx c r)"
    "rv_lo (merge_into tx c r) = rv_lo c" "rv_lo_inc (merge_into tx c r) = rv_lo_inc c"
    "rv_hi (merge_into tx c r) = (if hi_of c < hi_of r then rv_hi r else rv_hi c)"
    "rv_hi_inc (merge_into tx c r) = (if hi_of c < hi_of r then rv_hi_inc r else rv_hi_inc c)"
    using c C(8) by (simp_all add: merge_into_def h)
  then have hi: "hi_of (merge_into tx c r) = max (hi_of c) (hi_of r)"
    by (cases "hi_of c < hi_of r") (simp_all add: max_absorb1 max_absorb2 not_less)
  have "cuts_meet (lo_of c) (hi_of (merge_into tx c r))"
    by (rule cuts_meet_mono [OF C(7)]) (simp add: hi)
  then have wf: "range_of e (merge_into tx c r)"
    using shape C R by (cases "hi_of c < hi_of r") (auto simp: range_of_def wf_range_def)
  have "above (lo_of c) v \<and> below (max (hi_of c) (hi_of r)) v \<longleftrightarrow>
      above (lo_of c) v \<and> below (hi_of c) v \<or> above (lo_of r) v \<and> below (hi_of r) v"
    using no_gap_between [OF c(1) r(1) c(2) r(2) ng, of v] le
    unfolding below_max by (auto simp: above_def dest: order_trans)
  then have "bound_ok e v \<longrightarrow> (range_contains_elem tx (merge_into tx c r) v \<longleftrightarrow>
      range_contains_elem tx c v \<or> range_contains_elem tx r v)"
    using range_of_contains [OF wf] range_of_contains [OF c(1)] range_of_contains [OF r(1)] c(2) r(2) shape hi
    by auto
  with wf shape show ?thesis by simp
qed

lemma hd_merge_ranges:
  "merge_ranges tx c rs \<noteq> [] \<and> rv_lo (hd (merge_ranges tx c rs)) = rv_lo c \<and>
   rv_lo_inc (hd (merge_ranges tx c rs)) = rv_lo_inc c"
proof (induction rs arbitrary: c)
  case (Cons r rs)
  show ?case using Cons [of "merge_into tx c r"] by (simp add: merge_into_def split: if_splits)
qed simp

text \<open>The components of a multirange: valid, not empty, and separated by gaps.\<close>

definition components_of :: "(sql_value \<Rightarrow> string) \<Rightarrow> range_elem \<Rightarrow> range_val list \<Rightarrow> bool" where
  "components_of tx e rs \<longleftrightarrow>
     (\<forall>r \<in> set rs. range_of e r \<and> \<not> rv_empty r) \<and> sorted_wrt (gap_between tx) rs"

lemma components_Cons:
  assumes "range_of e c" and "\<not> rv_empty c" and "components_of tx e rs" and "rs \<noteq> []"
    and "gap_between tx c (hd rs)"
  shows "components_of tx e (c # rs)"
proof -
  obtain r rs' where rs: "rs = r # rs'" using assms(4) by (cases rs) auto
  have "gap_between tx c x" if "x \<in> set rs'" for x
    using that assms rs by (intro gap_trans [of e c r x tx]) (auto simp: components_of_def)
  with assms rs show ?thesis by (auto simp: components_of_def)
qed

lemma merge_ranges_spec:
  assumes "range_of e c" and "\<not> rv_empty c" and "\<forall>r \<in> set rs. range_of e r \<and> \<not> rv_empty r"
    and "sorted_wrt (\<lambda>a b. lo_of a \<le> lo_of b) (c # rs)"
  shows "components_of tx e (merge_ranges tx c rs) \<and>
    (bound_ok e v \<longrightarrow> ((\<exists>r \<in> set (merge_ranges tx c rs). range_contains_elem tx r v) \<longleftrightarrow>
      (\<exists>r \<in> set (c # rs). range_contains_elem tx r v)))"
  using assms
proof (induction rs arbitrary: c)
  case Nil
  then show ?case by (simp add: components_of_def)
next
  case (Cons r rs)
  show ?case
  proof (cases "gap_between tx c r")
    case True
    have IH: "components_of tx e (merge_ranges tx r rs) \<and>
      (bound_ok e v \<longrightarrow> ((\<exists>x \<in> set (merge_ranges tx r rs). range_contains_elem tx x v) \<longleftrightarrow>
        (\<exists>x \<in> set (r # rs). range_contains_elem tx x v)))"
      using Cons.prems by (intro Cons.IH) simp_all
    note h = hd_merge_ranges [of tx r rs]
    have "gap_between tx c (hd (merge_ranges tx r rs))" 
      using True unfolding gap_between_def h [THEN conjunct2, THEN conjunct1] h [THEN conjunct2, THEN conjunct2] .
    with Cons.prems IH h components_Cons [of e c tx "merge_ranges tx r rs"] True show ?thesis by auto
  next
    case False
    let ?m = "merge_into tx c r"
    note m = merge_into_spec [OF Cons.prems(1,2) _ _ _ False, where v = v]
    have M: "range_of e ?m" "\<not> rv_empty ?m" "lo_of ?m = lo_of c"
      "bound_ok e v \<longrightarrow> (range_contains_elem tx ?m v \<longleftrightarrow>
        range_contains_elem tx c v \<or> range_contains_elem tx r v)"
      using m Cons.prems by auto
    have "components_of tx e (merge_ranges tx ?m rs) \<and>
      (bound_ok e v \<longrightarrow> ((\<exists>x \<in> set (merge_ranges tx ?m rs). range_contains_elem tx x v) \<longleftrightarrow>
        (\<exists>x \<in> set (?m # rs). range_contains_elem tx x v)))"
      using Cons.prems M by (intro Cons.IH) auto
    with M False show ?thesis by auto
  qed
qed

lemma normalize_multi_spec:
  assumes "\<forall>r \<in> set rs. range_of e r"
  shows "components_of tx e (mv_ranges (normalize_multi tx e name rs)) \<and>
    mv_elem (normalize_multi tx e name rs) = e \<and>
    (bound_ok e v \<longrightarrow> (multi_contains_elem tx (normalize_multi tx e name rs) v \<longleftrightarrow>
      (\<exists>r \<in> set rs. range_contains_elem tx r v)))"
proof -
  define ss where "ss = sort_by (range_sort_cmp tx) (filter (\<lambda>r. \<not> rv_empty r) rs)"
  have ok: "\<forall>r \<in> set ss. range_of e r \<and> \<not> rv_empty r" using assms by (auto simp: ss_def)
  have "sorted_wrt (\<lambda>a b. range_sort_cmp tx a b \<noteq> Greater) ss"
    unfolding ss_def using assms by (intro rsort.sorted_sort_by) auto
  then have "sorted_wrt (\<lambda>a b. lo_of a \<le> lo_of b) ss"
  proof (rule sorted_wrt_mono_rel [rotated])
    fix a b assume "a \<in> set ss" "b \<in> set ss" "range_sort_cmp tx a b \<noteq> Greater"
    then show "lo_of a \<le> lo_of b"
      using ok lo_of_pick [of e a b tx] by (auto simp: range_sort_cmp_def ord_cmp_def split: if_splits)
  qed
  moreover have "(\<exists>r \<in> set ss. range_contains_elem tx r v) \<longleftrightarrow> (\<exists>r \<in> set rs. range_contains_elem tx r v)"
    by (auto simp: ss_def range_contains_elem_def)
  ultimately show ?thesis
    using merge_ranges_spec [of e "hd ss" "tl ss" tx v] ok
    by (cases ss) (auto simp: normalize_multi_def ss_def [symmetric] multi_contains_elem_def
        list_ex_iff components_of_def)
qed

section \<open>Set operations on multiranges\<close>

definition multi_of :: "(sql_value \<Rightarrow> string) \<Rightarrow> range_elem \<Rightarrow> multi_val \<Rightarrow> bool" where
  "multi_of tx e m \<longleftrightarrow> mv_elem m = e \<and> components_of tx e (mv_ranges m)"

lemma multi_of_normalize:
  assumes "\<forall>r \<in> set rs. range_of e r"
  shows "multi_of tx e (normalize_multi tx e name rs)"
    and "bound_ok e v \<Longrightarrow> multi_contains_elem tx (normalize_multi tx e name rs) v \<longleftrightarrow>
      (\<exists>r \<in> set rs. range_contains_elem tx r v)"
  using normalize_multi_spec [OF assms, of tx name v] by (simp_all add: multi_of_def)

lemma multi_contains_ex:
  "multi_contains_elem tx m v \<longleftrightarrow> (\<exists>r \<in> set (mv_ranges m). range_contains_elem tx r v)"
  by (auto simp: multi_contains_elem_def list_ex_iff)

lemma multi_of_ranges: "multi_of tx e m \<Longrightarrow> \<forall>r \<in> set (mv_ranges m). range_of e r"
  by (auto simp: multi_of_def components_of_def)

lemma multi_union_spec:
  assumes "multi_of tx e a" and "multi_of tx e b"
  shows "multi_of tx e (multi_union tx a b)"
    and "bound_ok e v \<Longrightarrow> multi_contains_elem tx (multi_union tx a b) v \<longleftrightarrow>
      multi_contains_elem tx a v \<or> multi_contains_elem tx b v"
  using multi_of_normalize(1) [of "mv_ranges a @ mv_ranges b" e tx "mv_name a"]
    multi_of_normalize(2) [of "mv_ranges a @ mv_ranges b" e v tx "mv_name a"]
    multi_of_ranges [OF assms(1)] multi_of_ranges [OF assms(2)] assms(1)
  by (auto simp: multi_union_def multi_contains_ex multi_of_def ball_Un bex_Un)

lemma multi_intersect_spec:
  assumes a: "multi_of tx e a" and b: "multi_of tx e b"
  shows "multi_of tx e (multi_intersect tx a b)"
    and "bound_ok e v \<Longrightarrow> multi_contains_elem tx (multi_intersect tx a b) v \<longleftrightarrow>
      multi_contains_elem tx a v \<and> multi_contains_elem tx b v"
proof -
  define rs where "rs = filter (\<lambda>i. \<not> rv_empty i)
    (concat (map (\<lambda>x. map (\<lambda>y. range_intersect tx x y) (mv_ranges b)) (mv_ranges a)))"
  have R: "\<forall>r \<in> set rs. range_of e r"
    using range_intersect_spec(1) multi_of_ranges [OF a] multi_of_ranges [OF b] by (auto simp: rs_def)
  have M: "multi_intersect tx a b = normalize_multi tx e (mv_name a) rs"
    using a by (simp add: multi_intersect_def rs_def multi_of_def)
  show "multi_of tx e (multi_intersect tx a b)" unfolding M by (rule multi_of_normalize(1) [OF R])
  assume v: "bound_ok e v"
  have "(\<exists>r \<in> set rs. range_contains_elem tx r v) \<longleftrightarrow>
      (\<exists>x \<in> set (mv_ranges a). \<exists>y \<in> set (mv_ranges b). range_contains_elem tx (range_intersect tx x y) v)"
    by (auto simp: rs_def range_contains_elem_def)
  also have "\<dots> \<longleftrightarrow> multi_contains_elem tx a v \<and> multi_contains_elem tx b v"
    using range_intersect_spec(2) [OF _ _ v, of _ _ tx] multi_of_ranges [OF a] multi_of_ranges [OF b]
    unfolding multi_contains_ex by blast
  finally show "multi_contains_elem tx (multi_intersect tx a b) v \<longleftrightarrow>
      multi_contains_elem tx a v \<and> multi_contains_elem tx b v"
    unfolding M using multi_of_normalize(2) [OF R v] by simp
qed

text \<open>Subtracting a list of ranges from a list of pieces.\<close>

lemma minus_pieces_spec:
  assumes "\<forall>r \<in> set bs. range_of e r" and "\<forall>r \<in> set ps. range_of e r"
  shows "(\<forall>r \<in> set (fold (\<lambda>br pieces. concat (map (\<lambda>p. range_minus_multi_inner tx p br) pieces)) bs ps).
      range_of e r) \<and> (bound_ok e v \<longrightarrow>
    ((\<exists>r \<in> set (fold (\<lambda>br pieces. concat (map (\<lambda>p. range_minus_multi_inner tx p br) pieces)) bs ps).
        range_contains_elem tx r v) \<longleftrightarrow>
     (\<exists>r \<in> set ps. range_contains_elem tx r v) \<and> \<not> (\<exists>r \<in> set bs. range_contains_elem tx r v)))"
  using assms
proof (induction bs arbitrary: ps)
  case (Cons b bs)
  define qs where "qs = concat (map (\<lambda>p. range_minus_multi_inner tx p b) ps)"
  have b: "range_of e b" using Cons.prems by simp
  note step = range_minus_multi_inner_spec [OF _ b, where tx = tx and v = v]
  have "\<forall>r \<in> set qs. range_of e r" using step Cons.prems(2) by (fastforce simp: qs_def)
  moreover have "bound_ok e v \<longrightarrow> ((\<exists>r \<in> set qs. range_contains_elem tx r v) \<longleftrightarrow>
      (\<exists>r \<in> set ps. range_contains_elem tx r v) \<and> \<not> range_contains_elem tx b v)"
    using step Cons.prems(2) by (fastforce simp: qs_def)
  ultimately show ?case using Cons.IH [of qs] Cons.prems(1) by (auto simp: qs_def [symmetric])
qed simp

lemma multi_minus_spec:
  assumes a: "multi_of tx e a" and b: "multi_of tx e b"
  shows "multi_of tx e (multi_minus tx a b)"
    and "bound_ok e v \<Longrightarrow> multi_contains_elem tx (multi_minus tx a b) v \<longleftrightarrow>
      multi_contains_elem tx a v \<and> \<not> multi_contains_elem tx b v"
proof -
  define rs where "rs = fold (\<lambda>br pieces. concat (map (\<lambda>p. range_minus_multi_inner tx p br) pieces))
    (mv_ranges b) (mv_ranges a)"
  note P = minus_pieces_spec [OF multi_of_ranges [OF b] multi_of_ranges [OF a], of tx v, folded rs_def]
  have M: "multi_minus tx a b = normalize_multi tx e (mv_name a) rs"
    using a by (simp add: multi_minus_def rs_def multi_of_def)
  from P have R: "\<forall>r \<in> set rs. range_of e r" by blast
  show "multi_of tx e (multi_minus tx a b)" unfolding M by (rule multi_of_normalize(1) [OF R])
  assume "bound_ok e v"
  with P show "multi_contains_elem tx (multi_minus tx a b) v \<longleftrightarrow>
      multi_contains_elem tx a v \<and> \<not> multi_contains_elem tx b v"
    unfolding M multi_of_normalize(2) [OF R \<open>bound_ok e v\<close>]
    by (simp add: multi_contains_ex)
qed

section \<open>Position\<close>

lemma before_cuts:
  assumes "opt_ok e (rv_hi a)" and "opt_ok e (rv_lo b)"
  shows "cmp_bounds tx (hi_bnd a) (lo_bnd b) = Less \<longleftrightarrow> \<not> cuts_meet (lo_of b) (hi_of a)"
  using assms bound_cmp_ranks [of e _ _ tx]
  by (auto simp: cmp_bounds_def hi_bnd_def lo_bnd_def opt_ok_def cuts_meet_def split: option.splits ordering.splits)

lemma not_meet_less:
  assumes "\<not> cuts_meet (lo_cut l i) (hi_cut u j)" and "below (hi_cut u j) v" and "above (lo_cut l i) w"
  shows "bound_ranks v < bound_ranks w"
  using assms
  by (cases l; cases u) (auto simp: cuts_meet_def above_def below_def less_eq_prod_def split: if_splits)

text \<open>The last component of a multirange reaches highest, the first one lowest.\<close>

lemma gap_hi_less:
  assumes "range_of e x" and "range_of e y" and "\<not> rv_empty x" and "\<not> rv_empty y" and "gap_between tx x y"
  shows "hi_of x \<le> hi_of y \<and> lo_of x \<le> lo_of y"
proof -
  note X = range_ofD [OF assms(1,3)] and Y = range_ofD [OF assms(2,4)]
  show ?thesis
    using gap_between_cut [OF X(2) Y(1), of tx] assms(5) X(7) Y(7)
    by (cases "rv_lo x"; cases "rv_hi y")
      (auto simp: cuts_meet_def less_eq_prod_def split: if_splits)
qed

lemma components_last:
  assumes "components_of tx e rs" and "x \<in> set rs"
  shows "hi_of x \<le> hi_of (last rs)"
proof (cases "x = last rs")
  case False
  then have ne: "rs \<noteq> []" using assms(2) by auto
  then have "x \<in> set (butlast rs)" using assms(2) False by (metis append_butlast_last_id in_set_butlastD
        rotate1.simps(2) set_ConsD set_rotate1)
  then have "gap_between tx x (last rs)"
    using assms(1) ne by (metis append_butlast_last_id components_of_def last_in_set list.set_intros(1)
        sorted_wrt_append)
  with assms ne show ?thesis
    by (intro gap_hi_less [THEN conjunct1, of e]) (auto simp: components_of_def)
qed simp

lemma components_first:
  assumes "components_of tx e rs" and "x \<in> set rs"
  shows "lo_of (hd rs) \<le> lo_of x"
proof (cases rs)
  case (Cons r rs')
  then show ?thesis
    using assms gap_hi_less [of e r x tx] by (auto simp: components_of_def)
qed (use assms in simp)

lemma before_separates:
  assumes a: "components_of tx e (components a)" and b: "components_of tx e (components b)"
    and p: "position_pred tx ''before'' a b"
    and x: "x \<in> set (components a)" "range_contains_elem tx x v" "bound_ok e v"
    and y: "y \<in> set (components b)" "range_contains_elem tx y w" "bound_ok e w"
  shows "bound_cmp tx v w = Less"
proof -
  let ?l = "last (components a)" and ?f = "hd (components b)"
  have ne: "components a \<noteq> []" "components b \<noteq> []" using x y by auto
  then have L: "range_of e ?l" "\<not> rv_empty ?l" and F: "range_of e ?f" "\<not> rv_empty ?f"
    using a b by (auto simp: components_of_def)
  have X: "range_of e x" and Y: "range_of e y" using a b x y by (auto simp: components_of_def)
  have "cmp_bounds tx (hi_bnd ?l) (lo_bnd ?f) = Less"
    using p ne by (simp add: position_pred_def Let_def)
  then have nm: "\<not> cuts_meet (lo_of ?f) (hi_of ?l)"
    using before_cuts [OF range_ofD(2) [OF L] range_ofD(1) [OF F]] by simp
  have "below (hi_of ?l) v"
    using range_of_contains [OF X x(3)] x(2) components_last [OF a x(1)] by (auto simp: below_def)
  moreover have "above (lo_of ?f) w"
    using range_of_contains [OF Y y(3)] y(2) components_first [OF b y(1)] by (auto simp: above_def)
  ultimately have "bound_ranks v < bound_ranks w" by (rule not_meet_less [OF nm])
  then show ?thesis using bound_cmp_ranks [OF x(3) y(3)] by simp
qed


section \<open>Properties\<close>


abbreviation int_range :: "int \<Rightarrow> int \<Rightarrow> range_val" where
  "int_range a b \<equiv>
     RangeVal ReInt4 None False (Some (VInt (word_of_int a))) True (Some (VInt (word_of_int b))) False"


text \<open>
  C24. On valid ranges of one element type, intersection, difference and union are the set
  operations: the result is a valid range that contains a value exactly when the operation
  on the two memberships says so; ranges that do not overlap share no value, and a range
  contained in another has all its values there.
\<close>

theorem range_set_operations:
  assumes "range_of e a" and "range_of e b" and "bound_ok e v"
  shows "range_of e (range_intersect tx a b) \<and>
    (range_contains_elem tx (range_intersect tx a b) v \<longleftrightarrow>
      range_contains_elem tx a v \<and> range_contains_elem tx b v) \<and>
    (\<forall>r. range_minus tx a b = Inr r \<longrightarrow> range_of e r \<and>
      (range_contains_elem tx r v \<longleftrightarrow> range_contains_elem tx a v \<and> \<not> range_contains_elem tx b v)) \<and>
    (\<forall>r. range_union tx a b = Inr r \<longrightarrow> range_of e r \<and>
      (range_contains_elem tx r v \<longleftrightarrow> range_contains_elem tx a v \<or> range_contains_elem tx b v)) \<and>
    (\<not> range_overlaps tx a b \<longrightarrow> \<not> (range_contains_elem tx a v \<and> range_contains_elem tx b v)) \<and>
    (range_contains_range tx a b \<and> range_contains_elem tx b v \<longrightarrow> range_contains_elem tx a v)"
  using range_intersect_spec [OF assms(1,2), where tx = tx] range_minus_spec [OF assms(1,2)]
    range_union_spec [OF assms(1,2)] range_overlaps_disjoint [OF assms(1,2)]
    range_contains_range_spec [OF assms(1,2)] assms(3)
  by blast

lemma int_range_of:
  "- 2147483648 \<le> a \<Longrightarrow> a < b \<Longrightarrow> b \<le> 2147483647 \<Longrightarrow> range_of ReInt4 (int_range a b)"
proof -
  assume a: "- 2147483648 \<le> a" "a < b" "b \<le> 2147483647"
  have s: "sint (word_of_int x :: i64) = x" if "- 2147483648 \<le> x" "x \<le> 2147483647" for x
    using that by (simp add: sint_sbintrunc' signed_take_bit_int_eq_self)
  show ?thesis
    using a by (simp add: range_of_def wf_range_def opt_ok_def bound_ok_def not_finite_def cuts_meet_def s)
qed

lemma range_set_operations_witness:
  "range_union (\<lambda>v. []) (int_range 1 5) (int_range 5 9) = Inr (int_range 1 9) \<and>
   range_contains_elem (\<lambda>v. []) (int_range 1 9) (VInt 7)"
proof -
  have u: "range_union (\<lambda>v. []) (int_range 1 5) (int_range 5 9) = Inr (int_range 1 9)"
    by (simp add: range_union_def lo_cmp_def hi_cmp_def gap_between_def make_range_def canonical_bound_def)
  have "bound_ok ReInt4 (VInt 7)" by (simp add: bound_ok_def)
  moreover have "range_contains_elem (\<lambda>v. []) (int_range 5 9) (VInt 7)" by (simp add: range_contains_elem_def)
  ultimately show ?thesis
    using range_set_operations [OF int_range_of int_range_of, of 1 5 5 9 "VInt 7" "\<lambda>v. []"] u by simp
qed

text \<open>
  C25. Union, intersection and difference of multiranges are the set operations, and their
  results are in normal form: valid components that are not empty, in order and separated
  by gaps.
\<close>

theorem multirange_set_operations:
  assumes "multi_of tx e a" and "multi_of tx e b" and "bound_ok e v"
  shows "multi_of tx e (multi_union tx a b) \<and> multi_of tx e (multi_intersect tx a b) \<and>
    multi_of tx e (multi_minus tx a b) \<and>
    (multi_contains_elem tx (multi_union tx a b) v \<longleftrightarrow>
      multi_contains_elem tx a v \<or> multi_contains_elem tx b v) \<and>
    (multi_contains_elem tx (multi_intersect tx a b) v \<longleftrightarrow>
      multi_contains_elem tx a v \<and> multi_contains_elem tx b v) \<and>
    (multi_contains_elem tx (multi_minus tx a b) v \<longleftrightarrow>
      multi_contains_elem tx a v \<and> \<not> multi_contains_elem tx b v)"
  using multi_union_spec [OF assms(1,2)] multi_intersect_spec [OF assms(1,2)]
    multi_minus_spec [OF assms(1,2)] assms(3)
  by simp

lemma multirange_set_operations_witness:
  "multi_contains_elem (\<lambda>v. []) (multi_minus (\<lambda>v. []) \<lparr>mv_elem = ReInt4, mv_name = None, mv_ranges = [int_range 1 9]\<rparr>
       \<lparr>mv_elem = ReInt4, mv_name = None, mv_ranges = [int_range 3 5]\<rparr>) (VInt 5) \<and>
   \<not> multi_contains_elem (\<lambda>v. []) (multi_minus (\<lambda>v. []) \<lparr>mv_elem = ReInt4, mv_name = None, mv_ranges = [int_range 1 9]\<rparr>
       \<lparr>mv_elem = ReInt4, mv_name = None, mv_ranges = [int_range 3 5]\<rparr>) (VInt 4)"
proof -
  let ?a = "\<lparr>mv_elem = ReInt4, mv_name = None, mv_ranges = [int_range 1 9]\<rparr>"
  let ?b = "\<lparr>mv_elem = ReInt4, mv_name = None, mv_ranges = [int_range 3 5]\<rparr>"
  have m: "multi_of (\<lambda>v. []) ReInt4 ?a" "multi_of (\<lambda>v. []) ReInt4 ?b"
    using int_range_of [of 1 9] int_range_of [of 3 5] by (simp_all add: multi_of_def components_of_def)
  have ok: "bound_ok ReInt4 (VInt 5)" "bound_ok ReInt4 (VInt 4)" by (simp_all add: bound_ok_def)
  have "multi_contains_elem (\<lambda>v. []) ?a (VInt 5)" "\<not> multi_contains_elem (\<lambda>v. []) ?b (VInt 5)"
    "multi_contains_elem (\<lambda>v. []) ?b (VInt 4)"
    by (simp_all add: multi_contains_elem_def range_contains_elem_def)
  with multirange_set_operations [OF m ok(1)] multirange_set_operations [OF m ok(2)] show ?thesis by simp
qed

text \<open>
  When a range or multirange is strictly before another, every value of the first
  compares less than every value of the second.
\<close>

theorem before_is_strict:
  assumes "components_of tx e (components a)" and "components_of tx e (components b)"
    and "position_pred tx ''before'' a b"
    and "x \<in> set (components a)" and "range_contains_elem tx x v" and "bound_ok e v"
    and "y \<in> set (components b)" and "range_contains_elem tx y w" and "bound_ok e w"
  shows "bound_cmp tx v w = Less"
  using assms by (rule before_separates)

lemma before_is_strict_witness:
  "position_pred (\<lambda>v. []) ''before'' (OpR (int_range 1 3)) (OpR (int_range 3 5)) \<and>
   bound_cmp (\<lambda>v. []) (VInt 2) (VInt 3) = Less"
proof -
  have p: "position_pred (\<lambda>v. []) ''before'' (OpR (int_range 1 3)) (OpR (int_range 3 5))"
    by (simp add: position_pred_def cmp_bounds_def hi_bnd_def lo_bnd_def)
  have "components_of (\<lambda>v. []) ReInt4 (components (OpR (int_range 1 3)))"
    "components_of (\<lambda>v. []) ReInt4 (components (OpR (int_range 3 5)))"
    using int_range_of [of 1 3] int_range_of [of 3 5] by (simp_all add: components_of_def)
  from before_is_strict [OF this p, of "int_range 1 3" "VInt 2" "int_range 3 5" "VInt 3"] p show ?thesis
    by (simp add: range_contains_elem_def bound_ok_def)
qed

text \<open>
  The date range whose two bounds are both \<^verbatim>\<open>infinity\<close>, inclusive on either side, is
  built as the empty range, though \<^verbatim>\<open>infinity\<close> lies between its bounds.
\<close>

theorem infinite_point_range_empty:
  "make_range tx ReDate None (Some (VDate 0x7FFFFFFF)) True (Some (VDate 0x7FFFFFFF)) True =
     Inr (empty_range ReDate None) \<and>
   bound_cmp tx (VDate 0x7FFFFFFF) (VDate 0x7FFFFFFF) = Equal"
  by (simp add: make_range_def canonical_bound_def not_finite_def DATE_INFINITY_def)

end
