(* ===== verification/Index.thy ===== *)
theory Index
  imports Ranges
begin

text \<open>
  \<^verbatim>\<open>index.rs\<close>: B-tree secondary indexes. The comparison of index keys, the key order, and
  the map from keys to row-version ids with insertion and removal. A \<^verbatim>\<open>BTreeMap\<close> is its
  entries in key order. The parts of the comparison that live in modules not modelled are
  the fields of \<open>key_env\<close>: the text form of a value, the jsonb comparison (\<^verbatim>\<open>None\<close> when a
  text does not parse) and the float nearest to a numeric. The lemmas embed the values one
  indexed column may hold into a linear order, so that the index satisfies the interface
  of a sorted map.
\<close>

section \<open>Comparison of key values\<close>

record key_env =
  env_text :: "sql_value \<Rightarrow> string"
  env_jsonb_cmp :: "string \<Rightarrow> string \<Rightarrow> ordering option"
  env_numeric_f64 :: "numeric \<Rightarrow> u64"

definition is_null :: "sql_value \<Rightarrow> bool" where
  "is_null v = (case v of VNull \<Rightarrow> True | _ \<Rightarrow> False)"

definition is_exact_numeric :: "sql_value \<Rightarrow> bool" where
  "is_exact_numeric v =
     (case v of VSmallInt _ \<Rightarrow> True | VInt _ \<Rightarrow> True | VBigInt _ \<Rightarrow> True | VNumeric _ \<Rightarrow> True
      | _ \<Rightarrow> False)"

definition is_float :: "sql_value \<Rightarrow> bool" where
  "is_float v = (case v of VFloat4 _ \<Rightarrow> True | VFloat _ \<Rightarrow> True | _ \<Rightarrow> False)"

definition exact_as_i64 :: "sql_value \<Rightarrow> int option" where
  "exact_as_i64 v =
     (case v of VSmallInt i \<Rightarrow> Some (sint i) | VInt i \<Rightarrow> Some (sint i) | VBigInt i \<Rightarrow> Some (sint i)
      | _ \<Rightarrow> None)"

text \<open>The \<^verbatim>\<open>unreachable!\<close> arms are the last cases.\<close>

definition exact_numeric :: "sql_value \<Rightarrow> numeric" where
  "exact_numeric v =
     (case v of VSmallInt i \<Rightarrow> numeric_new (sint i) 0 | VInt i \<Rightarrow> numeric_new (sint i) 0
      | VBigInt i \<Rightarrow> numeric_new (sint i) 0 | VNumeric n \<Rightarrow> n | _ \<Rightarrow> numeric_zero)"

definition exact_to_f64 :: "key_env \<Rightarrow> sql_value \<Rightarrow> u64" where
  "exact_to_f64 env v =
     (case v of VSmallInt i \<Rightarrow> i64_to_f64 (scast i) | VInt i \<Rightarrow> i64_to_f64 i
      | VBigInt i \<Rightarrow> i64_to_f64 i | VNumeric n \<Rightarrow> env_numeric_f64 env n | _ \<Rightarrow> 0)"

definition float_val :: "sql_value \<Rightarrow> u64" where
  "float_val v = (case v of VFloat4 f \<Rightarrow> f32_to_f64 f | VFloat f \<Rightarrow> f | _ \<Rightarrow> 0)"

fun type_tag :: "sql_value \<Rightarrow> nat" where
  "type_tag VNull = 0"
| "type_tag (VSmallInt _) = 1"
| "type_tag (VInt _) = 2"
| "type_tag (VBigInt _) = 3"
| "type_tag (VFloat4 _) = 4"
| "type_tag (VFloat _) = 5"
| "type_tag (VNumeric _) = 6"
| "type_tag (VText _) = 7"
| "type_tag (VBpChar _) = 7"
| "type_tag (VBool _) = 8"
| "type_tag (VDate _) = 9"
| "type_tag (VTimestamp _) = 10"
| "type_tag (VTimestamptz _) = 11"
| "type_tag (VBytea _) = 12"
| "type_tag (VUuid _) = 13"
| "type_tag (VSingleChar _) = 14"
| "type_tag (VPgLsn _) = 15"
| "type_tag (VRecord _) = 16"
| "type_tag (VArray _ _ _ _) = 17"
| "type_tag (VBitString _) = 18"
| "type_tag (VTid _ _) = 19"
| "type_tag (VJsonb _) = 20"
| "type_tag (VJsonpath _) = 21"
| "type_tag (VTime _) = 22"
| "type_tag (VTimeTz _ _) = 23"
| "type_tag (VInterval _) = 24"
| "type_tag (VRange _) = 25"
| "type_tag (VMultirange _ _ _) = 26"
| "type_tag (VTsVector _) = 27"
| "type_tag (VTsQuery _) = 28"

definition index_key_cmp :: "key_env \<Rightarrow> sql_value \<Rightarrow> sql_value \<Rightarrow> ordering" where
  "index_key_cmp env a b =
     (if is_null a then (if is_null b then Equal else Greater)
      else if is_null b then Less
      else if is_exact_numeric a \<and> is_exact_numeric b
      then (case (exact_as_i64 a, exact_as_i64 b) of
              (Some x, Some y) \<Rightarrow> ord_cmp x y
            | _ \<Rightarrow> numeric_cmp (exact_numeric a) (exact_numeric b))
      else if is_float a \<and> is_float b then total_cmp (float_val a) (float_val b)
      else if is_exact_numeric a \<and> is_float b then total_cmp (exact_to_f64 env a) (float_val b)
      else if is_float a \<and> is_exact_numeric b then total_cmp (float_val a) (exact_to_f64 env b)
      else (case (a, b) of
              (VText x, VText y) \<Rightarrow> ord_cmp x y
            | (VBpChar x, VBpChar y) \<Rightarrow> ord_cmp (rtrim_spaces x) (rtrim_spaces y)
            | (VBpChar x, VText y) \<Rightarrow> ord_cmp (rtrim_spaces x) (rtrim_spaces y)
            | (VText x, VBpChar y) \<Rightarrow> ord_cmp (rtrim_spaces x) (rtrim_spaces y)
            | (VBool x, VBool y) \<Rightarrow> ord_cmp x y
            | (VDate x, VDate y) \<Rightarrow> ord_cmp (sint x) (sint y)
            | (VTimestamp x, VTimestamp y) \<Rightarrow> ord_cmp (sint x) (sint y)
            | (VTimestamptz x, VTimestamptz y) \<Rightarrow> ord_cmp (sint x) (sint y)
            | (VBytea x, VBytea y) \<Rightarrow> ord_cmp x y
            | (VUuid x, VUuid y) \<Rightarrow> ord_cmp x y
            | (VSingleChar x, VSingleChar y) \<Rightarrow> ord_cmp x y
            | (VJsonb x, VJsonb y) \<Rightarrow>
                (case env_jsonb_cmp env x y of Some r \<Rightarrow> r | None \<Rightarrow> ord_cmp x y)
            | (VRange x, VRange y) \<Rightarrow> range_cmp (env_text env) x y
            | (VMultirange _ _ x, VMultirange _ _ y) \<Rightarrow> multirange_cmp (env_text env) x y
            | _ \<Rightarrow> ord_cmp (type_tag a) (type_tag b)))"

section \<open>Composite keys\<close>

text \<open>\<^verbatim>\<open>IndexKey::cmp\<close>: the fast path of one column, and the lexicographic general case.\<close>

definition index_key_ord :: "key_env \<Rightarrow> row \<Rightarrow> row \<Rightarrow> ordering" where
  "index_key_ord env as bs =
     (case (as, bs) of
        ([a], [b]) \<Rightarrow> index_key_cmp env a b
      | _ \<Rightarrow>
          (case find (\<lambda>r. r \<noteq> Equal) (map (\<lambda>(a, b). index_key_cmp env a b) (zip as bs)) of
             Some r \<Rightarrow> r
           | None \<Rightarrow> ord_cmp (length as) (length bs)))"

section \<open>The ordered map\<close>

type_synonym 'k btree = "('k \<times> nat list) list"

text \<open>\<^verbatim>\<open>entry(key).or_default().push(id)\<close>: an equal key keeps the key that is there.\<close>

fun bt_push :: "('k \<Rightarrow> 'k \<Rightarrow> ordering) \<Rightarrow> 'k \<Rightarrow> nat \<Rightarrow> 'k btree \<Rightarrow> 'k btree" where
  "bt_push c k i [] = [(k, [i])]"
| "bt_push c k i ((k', ids) # t) =
     (case c k k' of
        Less \<Rightarrow> (k, [i]) # (k', ids) # t
      | Equal \<Rightarrow> (k', ids @ [i]) # t
      | Greater \<Rightarrow> (k', ids) # bt_push c k i t)"

fun bt_get :: "('k \<Rightarrow> 'k \<Rightarrow> ordering) \<Rightarrow> 'k \<Rightarrow> 'k btree \<Rightarrow> nat list option" where
  "bt_get c k [] = None"
| "bt_get c k ((k', ids) # t) =
     (case c k k' of Less \<Rightarrow> None | Equal \<Rightarrow> Some ids | Greater \<Rightarrow> bt_get c k t)"

fun position_of :: "nat \<Rightarrow> nat list \<Rightarrow> nat option" where
  "position_of i [] = None"
| "position_of i (x # xs) =
     (if x = i then Some 0 else (case position_of i xs of Some p \<Rightarrow> Some (Suc p) | None \<Rightarrow> None))"

definition remove_id :: "nat \<Rightarrow> nat list \<Rightarrow> nat list" where
  "remove_id i ids =
     (case position_of i ids of Some p \<Rightarrow> swap_remove p ids | None \<Rightarrow> ids)"

fun bt_remove :: "('k \<Rightarrow> 'k \<Rightarrow> ordering) \<Rightarrow> 'k \<Rightarrow> nat \<Rightarrow> 'k btree \<Rightarrow> 'k btree" where
  "bt_remove c k i [] = []"
| "bt_remove c k i ((k', ids) # t) =
     (case c k k' of
        Less \<Rightarrow> (k', ids) # t
      | Equal \<Rightarrow> (let ids' = remove_id i ids in if ids' = [] then t else (k', ids') # t)
      | Greater \<Rightarrow> (k', ids) # bt_remove c k i t)"

section \<open>Indexes\<close>

record index_def =
  ix_name :: string
  ix_table :: string
  ix_cols :: "nat list"
  ix_col_names :: "string list"
  ix_unique :: bool
  ix_internal :: bool
  ix_created_xmin :: nat
  ix_dropped_xmax :: nat
  ix_desc :: "bool list"
  ix_nulls_first :: "bool list"
  ix_exprs :: "string option list"
  ix_collates :: "string option list"
  ix_opclasses :: "string option list"
  ix_predicate :: "string option"
  ix_planner_usable :: bool
  ix_nulls_not_distinct :: bool

record index =
  ix_def :: index_def
  ix_tree :: "row btree"

definition index_new :: "index_def \<Rightarrow> index" where
  "index_new d = \<lparr>ix_def = d, ix_tree = []\<rparr>"

text \<open>\<^verbatim>\<open>IndexDef::plain\<close>: an ascending index over plain columns, created by \<open>xid\<close>.\<close>

definition index_plain :: "string \<Rightarrow> string \<Rightarrow> nat list \<Rightarrow> string list \<Rightarrow> bool \<Rightarrow> bool \<Rightarrow> nat \<Rightarrow> index_def" where
  "index_plain name table cols col_names unique internal created_xmin =
     (let n = length cols in
      \<lparr>ix_name = name, ix_table = table, ix_cols = cols, ix_col_names = col_names, ix_unique = unique,
       ix_internal = internal, ix_created_xmin = created_xmin, ix_dropped_xmax = 0,
       ix_desc = replicate n False, ix_nulls_first = replicate n False, ix_exprs = replicate n None,
       ix_collates = replicate n None, ix_opclasses = replicate n None, ix_predicate = None,
       ix_planner_usable = True, ix_nulls_not_distinct = False\<rparr>)"

text \<open>The key of a row; \<^verbatim>\<open>None\<close> is the panic of a column position past the end of the row.\<close>

definition cols_key :: "nat list \<Rightarrow> row \<Rightarrow> row option" where
  "cols_key cols values =
     (if list_all (\<lambda>c. c < length values) cols then Some (map (\<lambda>c. values ! c) cols) else None)"

definition index_key_for :: "index \<Rightarrow> row \<Rightarrow> row option" where
  "index_key_for ix values = cols_key (ix_cols (ix_def ix)) values"

definition index_insert :: "key_env \<Rightarrow> index \<Rightarrow> row \<Rightarrow> nat \<Rightarrow> index" where
  "index_insert env ix key i = ix\<lparr>ix_tree := bt_push (index_key_ord env) key i (ix_tree ix)\<rparr>"

definition index_remove :: "key_env \<Rightarrow> index \<Rightarrow> row \<Rightarrow> nat \<Rightarrow> index" where
  "index_remove env ix key i = ix\<lparr>ix_tree := bt_remove (index_key_ord env) key i (ix_tree ix)\<rparr>"

section \<open>The values of an indexed column\<close>

datatype key_kind =
    KExact | KFloat | KText | KBpChar | KBool | KDate | KTimestamp | KTimestamptz | KBytea | KUuid
  | KChar | KRange range_elem | KMultirange range_elem

definition key_ok :: "key_kind \<Rightarrow> sql_value \<Rightarrow> bool" where
  "key_ok k v =
     (case v of
        VNull \<Rightarrow> True
      | VSmallInt _ \<Rightarrow> k = KExact
      | VInt _ \<Rightarrow> k = KExact
      | VBigInt _ \<Rightarrow> k = KExact
      | VNumeric n \<Rightarrow> k = KExact \<and> small_numeric n
      | VFloat4 _ \<Rightarrow> k = KFloat
      | VFloat _ \<Rightarrow> k = KFloat
      | VText _ \<Rightarrow> k = KText
      | VBpChar _ \<Rightarrow> k = KBpChar
      | VBool _ \<Rightarrow> k = KBool
      | VDate _ \<Rightarrow> k = KDate
      | VTimestamp _ \<Rightarrow> k = KTimestamp
      | VTimestamptz _ \<Rightarrow> k = KTimestamptz
      | VBytea _ \<Rightarrow> k = KBytea
      | VUuid _ \<Rightarrow> k = KUuid
      | VSingleChar _ \<Rightarrow> k = KChar
      | VRange r \<Rightarrow> k = KRange (rv_elem r) \<and> wf_range r
      | VMultirange e _ rs \<Rightarrow>
          k = KMultirange e \<and> list_all (\<lambda>r. range_of e r \<and> \<not> rv_empty r) rs
      | _ \<Rightarrow> False)"

text \<open>Nulls rank above every value; a range ranks by its two cuts, an empty one lowest.\<close>

definition range_ranks :: "range_val \<Rightarrow> cut list" where
  "range_ranks r = (if rv_empty r then [] else [lo_of r, hi_of r])"

definition key_ranks :: "sql_value \<Rightarrow> cut list" where
  "key_ranks v =
     (case v of
        VNull \<Rightarrow> [(2, [], 0)]
      | VSmallInt x \<Rightarrow> [(0, [1, of_int (sint x)], 0)]
      | VInt x \<Rightarrow> [(0, [1, of_int (sint x)], 0)]
      | VBigInt x \<Rightarrow> [(0, [1, of_int (sint x)], 0)]
      | VNumeric n \<Rightarrow> [(0, numeric_ranks n, 0)]
      | VFloat4 f \<Rightarrow> [(0, [of_int (total_key (f32_to_f64 f))], 0)]
      | VFloat f \<Rightarrow> [(0, [of_int (total_key f)], 0)]
      | VText s \<Rightarrow> [(0, text_ranks s, 0)]
      | VBpChar s \<Rightarrow> [(0, text_ranks (rtrim_spaces s), 0)]
      | VBool b \<Rightarrow> [(0, [of_bool b], 0)]
      | VDate d \<Rightarrow> [(0, [of_int (sint d)], 0)]
      | VTimestamp x \<Rightarrow> [(0, [of_int (sint x)], 0)]
      | VTimestamptz x \<Rightarrow> [(0, [of_int (sint x)], 0)]
      | VBytea b \<Rightarrow> [(0, byte_ranks b, 0)]
      | VUuid b \<Rightarrow> [(0, byte_ranks b, 0)]
      | VSingleChar c \<Rightarrow> [(0, [of_int (uint c)], 0)]
      | VRange r \<Rightarrow> range_ranks r
      | VMultirange _ _ rs \<Rightarrow> concat (map range_ranks rs)
      | _ \<Rightarrow> [])"

lemma ord_cmp_scalar [simp]: "ord_cmp [(0 :: nat, x, 0 :: nat)] [(0, y, 0)] = ord_cmp x y"
  for x y :: "rat list"
  by (auto simp: ord_cmp_def)

lemma ord_cmp_mid [simp]: "ord_cmp (0 :: nat, x, 0 :: nat) (0, y, 0) = ord_cmp x y"
  for x y :: "rat list"
  by (auto simp: ord_cmp_def)

lemma ord_cmp_bool [simp]: "ord_cmp (of_bool x :: rat) (of_bool y) = ord_cmp x y"
  by (auto simp: ord_cmp_def)

lemma ord_cmp_uint: "ord_cmp (uint x) (uint y) = ord_cmp x y"
  for x y :: "'a::len word"
  by (simp add: ord_cmp_def word_less_def word_uint_eq_iff)

lemma numeric_new_ranks:
  "small_numeric (numeric_new (sint x) 0) \<and> numeric_ranks (numeric_new (sint x) 0) = [1, of_int (sint x)]"
  for x :: i64
proof -
  have "- (2 ^ 127) \<le> sint x" "sint x < 2 ^ 127" using sint_ge [of x] sint_lt [of x] by simp_all
  then show ?thesis
    by (simp add: small_numeric_def numeric_new_val numeric_ranks_def)
      (simp add: numeric_new_def Let_def dec_def split: prod.split)
qed

lemma numeric_new_ranks16:
  "small_numeric (numeric_new (sint x) 0) \<and> numeric_ranks (numeric_new (sint x) 0) = [1, of_int (sint x)]"
  for x :: i16
proof -
  have "- (2 ^ 127) \<le> sint x" "sint x < 2 ^ 127" using sint_ge [of x] sint_lt [of x] by simp_all
  then show ?thesis
    by (simp add: small_numeric_def numeric_new_val numeric_ranks_def)
      (simp add: numeric_new_def Let_def dec_def split: prod.split)
qed

lemma numeric_new_ranks32:
  "small_numeric (numeric_new (sint x) 0) \<and> numeric_ranks (numeric_new (sint x) 0) = [1, of_int (sint x)]"
  for x :: i32
proof -
  have "- (2 ^ 127) \<le> sint x" "sint x < 2 ^ 127" using sint_ge [of x] sint_lt [of x] by simp_all
  then show ?thesis
    by (simp add: small_numeric_def numeric_new_val numeric_ranks_def)
      (simp add: numeric_new_def Let_def dec_def split: prod.split)
qed

lemma range_cmp_ranks:
  assumes "range_of e a" and "range_of e b"
  shows "range_cmp tx a b = ord_cmp (range_ranks a) (range_ranks b)"
proof (cases "rv_empty a \<or> rv_empty b")
  case True
  then show ?thesis by (auto simp: range_cmp_def range_ranks_def)
next
  case False
  with lo_of_pick [OF assms, of tx] show ?thesis
    by (simp add: range_cmp_def range_ranks_def ord_cmp_Cons) (cases "ord_cmp (lo_of a) (lo_of b)"; simp)
qed

lemma ord_cmp_one_int: "ord_cmp [1 :: rat, of_int x] [1, of_int y] = ord_cmp x y"
  by (auto simp: ord_cmp_def)

lemma ord_cmp_Suc [simp]: "ord_cmp (Suc m) (Suc n) = ord_cmp m n"
  by (simp add: ord_cmp_def)

lemma multirange_cmp_ranks:
  assumes "\<forall>r \<in> set as. range_of e r \<and> \<not> rv_empty r" and "\<forall>r \<in> set bs. range_of e r \<and> \<not> rv_empty r"
  shows "multirange_cmp tx as bs = ord_cmp (concat (map range_ranks as)) (concat (map range_ranks bs))"
  using assms
proof (induction tx as bs rule: ranges_cmp.induct [case_names Both Left Right])
  case (Both tx x xs y ys)
  then have "range_cmp tx x y = ord_cmp (range_ranks x) (range_ranks y)"
    by (intro range_cmp_ranks) auto
  with Both show ?case
    by (cases "ord_cmp (lo_of x) (lo_of y)"; cases "ord_cmp (hi_of x) (hi_of y)")
      (auto simp: multirange_cmp_def range_ranks_def ord_cmp_Cons split: option.splits)
next
  case (Left tx ys)
  then show ?case by (cases ys) (simp_all add: multirange_cmp_def range_ranks_def)
next
  case (Right tx xs)
  then show ?case by (cases xs) (simp_all add: multirange_cmp_def range_ranks_def)
qed

lemma key_ok_forms:
  "key_ok KExact v \<Longrightarrow> v = VNull \<or> (\<exists>x. v = VSmallInt x) \<or> (\<exists>x. v = VInt x) \<or> (\<exists>x. v = VBigInt x) \<or>
     (\<exists>n. v = VNumeric n \<and> small_numeric n)"
  "key_ok KFloat v \<Longrightarrow> v = VNull \<or> (\<exists>x. v = VFloat4 x) \<or> (\<exists>x. v = VFloat x)"
  "key_ok KText v \<Longrightarrow> v = VNull \<or> (\<exists>x. v = VText x)"
  "key_ok KBpChar v \<Longrightarrow> v = VNull \<or> (\<exists>x. v = VBpChar x)"
  "key_ok KBool v \<Longrightarrow> v = VNull \<or> (\<exists>x. v = VBool x)"
  "key_ok KDate v \<Longrightarrow> v = VNull \<or> (\<exists>x. v = VDate x)"
  "key_ok KTimestamp v \<Longrightarrow> v = VNull \<or> (\<exists>x. v = VTimestamp x)"
  "key_ok KTimestamptz v \<Longrightarrow> v = VNull \<or> (\<exists>x. v = VTimestamptz x)"
  "key_ok KBytea v \<Longrightarrow> v = VNull \<or> (\<exists>x. v = VBytea x)"
  "key_ok KUuid v \<Longrightarrow> v = VNull \<or> (\<exists>x. v = VUuid x)"
  "key_ok KChar v \<Longrightarrow> v = VNull \<or> (\<exists>x. v = VSingleChar x)"
  "key_ok (KRange e) v \<Longrightarrow> v = VNull \<or> (\<exists>r. v = VRange r \<and> rv_elem r = e \<and> wf_range r)"
  "key_ok (KMultirange e) v \<Longrightarrow> v = VNull \<or>
     (\<exists>m rs. v = VMultirange e m rs \<and> (\<forall>r \<in> set rs. range_of e r \<and> \<not> rv_empty r))"
  by (cases v; simp add: key_ok_def list_all_iff)+

lemmas key_cmp_defs = index_key_cmp_def is_null_def is_exact_numeric_def is_float_def

lemma key_ok_forms_VNull [simp]: "key_ok k VNull"
  by (simp add: key_ok_def)

lemma exact_key_ranks:
  assumes "key_ok KExact a" and "key_ok KExact b" and "a \<noteq> VNull" and "b \<noteq> VNull"
  shows "index_key_cmp env a b = ord_cmp (key_ranks a) (key_ranks b)"
proof -
  have n: "\<exists>n. exact_numeric v = n \<and> small_numeric n \<and> key_ranks v = [(0, numeric_ranks n, 0)]"
    if "key_ok KExact v" and "v \<noteq> VNull" for v
    using key_ok_forms(1) [OF that(1)] that(2) numeric_new_ranks numeric_new_ranks16
      numeric_new_ranks32
    by (auto simp: key_ranks_def exact_numeric_def)
  have i: "key_ranks v = [(0, [1, of_int x], 0)]" if "exact_as_i64 v = Some x" for v x
    using that by (cases v) (auto simp: exact_as_i64_def key_ranks_def)
  have e: "is_exact_numeric v \<and> \<not> is_null v" if "key_ok KExact v" and "v \<noteq> VNull" for v
    using that key_ok_forms(1) [OF that(1)] by (auto simp: is_exact_numeric_def is_null_def)
  have "index_key_cmp env a b =
     (case (exact_as_i64 a, exact_as_i64 b) of
        (Some x, Some y) \<Rightarrow> ord_cmp x y | _ \<Rightarrow> numeric_cmp (exact_numeric a) (exact_numeric b))"
    using e assms by (simp add: index_key_cmp_def)
  also have "\<dots> = ord_cmp (key_ranks a) (key_ranks b)"
    using n [OF assms(1,3)] n [OF assms(2,4)] i [of a] i [of b]
    by (cases "exact_as_i64 a"; cases "exact_as_i64 b") (auto simp: numeric_cmp_ranks simp flip: ord_cmp_one_int)
  finally show ?thesis .
qed

lemma key_ranks_low: "key_ok k v \<Longrightarrow> v \<noteq> VNull \<Longrightarrow> key_ranks v = [] \<or> fst (hd (key_ranks v)) < 2"
proof -
  have lo: "fst (lo_cut b i) < 2" for b i by (cases b) simp_all
  have c: "concat (map range_ranks rs) = [] \<or> fst (hd (concat (map range_ranks rs))) < 2" for rs
    by (induction rs) (auto simp: range_ranks_def lo)
  assume "key_ok k v" and "v \<noteq> VNull"
  then show ?thesis
    using c by (cases v) (auto simp: key_ranks_def key_ok_def range_ranks_def lo)
qed

lemma null_key_ranks:
  assumes "key_ok k a" and "key_ok k b" and "a = VNull \<or> b = VNull"
  shows "index_key_cmp env a b = ord_cmp (key_ranks a) (key_ranks b)"
proof -
  have n: "is_null v \<longleftrightarrow> v = VNull" for v by (cases v) (simp_all add: is_null_def)
  have r: "key_ranks VNull = [(2, [], 0)]" by (simp add: key_ranks_def)
  have g: "ord_cmp (key_ranks VNull) (key_ranks v) = Greater" if "key_ok k v" and "v \<noteq> VNull" for v
    using key_ranks_low [OF that] by (cases "key_ranks v") (auto simp: r)
  show ?thesis
    using assms g [of a] g [of b] by (cases "a = VNull"; cases "b = VNull") (auto simp: index_key_cmp_def n)
qed

text \<open>One comparison per kind: the arm of the case that the two constructors select.\<close>

lemma index_key_cmp_eval [simp]:
  "index_key_cmp env (VFloat4 f) (VFloat4 g) = total_cmp (f32_to_f64 f) (f32_to_f64 g)"
  "index_key_cmp env (VFloat4 f) (VFloat h) = total_cmp (f32_to_f64 f) h"
  "index_key_cmp env (VFloat h) (VFloat4 f) = total_cmp h (f32_to_f64 f)"
  "index_key_cmp env (VFloat h) (VFloat i) = total_cmp h i"
  "index_key_cmp env (VText s) (VText t) = ord_cmp s t"
  "index_key_cmp env (VBpChar s) (VBpChar t) = ord_cmp (rtrim_spaces s) (rtrim_spaces t)"
  "index_key_cmp env (VBool p) (VBool q) = ord_cmp p q"
  "index_key_cmp env (VDate d) (VDate e) = ord_cmp (sint d) (sint e)"
  "index_key_cmp env (VTimestamp x) (VTimestamp y) = ord_cmp (sint x) (sint y)"
  "index_key_cmp env (VTimestamptz x) (VTimestamptz y) = ord_cmp (sint x) (sint y)"
  "index_key_cmp env (VBytea b) (VBytea c) = ord_cmp b c"
  "index_key_cmp env (VUuid b) (VUuid c) = ord_cmp b c"
  "index_key_cmp env (VSingleChar m) (VSingleChar n) = ord_cmp m n"
  "index_key_cmp env (VRange r) (VRange r') = range_cmp (env_text env) r r'"
  "index_key_cmp env (VMultirange u v rs) (VMultirange u' v' rs') = multirange_cmp (env_text env) rs rs'"
  by (simp_all add: key_cmp_defs exact_as_i64_def float_val_def)

lemma key_ranks_eval [simp]:
  "key_ranks (VFloat4 f) = [(0, [of_int (total_key (f32_to_f64 f))], 0)]"
  "key_ranks (VFloat h) = [(0, [of_int (total_key h)], 0)]"
  "key_ranks (VText s) = [(0, text_ranks s, 0)]"
  "key_ranks (VBpChar s) = [(0, text_ranks (rtrim_spaces s), 0)]"
  "key_ranks (VBool p) = [(0, [of_bool p], 0)]"
  "key_ranks (VDate d) = [(0, [of_int (sint d)], 0)]"
  "key_ranks (VTimestamp x) = [(0, [of_int (sint x)], 0)]"
  "key_ranks (VTimestamptz x) = [(0, [of_int (sint x)], 0)]"
  "key_ranks (VBytea b) = [(0, byte_ranks b, 0)]"
  "key_ranks (VUuid b) = [(0, byte_ranks b, 0)]"
  "key_ranks (VSingleChar m) = [(0, [of_int (uint m)], 0)]"
  "key_ranks (VRange r) = range_ranks r"
  "key_ranks (VMultirange u v rs) = concat (map range_ranks rs)"
  by (simp_all add: key_ranks_def)

theorem index_key_cmp_ranks:
  assumes "key_ok k a" and "key_ok k b"
  shows "index_key_cmp env a b = ord_cmp (key_ranks a) (key_ranks b)"
proof (cases "a = VNull \<or> b = VNull")
  case True
  with assms show ?thesis by (rule null_key_ranks)
next
  case False
  show ?thesis
  proof (cases k)
    case KExact
    with assms False show ?thesis by (auto intro: exact_key_ranks)
  next
    case (KRange e)
    with assms False show ?thesis
      using key_ok_forms(12) [of e a] key_ok_forms(12) [of e b]
      by (auto simp: range_of_def range_cmp_ranks [of e])
  next
    case (KMultirange e)
    with assms False show ?thesis
      using key_ok_forms(13) [of e a] key_ok_forms(13) [of e b]
      by (auto simp: multirange_cmp_ranks [of _ e])
  next
    case KFloat
    with assms False show ?thesis
      using key_ok_forms(2) [of a] key_ok_forms(2) [of b] by (auto simp: total_cmp_def ord_cmp_single)
  next
    case KText
    with assms False show ?thesis
      using key_ok_forms(3) [of a] key_ok_forms(3) [of b] by (auto)
  next
    case KBpChar
    with assms False show ?thesis
      using key_ok_forms(4) [of a] key_ok_forms(4) [of b] by (auto)
  next
    case KBool
    with assms False show ?thesis
      using key_ok_forms(5) [of a] key_ok_forms(5) [of b] by (auto)
  next
    case KDate
    with assms False show ?thesis
      using key_ok_forms(6) [of a] key_ok_forms(6) [of b] by (auto)
  next
    case KTimestamp
    with assms False show ?thesis
      using key_ok_forms(7) [of a] key_ok_forms(7) [of b] by (auto)
  next
    case KTimestamptz
    with assms False show ?thesis
      using key_ok_forms(8) [of a] key_ok_forms(8) [of b] by (auto)
  next
    case KBytea
    with assms False show ?thesis
      using key_ok_forms(9) [of a] key_ok_forms(9) [of b] by (auto)
  next
    case KUuid
    with assms False show ?thesis
      using key_ok_forms(10) [of a] key_ok_forms(10) [of b] by (auto)
  next
    case KChar
    with assms False show ?thesis
      using key_ok_forms(11) [of a] key_ok_forms(11) [of b] by (auto simp: ord_cmp_uint simp del: of_int_uint)
  qed
qed

interpretation keycol: key_order "index_key_cmp env" "key_ok k" for env k
  by (rule key_order_embed [where f = key_ranks]) (rule index_key_cmp_ranks)

section \<open>Composite keys are ordered lexicographically\<close>

lemma find_cons_zip:
  "(case find (\<lambda>r. r \<noteq> Equal) (map (\<lambda>(a, b). c a b) (zip as bs)) of
      Some r \<Rightarrow> r | None \<Rightarrow> ord_cmp (length as) (length bs)) = lex_cmp c as bs"
proof (induction c as bs rule: lex_cmp.induct)
  case (4 c x xs y ys)
  then show ?case by (cases "c x y") (auto split: option.splits)
qed simp_all

lemma index_key_ord_lex: "index_key_ord env = lex_cmp (index_key_cmp env)"
proof (intro ext)
  fix as bs
  show "index_key_ord env as bs = lex_cmp (index_key_cmp env) as bs"
  proof (cases "\<exists>a b. as = [a] \<and> bs = [b]")
    case True
    then show ?thesis by (auto simp: index_key_ord_def split: ordering.split)
  next
    case False
    then have "index_key_ord env as bs = (case find (\<lambda>r. r \<noteq> Equal)
        (map (\<lambda>(a, b). index_key_cmp env a b) (zip as bs)) of
        Some r \<Rightarrow> r | None \<Rightarrow> ord_cmp (length as) (length bs))"
      by (auto simp: index_key_ord_def split: list.split)
    then show ?thesis by (simp only: find_cons_zip)
  qed
qed

definition keys_ok :: "key_kind list \<Rightarrow> row \<Rightarrow> bool" where
  "keys_ok ks as \<longleftrightarrow> list_all2 key_ok ks as"

lemma lex_cmp_key_ranks:
  "list_all2 key_ok ks as \<Longrightarrow> list_all2 key_ok ks bs \<Longrightarrow>
     lex_cmp (index_key_cmp env) as bs = ord_cmp (map key_ranks as) (map key_ranks bs)"
proof (induction ks arbitrary: as bs)
  case (Cons k ks)
  then obtain a as' b bs' where *: "as = a # as'" "bs = b # bs'" "key_ok k a" "key_ok k b"
    "list_all2 key_ok ks as'" "list_all2 key_ok ks bs'"
    by (auto simp: list_all2_Cons1)
  with Cons.IH [of as' bs'] show ?case
    by (simp add: index_key_cmp_ranks [of k] ord_cmp_Cons cong: ordering.case_cong)
qed simp

interpretation keyrow: key_order "index_key_ord env" "keys_ok ks" for env ks
  by (rule key_order_embed [where f = "map key_ranks"])
    (simp add: index_key_ord_lex keys_ok_def lex_cmp_key_ranks)

section \<open>The map of an ordered key type\<close>

definition bt_ids :: "('k \<Rightarrow> 'k \<Rightarrow> ordering) \<Rightarrow> 'k \<Rightarrow> 'k btree \<Rightarrow> nat list" where
  "bt_ids c k t = (case bt_get c k t of Some ids \<Rightarrow> ids | None \<Rightarrow> [])"

definition bt_wf :: "('k \<Rightarrow> 'k \<Rightarrow> ordering) \<Rightarrow> ('k \<Rightarrow> bool) \<Rightarrow> 'k btree \<Rightarrow> bool" where
  "bt_wf c ok t \<longleftrightarrow>
     sorted_wrt (\<lambda>e f. c (fst e) (fst f) = Less) t \<and> (\<forall>e \<in> set t. ok (fst e) \<and> snd e \<noteq> [])"

lemma bt_wf_Nil [simp]: "bt_wf c ok []"
  by (simp add: bt_wf_def)

lemma bt_ids_Nil [simp]: "bt_ids c k [] = []"
  by (simp add: bt_ids_def)

lemma bt_ids_Cons:
  "bt_ids c k ((k', ids) # t) = (case c k k' of Less \<Rightarrow> [] | Equal \<Rightarrow> ids | Greater \<Rightarrow> bt_ids c k t)"
  by (simp add: bt_ids_def split: ordering.split)

lemma position_of_bound: "position_of i ids = Some p \<Longrightarrow> p < length ids \<and> ids ! p = i"
  by (induction ids arbitrary: p) (auto split: if_splits option.splits simp: nth_Cons')

lemma position_of_None [simp]: "position_of i ids = None \<longleftrightarrow> i \<notin> set ids"
  by (induction ids) (auto split: option.splits)

lemma mset_remove_id: "mset (remove_id i ids) = mset ids - {#i#}"
  using position_of_bound [of i ids] mset_swap_remove [of _ ids]
  by (auto simp: remove_id_def split: option.split)

lemma remove_id_snoc: "i \<notin> set ids \<Longrightarrow> remove_id i (ids @ [i]) = ids"
proof -
  have "i \<notin> set ids \<Longrightarrow> position_of i (ids @ [i]) = Some (length ids)" by (induction ids) auto
  then show "i \<notin> set ids \<Longrightarrow> ?thesis" by (simp add: remove_id_def swap_remove_def)
qed

context key_order
begin

lemma fst_bt_push: "fst ` set (bt_push cmp k i t) \<subseteq> insert k (fst ` set t)"
proof (induction t)
  case (Cons e t)
  then show ?case by (cases e; cases "cmp k (fst e)") auto
qed simp

lemma fst_bt_remove: "fst ` set (bt_remove cmp k i t) \<subseteq> fst ` set t"
proof (induction t)
  case (Cons e t)
  then show ?case by (cases e; cases "cmp k (fst e)") (auto simp: Let_def)
qed simp

lemma bt_wf_Cons:
  "bt_wf cmp ok ((k, ids) # t) \<longleftrightarrow>
     ok k \<and> ids \<noteq> [] \<and> bt_wf cmp ok t \<and> (\<forall>k' \<in> fst ` set t. cmp k k' = Less)"
  by (auto simp: bt_wf_def)

lemma bt_wf_ok: "bt_wf cmp ok t \<Longrightarrow> k \<in> fst ` set t \<Longrightarrow> ok k"
  by (auto simp: bt_wf_def)

lemma bt_wf_push: "bt_wf cmp ok t \<Longrightarrow> ok k \<Longrightarrow> bt_wf cmp ok (bt_push cmp k i t)"
proof (induction t)
  case (Cons e t)
  obtain k' ids where e: "e = (k', ids)" by (cases e)
  have wf: "ok k'" "ids \<noteq> []" "bt_wf cmp ok t" "\<forall>k2 \<in> fst ` set t. cmp k' k2 = Less"
    using Cons.prems(1) unfolding e bt_wf_Cons by blast+
  show ?case
  proof (cases "cmp k k'")
    case Less
    with wf Cons.prems e show ?thesis
      by (auto simp: bt_wf_Cons intro!: less_trans2 [of k k'] dest: bt_wf_ok)
  next
    case Equal
    with wf e show ?thesis by (simp add: bt_wf_Cons)
  next
    case Greater
    with wf Cons.prems have "cmp k' k = Less" by (simp add: less_iff)
    with wf have "\<forall>k2 \<in> fst ` set (bt_push cmp k i t). cmp k' k2 = Less"
      using fst_bt_push [of k i t] by blast
    with Greater wf Cons e show ?thesis by (simp add: bt_wf_Cons)
  qed
qed (simp add: bt_wf_def)

lemma bt_ids_first:
  "bt_wf cmp ok t \<Longrightarrow> ok k \<Longrightarrow> (\<forall>k' \<in> fst ` set t. cmp k k' = Less) \<Longrightarrow> bt_ids cmp k t = []"
  by (cases t) (auto simp: bt_ids_Cons)

lemma bt_ids_push:
  "bt_wf cmp ok t \<Longrightarrow> ok k \<Longrightarrow> ok k' \<Longrightarrow>
     bt_ids cmp k' (bt_push cmp k i t) = bt_ids cmp k' t @ (if cmp k' k = Equal then [i] else [])"
proof (induction t)
  case Nil
  then show ?case by (simp add: bt_ids_Cons split: ordering.split)
next
  case (Cons e t)
  obtain k2 ids where e: "e = (k2, ids)" by (cases e)
  have wf: "ok k2" "ids \<noteq> []" "bt_wf cmp ok t" "\<forall>k3 \<in> fst ` set t. cmp k2 k3 = Less"
    using Cons.prems(1) unfolding e bt_wf_Cons by blast+
  show ?case
  proof (cases "cmp k k2")
    case Less
    have "bt_ids cmp k' (e # t) = []" if "cmp k' k \<noteq> Greater"
      using less_trans2 [of k' k k2] that Less wf Cons.prems by (simp add: e bt_ids_Cons)
    with Less e show ?thesis by (cases "cmp k' k") (simp_all add: bt_ids_Cons)
  next
    case Equal
    then have "cmp k' k = cmp k' k2" using equal_subst(2) [of k k2 k'] wf Cons.prems by simp
    with Equal e show ?thesis by (simp add: bt_ids_Cons split: ordering.split)
  next
    case Greater
    then have k: "cmp k2 k = Less" using wf Cons.prems by (simp add: less_iff)
    have "cmp k' k = Less" if "cmp k' k2 \<noteq> Greater"
      using less_trans2 [of k' k2 k] that k wf Cons.prems by simp
    with Greater wf Cons e show ?thesis by (cases "cmp k' k2") (auto simp: bt_ids_Cons)
  qed
qed

text \<open>Keys that compare equal name one entry.\<close>

lemma bt_ids_equal:
  "bt_wf cmp ok t \<Longrightarrow> ok k \<Longrightarrow> ok k' \<Longrightarrow> cmp k' k = Equal \<Longrightarrow> bt_ids cmp k' t = bt_ids cmp k t"
proof (induction t)
  case (Cons e t)
  obtain k2 ids where e: "e = (k2, ids)" by (cases e)
  have wf: "ok k2" "bt_wf cmp ok t" using Cons.prems(1) unfolding e bt_wf_Cons by blast+
  have "cmp k' k2 = cmp k k2" using equal_subst(1) [of k' k k2] Cons.prems wf(1) by simp
  with Cons wf show ?case by (simp add: e bt_ids_Cons split: ordering.split)
qed simp

lemma bt_wf_remove: "bt_wf cmp ok t \<Longrightarrow> bt_wf cmp ok (bt_remove cmp k i t)"
proof (induction t)
  case (Cons e t)
  obtain k' ids where e: "e = (k', ids)" by (cases e)
  have wf: "ok k'" "ids \<noteq> []" "bt_wf cmp ok t" "\<forall>k2 \<in> fst ` set t. cmp k' k2 = Less"
    using Cons.prems(1) unfolding e bt_wf_Cons by blast+
  have "\<forall>k2 \<in> fst ` set (bt_remove cmp k i t). cmp k' k2 = Less"
    using wf(4) fst_bt_remove [of k i t] by blast
  with Cons.IH [OF wf(3)] wf e show ?case
    by (cases "cmp k k'") (simp_all add: bt_wf_Cons Let_def)
qed simp

lemma bt_ids_remove:
  "bt_wf cmp ok t \<Longrightarrow> ok k \<Longrightarrow> ok k' \<Longrightarrow>
     bt_ids cmp k' (bt_remove cmp k i t) =
       (if cmp k' k = Equal then remove_id i (bt_ids cmp k' t) else bt_ids cmp k' t)"
proof (induction t)
  case Nil
  then show ?case by (simp add: remove_id_def)
next
  case (Cons e t)
  obtain k2 ids where e: "e = (k2, ids)" by (cases e)
  have wf: "ok k2" "ids \<noteq> []" "bt_wf cmp ok t" "\<forall>k3 \<in> fst ` set t. cmp k2 k3 = Less"
    using Cons.prems(1) unfolding e bt_wf_Cons by blast+
  have rn: "remove_id i [] = []" by (simp add: remove_id_def)
  show ?case
  proof (cases "cmp k k2")
    case Less
    then have "bt_ids cmp k' (e # t) = []" if "cmp k' k = Equal"
      using less_trans2 [of k' k k2] that wf Cons.prems by (simp add: e bt_ids_Cons)
    with Less e rn show ?thesis by simp
  next
    case Equal
    then have c: "cmp k' k = cmp k' k2" using equal_subst(2) [of k k2 k'] wf Cons.prems by simp
    have "bt_ids cmp k' t = []" if "cmp k' k2 \<noteq> Greater"
    proof (rule bt_ids_first)
      show "\<forall>k3 \<in> fst ` set t. cmp k' k3 = Less"
        using wf Cons.prems that by (auto intro: less_trans2 [of k' k2] dest: bt_wf_ok)
    qed (use wf Cons.prems in auto)
    with Equal e c show ?thesis by (cases "cmp k' k2") (auto simp: bt_ids_Cons Let_def)
  next
    case Greater
    then have k: "cmp k2 k = Less" using wf Cons.prems by (simp add: less_iff)
    have "cmp k' k = Less" if "cmp k' k2 \<noteq> Greater"
      using less_trans2 [of k' k2 k] that k wf Cons.prems by simp
    with Greater wf Cons e show ?thesis by (cases "cmp k' k2") (auto simp: bt_ids_Cons)
  qed
qed

lemma bt_remove_push:
  "bt_wf cmp ok t \<Longrightarrow> ok k \<Longrightarrow> i \<notin> set (bt_ids cmp k t) \<Longrightarrow>
     bt_remove cmp k i (bt_push cmp k i t) = t"
proof (induction t)
  case Nil
  then show ?case by (simp add: cmp_refl remove_id_def swap_remove_def)
next
  case (Cons e t)
  obtain k2 ids where e: "e = (k2, ids)" by (cases e)
  with Cons show ?case
    by (cases "cmp k k2")
      (auto simp: cmp_refl bt_wf_Cons bt_ids_Cons remove_id_snoc, simp add: remove_id_def swap_remove_def)
qed

end

section \<open>Index properties\<close>

text \<open>
  C26. Index keys of one column type form a total preorder: \<open>index_key_cmp\<close> is reflexive,
  antisymmetric in its outcome (\<open>cmp b a\<close> is the reverse of \<open>cmp a b\<close>) and transitive on the
  values a column of any orderable type holds, nulls included: mixed integer widths and
  numerics, floats with signed zeros and NaNs, padded and plain text, ranges and multiranges.
  Nulls sort above every other value.
\<close>

theorem index_key_total_order:
  assumes "key_ok k a" and "key_ok k b" and "key_ok k c"
  shows "index_key_cmp env a a = Equal \<and>
    index_key_cmp env b a = ord_reverse (index_key_cmp env a b) \<and>
    (index_key_cmp env a b \<noteq> Greater \<and> index_key_cmp env b c \<noteq> Greater \<longrightarrow>
      index_key_cmp env a c \<noteq> Greater) \<and>
    (a \<noteq> VNull \<longrightarrow> index_key_cmp env a VNull = Less)"
proof -
  have "index_key_cmp env a VNull = Less" if "a \<noteq> VNull"
    using that by (cases a) (simp_all add: index_key_cmp_def is_null_def)
  then show ?thesis
    using assms keycol.cmp_refl [of k a env] keycol.cmp_rev [of k a b env] keycol.cmp_trans [of k a b c env]
    by blast
qed

definition demo_env :: key_env where
  "demo_env = \<lparr>env_text = (\<lambda>v. []), env_jsonb_cmp = (\<lambda>x y. None), env_numeric_f64 = (\<lambda>n. 0)\<rparr>"

theorem index_key_total_order_witness:
  "index_key_cmp demo_env (VSmallInt 3) (VSmallInt 3) = Equal \<and>
   index_key_cmp demo_env (VBigInt 5) (VSmallInt 3) = ord_reverse (index_key_cmp demo_env (VSmallInt 3) (VBigInt 5)) \<and>
   index_key_cmp demo_env (VSmallInt 3) VNull = Less"
  using index_key_total_order [of KExact "VSmallInt 3" "VBigInt 5" VNull demo_env]
  by (simp add: key_ok_def)

text \<open>
  The abstract index: the ids filed under a key. \<open>ix_wf\<close> is the representation invariant:
  strictly increasing keys of the column types, no key without ids.
\<close>

definition ix_wf :: "key_env \<Rightarrow> key_kind list \<Rightarrow> index \<Rightarrow> bool" where
  "ix_wf env ks ix \<longleftrightarrow> bt_wf (index_key_ord env) (keys_ok ks) (ix_tree ix)"

definition ix_ids :: "key_env \<Rightarrow> index \<Rightarrow> row \<Rightarrow> nat list" where
  "ix_ids env ix key = bt_ids (index_key_ord env) key (ix_tree ix)"

lemma ix_wf_new [simp]: "ix_wf env ks (index_new d)"
  by (simp add: ix_wf_def index_new_def)

lemma ix_ids_new [simp]: "ix_ids env (index_new d) key = []"
  by (simp add: ix_ids_def index_new_def)

lemma ix_wf_insert: "ix_wf env ks ix \<Longrightarrow> keys_ok ks key \<Longrightarrow> ix_wf env ks (index_insert env ix key i)"
  by (simp add: ix_wf_def index_insert_def keyrow.bt_wf_push)

lemma ix_wf_remove: "ix_wf env ks ix \<Longrightarrow> ix_wf env ks (index_remove env ix key i)"
  by (simp add: ix_wf_def index_remove_def keyrow.bt_wf_remove)

lemma ix_ids_insert:
  "ix_wf env ks ix \<Longrightarrow> keys_ok ks key \<Longrightarrow> keys_ok ks key' \<Longrightarrow>
     ix_ids env (index_insert env ix key i) key' =
       ix_ids env ix key' @ (if index_key_ord env key' key = Equal then [i] else [])"
  by (simp add: ix_wf_def ix_ids_def index_insert_def keyrow.bt_ids_push)

lemma ix_ids_remove:
  "ix_wf env ks ix \<Longrightarrow> keys_ok ks key \<Longrightarrow> keys_ok ks key' \<Longrightarrow>
     ix_ids env (index_remove env ix key i) key' =
       (if index_key_ord env key' key = Equal then remove_id i (ix_ids env ix key') else ix_ids env ix key')"
  by (simp add: ix_wf_def ix_ids_def index_remove_def keyrow.bt_ids_remove)

lemma keys_okI [intro]: "list_all2 key_ok ks as \<Longrightarrow> keys_ok ks as"
  by (simp add: keys_ok_def)

text \<open>
  C27. An index is a sorted map from keys to bags of row-version ids: insertion and removal
  keep the representation invariant, insertion files the id under exactly the keys that
  compare equal to the inserted one, and removal takes one occurrence of the id out of
  exactly those.
\<close>

theorem index_is_map:
  assumes "ix_wf env ks ix" and "keys_ok ks key" and "keys_ok ks key'"
  shows "ix_wf env ks (index_insert env ix key i) \<and> ix_wf env ks (index_remove env ix key i) \<and>
    mset (ix_ids env (index_insert env ix key i) key') =
      mset (ix_ids env ix key') + (if index_key_ord env key' key = Equal then {#i#} else {#}) \<and>
    mset (ix_ids env (index_remove env ix key i) key') =
      mset (ix_ids env ix key') - (if index_key_ord env key' key = Equal then {#i#} else {#})"
  using assms by (simp add: ix_wf_insert ix_wf_remove ix_ids_insert ix_ids_remove mset_remove_id)

definition demo_index_def :: index_def where
  "demo_index_def = index_plain ''i'' ''t'' [0] [''a''] True False 0"

theorem index_is_map_witness:
  "mset (ix_ids demo_env (index_insert demo_env (index_new demo_index_def) [VSmallInt 3] 7) [VSmallInt 3]) = {#7#}"
  using index_is_map [of demo_env "[KExact]" "index_new demo_index_def" "[VSmallInt 3]" "[VSmallInt 3]" 7]
  by (simp add: keys_ok_def key_ok_def index_key_ord_def index_key_cmp_def is_null_def is_exact_numeric_def
      exact_as_i64_def)

text \<open>
  C28. Taking back an insertion restores the index exactly: the undo of an inserted version
  leaves keys, id order and all other entries as they were.
\<close>

theorem index_remove_insert:
  assumes "ix_wf env ks ix" and "keys_ok ks key" and "i \<notin> set (ix_ids env ix key)"
  shows "index_remove env (index_insert env ix key i) key i = ix"
  using assms
  by (simp add: ix_wf_def ix_ids_def index_insert_def index_remove_def keyrow.bt_remove_push)

theorem index_remove_insert_witness:
  "index_remove demo_env (index_insert demo_env (index_new demo_index_def) [VNull, VBool True] 7) [VNull, VBool True] 7
     = index_new demo_index_def"
  using index_remove_insert [of demo_env "[KExact, KBool]" "index_new demo_index_def" "[VNull, VBool True]" 7]
  by (simp add: keys_ok_def key_ok_def)

text \<open>
  Values of the types \<^verbatim>\<open>time\<close>, \<^verbatim>\<open>timetz\<close>, \<^verbatim>\<open>interval\<close>, \<^verbatim>\<open>pg_lsn\<close> and bit strings have no
  arm in the comparison: any two of one type compare equal, so that an index files every
  row of such a column under one key and a unique index reports each second row as a
  duplicate.
\<close>

theorem index_key_blind_types:
  "index_key_cmp env (VTime t) (VTime t') = Equal \<and>
   index_key_cmp env (VTimeTz t z) (VTimeTz t' z') = Equal \<and>
   index_key_cmp env (VInterval iv) (VInterval iv') = Equal \<and>
   index_key_cmp env (VPgLsn l) (VPgLsn l') = Equal \<and>
   index_key_cmp env (VBitString s) (VBitString s') = Equal"
  by (simp add: index_key_cmp_def is_null_def is_exact_numeric_def is_float_def)

text \<open>
  The index order separates the two zeros that the comparison operators equate, so a lookup
  of one of them through an index does not find rows that hold the other.
\<close>

theorem index_separates_zeros:
  "pg_float_ord 0 0x8000000000000000 = Equal \<and>
   index_key_cmp env (VFloat 0) (VFloat 0x8000000000000000) = Greater"
  by (simp add: pg_float_ord_def total_cmp_def total_key_def float_key_def is_nan_def)

end
