(* ===== verification/RowStore.thy ===== *)
theory RowStore
  imports Index
begin

text \<open>
  The row store of one table version, \<^verbatim>\<open>RowVersion\<close> and \<^verbatim>\<open>Table\<close> of \<^verbatim>\<open>storage.rs\<close>: a vector of
  row versions and a hash map from version ids to positions that every operation keeps in
  step. The abstract view \<open>tb_abs\<close> of a table is the partial map from ids to versions: each
  operation is shown to keep the representation invariant \<open>tb_sync\<close> and to act on the view as
  the map operation it stands for. The part of
  \<^verbatim>\<open>Table\<close> that describes columns, constraints on expressions, privileges, triggers and
  partitions is not modelled; transaction and row ids are natural numbers.
\<close>

section \<open>Row versions and tables\<close>

record row_version =
  v_id :: nat
  v_values :: row
  v_xmin :: nat
  v_xmax :: nat
  v_toast :: "u32 list"

definition version_plain :: "nat \<Rightarrow> row \<Rightarrow> nat \<Rightarrow> row_version" where
  "version_plain i values xmin =
     \<lparr>v_id = i, v_values = values, v_xmin = xmin, v_xmax = 0, v_toast = replicate (length values) 0\<rparr>"

record unique_def =
  uq_name :: string
  uq_cols :: "string list"
  uq_deferrable :: bool
  uq_initially_deferred :: bool
  uq_nulls_not_distinct :: bool

text \<open>Entries of access control lists: privilege bits held by a role, and their grantor.\<close>

record acl_entry =
  ac_role :: string
  ac_privs :: u32
  ac_grant_option :: u32
  ac_grantor :: string

record col_acl_entry =
  ca_role :: string
  ca_privs :: u32
  ca_columns :: "string list"
  ca_grant_option :: u32
  ca_grantor :: string

record table =
  t_columns :: "(string \<times> col_type) list"
  t_rows :: "row_version list"
  t_row_index :: "nat \<rightharpoonup> nat"
  t_created_xmin :: nat
  t_dropped_xmax :: nat
  t_uniques :: "unique_def list"
  t_pkey :: "unique_def option"
  t_owner :: string
  t_acl :: "acl_entry list"
  t_col_acl :: "col_acl_entry list"
  t_oid :: u32
  t_toast_relid :: u32
  t_toast_info :: "(u32 \<times> toast_meta) list"
  t_inherits :: "string list"

text \<open>The fields of \<^verbatim>\<open>Table::new\<close> that the model keeps.\<close>

definition table_new :: "(string \<times> col_type) list \<Rightarrow> nat \<Rightarrow> table" where
  "table_new columns created_xmin =
     \<lparr>t_columns = columns, t_rows = [], t_row_index = Map.empty, t_created_xmin = created_xmin,
      t_dropped_xmax = 0, t_uniques = [], t_pkey = None, t_owner = ''postgres'', t_acl = [], t_col_acl = [], t_oid = 0,
      t_toast_relid = 0, t_toast_info = [], t_inherits = []\<rparr>"

fun position_where :: "('a \<Rightarrow> bool) \<Rightarrow> 'a list \<Rightarrow> nat option" where
  "position_where p [] = None"
| "position_where p (x # xs) =
     (if p x then Some 0 else (case position_where p xs of Some i \<Rightarrow> Some (Suc i) | None \<Rightarrow> None))"

definition column_index :: "table \<Rightarrow> string \<Rightarrow> nat option" where
  "column_index t name = position_where (\<lambda>c. fst c = name) (t_columns t)"

section \<open>Operations\<close>

definition row_pos :: "table \<Rightarrow> nat \<Rightarrow> nat option" where
  "row_pos t i = t_row_index t i"

definition push_version :: "row_version \<Rightarrow> table \<Rightarrow> table" where
  "push_version rv t =
     t\<lparr>t_row_index := (t_row_index t)(v_id rv \<mapsto> length (t_rows t)), t_rows := t_rows t @ [rv]\<rparr>"

text \<open>\<^verbatim>\<open>None\<close> is the panic of \<^verbatim>\<open>Vec::swap_remove\<close> at a position out of range.\<close>

definition swap_remove_version :: "nat \<Rightarrow> table \<Rightarrow> (row_version \<times> table) option" where
  "swap_remove_version pos t =
     (if pos < length (t_rows t)
      then
        (let rv = t_rows t ! pos; rows = swap_remove pos (t_rows t); ix = (t_row_index t)(v_id rv := None);
             ix' = (if pos < length rows then ix(v_id (rows ! pos) \<mapsto> pos) else ix)
         in Some (rv, t\<lparr>t_rows := rows, t_row_index := ix'\<rparr>))
      else None)"

fun index_rows :: "nat \<Rightarrow> row_version list \<Rightarrow> (nat \<rightharpoonup> nat) \<Rightarrow> (nat \<rightharpoonup> nat)" where
  "index_rows i [] m = m"
| "index_rows i (r # rs) m = index_rows (Suc i) rs (m(v_id r \<mapsto> i))"

definition rebuild_row_index :: "table \<Rightarrow> table" where
  "rebuild_row_index t = t\<lparr>t_row_index := index_rows 0 (t_rows t) Map.empty\<rparr>"

text \<open>
  Overwriting the deleter of the version at a position, as the callers do through
  \<^verbatim>\<open>t.rows[pos].xmax = x\<close>, and \<^verbatim>\<open>rows.retain\<close> followed by the rebuild, as vacuum does.
\<close>

definition set_xmax :: "nat \<Rightarrow> nat \<Rightarrow> table \<Rightarrow> table" where
  "set_xmax pos x t = t\<lparr>t_rows := (t_rows t)[pos := (t_rows t ! pos)\<lparr>v_xmax := x\<rparr>]\<rparr>"

definition retain_versions :: "(row_version \<Rightarrow> bool) \<Rightarrow> table \<Rightarrow> table" where
  "retain_versions p t =
     (let t' = t\<lparr>t_rows := filter p (t_rows t)\<rparr>
      in if length (t_rows t') < length (t_rows t) then rebuild_row_index t' else t')"

section \<open>The representation invariant\<close>

text \<open>
  \<open>tb_sync\<close>: the map holds exactly the ids of the rows, each at its position; so ids are
  distinct. It is what the \<^verbatim>\<open>debug_assert\<close> of \<^verbatim>\<open>row_pos\<close> checks at one id.
\<close>

definition tb_sync :: "table \<Rightarrow> bool" where
  "tb_sync t \<longleftrightarrow>
     (\<forall>i p. t_row_index t i = Some p \<longleftrightarrow> p < length (t_rows t) \<and> v_id (t_rows t ! p) = i)"

definition tb_abs :: "table \<Rightarrow> (nat \<rightharpoonup> row_version)" where
  "tb_abs t = (\<lambda>i. map_option (\<lambda>p. t_rows t ! p) (row_pos t i))"

lemma tb_sync_new [simp]: "tb_sync (table_new cs x)"
  by (simp add: tb_sync_def table_new_def)

lemma tb_abs_new [simp]: "tb_abs (table_new cs x) = Map.empty"
  by (simp add: tb_abs_def table_new_def row_pos_def fun_eq_iff)

lemma tb_sync_pos:
  "tb_sync t \<Longrightarrow> row_pos t i = Some p \<longleftrightarrow> p < length (t_rows t) \<and> v_id (t_rows t ! p) = i"
  by (simp add: tb_sync_def row_pos_def)

lemma tb_sync_inj:
  "tb_sync t \<Longrightarrow> p < length (t_rows t) \<Longrightarrow> q < length (t_rows t) \<Longrightarrow>
     v_id (t_rows t ! p) = v_id (t_rows t ! q) \<Longrightarrow> p = q"
  by (metis option.inject tb_sync_pos)

lemma tb_sync_distinct: "tb_sync t \<Longrightarrow> distinct (map v_id (t_rows t))"
  by (auto simp: distinct_conv_nth dest: tb_sync_inj)

lemma tb_abs_Some:
  "tb_sync t \<Longrightarrow> tb_abs t i = Some v \<longleftrightarrow> v \<in> set (t_rows t) \<and> v_id v = i"
  by (auto simp: tb_abs_def tb_sync_pos in_set_conv_nth dest: tb_sync_inj)

lemma tb_abs_None: "tb_sync t \<Longrightarrow> tb_abs t i = None \<longleftrightarrow> i \<notin> v_id ` set (t_rows t)"
  using tb_abs_Some [of t i] by (cases "tb_abs t i") (force simp: image_iff)+

lemma tb_abs_eqI:
  assumes "tb_sync t" and "\<And>i v. m i = Some v \<longleftrightarrow> v \<in> set (t_rows t) \<and> v_id v = i"
  shows "tb_abs t = m"
proof (rule ext)
  fix i
  show "tb_abs t i = m i"
    using tb_abs_Some [OF assms(1), of i] assms(2) [of i] by (cases "tb_abs t i"; cases "m i") auto
qed

lemma tb_sync_push:
  assumes "tb_sync t" and "tb_abs t (v_id rv) = None"
  shows "tb_sync (push_version rv t)"
proof -
  have "v_id (t_rows t ! p) \<noteq> v_id rv" if "p < length (t_rows t)" for p
    using assms that tb_abs_None [OF assms(1)] by (metis image_eqI nth_mem)
  with assms(1) show ?thesis
    by (fastforce simp: tb_sync_def push_version_def nth_append)
qed

lemma tb_abs_push:
  assumes "tb_sync t" and "tb_abs t (v_id rv) = None"
  shows "tb_abs (push_version rv t) = (tb_abs t)(v_id rv \<mapsto> rv)"
proof (rule tb_abs_eqI [OF tb_sync_push [OF assms]])
  fix i v
  show "((tb_abs t)(v_id rv \<mapsto> rv)) i = Some v \<longleftrightarrow>
      v \<in> set (t_rows (push_version rv t)) \<and> v_id v = i"
    using assms(2) by (auto simp: push_version_def tb_abs_Some [OF assms(1)] tb_abs_None [OF assms(1)] image_iff)
qed

lemma index_rows_Some:
  "distinct (map v_id rs) \<Longrightarrow>
     index_rows n rs m i = Some p \<longleftrightarrow>
       (\<exists>q < length rs. p = n + q \<and> v_id (rs ! q) = i) \<or> i \<notin> v_id ` set rs \<and> m i = Some p"
proof (induction rs arbitrary: n m)
  case (Cons r rs)
  have *: "(\<exists>q < length (r # rs). p = n + q \<and> v_id ((r # rs) ! q) = i) \<longleftrightarrow>
      p = n \<and> v_id r = i \<or> (\<exists>q < length rs. p = Suc n + q \<and> v_id (rs ! q) = i)"
    by (auto simp: less_Suc_eq_0_disj)
  from Cons have "index_rows n (r # rs) m i = Some p \<longleftrightarrow>
      (\<exists>q < length rs. p = Suc n + q \<and> v_id (rs ! q) = i) \<or>
      i \<notin> v_id ` set rs \<and> (m(v_id r \<mapsto> n)) i = Some p"
    by simp
  with Cons.prems show ?case unfolding * by auto
qed auto

lemma tb_sync_rebuild: "distinct (map v_id (t_rows t)) \<Longrightarrow> tb_sync (rebuild_row_index t)"
  by (auto simp: tb_sync_def rebuild_row_index_def index_rows_Some)

lemma tb_sync_retain: "tb_sync t \<Longrightarrow> tb_sync (retain_versions p t)"
proof -
  assume t: "tb_sync t"
  then have "distinct (map v_id (filter p (t_rows t)))" using tb_sync_distinct distinct_map_filter by blast
  moreover have "filter p (t_rows t) = t_rows t" if "\<not> length (filter p (t_rows t)) < length (t_rows t)"
    using that by (metis filter_id_conv length_filter_less)
  ultimately show ?thesis
    using t by (auto simp: retain_versions_def Let_def intro!: tb_sync_rebuild) 
qed

lemma t_rows_retain [simp]: "t_rows (retain_versions p t) = filter p (t_rows t)"
  by (simp add: retain_versions_def Let_def rebuild_row_index_def)

lemma tb_abs_retain:
  assumes "tb_sync t"
  shows "tb_abs (retain_versions p t) =
    (\<lambda>i. case tb_abs t i of Some v \<Rightarrow> if p v then Some v else None | None \<Rightarrow> None)"
proof (rule tb_abs_eqI [OF tb_sync_retain [OF assms]])
  fix i v
  show "(case tb_abs t i of Some v \<Rightarrow> if p v then Some v else None | None \<Rightarrow> None) = Some v \<longleftrightarrow>
      v \<in> set (t_rows (retain_versions p t)) \<and> v_id v = i"
    using tb_abs_Some [OF assms, of i] by (cases "tb_abs t i") force+
qed

lemma tb_sync_set_xmax: "tb_sync t \<Longrightarrow> p < length (t_rows t) \<Longrightarrow> tb_sync (set_xmax p x t)"
  by (auto simp: tb_sync_def set_xmax_def nth_list_update)

lemma tb_abs_set_xmax:
  assumes "tb_sync t" and "row_pos t i = Some p"
  shows "tb_abs (set_xmax p x t) = (tb_abs t)(i := map_option (\<lambda>v. v\<lparr>v_xmax := x\<rparr>) (tb_abs t i))"
proof (rule ext)
  fix j
  have p: "p < length (t_rows t)" "v_id (t_rows t ! p) = i"
    using tb_sync_pos [OF assms(1), of i p] assms(2) by blast+
  have pos: "row_pos (set_xmax p x t) j = row_pos t j" by (simp add: row_pos_def set_xmax_def)
  have rows: "t_rows (set_xmax p x t) ! q = (if q = p then (t_rows t ! p)\<lparr>v_xmax := x\<rparr> else t_rows t ! q)" for q
    using p by (simp add: set_xmax_def nth_list_update)
  show "tb_abs (set_xmax p x t) j =
      ((tb_abs t)(i := map_option (\<lambda>v. v\<lparr>v_xmax := x\<rparr>) (tb_abs t i))) j"
  proof (cases "j = i")
    case True
    then have "row_pos (set_xmax p x t) i = Some p" using pos assms(2) by simp
    with True show ?thesis by (simp add: tb_abs_def rows assms(2))
  next
    case False
    have "q \<noteq> p" if "row_pos t j = Some q" for q
      using tb_sync_pos [OF assms(1), of j q] that p False by blast
    with False show ?thesis by (cases "row_pos t j") (auto simp: tb_abs_def pos rows)
  qed
qed

lemma swap_remove_version_sync:
  assumes "tb_sync t" and "swap_remove_version p t = Some (rv, t')"
  shows "tb_sync t' \<and> rv = t_rows t ! p \<and> p < length (t_rows t) \<and>
    mset (t_rows t) = add_mset rv (mset (t_rows t'))"
proof -
  let ?rows = "swap_remove p (t_rows t)"
  have p: "p < length (t_rows t)" and rv: "rv = t_rows t ! p" and
    rows: "t_rows t' = ?rows" and
    ix: "t_row_index t' = (if p < length ?rows then ((t_row_index t)(v_id rv := None))(v_id (?rows ! p) \<mapsto> p)
      else (t_row_index t)(v_id rv := None))"
    using assms(2) by (auto simp: swap_remove_version_def Let_def split: if_splits)
  have len: "length ?rows = length (t_rows t) - 1" using p by simp
  have nth: "?rows ! q = (if q = p then last (t_rows t) else t_rows t ! q)" if "q < length (t_rows t) - 1" for q
    using nth_swap_remove [OF p that] by simp
  have last: "last (t_rows t) = t_rows t ! (length (t_rows t) - 1)" using p by (cases "t_rows t") (auto simp: last_conv_nth)
  have inj: "v_id (t_rows t ! a) = v_id (t_rows t ! b) \<longleftrightarrow> a = b"
    if "a < length (t_rows t)" "b < length (t_rows t)" for a b
    using that tb_sync_inj [OF assms(1)] by auto
  have "tb_sync t'"
    unfolding tb_sync_def rows len
  proof (intro allI)
    fix i q
    let ?n = "length (t_rows t) - 1"
    have old: "t_row_index t i = Some q \<longleftrightarrow> q < length (t_rows t) \<and> v_id (t_rows t ! q) = i"
      using assms(1) by (simp add: tb_sync_def)
    show "t_row_index t' i = Some q \<longleftrightarrow> q < ?n \<and> v_id (?rows ! q) = i"
    proof (cases "p < ?n")
      case True
      with p len have ix': "t_row_index t' = ((t_row_index t)(v_id rv := None))(v_id (t_rows t ! ?n) \<mapsto> p)"
        using ix nth [of p] last by simp
      show ?thesis
      proof (cases "i = v_id (t_rows t ! ?n)")
        case True
        have "q < ?n \<Longrightarrow> v_id (?rows ! q) = i \<longleftrightarrow> q = p"
          using True nth [of q] last inj [of q ?n] p by auto
        with True ix' \<open>p < ?n\<close> show ?thesis by auto
      next
        case False
        with ix' have "t_row_index t' i = (if i = v_id rv then None else t_row_index t i)" by simp
        then show ?thesis
          using old False nth [of q] last inj [of q p] p rv inj [of q ?n]
          by (auto simp: less_Suc_eq)
      qed
    next
      case False
      with p have "p = ?n" by simp
      with ix len have "t_row_index t' i = (if i = v_id rv then None else t_row_index t i)" by simp
      then show ?thesis
        using old \<open>p = ?n\<close> nth [of q] inj [of q p] p rv by auto
    qed
  qed
  then show ?thesis using p rv rows mset_swap_remove [OF p] by simp
qed

lemma tb_abs_swap_remove:
  assumes "tb_sync t" and "swap_remove_version p t = Some (rv, t')"
  shows "tb_abs t' = (tb_abs t)(v_id rv := None)"
proof -
  note s = swap_remove_version_sync [OF assms]
  then have t': "tb_sync t'" and m: "mset (t_rows t) = add_mset rv (mset (t_rows t'))" by simp_all
  have "mset (map v_id (t_rows t)) = mset (v_id rv # map v_id (t_rows t'))" using m by simp
  then have "distinct (v_id rv # map v_id (t_rows t'))"
    using tb_sync_distinct [OF assms(1)] mset_eq_imp_distinct_iff by blast
  then have n: "v_id rv \<notin> v_id ` set (t_rows t')" by simp
  have set: "set (t_rows t) = insert rv (set (t_rows t'))" using m by (metis set_mset_add_mset_insert set_mset_mset)
  show ?thesis
  proof (rule tb_abs_eqI [OF t'])
    fix i v
    show "((tb_abs t)(v_id rv := None)) i = Some v \<longleftrightarrow> v \<in> set (t_rows t') \<and> v_id v = i"
      using n set by (auto simp: tb_abs_Some [OF assms(1)] image_iff)
  qed
qed

end
