(* ===== verification/Mvcc.thy ===== *)
theory Mvcc
  imports RowStore
begin

text \<open>
  Snapshots, transaction ids, visibility and row locks: \<^verbatim>\<open>Snapshot\<close>, \<^verbatim>\<open>TxnManager\<close>, the
  transaction methods of \<^verbatim>\<open>Engine\<close> and the visibility tests of \<^verbatim>\<open>storage.rs\<close>. A hash set of
  xids is a set, the registered snapshots an association list, the lock tables are maps.
  The locale \<open>stamped\<close> states the one visibility law that rows, tables, indexes and
  sequences share; it is interpreted at each of them.
\<close>

section \<open>Snapshots and visibility\<close>

record snapshot =
  sn_active :: "nat list"
  sn_next_xid :: nat

definition row_visible :: "row_version \<Rightarrow> snapshot \<Rightarrow> nat list \<Rightarrow> bool" where
  "row_visible v snap owns =
     (let xmin_ok = (v_xmin v \<in> set owns \<or> v_xmin v < sn_next_xid snap \<and> v_xmin v \<notin> set (sn_active snap))
      in if \<not> xmin_ok then False
         else if v_xmax v = 0 then True
         else if v_xmax v \<in> set owns then False
         else \<not> (v_xmax v < sn_next_xid snap \<and> v_xmax v \<notin> set (sn_active snap)))"

definition table_visible :: "table \<Rightarrow> snapshot \<Rightarrow> nat list \<Rightarrow> bool" where
  "table_visible t snap owns =
     (let created_ok = (t_created_xmin t \<in> set owns \<or>
        t_created_xmin t < sn_next_xid snap \<and> t_created_xmin t \<notin> set (sn_active snap))
      in if \<not> created_ok then False
         else if t_dropped_xmax t = 0 then True
         else if t_dropped_xmax t \<in> set owns then False
         else \<not> (t_dropped_xmax t < sn_next_xid snap \<and> t_dropped_xmax t \<notin> set (sn_active snap)))"

definition index_visible :: "index_def \<Rightarrow> snapshot \<Rightarrow> nat list \<Rightarrow> bool" where
  "index_visible d snap owns =
     (let created_ok = (ix_created_xmin d \<in> set owns \<or>
        ix_created_xmin d < sn_next_xid snap \<and> ix_created_xmin d \<notin> set (sn_active snap))
      in if \<not> created_ok then False
         else if ix_dropped_xmax d = 0 then True
         else if ix_dropped_xmax d \<in> set owns then False
         else \<not> (ix_dropped_xmax d < sn_next_xid snap \<and> ix_dropped_xmax d \<notin> set (sn_active snap)))"

text \<open>What one reader sees of an xid: its own xids, and what had committed for its snapshot.\<close>

definition xid_seen :: "snapshot \<Rightarrow> nat list \<Rightarrow> nat \<Rightarrow> bool" where
  "xid_seen s owns x \<longleftrightarrow> x \<in> set owns \<or> x < sn_next_xid s \<and> x \<notin> set (sn_active s)"

locale stamped =
  fixes created dropped :: "'a \<Rightarrow> nat" and visible :: "'a \<Rightarrow> snapshot \<Rightarrow> nat list \<Rightarrow> bool"
  assumes visible_iff:
    "visible v s owns \<longleftrightarrow> xid_seen s owns (created v) \<and> (dropped v = 0 \<or> \<not> xid_seen s owns (dropped v))"
begin

lemma own_visible: "created v \<in> set owns \<Longrightarrow> dropped v = 0 \<Longrightarrow> visible v s owns"
  by (simp add: visible_iff xid_seen_def)

lemma own_dropped: "dropped v \<in> set owns \<Longrightarrow> dropped v \<noteq> 0 \<Longrightarrow> \<not> visible v s owns"
  by (simp add: visible_iff xid_seen_def)

lemma unseen_creator: "\<not> xid_seen s owns (created v) \<Longrightarrow> \<not> visible v s owns"
  by (simp add: visible_iff)

lemma dropped_by_seen: "dropped v \<noteq> 0 \<Longrightarrow> xid_seen s owns (dropped v) \<Longrightarrow> \<not> visible v s owns"
  by (simp add: visible_iff)

text \<open>A change of the deleter between values the reader does not see changes nothing for it.\<close>

lemma unseen_drop:
  "created w = created v \<Longrightarrow> dropped v = 0 \<or> \<not> xid_seen s owns (dropped v) \<Longrightarrow>
     dropped w = 0 \<or> \<not> xid_seen s owns (dropped w) \<Longrightarrow> visible w s owns = visible v s owns"
  by (auto simp: visible_iff)

end

interpretation rowv: stamped v_xmin v_xmax row_visible
  by unfold_locales (auto simp: row_visible_def xid_seen_def Let_def)

interpretation tabv: stamped t_created_xmin t_dropped_xmax table_visible
  by unfold_locales (auto simp: table_visible_def xid_seen_def Let_def)

interpretation ixv: stamped ix_created_xmin ix_dropped_xmax index_visible
  by unfold_locales (auto simp: index_visible_def xid_seen_def Let_def)

section \<open>The transaction manager\<close>

record txn_manager =
  tm_next_xid :: nat
  tm_next_row_id :: nat
  tm_active :: "nat set"
  tm_snapshots :: "(nat \<times> snapshot) list"
  tm_row_locks :: "nat \<rightharpoonup> nat"
  tm_lock_order :: "nat \<rightharpoonup> nat list"

definition txn_manager_new :: txn_manager where
  "txn_manager_new =
     \<lparr>tm_next_xid = 1, tm_next_row_id = 1, tm_active = {}, tm_snapshots = [], tm_row_locks = Map.empty,
      tm_lock_order = Map.empty\<rparr>"

definition alloc_xid :: "txn_manager \<Rightarrow> nat \<times> txn_manager" where
  "alloc_xid tm = (tm_next_xid tm, tm\<lparr>tm_next_xid := tm_next_xid tm + 1\<rparr>)"

definition begin_txn :: "txn_manager \<Rightarrow> nat \<times> txn_manager" where
  "begin_txn tm =
     (let (xid, tm') = alloc_xid tm in (xid, tm'\<lparr>tm_active := insert xid (tm_active tm')\<rparr>))"

definition end_txn :: "nat \<Rightarrow> txn_manager \<Rightarrow> txn_manager" where
  "end_txn xid tm =
     tm\<lparr>tm_active := tm_active tm - {xid}, tm_snapshots := hm_remove xid (tm_snapshots tm)\<rparr>"

definition register_snapshot :: "nat \<Rightarrow> snapshot \<Rightarrow> txn_manager \<Rightarrow> txn_manager" where
  "register_snapshot xid snap tm = tm\<lparr>tm_snapshots := hm_insert xid snap (tm_snapshots tm)\<rparr>"

definition alloc_row_id :: "txn_manager \<Rightarrow> nat \<times> txn_manager" where
  "alloc_row_id tm = (tm_next_row_id tm, tm\<lparr>tm_next_row_id := tm_next_row_id tm + 1\<rparr>)"

text \<open>\<^verbatim>\<open>Inl\<close> is the conflicting holder.\<close>

definition try_row_lock :: "nat \<Rightarrow> nat \<Rightarrow> txn_manager \<Rightarrow> nat + txn_manager" where
  "try_row_lock row_id xid tm =
     (let take = Inr (tm\<lparr>tm_row_locks := (tm_row_locks tm)(row_id \<mapsto> xid),
            tm_lock_order := (tm_lock_order tm)(xid \<mapsto> case_option [] id (tm_lock_order tm xid) @ [row_id])\<rparr>)
      in case tm_row_locks tm row_id of
           Some h \<Rightarrow> if h = xid then Inr tm else if h \<in> tm_active tm then Inl h else take
         | None \<Rightarrow> take)"

definition row_lock_holder :: "nat \<Rightarrow> txn_manager \<Rightarrow> nat option" where
  "row_lock_holder row_id tm = tm_row_locks tm row_id"

definition release_txn_locks :: "nat \<Rightarrow> txn_manager \<Rightarrow> txn_manager" where
  "release_txn_locks xid tm =
     tm\<lparr>tm_row_locks := (\<lambda>r. if tm_row_locks tm r = Some xid then None else tm_row_locks tm r),
        tm_lock_order := (tm_lock_order tm)(xid := None)\<rparr>"

fun drop_held :: "nat \<Rightarrow> nat list \<Rightarrow> (nat \<rightharpoonup> nat) \<Rightarrow> (nat \<rightharpoonup> nat)" where
  "drop_held xid [] locks = locks"
| "drop_held xid (r # rs) locks =
     drop_held xid rs (if locks r = Some xid then locks(r := None) else locks)"

text \<open>\<^verbatim>\<open>None\<close> is the panic of \<^verbatim>\<open>drain(keep..)\<close> when fewer locks than \<open>keep\<close> are recorded.\<close>

definition release_locks_after :: "nat \<Rightarrow> nat \<Rightarrow> txn_manager \<Rightarrow> txn_manager option" where
  "release_locks_after xid keep tm =
     (case tm_lock_order tm xid of
        None \<Rightarrow> Some tm
      | Some order \<Rightarrow>
          if length order < keep then None
          else Some (tm\<lparr>tm_row_locks := drop_held xid (drop keep order) (tm_row_locks tm),
                        tm_lock_order := (tm_lock_order tm)(xid \<mapsto> take keep order)\<rparr>))"

definition txn_lock_count :: "nat \<Rightarrow> txn_manager \<Rightarrow> nat" where
  "txn_lock_count xid tm = (case tm_lock_order tm xid of Some order \<Rightarrow> length order | None \<Rightarrow> 0)"

definition take_snapshot :: "txn_manager \<Rightarrow> snapshot" where
  "take_snapshot tm =
     \<lparr>sn_active = sorted_list_of_set (tm_active tm), sn_next_xid = tm_next_xid tm\<rparr>"

definition xid_committed :: "nat \<Rightarrow> txn_manager \<Rightarrow> bool" where
  "xid_committed xid tm \<longleftrightarrow> xid < tm_next_xid tm \<and> xid \<notin> tm_active tm"

definition version_dead_to_all :: "txn_manager \<Rightarrow> row_version \<Rightarrow> bool" where
  "version_dead_to_all tm v =
     (if v_xmax v = 0 then False
      else if v_xmin v \<in> tm_active tm \<or> v_xmax v \<in> tm_active tm then False
      else list_all (\<lambda>(_, snap). v_xmax v < sn_next_xid snap \<and> v_xmax v \<notin> set (sn_active snap))
        (tm_snapshots tm))"

section \<open>Invariant of the manager\<close>

definition snap_wf :: "nat \<Rightarrow> snapshot \<Rightarrow> bool" where
  "snap_wf n s \<longleftrightarrow> sn_next_xid s \<le> n \<and> (\<forall>x \<in> set (sn_active s). 0 < x \<and> x < sn_next_xid s)"

definition tm_wf :: "txn_manager \<Rightarrow> bool" where
  "tm_wf tm \<longleftrightarrow>
     0 < tm_next_xid tm \<and> finite (tm_active tm) \<and> (\<forall>x \<in> tm_active tm. 0 < x \<and> x < tm_next_xid tm) \<and>
     distinct (map fst (tm_snapshots tm)) \<and>
     (\<forall>e \<in> set (tm_snapshots tm). fst e \<in> tm_active tm \<and> snap_wf (tm_next_xid tm) (snd e))"

lemma tm_wf_new [simp]: "tm_wf txn_manager_new"
  by (simp add: tm_wf_def txn_manager_new_def)

lemma snap_wf_mono: "snap_wf n s \<Longrightarrow> n \<le> m \<Longrightarrow> snap_wf m s"
  by (auto simp: snap_wf_def)

lemma tm_wf_begin: "tm_wf tm \<Longrightarrow> begin_txn tm = (xid, tm') \<Longrightarrow> tm_wf tm'"
  using snap_wf_mono [of "tm_next_xid tm" _ "Suc (tm_next_xid tm)"]
  by (fastforce simp: tm_wf_def begin_txn_def alloc_xid_def less_Suc_eq)

lemma tm_wf_end: "tm_wf tm \<Longrightarrow> tm_wf (end_txn xid tm)"
proof -
  assume tm: "tm_wf tm"
  then have m: "map_of (hm_remove xid (tm_snapshots tm)) = (map_of (tm_snapshots tm))(xid := None)"
    by (simp add: tm_wf_def map_of_hm_remove)
  then have n: "xid \<notin> fst ` set (hm_remove xid (tm_snapshots tm))"
    by (metis fun_upd_same map_of_eq_None_iff)
  have "fst e \<in> tm_active tm - {xid} \<and> snap_wf (tm_next_xid tm) (snd e)"
    if "e \<in> set (hm_remove xid (tm_snapshots tm))" for e
    using that tm n set_hm_remove [of xid "tm_snapshots tm"] by (force simp: tm_wf_def)
  with tm show ?thesis by (simp add: tm_wf_def end_txn_def distinct_hm_remove)
qed

lemma tm_wf_take: "tm_wf tm \<Longrightarrow> snap_wf (tm_next_xid tm) (take_snapshot tm)"
  by (auto simp: tm_wf_def snap_wf_def take_snapshot_def)

lemma tm_wf_register:
  "tm_wf tm \<Longrightarrow> xid \<in> tm_active tm \<Longrightarrow> snap_wf (tm_next_xid tm) s \<Longrightarrow> tm_wf (register_snapshot xid s tm)"
  using set_hm_insert [of xid s "tm_snapshots tm"]
  by (fastforce simp: tm_wf_def register_snapshot_def distinct_hm_insert)

text \<open>A fresh snapshot sees exactly the committed transactions.\<close>

lemma fresh_seen:
  "tm_wf tm \<Longrightarrow> xid_seen (take_snapshot tm) owns x \<longleftrightarrow> x \<in> set owns \<or> xid_committed x tm"
  by (auto simp: tm_wf_def xid_seen_def take_snapshot_def xid_committed_def)

lemma dead_seen:
  assumes "version_dead_to_all tm v" and "s \<in> snd ` set (tm_snapshots tm)"
  shows "xid_seen s owns (v_xmax v)"
  using assms by (force simp: version_dead_to_all_def list_all_iff xid_seen_def split: if_splits)

lemma xid_seen_own_irrelevant:
  "x \<notin> set owns \<Longrightarrow> xid_seen s owns x = xid_seen s [] x"
  by (simp add: xid_seen_def)

section \<open>Row locks\<close>

text \<open>
  The two lock tables describe one relation: a row is locked by exactly the transaction in
  whose acquisition list it stands, once; and the holders are active.
\<close>

definition lk_wf :: "txn_manager \<Rightarrow> bool" where
  "lk_wf tm \<longleftrightarrow>
     (\<forall>r x. tm_row_locks tm r = Some x \<longleftrightarrow> (\<exists>order. tm_lock_order tm x = Some order \<and> r \<in> set order)) \<and>
     (\<forall>x order. tm_lock_order tm x = Some order \<longrightarrow> distinct order \<and> x \<in> tm_active tm)"

lemma lk_wf_new [simp]: "lk_wf txn_manager_new"
  by (simp add: lk_wf_def txn_manager_new_def)

lemma lk_wf_holder: "lk_wf tm \<Longrightarrow> tm_row_locks tm r = Some x \<Longrightarrow> x \<in> tm_active tm"
  unfolding lk_wf_def by blast

lemma lk_wf_begin: "lk_wf tm \<Longrightarrow> begin_txn tm = (xid, tm') \<Longrightarrow> lk_wf tm'"
  by (auto simp: lk_wf_def begin_txn_def alloc_xid_def)

lemma lk_wf_unique:
  "lk_wf tm \<Longrightarrow> tm_lock_order tm x = Some o1 \<Longrightarrow> r \<in> set o1 \<Longrightarrow> tm_row_locks tm r = Some x"
  unfolding lk_wf_def by blast

lemma lk_wf_listed:
  "lk_wf tm \<Longrightarrow> tm_row_locks tm r = Some x \<Longrightarrow> \<exists>o1. tm_lock_order tm x = Some o1 \<and> r \<in> set o1"
  unfolding lk_wf_def by blast

lemma lk_wf_release: "lk_wf tm \<Longrightarrow> lk_wf (release_txn_locks xid tm)"
proof -
  assume tm: "lk_wf tm"
  have "tm_row_locks (release_txn_locks xid tm) r = Some x \<longleftrightarrow>
      (\<exists>o1. tm_lock_order (release_txn_locks xid tm) x = Some o1 \<and> r \<in> set o1)" for r x
    using lk_wf_unique [OF tm, of x _ r] lk_wf_listed [OF tm, of r x]
    by (auto simp: release_txn_locks_def)
  moreover have "distinct o1 \<and> x \<in> tm_active (release_txn_locks xid tm)"
    if "tm_lock_order (release_txn_locks xid tm) x = Some o1" for x o1
    using tm that by (auto simp: lk_wf_def release_txn_locks_def split: if_splits)
  ultimately show ?thesis unfolding lk_wf_def by blast
qed

lemma lk_wf_end:
  assumes "lk_wf tm"
  shows "lk_wf (end_txn xid (release_txn_locks xid tm))"
proof -
  have "lk_wf (release_txn_locks xid tm)" using assms by (rule lk_wf_release)
  moreover have "tm_lock_order (release_txn_locks xid tm) xid = None" by (simp add: release_txn_locks_def)
  ultimately show ?thesis by (force simp: lk_wf_def end_txn_def)
qed

lemma try_row_lock_cases:
  assumes "lk_wf tm" and "xid \<in> tm_active tm"
  shows "try_row_lock r xid tm =
    (case tm_row_locks tm r of
       Some h \<Rightarrow> if h = xid then Inr tm else Inl h
     | None \<Rightarrow> Inr (tm\<lparr>tm_row_locks := (tm_row_locks tm)(r \<mapsto> xid),
         tm_lock_order := (tm_lock_order tm)(xid \<mapsto> case_option [] id (tm_lock_order tm xid) @ [r])\<rparr>))"
  using lk_wf_holder [OF assms(1), of r] by (auto simp: try_row_lock_def Let_def split: option.split)

lemma lk_wf_try:
  assumes "lk_wf tm" and "xid \<in> tm_active tm" and "try_row_lock r xid tm = Inr tm'"
  shows "lk_wf tm'"
proof (cases "tm_row_locks tm r")
  case None
  then have tm': "tm' = tm\<lparr>tm_row_locks := (tm_row_locks tm)(r \<mapsto> xid),
      tm_lock_order := (tm_lock_order tm)(xid \<mapsto> case_option [] id (tm_lock_order tm xid) @ [r])\<rparr>"
    using assms by (simp add: try_row_lock_cases)
  have n: "\<And>x order. tm_lock_order tm x = Some order \<Longrightarrow> r \<notin> set order"
    using assms(1) None unfolding lk_wf_def by (metis option.distinct(1))
  show ?thesis
    unfolding lk_wf_def
  proof (intro conjI allI impI)
    fix r' x
    show "tm_row_locks tm' r' = Some x \<longleftrightarrow> (\<exists>order. tm_lock_order tm' x = Some order \<and> r' \<in> set order)"
    proof (cases "tm_lock_order tm x")
      case None
      then have "tm_row_locks tm r' \<noteq> Some x" using assms(1) unfolding lk_wf_def by simp
      with None show ?thesis by (auto simp: tm')
    next
      case (Some o1)
      have "tm_row_locks tm r' = Some x \<longleftrightarrow> r' \<in> set o1"
        using assms(1) Some unfolding lk_wf_def by simp
      with Some n [OF Some] show ?thesis by (auto simp: tm')
    qed
  next
    fix x order
    assume "tm_lock_order tm' x = Some order"
    then show "distinct order" "x \<in> tm_active tm'"
      using assms(1,2) n [of x]
      by (auto simp: tm' lk_wf_def split: if_splits option.splits)
  qed
next
  case (Some h)
  with assms show ?thesis by (simp add: try_row_lock_cases split: if_splits)
qed

lemma drop_held_eq:
  "drop_held xid rs locks r = (if r \<in> set rs \<and> locks r = Some xid then None else locks r)"
  by (induction rs arbitrary: locks) auto

lemma release_after_cases:
  assumes "lk_wf tm" and "tm_lock_order tm xid = Some order" and "keep \<le> length order"
  shows "release_locks_after xid keep tm =
    Some (tm\<lparr>tm_row_locks := (\<lambda>r. if r \<in> set (drop keep order) then None else tm_row_locks tm r),
             tm_lock_order := (tm_lock_order tm)(xid \<mapsto> take keep order)\<rparr>)"
proof -
  have "tm_row_locks tm r = Some xid" if "r \<in> set (drop keep order)" for r
    using assms(1,2) that in_set_dropD unfolding lk_wf_def by metis
  then have "drop_held xid (drop keep order) (tm_row_locks tm) =
      (\<lambda>r. if r \<in> set (drop keep order) then None else tm_row_locks tm r)"
    by (auto simp: fun_eq_iff drop_held_eq)
  then show ?thesis using assms by (simp add: release_locks_after_def)
qed

lemma lk_wf_release_after:
  assumes "lk_wf tm" and "release_locks_after xid keep tm = Some tm'"
  shows "lk_wf tm'"
proof (cases "tm_lock_order tm xid")
  case None
  with assms show ?thesis by (simp add: release_locks_after_def)
next
  case (Some order)
  with assms have k: "keep \<le> length order" by (simp add: release_locks_after_def split: if_splits)
  have tm': "tm' = tm\<lparr>tm_row_locks := (\<lambda>r. if r \<in> set (drop keep order) then None else tm_row_locks tm r),
      tm_lock_order := (tm_lock_order tm)(xid \<mapsto> take keep order)\<rparr>"
    using release_after_cases [OF assms(1) Some k] assms(2) by simp
  have d: "distinct order" "xid \<in> tm_active tm" using assms(1) Some unfolding lk_wf_def by blast+
  then have td: "set (take keep order) \<inter> set (drop keep order) = {}"
    by (metis append_take_drop_id distinct_append)
  have u: "set order = set (take keep order) \<union> set (drop keep order)"
    by (metis append_take_drop_id set_append)
  show ?thesis
    unfolding lk_wf_def
  proof (intro conjI allI impI)
    fix r x
    have h: "tm_row_locks tm r = Some x \<longleftrightarrow> (\<exists>o1. tm_lock_order tm x = Some o1 \<and> r \<in> set o1)"
      using assms(1) unfolding lk_wf_def by blast
    have hx: "tm_row_locks tm r = Some xid \<longleftrightarrow> r \<in> set order"
      using assms(1) Some unfolding lk_wf_def by simp
    show "tm_row_locks tm' r = Some x \<longleftrightarrow> (\<exists>o1. tm_lock_order tm' x = Some o1 \<and> r \<in> set o1)"
    proof (cases "x = xid")
      case True
      then show ?thesis using hx td u by (auto simp: tm')
    next
      case False
      then have "tm_row_locks tm r = Some x \<Longrightarrow> r \<notin> set (drop keep order)" using hx u by auto
      with False h show ?thesis by (auto simp: tm')
    qed
  next
    fix x o1
    assume "tm_lock_order tm' x = Some o1"
    then show "distinct o1" "x \<in> tm_active tm'"
      using assms(1) d by (auto simp: tm' lk_wf_def distinct_take split: if_splits)
  qed
qed

text \<open>
  \<^verbatim>\<open>acquire_row_locks\<close> of \<^verbatim>\<open>exec/dispatch.rs\<close>: the locks one \<^verbatim>\<open>SELECT ... FOR UPDATE\<close> takes, in
  order. The first conflict ends the statement with an error; the locks taken before it stay.
\<close>

fun acquire_row_locks ::
  "nat \<Rightarrow> (string \<times> nat) list \<Rightarrow> txn_manager \<Rightarrow> (exec_error + unit) \<times> txn_manager" where
  "acquire_row_locks own [] tm = (Inr (), tm)"
| "acquire_row_locks own ((table, i) # ids) tm =
     (case try_row_lock i own tm of
        Inl holder \<Rightarrow>
          (Inl (ExecErr ''40001'' (''could not obtain lock on row in relation \"'' @ table @ [CHR 0x22])), tm)
      | Inr tm' \<Rightarrow> acquire_row_locks own ids tm')"

definition held_order :: "txn_manager \<Rightarrow> nat \<Rightarrow> nat list" where
  "held_order tm x = case_option [] id (tm_lock_order tm x)"

lemma held_iff: "lk_wf tm \<Longrightarrow> tm_row_locks tm r = Some x \<longleftrightarrow> r \<in> set (held_order tm x)"
  by (cases "tm_lock_order tm x") (simp_all add: lk_wf_def held_order_def)

lemma txn_lock_count_held: "txn_lock_count xid t = length (held_order t xid)"
  by (simp add: txn_lock_count_def held_order_def split: option.split)

lemma try_row_lock_extends:
  assumes "lk_wf tm" and "xid \<in> tm_active tm" and "try_row_lock r xid tm = Inr tm'"
  shows "tm_row_locks tm' r = Some xid \<and>
    (\<exists>more. held_order tm' xid = held_order tm xid @ more \<and>
      (\<forall>s. s \<notin> set more \<longrightarrow> tm_row_locks tm' s = tm_row_locks tm s)) \<and>
    (\<forall>x. x \<noteq> xid \<longrightarrow> tm_lock_order tm' x = tm_lock_order tm x) \<and>
    tm_active tm' = tm_active tm \<and> tm_snapshots tm' = tm_snapshots tm \<and> tm_next_xid tm' = tm_next_xid tm"
  using assms by (auto simp: try_row_lock_cases held_order_def split: option.splits if_splits)

lemma acquire_extends:
  assumes "lk_wf tm" and "xid \<in> tm_active tm" and "acquire_row_locks xid ids tm = (res, tm')"
  shows "lk_wf tm' \<and> tm_active tm' = tm_active tm \<and>
    (\<exists>more. held_order tm' xid = held_order tm xid @ more \<and>
      (\<forall>s. s \<notin> set more \<longrightarrow> tm_row_locks tm' s = tm_row_locks tm s)) \<and>
    (\<forall>x. x \<noteq> xid \<longrightarrow> tm_lock_order tm' x = tm_lock_order tm x) \<and>
    (res = Inr () \<longrightarrow> (\<forall>e \<in> set ids. tm_row_locks tm' (snd e) = Some xid))"
  using assms
proof (induction ids arbitrary: tm)
  case (Cons e ids)
  obtain table i where e: "e = (table, i)" by (cases e)
  show ?case
  proof (cases "try_row_lock i xid tm")
    case (Inl h)
    with Cons.prems e show ?thesis by auto
  next
    case (Inr tm1)
    note s1 = try_row_lock_extends [OF Cons.prems(1,2) Inr]
    have wf1: "lk_wf tm1" using Cons.prems(1,2) Inr by (rule lk_wf_try)
    have s2: "lk_wf tm' \<and> tm_active tm' = tm_active tm1 \<and>
      (\<exists>more. held_order tm' xid = held_order tm1 xid @ more \<and>
        (\<forall>s. s \<notin> set more \<longrightarrow> tm_row_locks tm' s = tm_row_locks tm1 s)) \<and>
      (\<forall>x. x \<noteq> xid \<longrightarrow> tm_lock_order tm' x = tm_lock_order tm1 x) \<and>
      (res = Inr () \<longrightarrow> (\<forall>e \<in> set ids. tm_row_locks tm' (snd e) = Some xid))"
      by (rule Cons.IH [OF wf1]) (use s1 Cons.prems Inr e in auto)
    obtain m1 where m1: "held_order tm1 xid = held_order tm xid @ m1"
      "\<forall>s. s \<notin> set m1 \<longrightarrow> tm_row_locks tm1 s = tm_row_locks tm s" using s1 by blast
    obtain m2 where m2: "held_order tm' xid = held_order tm1 xid @ m2"
      "\<forall>s. s \<notin> set m2 \<longrightarrow> tm_row_locks tm' s = tm_row_locks tm1 s" using s2 by blast
    have "i \<in> set (held_order tm1 xid)" using s1 held_iff [OF wf1] by blast
    then have "tm_row_locks tm' i = Some xid" using m2 s2 held_iff [of tm'] by auto
    moreover have "held_order tm' xid = held_order tm xid @ (m1 @ m2) \<and>
        (\<forall>s. s \<notin> set (m1 @ m2) \<longrightarrow> tm_row_locks tm' s = tm_row_locks tm s)"
      using m1 m2 by simp
    ultimately show ?thesis using s1 s2 by (auto simp: e)
  qed
qed auto

lemma dead_invisible:
  assumes "tm_wf tm" and "v_xmax v < tm_next_xid tm" and "version_dead_to_all tm v"
    and "s = take_snapshot tm \<or> s \<in> snd ` set (tm_snapshots tm)"
  shows "\<not> row_visible v s owns"
proof (rule rowv.dropped_by_seen)
  show "v_xmax v \<noteq> 0" using assms(3) by (auto simp: version_dead_to_all_def split: if_splits)
  show "xid_seen s owns (v_xmax v)"
  proof (cases "s = take_snapshot tm")
    case True
    with assms show ?thesis by (auto simp: fresh_seen xid_committed_def version_dead_to_all_def split: if_splits)
  next
    case False
    with assms(3,4) dead_seen show ?thesis by blast
  qed
qed

section \<open>Properties\<close>

text \<open>
  Vacuum safety at the level of one version: a version that \<open>version_dead_to_all\<close> reports
  dead is invisible to every registered snapshot and to every snapshot taken from now on
  (at this state), whatever xids its reader owns.
\<close>

theorem dead_version_invisible:
  assumes "tm_wf tm" and "v_xmax v < tm_next_xid tm" and "version_dead_to_all tm v"
    and "s = take_snapshot tm \<or> s \<in> snd ` set (tm_snapshots tm)"
  shows "\<not> row_visible v s owns"
  using assms by (rule dead_invisible)

definition demo_tm :: txn_manager where
  "demo_tm = \<lparr>tm_next_xid = 9, tm_next_row_id = 4, tm_active = {7}, tm_snapshots = [(7, \<lparr>sn_active = [7], sn_next_xid = 8\<rparr>)],
     tm_row_locks = Map.empty, tm_lock_order = Map.empty\<rparr>"

definition demo_version :: row_version where
  "demo_version = \<lparr>v_id = 1, v_values = [VBool True], v_xmin = 2, v_xmax = 5, v_toast = [0]\<rparr>"

theorem dead_version_invisible_witness:
  "\<not> row_visible demo_version \<lparr>sn_active = [7], sn_next_xid = 8\<rparr> [7]"
  by (rule dead_version_invisible [of demo_tm])
    (simp_all add: demo_tm_def demo_version_def tm_wf_def snap_wf_def version_dead_to_all_def)

text \<open>
  Vacuum is not needlessly shy: a deleted version that is not reported dead has a creator
  or deleter still running, or some registered snapshot still does not see its deleter, so
  that for a reader owning neither the version is not gone.
\<close>

theorem version_kept_reason:
  assumes "\<not> version_dead_to_all tm v" and "v_xmax v \<noteq> 0"
  shows "v_xmin v \<in> tm_active tm \<or> v_xmax v \<in> tm_active tm \<or>
    (\<exists>s \<in> snd ` set (tm_snapshots tm). \<forall>owns. v_xmax v \<notin> set owns \<longrightarrow>
      row_visible v s owns = xid_seen s owns (v_xmin v))"
  using assms
  by (force simp: version_dead_to_all_def list_all_iff rowv.visible_iff xid_seen_def split: if_splits)

theorem version_kept_reason_witness:
  "\<exists>s \<in> snd ` set (tm_snapshots demo_tm). \<forall>owns. 8 \<notin> set owns \<longrightarrow>
      row_visible (demo_version\<lparr>v_xmax := 8\<rparr>) s owns = xid_seen s owns 2"
  using version_kept_reason [of demo_tm "demo_version\<lparr>v_xmax := 8\<rparr>"]
  by (simp add: demo_tm_def demo_version_def version_dead_to_all_def)

text \<open>
  C29. Row locks exclude one another: in a consistent lock state an active transaction's
  attempt either fails with the other holder, which is active, or succeeds, is consistent
  again, makes it the holder of that row and changes no other row's holder. It fails exactly
  when another transaction holds the row.
\<close>

theorem row_lock_exclusive:
  assumes "lk_wf tm" and "xid \<in> tm_active tm"
  shows "case try_row_lock r xid tm of
      Inl h \<Rightarrow> row_lock_holder r tm = Some h \<and> h \<noteq> xid \<and> h \<in> tm_active tm
    | Inr tm' \<Rightarrow> lk_wf tm' \<and> row_lock_holder r tm \<in> {None, Some xid} \<and> row_lock_holder r tm' = Some xid \<and>
        (\<forall>r'. r' \<noteq> r \<longrightarrow> row_lock_holder r' tm' = row_lock_holder r' tm)"
proof (cases "try_row_lock r xid tm")
  case (Inl h)
  with assms lk_wf_holder [OF assms(1), of r h] show ?thesis
    by (auto simp: try_row_lock_cases row_lock_holder_def split: option.splits if_splits)
next
  case (Inr tm')
  with assms lk_wf_try [OF assms Inr] show ?thesis
    by (auto simp: try_row_lock_cases row_lock_holder_def split: option.splits if_splits)
qed

theorem row_lock_exclusive_witness:
  "case try_row_lock 3 7 demo_tm of
      Inl h \<Rightarrow> False
    | Inr tm' \<Rightarrow> row_lock_holder 3 tm' = Some 7"
  using row_lock_exclusive [of demo_tm 7 3]
  by (auto simp: demo_tm_def lk_wf_def row_lock_holder_def split: sum.splits)

text \<open>
  \<^verbatim>\<open>ROLLBACK TO SAVEPOINT\<close> releases exactly the locks taken since the savepoint: with the
  count noted at the savepoint, after any statement that locks rows, whether it succeeds or
  stops half way with an error, releasing beyond the count does not panic and brings every
  holder back to what it was.
\<close>

theorem savepoint_locks_roundtrip:
  assumes "lk_wf tm" and "xid \<in> tm_active tm" and "acquire_row_locks xid ids tm = (res, tm')"
  shows "\<exists>tm2. release_locks_after xid (txn_lock_count xid tm) tm' = Some tm2 \<and> lk_wf tm2 \<and>
    (\<forall>r. row_lock_holder r tm2 = row_lock_holder r tm) \<and> (\<forall>x. held_order tm2 x = held_order tm x)"
proof -
  obtain more where a: "lk_wf tm'" "held_order tm' xid = held_order tm xid @ more"
    "\<forall>s. s \<notin> set more \<longrightarrow> tm_row_locks tm' s = tm_row_locks tm s"
    "\<forall>x. x \<noteq> xid \<longrightarrow> tm_lock_order tm' x = tm_lock_order tm x"
    using acquire_extends [OF assms] by blast
  show ?thesis
  proof (cases "tm_lock_order tm' xid")
    case None
    with a(2) have "held_order tm xid = []" "more = []" by (simp_all add: held_order_def)
    moreover have "held_order tm' x = held_order tm x" for x
      using a(2,4) \<open>more = []\<close> by (cases "x = xid") (simp_all add: held_order_def)
    moreover have "release_locks_after xid (txn_lock_count xid tm) tm' = Some tm'"
      using None by (simp add: release_locks_after_def)
    ultimately show ?thesis using a(1,3) by (simp add: row_lock_holder_def)
  next
    case (Some order)
    then have o: "order = held_order tm xid @ more" using a(2) by (simp add: held_order_def)
    note r = release_after_cases [OF a(1) Some, of "txn_lock_count xid tm"]
    have r: "release_locks_after xid (txn_lock_count xid tm) tm' =
      Some (tm'\<lparr>tm_row_locks := (\<lambda>r. if r \<in> set more then None else tm_row_locks tm' r),
        tm_lock_order := (tm_lock_order tm')(xid \<mapsto> held_order tm xid)\<rparr>)"
      using r by (simp add: o txn_lock_count_held)
    have "tm_row_locks tm s = None" if "s \<in> set more" for s
    proof (rule ccontr)
      assume "tm_row_locks tm s \<noteq> None"
      then obtain x where x: "tm_row_locks tm s = Some x" by auto
      have "distinct order" using a(1) Some unfolding lk_wf_def by blast
      with that o have ns: "s \<notin> set (held_order tm xid)" by auto
      with x held_iff [OF assms(1)] have "x \<noteq> xid" by blast
      moreover from this a(4) have "held_order tm' x = held_order tm x" by (simp add: held_order_def)
      then have "tm_row_locks tm' s = Some x" using x held_iff [OF assms(1)] held_iff [OF a(1)] by simp
      moreover have "tm_row_locks tm' s = Some xid" using that a(1,2) by (simp add: held_iff)
      ultimately show False by simp
    qed
    then show ?thesis
      using r lk_wf_release_after [OF a(1) r] a(3,4)
      by (auto simp: row_lock_holder_def held_order_def)
  qed
qed

theorem savepoint_locks_roundtrip_witness:
  "\<exists>tm2. release_locks_after 7 0 (snd (acquire_row_locks 7 [(''t'', 3), (''t'', 1)] demo_tm)) = Some tm2 \<and>
     row_lock_holder 3 tm2 = None"
  using savepoint_locks_roundtrip [of demo_tm 7 "[(''t'', 3), (''t'', 1)]"
      "fst (acquire_row_locks 7 [(''t'', 3), (''t'', 1)] demo_tm)"
      "snd (acquire_row_locks 7 [(''t'', 3), (''t'', 1)] demo_tm)"]
  by (auto simp: lk_wf_def txn_lock_count_def demo_tm_def row_lock_holder_def)

end
