(* ===== verification/Catalog.thy ===== *)
theory Catalog
  imports Mvcc
begin

text \<open>
  The versioned catalog: \<^verbatim>\<open>Database\<close> of \<^verbatim>\<open>storage.rs\<close> with its lookups, the maintenance of
  the secondary indexes and the unique checks. The hash maps that the program iterates are
  association lists, whose order is the iteration order. Of the map values, tables, indexes,
  sequences and roles are modelled; views, types, functions, operators, publications and
  rules are not.
\<close>

section \<open>Catalog objects\<close>

datatype seq_type = SeqSmallInt | SeqInteger | SeqBigInt

record sequence =
  sq_name :: string
  sq_type :: seq_type
  sq_start :: i64
  sq_increment :: i64
  sq_min_value :: i64
  sq_max_value :: i64
  sq_cycle :: bool
  sq_cache :: i64
  sq_current :: "i64 option"
  sq_is_called :: bool
  sq_created_xmin :: nat
  sq_dropped_xmax :: nat
  sq_owner :: string
  sq_acl :: "acl_entry list"
  sq_owned_by :: "(string \<times> string \<times> nat option) option"

definition sequence_new ::
  "string \<Rightarrow> seq_type \<Rightarrow> i64 \<Rightarrow> i64 \<Rightarrow> i64 \<Rightarrow> i64 \<Rightarrow> bool \<Rightarrow> i64 \<Rightarrow> nat \<Rightarrow> sequence" where
  "sequence_new name ty start increment min_value max_value cycle cache created_xmin =
     \<lparr>sq_name = name, sq_type = ty, sq_start = start, sq_increment = increment, sq_min_value = min_value,
      sq_max_value = max_value, sq_cycle = cycle, sq_cache = cache, sq_current = None, sq_is_called = False,
      sq_created_xmin = created_xmin, sq_dropped_xmax = 0, sq_owner = ''postgres'', sq_acl = [],
      sq_owned_by = None\<rparr>"

record role_membership =
  mb_role :: string
  mb_grantor :: string
  mb_admin :: bool
  mb_inherit :: bool
  mb_set :: bool

text \<open>\<^verbatim>\<open>Role\<close>, less the password verifier.\<close>

record role =
  ro_name :: string
  ro_can_login :: bool
  ro_superuser :: bool
  ro_bypassrls :: bool
  ro_inherit :: bool
  ro_createrole :: bool
  ro_createdb :: bool
  ro_replication :: bool
  ro_connlimit :: i32
  ro_memberships :: "role_membership list"
  ro_valid_until :: "string option"
  ro_created_xmin :: nat
  ro_dropped_xmax :: nat

definition bootstrap_postgres :: role where
  "bootstrap_postgres =
     \<lparr>ro_name = ''postgres'', ro_can_login = True, ro_superuser = True, ro_bypassrls = True, ro_inherit = True,
      ro_createrole = True, ro_createdb = True, ro_replication = True, ro_connlimit = - 1,
      ro_memberships = [], ro_valid_until = None, ro_created_xmin = 0, ro_dropped_xmax = 0\<rparr>"

record database =
  db_tables :: "(string \<times> table list) list"
  db_temp_tables :: "(nat \<times> (string \<times> table) list) list"
  db_temp_indexes :: "(nat \<times> (string \<times> index) list) list"
  db_indexes :: "(string \<times> index) list"
  db_sequences :: "(string \<times> sequence list) list"
  db_roles :: "(string \<times> role list) list"
  db_owner :: string
  db_acl :: "acl_entry list"
  db_obj_schema :: "(string \<times> string) list"

definition seq_visible :: "sequence \<Rightarrow> snapshot \<Rightarrow> nat \<Rightarrow> bool" where
  "seq_visible s snap own =
     (let created_ok = (sq_created_xmin s = own \<or>
        sq_created_xmin s < sn_next_xid snap \<and> sq_created_xmin s \<notin> set (sn_active snap))
      in if \<not> created_ok then False
         else if sq_dropped_xmax s = 0 then True
         else if sq_dropped_xmax s = own then False
         else \<not> (sq_dropped_xmax s < sn_next_xid snap \<and> sq_dropped_xmax s \<notin> set (sn_active snap)))"

definition role_visible :: "role \<Rightarrow> snapshot \<Rightarrow> nat \<Rightarrow> bool" where
  "role_visible r snap own =
     (let created_ok = (ro_created_xmin r = own \<or>
        ro_created_xmin r < sn_next_xid snap \<and> ro_created_xmin r \<notin> set (sn_active snap))
      in if \<not> created_ok then False
         else if ro_dropped_xmax r = 0 then True
         else if ro_dropped_xmax r = own then False
         else \<not> (ro_dropped_xmax r < sn_next_xid snap \<and> ro_dropped_xmax r \<notin> set (sn_active snap)))"

lemma seq_visible_iff:
  "seq_visible q s own \<longleftrightarrow>
     xid_seen s [own] (sq_created_xmin q) \<and> (sq_dropped_xmax q = 0 \<or> \<not> xid_seen s [own] (sq_dropped_xmax q))"
  by (auto simp: seq_visible_def xid_seen_def Let_def)

lemma role_visible_iff:
  "role_visible r s own \<longleftrightarrow>
     xid_seen s [own] (ro_created_xmin r) \<and> (ro_dropped_xmax r = 0 \<or> \<not> xid_seen s [own] (ro_dropped_xmax r))"
  by (auto simp: role_visible_def xid_seen_def Let_def)

section \<open>Lookups\<close>

text \<open>
  \<open>find_first\<close> is \<^verbatim>\<open>Iterator::find_map\<close>; \<open>upd_first\<close> is the loop that mutates the first
  element its body finds something in, and returns.
\<close>

fun find_first :: "('a \<Rightarrow> 'b option) \<Rightarrow> 'a list \<Rightarrow> 'b option" where
  "find_first f [] = None"
| "find_first f (x # xs) = (case f x of Some y \<Rightarrow> Some y | None \<Rightarrow> find_first f xs)"

fun upd_first :: "('a \<Rightarrow> 'a option) \<Rightarrow> 'a list \<Rightarrow> 'a list option" where
  "upd_first f [] = None"
| "upd_first f (x # xs) =
     (case f x of Some y \<Rightarrow> Some (y # xs) | None \<Rightarrow> map_option ((#) x) (upd_first f xs))"

text \<open>\<^verbatim>\<open>str::rsplit_once('.')\<close>.\<close>

fun split_once :: "char \<Rightarrow> string \<Rightarrow> (string \<times> string) option" where
  "split_once c [] = None"
| "split_once c (x # xs) =
     (if x = c then Some ([], xs)
      else (case split_once c xs of Some (a, b) \<Rightarrow> Some (x # a, b) | None \<Rightarrow> None))"

definition rsplit_once :: "char \<Rightarrow> string \<Rightarrow> (string \<times> string) option" where
  "rsplit_once c s =
     (case split_once c (rev s) of Some (a, b) \<Rightarrow> Some (rev b, rev a) | None \<Rightarrow> None)"

definition find_role :: "database \<Rightarrow> string \<Rightarrow> snapshot \<Rightarrow> nat \<Rightarrow> role option" where
  "find_role db name snap own =
     Option.bind (map_of (db_roles db) name) (find (\<lambda>r. role_visible r snap own))"

definition find_sequence :: "database \<Rightarrow> string \<Rightarrow> snapshot \<Rightarrow> nat \<Rightarrow> sequence option" where
  "find_sequence db name snap own =
     Option.bind (map_of (db_sequences db) name) (find (\<lambda>s. seq_visible s snap own))"

text \<open>The mutable variant writes the found version through its reference.\<close>

definition update_sequence ::
  "database \<Rightarrow> string \<Rightarrow> snapshot \<Rightarrow> nat \<Rightarrow> (sequence \<Rightarrow> sequence) \<Rightarrow> database option" where
  "update_sequence db name snap own f =
     (case map_of (db_sequences db) name of
        None \<Rightarrow> None
      | Some vs \<Rightarrow>
          (case upd_first (\<lambda>s. if seq_visible s snap own then Some (f s) else None) vs of
             None \<Rightarrow> None
           | Some vs' \<Rightarrow> Some (db\<lparr>db_sequences := hm_modify name (\<lambda>_. vs') (db_sequences db)\<rparr>)))"

definition temp_table :: "database \<Rightarrow> nat \<Rightarrow> string \<Rightarrow> table option" where
  "temp_table db session name = Option.bind (map_of (db_temp_tables db) session) (\<lambda>m. map_of m name)"

definition find_table :: "database \<Rightarrow> string \<Rightarrow> snapshot \<Rightarrow> nat list \<Rightarrow> nat \<Rightarrow> table option" where
  "find_table db name snap owns session =
     (let visible = (\<lambda>vs. find (\<lambda>t. table_visible t snap owns) vs) in
      case temp_table db session name of
        Some t \<Rightarrow> Some t
      | None \<Rightarrow>
          (case Option.bind (map_of (db_tables db) name) visible of
             Some t \<Rightarrow> Some t
           | None \<Rightarrow>
               (case rsplit_once (CHR ''.'') name of
                  Some (sch, base) \<Rightarrow>
                    if map_of (db_obj_schema db) base = Some sch
                    then Option.bind (map_of (db_tables db) base) visible else None
                | None \<Rightarrow> None)))"

text \<open>
  \<^verbatim>\<open>find_table_mut\<close>: its schema fallback runs only when no table of the written name is
  stored at all, where \<open>find_table\<close> falls back also when none of its versions is visible.
\<close>

definition table_key :: "database \<Rightarrow> string \<Rightarrow> string" where
  "table_key db name =
     (if map_of (db_tables db) name \<noteq> None then name
      else
        (case rsplit_once (CHR ''.'') name of
           Some (sch, base) \<Rightarrow> if map_of (db_obj_schema db) base = Some sch then base else name
         | None \<Rightarrow> name))"

definition update_table ::
  "database \<Rightarrow> string \<Rightarrow> snapshot \<Rightarrow> nat list \<Rightarrow> nat \<Rightarrow> (table \<Rightarrow> table) \<Rightarrow> database option" where
  "update_table db name snap owns session f =
     (case temp_table db session name of
        Some t \<Rightarrow>
          Some (db\<lparr>db_temp_tables := hm_modify session (hm_modify name f) (db_temp_tables db)\<rparr>)
      | None \<Rightarrow>
          (let key = table_key db name in
           case map_of (db_tables db) key of
             None \<Rightarrow> None
           | Some vs \<Rightarrow>
               (case upd_first (\<lambda>t. if table_visible t snap owns then Some (f t) else None) vs of
                  None \<Rightarrow> None
                | Some vs' \<Rightarrow> Some (db\<lparr>db_tables := hm_modify key (\<lambda>_. vs') (db_tables db)\<rparr>))))"

definition is_temp_table :: "database \<Rightarrow> nat \<Rightarrow> string \<Rightarrow> bool" where
  "is_temp_table db session name \<longleftrightarrow> temp_table db session name \<noteq> None"

definition row_id_in_temp :: "database \<Rightarrow> nat \<Rightarrow> bool" where
  "row_id_in_temp db i \<longleftrightarrow>
     list_ex (\<lambda>(s, tmps). list_ex (\<lambda>(n, t). row_pos t i \<noteq> None) tmps) (db_temp_tables db)"

definition table_name_by_oid :: "database \<Rightarrow> u32 \<Rightarrow> string option" where
  "table_name_by_oid db oid =
     find_first (\<lambda>(n, vs). if list_ex (\<lambda>v. t_oid v = oid) vs then Some n else None) (db_tables db)"

section \<open>Row versions by id\<close>

text \<open>The version at the position that the table's map gives for an id.\<close>

definition version_in :: "nat \<Rightarrow> table \<Rightarrow> row_version option" where
  "version_in i t = (case row_pos t i of Some p \<Rightarrow> Some (t_rows t ! p) | None \<Rightarrow> None)"

definition find_row_version :: "database \<Rightarrow> nat \<Rightarrow> row_version option" where
  "find_row_version db i =
     (case find_first (\<lambda>(n, vs). find_first (version_in i) vs) (db_tables db) of
        Some v \<Rightarrow> Some v
      | None \<Rightarrow> find_first (\<lambda>(s, tmps). find_first (\<lambda>(n, t). version_in i t) tmps) (db_temp_tables db))"

text \<open>
  \<^verbatim>\<open>find_row_version_mut\<close> followed by a write of \<^verbatim>\<open>xmax\<close> through the reference, which is all its
  callers do with it; \<open>c\<close> is the caller's test of the version.
\<close>

definition restamp_in :: "nat \<Rightarrow> (row_version \<Rightarrow> bool) \<Rightarrow> nat \<Rightarrow> table \<Rightarrow> table option" where
  "restamp_in i c x t =
     (case row_pos t i of Some p \<Rightarrow> Some (if c (t_rows t ! p) then set_xmax p x t else t) | None \<Rightarrow> None)"

definition restamp_version :: "database \<Rightarrow> nat \<Rightarrow> (row_version \<Rightarrow> bool) \<Rightarrow> nat \<Rightarrow> database" where
  "restamp_version db i c x =
     (case upd_first (\<lambda>(n, vs). map_option (Pair n) (upd_first (restamp_in i c x) vs)) (db_tables db) of
        Some ts \<Rightarrow> db\<lparr>db_tables := ts\<rparr>
      | None \<Rightarrow>
          (case upd_first (\<lambda>(s, tmps). map_option (Pair s)
              (upd_first (\<lambda>(n, t). map_option (Pair n) (restamp_in i c x t)) tmps)) (db_temp_tables db) of
             Some tmps \<Rightarrow> db\<lparr>db_temp_tables := tmps\<rparr>
           | None \<Rightarrow> db))"

text \<open>
  \<^verbatim>\<open>remove_own_version\<close>: the first table that holds the id decides; it removes the version
  when its creator is one of \<open>owns\<close> and reports its values and whether the table is temporary.
\<close>

definition take_own :: "nat \<Rightarrow> nat list \<Rightarrow> table \<Rightarrow> (row option \<times> table) option" where
  "take_own i owns t =
     (case row_pos t i of
        None \<Rightarrow> None
      | Some p \<Rightarrow>
          if v_xmin (t_rows t ! p) \<in> set owns
          then (case swap_remove_version p t of
                  Some (rv, t') \<Rightarrow> Some (Some (v_values rv), t')
                | None \<Rightarrow> Some (None, t))
          else Some (None, t))"

fun take_first :: "('a \<Rightarrow> ('b \<times> 'a) option) \<Rightarrow> 'a list \<Rightarrow> ('b \<times> 'a list) option" where
  "take_first f [] = None"
| "take_first f (x # xs) =
     (case f x of Some (r, y) \<Rightarrow> Some (r, y # xs)
      | None \<Rightarrow> (case take_first f xs of Some (r, ys) \<Rightarrow> Some (r, x # ys) | None \<Rightarrow> None))"

definition remove_own_version :: "database \<Rightarrow> nat \<Rightarrow> nat list \<Rightarrow> (row \<times> bool) option \<times> database" where
  "remove_own_version db i owns =
     (case take_first (\<lambda>(n, vs). map_option (apsnd (Pair n)) (take_first (take_own i owns) vs)) (db_tables db) of
        Some (values, ts) \<Rightarrow> (map_option (\<lambda>vals. (vals, False)) values, db\<lparr>db_tables := ts\<rparr>)
      | None \<Rightarrow>
          (case take_first (\<lambda>(s, tmps). map_option (apsnd (Pair s))
              (take_first (\<lambda>(n, t). map_option (apsnd (Pair n)) (take_own i owns t)) tmps)) (db_temp_tables db) of
             Some (values, tmps) \<Rightarrow> (map_option (\<lambda>vals. (vals, True)) values, db\<lparr>db_temp_tables := tmps\<rparr>)
           | None \<Rightarrow> (None, db)))"

end
