(* ===== verification/IndexMaint.thy ===== *)
theory IndexMaint
  imports Catalog
begin

text \<open>
  Maintenance of the secondary indexes and the unique checks of \<^verbatim>\<open>impl Database\<close>: which
  indexes a reader sees, the entries an inserted or removed version gets, and the checks
  before a write, inside a deferred check and at commit. \<^verbatim>\<open>None\<close> of an outer option is a panic:
  an indexed column position past the end of a row. The lemmas show the checks through the
  index equivalent to a scan of the table.
\<close>

section \<open>Equality of values\<close>

text \<open>The derived \<^verbatim>\<open>PartialEq\<close> of \<^verbatim>\<open>Value\<close>: structural, but IEEE on floats and by value on numerics.\<close>

definition float_eq :: "u64 \<Rightarrow> u64 \<Rightarrow> bool" where
  "float_eq a b \<longleftrightarrow>
     \<not> is_nan a \<and> \<not> is_nan b \<and> (a = b \<or> a AND 0x7FFFFFFFFFFFFFFF = 0 \<and> b AND 0x7FFFFFFFFFFFFFFF = 0)"

definition numeric_eq :: "numeric \<Rightarrow> numeric \<Rightarrow> bool" where
  "numeric_eq a b \<longleftrightarrow>
     special a = special b \<and> nscale a = nscale b \<and> unscaled a = unscaled b \<and>
     (big a = None \<and> big b = None \<or> numeric_mag a = numeric_mag b)"

text \<open>
  The recursion goes through the values inside a record, an array, a bound and a multirange:
  mapped over the components of the left value, it leaves the tests to apply to the right one.
\<close>

primrec value_eq :: "sql_value \<Rightarrow> sql_value \<Rightarrow> bool"
  and range_eq :: "range_val \<Rightarrow> range_val \<Rightarrow> bool" where
  "value_eq (VFloat4 a) = (\<lambda>w. case w of VFloat4 b \<Rightarrow> float_eq (f32_to_f64 a) (f32_to_f64 b) | _ \<Rightarrow> False)"
| "value_eq (VFloat a) = (\<lambda>w. case w of VFloat b \<Rightarrow> float_eq a b | _ \<Rightarrow> False)"
| "value_eq (VNumeric a) = (\<lambda>w. case w of VNumeric b \<Rightarrow> numeric_eq a b | _ \<Rightarrow> False)"
| "value_eq (VRange a) = (\<lambda>w. case w of VRange b \<Rightarrow> range_eq a b | _ \<Rightarrow> False)"
| "value_eq (VMultirange e n rs) =
     (\<lambda>w. case w of
        VMultirange e' n' rs' \<Rightarrow> e = e' \<and> n = n' \<and> list_all2 (\<lambda>f. f) (map range_eq rs) rs'
      | _ \<Rightarrow> False)"
| "value_eq (VRecord fs) =
     (\<lambda>w. case w of
        VRecord gs \<Rightarrow> list_all2 (\<lambda>(n, f) (m, x). n = m \<and> f x) (map (map_prod id value_eq) fs) gs
      | _ \<Rightarrow> False)"
| "value_eq (VArray e ds ls vs) =
     (\<lambda>w. case w of
        VArray e' ds' ls' vs' \<Rightarrow> e = e' \<and> ds = ds' \<and> ls = ls' \<and> list_all2 (\<lambda>f. f) (map value_eq vs) vs'
      | _ \<Rightarrow> False)"
| "value_eq (VSmallInt a) = (\<lambda>w. w = VSmallInt a)"
| "value_eq (VInt a) = (\<lambda>w. w = VInt a)"
| "value_eq (VBigInt a) = (\<lambda>w. w = VBigInt a)"
| "value_eq (VText a) = (\<lambda>w. w = VText a)"
| "value_eq (VBpChar a) = (\<lambda>w. w = VBpChar a)"
| "value_eq (VSingleChar a) = (\<lambda>w. w = VSingleChar a)"
| "value_eq (VBool a) = (\<lambda>w. w = VBool a)"
| "value_eq (VDate a) = (\<lambda>w. w = VDate a)"
| "value_eq (VTimestamp a) = (\<lambda>w. w = VTimestamp a)"
| "value_eq (VTimestamptz a) = (\<lambda>w. w = VTimestamptz a)"
| "value_eq (VTime a) = (\<lambda>w. w = VTime a)"
| "value_eq (VTimeTz a b) = (\<lambda>w. w = VTimeTz a b)"
| "value_eq (VInterval a) = (\<lambda>w. w = VInterval a)"
| "value_eq (VBytea a) = (\<lambda>w. w = VBytea a)"
| "value_eq (VUuid a) = (\<lambda>w. w = VUuid a)"
| "value_eq (VBitString a) = (\<lambda>w. w = VBitString a)"
| "value_eq (VPgLsn a) = (\<lambda>w. w = VPgLsn a)"
| "value_eq (VJsonb a) = (\<lambda>w. w = VJsonb a)"
| "value_eq (VJsonpath a) = (\<lambda>w. w = VJsonpath a)"
| "value_eq (VTsVector a) = (\<lambda>w. w = VTsVector a)"
| "value_eq (VTsQuery a) = (\<lambda>w. w = VTsQuery a)"
| "value_eq (VTid a b) = (\<lambda>w. w = VTid a b)"
| "value_eq VNull = (\<lambda>w. w = VNull)"
| "range_eq (RangeVal e n emp lo li hi hinc) =
     (\<lambda>s. e = rv_elem s \<and> n = rv_name s \<and> emp = rv_empty s \<and>
       rel_option (\<lambda>f. f) (map_option value_eq lo) (rv_lo s) \<and> li = rv_lo_inc s \<and>
       rel_option (\<lambda>f. f) (map_option value_eq hi) (rv_hi s) \<and> hinc = rv_hi_inc s)"

section \<open>Visible indexes\<close>

definition find_index :: "database \<Rightarrow> string \<Rightarrow> snapshot \<Rightarrow> nat list \<Rightarrow> index option" where
  "find_index db name snap owns =
     (case map_of (db_indexes db) name of
        Some ix \<Rightarrow> if index_visible (ix_def ix) snap owns then Some ix else None
      | None \<Rightarrow> None)"

definition by_name :: "index list \<Rightarrow> index list" where
  "by_name = sort_by (\<lambda>a b. ord_cmp (ix_name (ix_def a)) (ix_name (ix_def b)))"

definition visible_indexes_for ::
  "database \<Rightarrow> string \<Rightarrow> snapshot \<Rightarrow> nat list \<Rightarrow> nat \<Rightarrow> index list" where
  "visible_indexes_for db tab snap owns session =
     (let mine = (\<lambda>m. filter (\<lambda>ix. ix_table (ix_def ix) = tab \<and> index_visible (ix_def ix) snap owns) (map snd m))
      in if is_temp_table db session tab
         then by_name (case map_of (db_temp_indexes db) session of Some m \<Rightarrow> mine m | None \<Rightarrow> [])
         else by_name (mine (db_indexes db)))"

section \<open>Entries of a row version\<close>

definition index_targets :: "string \<Rightarrow> (index_def \<Rightarrow> bool) \<Rightarrow> database \<Rightarrow> (string \<times> nat list) list" where
  "index_targets tab p db =
     map (\<lambda>ix. (ix_name (ix_def ix), ix_cols (ix_def ix)))
       (filter (\<lambda>ix. ix_table (ix_def ix) = tab \<and> ix_dropped_xmax (ix_def ix) = 0 \<and>
                     ix_planner_usable (ix_def ix) \<and> p (ix_def ix))
         (map snd (db_indexes db)))"

fun apply_targets ::
  "(row \<Rightarrow> index \<Rightarrow> index) \<Rightarrow> row \<Rightarrow> (string \<times> nat list) list \<Rightarrow> (string \<times> index) list \<Rightarrow>
     (string \<times> index) list option" where
  "apply_targets f values [] ixs = Some ixs"
| "apply_targets f values ((name, cols) # ts) ixs =
     (case cols_key cols values of
        None \<Rightarrow> None
      | Some key \<Rightarrow> apply_targets f values ts (hm_modify name (f key) ixs))"

definition index_insert_row ::
  "key_env \<Rightarrow> string \<Rightarrow> nat \<Rightarrow> row \<Rightarrow> nat \<Rightarrow> database \<Rightarrow> database option" where
  "index_insert_row env tab i values session db =
     (if is_temp_table db session tab then Some db
      else
        (case apply_targets (\<lambda>key ix. index_insert env ix key i) values
                (index_targets tab (\<lambda>_. True) db) (db_indexes db) of
           Some ixs \<Rightarrow> Some (db\<lparr>db_indexes := ixs\<rparr>)
         | None \<Rightarrow> None))"

definition index_insert_row_replay :: "key_env \<Rightarrow> string \<Rightarrow> nat \<Rightarrow> row \<Rightarrow> database \<Rightarrow> database option" where
  "index_insert_row_replay env tab i values db =
     (case apply_targets (\<lambda>key ix. index_insert env ix key i) values
             (index_targets tab (\<lambda>d. list_all (\<lambda>c. c < length values) (ix_cols d)) db) (db_indexes db) of
        Some ixs \<Rightarrow> Some (db\<lparr>db_indexes := ixs\<rparr>)
      | None \<Rightarrow> None)"

definition index_remove_row :: "key_env \<Rightarrow> string \<Rightarrow> nat \<Rightarrow> row \<Rightarrow> database \<Rightarrow> database option" where
  "index_remove_row env tab i values db =
     (case apply_targets (\<lambda>key ix. index_remove env ix key i) values
             (index_targets tab (\<lambda>_. True) db) (db_indexes db) of
        Some ixs \<Rightarrow> Some (db\<lparr>db_indexes := ixs\<rparr>)
      | None \<Rightarrow> None)"

section \<open>Unique checks\<close>

text \<open>A version counts as alive for the writer: not deleted by it, and its own or visible.\<close>

definition alive_for :: "row_version \<Rightarrow> snapshot \<Rightarrow> nat list \<Rightarrow> bool" where
  "alive_for r snap owns =
     (if v_xmax r \<in> set owns then False else v_xmin r \<in> set owns \<or> row_visible r snap owns)"

definition id_alive :: "table \<Rightarrow> snapshot \<Rightarrow> nat list \<Rightarrow> nat \<Rightarrow> bool" where
  "id_alive t snap owns i =
     (case row_pos t i of Some p \<Rightarrow> alive_for (t_rows t ! p) snap owns | None \<Rightarrow> False)"

text \<open>
  The bucket of a row in one index, when the index is unique and usable and no null part
  exempts the row; the empty bucket otherwise. \<^verbatim>\<open>None\<close> is the panic of \<^verbatim>\<open>key_for\<close>.
\<close>

definition unique_bucket :: "key_env \<Rightarrow> index \<Rightarrow> row \<Rightarrow> nat list option" where
  "unique_bucket env ix values =
     (if \<not> ix_unique (ix_def ix) then Some []
      else if \<not> ix_planner_usable (ix_def ix) then Some []
      else
        (case index_key_for ix values of
           None \<Rightarrow> None
         | Some key \<Rightarrow>
             if \<not> ix_nulls_not_distinct (ix_def ix) \<and> list_ex is_null key then Some []
             else (case bt_get (index_key_ord env) key (ix_tree ix) of
                     Some bucket \<Rightarrow> Some bucket | None \<Rightarrow> Some [])))"

fun check_indexes :: "key_env \<Rightarrow> row \<Rightarrow> (nat \<Rightarrow> bool) \<Rightarrow> index list \<Rightarrow> string option option" where
  "check_indexes env values hit [] = Some None"
| "check_indexes env values hit (ix # ixs) =
     (case unique_bucket env ix values of
        None \<Rightarrow> None
      | Some bucket \<Rightarrow>
          if list_ex hit bucket then Some (Some (ix_name (ix_def ix)))
          else check_indexes env values hit ixs)"

text \<open>
  \<^verbatim>\<open>temp_scan_constraint\<close>. The columns of a constraint are looked up by name; a constraint
  with an unknown column is skipped. The result is the violated constraint and the row.
\<close>

definition constraint_cols :: "table \<Rightarrow> unique_def \<Rightarrow> nat list option" where
  "constraint_cols t c =
     (let cols = List.map_filter (column_index t) (uq_cols c)
      in if length cols = length (uq_cols c) then Some cols else None)"

definition same_key :: "unique_def \<Rightarrow> nat list \<Rightarrow> row \<Rightarrow> row_version \<Rightarrow> bool" where
  "same_key c cols values r =
     list_all (\<lambda>p. (uq_nulls_not_distinct c \<or> \<not> is_null (v_values r ! p)) \<and>
                   value_eq (v_values r ! p) (values ! p)) cols"

definition constraint_hit ::
  "table \<Rightarrow> row \<Rightarrow> (nat \<Rightarrow> bool) \<Rightarrow> snapshot \<Rightarrow> nat list \<Rightarrow> unique_def \<Rightarrow> (string \<times> nat) option" where
  "constraint_hit t values excluded snap owns c =
     (case constraint_cols t c of
        None \<Rightarrow> None
      | Some cols \<Rightarrow>
          if \<not> uq_nulls_not_distinct c \<and> list_ex (\<lambda>p. is_null (values ! p)) cols then None
          else find_first (\<lambda>r. if \<not> excluded (v_id r) \<and> alive_for r snap owns \<and> same_key c cols values r
                               then Some (uq_name c, v_id r) else None) (t_rows t))"

definition table_constraints :: "table \<Rightarrow> unique_def list" where
  "table_constraints t = t_uniques t @ (case t_pkey t of Some pk \<Rightarrow> [pk] | None \<Rightarrow> [])"

definition temp_scan_constraint ::
  "table \<Rightarrow> row \<Rightarrow> nat option \<Rightarrow> snapshot \<Rightarrow> nat list \<Rightarrow> string option \<Rightarrow> (string \<times> nat) option" where
  "temp_scan_constraint t values exclude snap owns only =
     find_first (constraint_hit t values (\<lambda>i. exclude = Some i) snap owns)
       (filter (\<lambda>c. only = None \<or> only = Some (uq_name c)) (table_constraints t))"

definition unique_violation ::
  "key_env \<Rightarrow> database \<Rightarrow> string \<Rightarrow> row \<Rightarrow> nat option \<Rightarrow> snapshot \<Rightarrow> nat list \<Rightarrow> nat \<Rightarrow> string option option" where
  "unique_violation env db tab values exclude snap owns session =
     (case find_table db tab snap owns session of
        None \<Rightarrow> Some None
      | Some t \<Rightarrow>
          if is_temp_table db session tab
          then Some (map_option fst (temp_scan_constraint t values exclude snap owns None))
          else check_indexes env values (\<lambda>i. exclude \<noteq> Some i \<and> id_alive t snap owns i)
                 (visible_indexes_for db tab snap owns session))"

fun all_violations :: "key_env \<Rightarrow> row \<Rightarrow> (nat \<Rightarrow> bool) \<Rightarrow> index list \<Rightarrow> string list option" where
  "all_violations env values hit [] = Some []"
| "all_violations env values hit (ix # ixs) =
     (case unique_bucket env ix values of
        None \<Rightarrow> None
      | Some bucket \<Rightarrow>
          map_option (\<lambda>out. if list_ex hit bucket then ix_name (ix_def ix) # out else out)
            (all_violations env values hit ixs))"

definition unique_violations_all_multi ::
  "key_env \<Rightarrow> database \<Rightarrow> string \<Rightarrow> row \<Rightarrow> nat list \<Rightarrow> snapshot \<Rightarrow> nat list \<Rightarrow> nat \<Rightarrow> string list option" where
  "unique_violations_all_multi env db tab values exclude snap owns session =
     (case find_table db tab snap owns session of
        None \<Rightarrow> Some []
      | Some t \<Rightarrow>
          if is_temp_table db session tab
          then Some (List.map_filter (\<lambda>c. map_option fst (constraint_hit t values (\<lambda>i. i \<in> set exclude) snap owns c))
                 (table_constraints t))
          else all_violations env values (\<lambda>i. i \<notin> set exclude \<and> id_alive t snap owns i)
                 (visible_indexes_for db tab snap owns session))"

definition unique_violations_all ::
  "key_env \<Rightarrow> database \<Rightarrow> string \<Rightarrow> row \<Rightarrow> nat option \<Rightarrow> snapshot \<Rightarrow> nat list \<Rightarrow> nat \<Rightarrow> string list option" where
  "unique_violations_all env db tab values exclude snap owns session =
     unique_violations_all_multi env db tab values (case exclude of Some i \<Rightarrow> [i] | None \<Rightarrow> []) snap owns session"

text \<open>The arbiter of \<^verbatim>\<open>INSERT ... ON CONFLICT\<close>; it does not ask whether the index is usable.\<close>

definition unique_conflict_row ::
  "key_env \<Rightarrow> database \<Rightarrow> string \<Rightarrow> string \<Rightarrow> row \<Rightarrow> nat option \<Rightarrow> snapshot \<Rightarrow> nat list \<Rightarrow> nat \<Rightarrow>
     nat option option" where
  "unique_conflict_row env db tab index_name values exclude snap owns session =
     (case find_table db tab snap owns session of
        None \<Rightarrow> Some None
      | Some t \<Rightarrow>
          if is_temp_table db session tab
          then Some (map_option snd (temp_scan_constraint t values exclude snap owns (Some index_name)))
          else
            (case find (\<lambda>ix. ix_name (ix_def ix) = index_name \<and> ix_unique (ix_def ix))
                    (visible_indexes_for db tab snap owns session) of
               None \<Rightarrow> Some None
             | Some ix \<Rightarrow>
                 (case index_key_for ix values of
                    None \<Rightarrow> None
                  | Some key \<Rightarrow>
                      if \<not> ix_nulls_not_distinct (ix_def ix) \<and> list_ex is_null key then Some None
                      else
                        (case bt_get (index_key_ord env) key (ix_tree ix) of
                           None \<Rightarrow> Some None
                         | Some bucket \<Rightarrow>
                             Some (find (\<lambda>i. exclude \<noteq> Some i \<and> id_alive t snap owns i) bucket)))))"

text \<open>The recheck at commit, against a fresh snapshot and the rows of other transactions.\<close>

definition committed_unique_violation ::
  "key_env \<Rightarrow> database \<Rightarrow> txn_manager \<Rightarrow> string \<Rightarrow> row \<Rightarrow> nat \<Rightarrow> nat list \<Rightarrow> nat \<Rightarrow> string option option" where
  "committed_unique_violation env db tm tab values own_row_id owns session =
     (let fresh = take_snapshot tm in
      if is_temp_table db session tab then Some None
      else
        (case find_table db tab fresh owns session of
           None \<Rightarrow> Some None
         | Some t \<Rightarrow>
             check_indexes env values
               (\<lambda>i. i \<noteq> own_row_id \<and>
                  (case row_pos t i of
                     None \<Rightarrow> False
                   | Some p \<Rightarrow> v_xmin (t_rows t ! p) \<notin> set owns \<and> row_visible (t_rows t ! p) fresh owns))
               (visible_indexes_for db tab fresh owns session)))"

section \<open>Index contents against the table\<close>

text \<open>
  An index covers the rows of a table when every row's key is filed with its id, and no id
  of a row is filed under another key. Ids of versions that are gone may linger.
\<close>

definition ix_covers :: "key_env \<Rightarrow> key_kind list \<Rightarrow> index \<Rightarrow> row_version list \<Rightarrow> bool" where
  "ix_covers env ks ix rows \<longleftrightarrow>
     ix_wf env ks ix \<and>
     (\<forall>r \<in> set rows. \<exists>key. index_key_for ix (v_values r) = Some key \<and> keys_ok ks key \<and>
        v_id r \<in> set (ix_ids env ix key) \<and>
        (\<forall>key'. keys_ok ks key' \<longrightarrow> v_id r \<in> set (ix_ids env ix key') \<longrightarrow> index_key_ord env key' key = Equal))"

lemma ix_coversD:
  assumes "ix_covers env ks ix rows" and "r \<in> set rows"
  obtains key where "index_key_for ix (v_values r) = Some key" "keys_ok ks key"
    "\<And>key'. keys_ok ks key' \<Longrightarrow> v_id r \<in> set (ix_ids env ix key') \<longleftrightarrow> index_key_ord env key' key = Equal"
proof -
  obtain key where k: "index_key_for ix (v_values r) = Some key" "keys_ok ks key"
    "v_id r \<in> set (ix_ids env ix key)"
    "\<forall>key'. keys_ok ks key' \<longrightarrow> v_id r \<in> set (ix_ids env ix key') \<longrightarrow> index_key_ord env key' key = Equal"
    using assms unfolding ix_covers_def by blast
  have wf: "bt_wf (index_key_ord env) (keys_ok ks) (ix_tree ix)"
    using assms(1) by (simp add: ix_covers_def ix_wf_def)
  have "ix_ids env ix key' = ix_ids env ix key" if "keys_ok ks key'" "index_key_ord env key' key = Equal" for key'
    unfolding ix_ids_def using wf that k(2) by (intro keyrow.bt_ids_equal)
  with that k show ?thesis by metis
qed

lemma remove_id_set: "j \<noteq> i \<Longrightarrow> j \<in> set (remove_id i ids) \<longleftrightarrow> j \<in> set ids"
proof -
  assume "j \<noteq> i"
  have "j \<in># mset (remove_id i ids) \<longleftrightarrow> j \<in># mset ids"
    using \<open>j \<noteq> i\<close> by (simp add: mset_remove_id in_diff_count)
  then show ?thesis by simp
qed

lemma index_key_for_tree [simp]:
  "index_key_for (index_insert env ix key i) = index_key_for ix"
  "index_key_for (index_remove env ix key i) = index_key_for ix"
  by (simp_all add: fun_eq_iff index_key_for_def index_insert_def index_remove_def)

text \<open>Entering a version with a fresh id extends the cover; taking a version out shrinks it.\<close>

lemma ix_covers_insert:
  assumes "ix_covers env ks ix rows" and "index_key_for ix (v_values v) = Some key" and "keys_ok ks key"
    and "\<And>key'. keys_ok ks key' \<Longrightarrow> v_id v \<notin> set (ix_ids env ix key')" and "v_id v \<notin> v_id ` set rows"
  shows "ix_covers env ks (index_insert env ix key (v_id v)) (rows @ [v])"
proof -
  have wf: "ix_wf env ks ix" using assms(1) by (simp add: ix_covers_def)
  note ids = ix_ids_insert [OF wf assms(3)]
  have "\<exists>key1. index_key_for ix (v_values r) = Some key1 \<and> keys_ok ks key1 \<and>
      v_id r \<in> set (ix_ids env (index_insert env ix key (v_id v)) key1) \<and>
      (\<forall>key'. keys_ok ks key' \<longrightarrow> v_id r \<in> set (ix_ids env (index_insert env ix key (v_id v)) key') \<longrightarrow>
        index_key_ord env key' key1 = Equal)" if "r \<in> set (rows @ [v])" for r
  proof (cases "r = v")
    case True
    then show ?thesis using assms(2-4) by (auto simp: ids keyrow.cmp_refl split: if_splits)
  next
    case False
    with that have r: "r \<in> set rows" by simp
    then have ne: "v_id r \<noteq> v_id v" using assms(5) by (metis imageI)
    obtain key1 where k: "index_key_for ix (v_values r) = Some key1" "keys_ok ks key1"
      "\<And>key'. keys_ok ks key' \<Longrightarrow> v_id r \<in> set (ix_ids env ix key') \<longleftrightarrow> index_key_ord env key' key1 = Equal"
      using ix_coversD [OF assms(1) r] by blast
    then show ?thesis using ne by (intro exI [of _ key1]) (auto simp: ids keyrow.cmp_refl split: if_splits)
  qed
  then show ?thesis using wf assms(3) by (simp add: ix_covers_def ix_wf_insert)
qed

lemma ix_covers_remove:
  assumes "ix_covers env ks ix rows" and "keys_ok ks key" and "set rows' \<subseteq> {r \<in> set rows. v_id r \<noteq> i}"
  shows "ix_covers env ks (index_remove env ix key i) rows'"
proof -
  have wf: "ix_wf env ks ix" using assms(1) by (simp add: ix_covers_def)
  note ids = ix_ids_remove [OF wf assms(2)]
  have "\<exists>key1. index_key_for ix (v_values r) = Some key1 \<and> keys_ok ks key1 \<and>
      v_id r \<in> set (ix_ids env (index_remove env ix key i) key1) \<and>
      (\<forall>key'. keys_ok ks key' \<longrightarrow> v_id r \<in> set (ix_ids env (index_remove env ix key i) key') \<longrightarrow>
        index_key_ord env key' key1 = Equal)" if "r \<in> set rows'" for r
  proof -
    have r: "r \<in> set rows" and ne: "v_id r \<noteq> i" using assms(3) that by auto
    obtain key1 where k: "index_key_for ix (v_values r) = Some key1" "keys_ok ks key1"
      "\<And>key'. keys_ok ks key' \<Longrightarrow> v_id r \<in> set (ix_ids env ix key') \<longleftrightarrow> index_key_ord env key' key1 = Equal"
      using ix_coversD [OF assms(1) r] by blast
    then show ?thesis using ne
      by (intro exI [of _ key1]) (auto simp: ids keyrow.cmp_refl remove_id_set split: if_splits)
  qed
  then show ?thesis using wf by (simp add: ix_covers_def ix_wf_remove)
qed

lemma ix_covers_subset: "ix_covers env ks ix rows \<Longrightarrow> set rows' \<subseteq> set rows \<Longrightarrow> ix_covers env ks ix rows'"
  by (auto simp: ix_covers_def)

section \<open>The whole catalog\<close>

definition index_names_ok :: "database \<Rightarrow> bool" where
  "index_names_ok db \<longleftrightarrow>
     distinct (map fst (db_indexes db)) \<and> (\<forall>(n, ix) \<in> set (db_indexes db). ix_name (ix_def ix) = n)"

definition index_live :: "string \<Rightarrow> index \<Rightarrow> bool" where
  "index_live tab ix \<longleftrightarrow>
     ix_table (ix_def ix) = tab \<and> ix_dropped_xmax (ix_def ix) = 0 \<and> ix_planner_usable (ix_def ix)"

lemma map_of_targets:
  assumes "distinct (map fst m)" and "\<forall>(n, ix) \<in> set m. ix_name (ix_def ix) = n"
  shows "map_of (map (\<lambda>ix. (ix_name (ix_def ix), ix_cols (ix_def ix))) (filter p (map snd m))) n =
    (case map_of m n of Some ix \<Rightarrow> if p ix then Some (ix_cols (ix_def ix)) else None | None \<Rightarrow> None)"
  using assms
proof (induction m)
  case (Cons e m)
  obtain n' ix where e: "e = (n', ix)" by (cases e)
  from Cons have IH: "map_of (map (\<lambda>ix. (ix_name (ix_def ix), ix_cols (ix_def ix))) (filter p (map snd m))) n =
    (case map_of m n of Some ix \<Rightarrow> if p ix then Some (ix_cols (ix_def ix)) else None | None \<Rightarrow> None)" by simp
  show ?case
  proof (cases "n = n'")
    case True
    then have "map_of m n = None" using Cons.prems e by (simp add: map_of_eq_None_iff)
    with True IH Cons.prems e show ?thesis by auto
  next
    case False
    with IH Cons.prems e show ?thesis by auto
  qed
qed simp

lemma distinct_targets:
  "distinct (map fst m) \<Longrightarrow> \<forall>(n, ix) \<in> set m. ix_name (ix_def ix) = n \<Longrightarrow>
     distinct (map fst (map (\<lambda>ix. (ix_name (ix_def ix), ix_cols (ix_def ix))) (filter p (map snd m))))"
  by (induction m) (force simp: image_iff)+

lemma apply_targets_map:
  "distinct (map fst ts) \<Longrightarrow> apply_targets f values ts ixs = Some ixs' \<Longrightarrow>
     map_of ixs' n = (case map_of ts n of
        Some cols \<Rightarrow> map_option (f (the (cols_key cols values))) (map_of ixs n) | None \<Rightarrow> map_of ixs n)"
proof (induction ts arbitrary: ixs)
  case (Cons e ts)
  obtain m cols where e: "e = (m, cols)" by (cases e)
  with Cons.prems obtain key where key: "cols_key cols values = Some key"
    and rest: "apply_targets f values ts (hm_modify m (f key) ixs) = Some ixs'"
    by (auto split: option.splits)
  have d: "distinct (map fst ts)" "map_of ts m = None" using Cons.prems(1) e by (auto simp: map_of_eq_None_iff)
  from Cons.IH [OF d(1) rest] show ?case
    using e key d(2) by (auto simp: map_of_hm_modify split: option.splits)
qed simp

lemma apply_targets_keys: "apply_targets f values ts ixs = Some ixs' \<Longrightarrow> map fst ixs' = map fst ixs"
  by (induction ts arbitrary: ixs) (auto split: option.splits)

lemma apply_targets_None:
  "apply_targets f values ts ixs = None \<longleftrightarrow> (\<exists>e \<in> set ts. cols_key (snd e) values = None)"
proof (induction ts arbitrary: ixs)
  case (Cons e ts)
  then show ?case by (cases e; cases "cols_key (snd e) values") simp_all
qed simp

lemma apply_live:
  assumes "index_names_ok db"
    and "apply_targets f values (index_targets tab (\<lambda>_. True) db) (db_indexes db) = Some ixs"
  shows "map_of ixs n =
    (case map_of (db_indexes db) n of
       Some ix \<Rightarrow> if index_live tab ix then Some (f (the (index_key_for ix values)) ix) else Some ix
     | None \<Rightarrow> None)"
proof -
  have d: "distinct (map fst (db_indexes db))" "\<forall>(n, ix) \<in> set (db_indexes db). ix_name (ix_def ix) = n"
    using assms(1) by (simp_all add: index_names_ok_def)
  show ?thesis
    unfolding apply_targets_map [OF distinct_targets [OF d] assms(2) [unfolded index_targets_def]]
      map_of_targets [OF d]
    by (auto simp: index_live_def index_key_for_def split: option.split)
qed

section \<open>The unique checks as scans\<close>

text \<open>
  The reference: a unique, usable index conflicts when some row that counts has a key equal
  to the new one, and no null part exempts the new key.
\<close>

definition index_conflict ::
  "key_env \<Rightarrow> row \<Rightarrow> (row_version \<Rightarrow> bool) \<Rightarrow> row_version list \<Rightarrow> index \<Rightarrow> bool" where
  "index_conflict env values counts rows ix \<longleftrightarrow>
     ix_unique (ix_def ix) \<and> ix_planner_usable (ix_def ix) \<and>
     (case index_key_for ix values of
        None \<Rightarrow> False
      | Some key \<Rightarrow>
          (ix_nulls_not_distinct (ix_def ix) \<or> \<not> list_ex is_null key) \<and>
          list_ex (\<lambda>r. counts r \<and>
             (case index_key_for ix (v_values r) of
                Some k \<Rightarrow> index_key_ord env k key = Equal | None \<Rightarrow> False)) rows)"

definition index_ready :: "key_env \<Rightarrow> key_kind list \<Rightarrow> row_version list \<Rightarrow> row \<Rightarrow> index \<Rightarrow> bool" where
  "index_ready env ks rows values ix \<longleftrightarrow>
     ix_covers env ks ix rows \<and> (\<exists>key. index_key_for ix values = Some key \<and> keys_ok ks key)"

definition counted :: "table \<Rightarrow> (row_version \<Rightarrow> bool) \<Rightarrow> nat \<Rightarrow> bool" where
  "counted t P i = (case row_pos t i of Some p \<Rightarrow> P (t_rows t ! p) | None \<Rightarrow> False)"

lemma counted_iff: "tb_sync t \<Longrightarrow> counted t P i \<longleftrightarrow> (\<exists>r \<in> set (t_rows t). v_id r = i \<and> P r)"
proof -
  assume t: "tb_sync t"
  have "counted t P i \<longleftrightarrow> (\<exists>r. tb_abs t i = Some r \<and> P r)"
    by (auto simp: counted_def tb_abs_def split: option.split)
  then show ?thesis using tb_abs_Some [OF t] by blast
qed

lemma bucket_conflict:
  assumes "tb_sync t" and "index_ready env ks (t_rows t) values ix"
  shows "\<exists>bucket. unique_bucket env ix values = Some bucket \<and>
    list_ex (counted t P) bucket = index_conflict env values P (t_rows t) ix"
proof -
  have cov: "ix_covers env ks ix (t_rows t)" using assms(2) by (simp add: index_ready_def)
  obtain key where key: "index_key_for ix values = Some key" "keys_ok ks key"
    using assms(2) by (auto simp: index_ready_def)
  have ids: "case_option [] id (bt_get (index_key_ord env) key (ix_tree ix)) = ix_ids env ix key"
    by (simp add: ix_ids_def bt_ids_def split: option.split)
  have "list_ex (counted t P) (ix_ids env ix key) \<longleftrightarrow>
    list_ex (\<lambda>r. P r \<and> (case index_key_for ix (v_values r) of
        Some k \<Rightarrow> index_key_ord env k key = Equal | None \<Rightarrow> False)) (t_rows t)" (is "?L \<longleftrightarrow> ?R")
  proof
    assume ?L
    then obtain r where r: "r \<in> set (t_rows t)" "v_id r \<in> set (ix_ids env ix key)" "P r"
      using counted_iff [OF assms(1), of P] by (auto simp: list_ex_iff)
    obtain k where "index_key_for ix (v_values r) = Some k" "keys_ok ks k" "index_key_ord env key k = Equal"
      using ix_coversD [OF cov r(1)] r(2) key(2) by metis
    with r key(2) show ?R by (force simp: list_ex_iff keyrow.equal_sym [of ks k key])
  next
    assume ?R
    then obtain r k where r: "r \<in> set (t_rows t)" "P r" "index_key_for ix (v_values r) = Some k"
      "index_key_ord env k key = Equal"
      by (auto simp: list_ex_iff split: option.splits)
    obtain k' where "index_key_for ix (v_values r) = Some k'" "keys_ok ks k'"
      "v_id r \<in> set (ix_ids env ix key) \<longleftrightarrow> index_key_ord env key k' = Equal"
      using ix_coversD [OF cov r(1)] key(2) by metis
    with r key(2) have "v_id r \<in> set (ix_ids env ix key)" by (simp add: keyrow.equal_sym [of ks k key])
    with r show ?L using counted_iff [OF assms(1), of P] by (auto simp: list_ex_iff)
  qed
  then show ?thesis
    using key ids by (auto simp: unique_bucket_def index_conflict_def split: option.splits)
qed

lemma check_indexes_scan:
  assumes "tb_sync t" and "\<forall>ix \<in> set ixs. index_ready env (ks ix) (t_rows t) values ix"
  shows "check_indexes env values (counted t P) ixs =
    Some (map_option (\<lambda>ix. ix_name (ix_def ix)) (find (index_conflict env values P (t_rows t)) ixs))"
  using assms(2)
proof (induction ixs)
  case (Cons ix ixs)
  then obtain bucket where "unique_bucket env ix values = Some bucket"
    "list_ex (counted t P) bucket = index_conflict env values P (t_rows t) ix"
    using bucket_conflict [OF assms(1)] by (metis list.set_intros(1))
  with Cons show ?case by simp
qed simp

lemma all_violations_scan:
  assumes "tb_sync t" and "\<forall>ix \<in> set ixs. index_ready env (ks ix) (t_rows t) values ix"
  shows "all_violations env values (counted t P) ixs =
    Some (map (\<lambda>ix. ix_name (ix_def ix)) (filter (index_conflict env values P (t_rows t)) ixs))"
  using assms(2)
proof (induction ixs)
  case (Cons ix ixs)
  then obtain bucket where "unique_bucket env ix values = Some bucket"
    "list_ex (counted t P) bucket = index_conflict env values P (t_rows t) ix"
    using bucket_conflict [OF assms(1)] by (metis list.set_intros(1))
  with Cons show ?case by simp
qed simp

lemma row_pos_id: "tb_sync t \<Longrightarrow> row_pos t i = Some p \<Longrightarrow> v_id (t_rows t ! p) = i"
  by (simp add: tb_sync_pos)

lemma hit_counted:
  assumes "tb_sync t"
  shows "(\<lambda>i. c i \<and> id_alive t snap owns i) = counted t (\<lambda>r. c (v_id r) \<and> alive_for r snap owns)"
proof (rule ext)
  fix i
  show "(c i \<and> id_alive t snap owns i) = counted t (\<lambda>r. c (v_id r) \<and> alive_for r snap owns) i"
    using row_pos_id [OF assms, of i] by (cases "row_pos t i") (simp_all add: id_alive_def counted_def)
qed

section \<open>Properties\<close>

text \<open>
  C30. The unique check before a write is a scan: with indexes that cover the table, it never
  panics and names the first visible index, in name order, whose key some other row alive
  for the writer shares; it reports none exactly when no unique index has such a row.
\<close>

theorem unique_violation_scan:
  assumes "find_table db tab snap owns session = Some t" and "\<not> is_temp_table db session tab" and "tb_sync t"
    and "\<forall>ix \<in> set (visible_indexes_for db tab snap owns session). index_ready env (ks ix) (t_rows t) values ix"
  shows "unique_violation env db tab values exclude snap owns session =
    Some (map_option (\<lambda>ix. ix_name (ix_def ix))
      (find (index_conflict env values (\<lambda>r. exclude \<noteq> Some (v_id r) \<and> alive_for r snap owns) (t_rows t))
        (visible_indexes_for db tab snap owns session)))"
  using assms
  by (simp add: unique_violation_def hit_counted [OF assms(3)] check_indexes_scan [OF assms(3,4)])

text \<open>
  The set-valued check that \<^verbatim>\<open>UPDATE\<close> and deferred constraints use reports exactly the
  names of all conflicting unique indexes, judged against the rows the statement does not
  itself replace.
\<close>

theorem unique_violations_all_scan:
  assumes "find_table db tab snap owns session = Some t" and "\<not> is_temp_table db session tab" and "tb_sync t"
    and "\<forall>ix \<in> set (visible_indexes_for db tab snap owns session). index_ready env (ks ix) (t_rows t) values ix"
  shows "unique_violations_all_multi env db tab values exclude snap owns session =
    Some (map (\<lambda>ix. ix_name (ix_def ix))
      (filter (index_conflict env values (\<lambda>r. v_id r \<notin> set exclude \<and> alive_for r snap owns) (t_rows t))
        (visible_indexes_for db tab snap owns session)))"
  using assms
  by (simp add: unique_violations_all_multi_def hit_counted [OF assms(3)] all_violations_scan [OF assms(3,4)])

text \<open>
  C31. The recheck at commit is the scan against a fresh snapshot: it reports a unique index
  iff a row of another transaction that has committed by now shares the key.
\<close>

theorem committed_unique_scan:
  assumes "find_table db tab (take_snapshot tm) owns session = Some t" and "\<not> is_temp_table db session tab"
    and "tb_sync t" and "tm_wf tm"
    and "\<forall>ix \<in> set (visible_indexes_for db tab (take_snapshot tm) owns session). index_ready env (ks ix) (t_rows t) values ix"
  shows "committed_unique_violation env db tm tab values own_id owns session =
    Some (map_option (\<lambda>ix. ix_name (ix_def ix))
      (find (index_conflict env values
          (\<lambda>r. v_id r \<noteq> own_id \<and> v_xmin r \<notin> set owns \<and> xid_committed (v_xmin r) tm \<and>
               (v_xmax r = 0 \<or> v_xmax r \<notin> set owns \<and> \<not> xid_committed (v_xmax r) tm)) (t_rows t))
        (visible_indexes_for db tab (take_snapshot tm) owns session)))"
proof -
  let ?P = "\<lambda>r. v_id r \<noteq> own_id \<and> v_xmin r \<notin> set owns \<and> row_visible r (take_snapshot tm) owns"
  have hit: "(\<lambda>i. i \<noteq> own_id \<and> (case row_pos t i of None \<Rightarrow> False
      | Some p \<Rightarrow> v_xmin (t_rows t ! p) \<notin> set owns \<and> row_visible (t_rows t ! p) (take_snapshot tm) owns)) = counted t ?P"
  proof (rule ext)
    fix i
    show "(i \<noteq> own_id \<and> (case row_pos t i of None \<Rightarrow> False
      | Some p \<Rightarrow> v_xmin (t_rows t ! p) \<notin> set owns \<and> row_visible (t_rows t ! p) (take_snapshot tm) owns)) = counted t ?P i"
      using row_pos_id [OF assms(3), of i] by (cases "row_pos t i") (simp_all add: counted_def)
  qed
  have P: "?P = (\<lambda>r. v_id r \<noteq> own_id \<and> v_xmin r \<notin> set owns \<and> xid_committed (v_xmin r) tm \<and>
               (v_xmax r = 0 \<or> v_xmax r \<notin> set owns \<and> \<not> xid_committed (v_xmax r) tm))"
    by (auto simp: fun_eq_iff rowv.visible_iff fresh_seen [OF assms(4)])
  show ?thesis
    using assms by (simp add: committed_unique_violation_def Let_def hit check_indexes_scan [OF assms(3,5)] P)
qed
lemma insert_row_covers:
  assumes "index_names_ok db" and "\<not> is_temp_table db session tab"
    and "\<forall>(n, ix) \<in> set (db_indexes db). index_live tab ix \<longrightarrow>
      ix_covers env (ks n) ix rows \<and>
      (\<exists>key. index_key_for ix (v_values v) = Some key \<and> keys_ok (ks n) key) \<and>
      (\<forall>key. keys_ok (ks n) key \<longrightarrow> v_id v \<notin> set (ix_ids env ix key))"
    and "v_id v \<notin> v_id ` set rows"
  shows "\<exists>db'. index_insert_row env tab (v_id v) (v_values v) session db = Some db' \<and>
    map fst (db_indexes db') = map fst (db_indexes db) \<and>
    (\<forall>n ix. map_of (db_indexes db) n = Some ix \<longrightarrow>
      (\<exists>ix'. map_of (db_indexes db') n = Some ix' \<and> ix_def ix' = ix_def ix \<and>
        (if index_live tab ix then ix_covers env (ks n) ix' (rows @ [v]) else ix' = ix)))"
proof -
  let ?f = "\<lambda>key ix. index_insert env ix key (v_id v)"
  have live: "ix_covers env (ks n) ix rows"
    "\<exists>key. index_key_for ix (v_values v) = Some key \<and> keys_ok (ks n) key"
    "\<And>key. keys_ok (ks n) key \<Longrightarrow> v_id v \<notin> set (ix_ids env ix key)"
    if "(n, ix) \<in> set (db_indexes db)" "index_live tab ix" for n ix
    using assms(3) that by blast+
  have "cols_key cols (v_values v) \<noteq> None" if "(m, cols) \<in> set (index_targets tab (\<lambda>_. True) db)" for m cols
    using that live(2) by (fastforce simp: index_targets_def index_live_def index_key_for_def)
  then obtain ixs where ixs: "apply_targets ?f (v_values v) (index_targets tab (\<lambda>_. True) db) (db_indexes db) = Some ixs"
    using apply_targets_None [of ?f "v_values v"] by (metis option.exhaust prod.collapse)
  have "\<exists>ix'. map_of ixs n = Some ix' \<and> ix_def ix' = ix_def ix \<and>
        (if index_live tab ix then ix_covers env (ks n) ix' (rows @ [v]) else ix' = ix)"
    if n: "map_of (db_indexes db) n = Some ix" for n ix
  proof (cases "index_live tab ix")
    case True
    have mem: "(n, ix) \<in> set (db_indexes db)" using n by (rule map_of_SomeD)
    obtain key where key: "index_key_for ix (v_values v) = Some key" "keys_ok (ks n) key"
      using live(2) [OF mem True] by blast
    have "ix_covers env (ks n) (?f key ix) (rows @ [v])"
      using live(1,3) [OF mem True] key assms(4) by (intro ix_covers_insert)
    with key n True show ?thesis
      by (simp add: apply_live [OF assms(1) ixs]) (simp add: index_insert_def)
  qed (simp add: apply_live [OF assms(1) ixs] n)
  then show ?thesis
    using assms(2) ixs apply_targets_keys [OF ixs] by (simp add: index_insert_row_def)
qed

text \<open>
  C32. Entering a row version in the indexes of its table keeps every live index covering the
  rows, the new one included, and leaves the other indexes alone; with rows as long as the
  indexed positions demand it does not panic.
\<close>

theorem index_insert_row_covers:
  assumes "index_names_ok db" and "\<not> is_temp_table db session tab"
    and "\<forall>(n, ix) \<in> set (db_indexes db). index_live tab ix \<longrightarrow>
      ix_covers env (ks n) ix rows \<and>
      (\<exists>key. index_key_for ix (v_values v) = Some key \<and> keys_ok (ks n) key) \<and>
      (\<forall>key. keys_ok (ks n) key \<longrightarrow> v_id v \<notin> set (ix_ids env ix key))"
    and "v_id v \<notin> v_id ` set rows"
  shows "\<exists>db'. index_insert_row env tab (v_id v) (v_values v) session db = Some db' \<and>
    map fst (db_indexes db') = map fst (db_indexes db) \<and>
    (\<forall>n ix. map_of (db_indexes db) n = Some ix \<longrightarrow>
      (\<exists>ix'. map_of (db_indexes db') n = Some ix' \<and> ix_def ix' = ix_def ix \<and>
        (if index_live tab ix then ix_covers env (ks n) ix' (rows @ [v]) else ix' = ix)))"
  using assms by (rule insert_row_covers)

lemma remove_row_covers:
  assumes "index_names_ok db"
    and "\<forall>(n, ix) \<in> set (db_indexes db). index_live tab ix \<longrightarrow>
      ix_covers env (ks n) ix rows \<and> (\<exists>key. index_key_for ix values = Some key \<and> keys_ok (ks n) key)"
    and "set rows' \<subseteq> {r \<in> set rows. v_id r \<noteq> i}"
  shows "\<exists>db'. index_remove_row env tab i values db = Some db' \<and>
    map fst (db_indexes db') = map fst (db_indexes db) \<and>
    (\<forall>n ix. map_of (db_indexes db) n = Some ix \<longrightarrow>
      (\<exists>ix'. map_of (db_indexes db') n = Some ix' \<and> ix_def ix' = ix_def ix \<and>
        (if index_live tab ix then ix_covers env (ks n) ix' rows' else ix' = ix)))"
proof -
  let ?f = "\<lambda>key ix. index_remove env ix key i"
  have live: "ix_covers env (ks n) ix rows" "\<exists>key. index_key_for ix values = Some key \<and> keys_ok (ks n) key"
    if "(n, ix) \<in> set (db_indexes db)" "index_live tab ix" for n ix
    using assms(2) that by blast+
  have "cols_key cols values \<noteq> None" if "(m, cols) \<in> set (index_targets tab (\<lambda>_. True) db)" for m cols
    using that live(2) by (fastforce simp: index_targets_def index_live_def index_key_for_def)
  then obtain ixs where ixs: "apply_targets ?f values (index_targets tab (\<lambda>_. True) db) (db_indexes db) = Some ixs"
    using apply_targets_None [of ?f "values"] by (metis option.exhaust prod.collapse)
  have "\<exists>ix'. map_of ixs n = Some ix' \<and> ix_def ix' = ix_def ix \<and>
        (if index_live tab ix then ix_covers env (ks n) ix' rows' else ix' = ix)"
    if n: "map_of (db_indexes db) n = Some ix" for n ix
  proof (cases "index_live tab ix")
    case True
    have mem: "(n, ix) \<in> set (db_indexes db)" using n by (rule map_of_SomeD)
    obtain key where key: "index_key_for ix values = Some key" "keys_ok (ks n) key"
      using live(2) [OF mem True] by blast
    have "ix_covers env (ks n) (?f key ix) rows'"
      using live(1) [OF mem True] key assms(3) by (intro ix_covers_remove)
    with key n True show ?thesis
      by (simp add: apply_live [OF assms(1) ixs]) (simp add: index_remove_def)
  qed (simp add: apply_live [OF assms(1) ixs] n)
  then show ?thesis
    using ixs apply_targets_keys [OF ixs] by (simp add: index_remove_row_def)
qed


definition nan_row :: row where
  "nan_row = [VFloat 0x7FF8000000000000]"

definition nan_table :: table where
  "nan_table = push_version (version_plain 1 nan_row 1)
     (table_new [(''a'', CtFloat)] 0)\<lparr>t_uniques := [\<lparr>uq_name = ''u'', uq_cols = [''a''], uq_deferrable = False,
        uq_initially_deferred = False, uq_nulls_not_distinct = False\<rparr>]\<rparr>"

text \<open>
  A temporary table does not enforce a unique constraint that a permanent one would: the
  scan compares cells with the derived equality, under which two NaNs differ, so that
  two rows with the same NaN are both accepted, while the index comparison of permanent
  tables finds them equal.
\<close>

theorem temp_unique_misses_nan:
  "temp_scan_constraint nan_table nan_row None \<lparr>sn_active = [], sn_next_xid = 5\<rparr> [] None = None \<and>
   index_key_ord env (v_values (version_plain 1 nan_row 1)) nan_row = Equal"
  by (simp add: temp_scan_constraint_def table_constraints_def nan_table_def push_version_def table_new_def
      constraint_hit_def constraint_cols_def column_index_def map_filter_def version_plain_def nan_row_def
      same_key_def float_eq_def is_nan_def is_null_def index_key_ord_def total_cmp_def)

section \<open>A small catalog\<close>

definition demo_index :: index where
  "demo_index = index_insert demo_env (index_new demo_index_def) [VSmallInt 3] 5"

definition demo_row :: row_version where
  "demo_row = version_plain 5 [VSmallInt 3] 2"

definition demo_table :: table where
  "demo_table = push_version demo_row (table_new [(''a'', CtSmallInt)] 0)"

definition demo_db :: database where
  "demo_db = \<lparr>db_tables = [(''t'', [demo_table])], db_temp_tables = [], db_temp_indexes = [],
     db_indexes = [(''i'', demo_index)], db_sequences = [], db_roles = [], db_owner = ''postgres'', db_acl = [],
     db_obj_schema = []\<rparr>"

definition demo_snap :: snapshot where
  "demo_snap = \<lparr>sn_active = [], sn_next_xid = 5\<rparr>"

lemma demo_keys [simp]: "keys_ok [KExact] [VSmallInt x]"
  by (simp add: keys_ok_def key_ok_def)

lemma demo_covers: "ix_covers demo_env [KExact] demo_index [demo_row]"
proof -
  have "ix_covers demo_env [KExact] (index_new demo_index_def) []" by (simp add: ix_covers_def)
  then have "ix_covers demo_env [KExact]
      (index_insert demo_env (index_new demo_index_def) [VSmallInt 3] (v_id demo_row)) ([] @ [demo_row])"
    by (rule ix_covers_insert)
      (simp_all add: demo_row_def version_plain_def index_key_for_def cols_key_def index_new_def
        demo_index_def_def index_plain_def ix_ids_def)
  then show ?thesis by (simp add: demo_index_def demo_row_def version_plain_def)
qed

lemma demo_sync: "tb_sync demo_table"
  unfolding demo_table_def by (rule tb_sync_push) simp_all

lemma demo_rows [simp]: "t_rows demo_table = [demo_row]"
  by (simp add: demo_table_def push_version_def table_new_def)

lemma demo_def [simp]: "ix_def demo_index = demo_index_def"
  by (simp add: demo_index_def index_insert_def index_new_def)

lemma demo_find: "find_table demo_db ''t'' demo_snap [] 7 = Some demo_table"
  by (simp add: find_table_def temp_table_def demo_db_def demo_snap_def table_visible_def demo_table_def
      push_version_def table_new_def)

lemma demo_perm: "\<not> is_temp_table demo_db s n"
  by (simp add: is_temp_table_def temp_table_def demo_db_def)

lemma demo_visible: "visible_indexes_for demo_db ''t'' demo_snap [] 7 = [demo_index]"
  by (simp add: visible_indexes_for_def is_temp_table_def temp_table_def demo_db_def demo_snap_def by_name_def
      sort_by_def index_visible_def demo_index_def_def index_plain_def)

lemma demo_key_for: "index_key_for demo_index [v] = Some [v]"
  by (simp add: index_key_for_def cols_key_def demo_index_def_def index_plain_def)

lemma demo_ready: "index_ready demo_env [KExact] (t_rows demo_table) [VSmallInt x] demo_index"
  using demo_covers by (simp add: index_ready_def demo_key_for)

lemma demo_conflict:
  "index_conflict demo_env [VSmallInt 3] P (t_rows demo_table) demo_index = P demo_row"
  by (simp add: index_conflict_def demo_key_for demo_index_def_def index_plain_def is_null_def demo_row_def
      version_plain_def index_key_ord_def index_key_cmp_def is_exact_numeric_def exact_as_i64_def)

theorem unique_violation_scan_witness:
  "unique_violation demo_env demo_db ''t'' [VSmallInt 3] None demo_snap [] 7 = Some (Some ''i'')"
proof -
  have "unique_violation demo_env demo_db ''t'' [VSmallInt 3] None demo_snap [] 7 =
    Some (map_option (\<lambda>ix. ix_name (ix_def ix))
      (find (index_conflict demo_env [VSmallInt 3] (\<lambda>r. None \<noteq> Some (v_id r) \<and> alive_for r demo_snap []) (t_rows demo_table))
        (visible_indexes_for demo_db ''t'' demo_snap [] 7)))"
    by (rule unique_violation_scan [where ks = "\<lambda>_. [KExact]"])
      (use demo_sync demo_ready in \<open>simp_all add: demo_find demo_visible demo_perm\<close>)
  then show ?thesis
    by (simp only: demo_visible demo_conflict find.simps filter.simps)
      (simp add: demo_row_def version_plain_def alive_for_def row_visible_def demo_snap_def demo_index_def_def index_plain_def)
qed

theorem unique_violations_all_scan_witness:
  "unique_violations_all_multi demo_env demo_db ''t'' [VSmallInt 3] [5] demo_snap [] 7 = Some []"
proof -
  have "unique_violations_all_multi demo_env demo_db ''t'' [VSmallInt 3] [5] demo_snap [] 7 =
    Some (map (\<lambda>ix. ix_name (ix_def ix))
      (filter (index_conflict demo_env [VSmallInt 3] (\<lambda>r. v_id r \<notin> set [5] \<and> alive_for r demo_snap []) (t_rows demo_table))
        (visible_indexes_for demo_db ''t'' demo_snap [] 7)))"
    by (rule unique_violations_all_scan [where ks = "\<lambda>_. [KExact]"])
      (use demo_sync demo_ready in \<open>simp_all add: demo_find demo_visible demo_perm\<close>)
  then show ?thesis
    by (simp add: demo_visible demo_conflict del: demo_rows) (simp add: demo_row_def version_plain_def)
qed

definition demo_idle_tm :: txn_manager where
  "demo_idle_tm = txn_manager_new\<lparr>tm_next_xid := 5\<rparr>"

theorem committed_unique_scan_witness:
  "committed_unique_violation demo_env demo_db demo_idle_tm ''t'' [VSmallInt 3] 9 [] 7 = Some (Some ''i'')"
proof -
  have tm: "tm_wf demo_idle_tm" "take_snapshot demo_idle_tm = demo_snap"
    by (simp_all add: demo_idle_tm_def tm_wf_def txn_manager_new_def take_snapshot_def demo_snap_def)
  have "committed_unique_violation demo_env demo_db demo_idle_tm ''t'' [VSmallInt 3] 9 [] 7 =
    Some (map_option (\<lambda>ix. ix_name (ix_def ix))
      (find (index_conflict demo_env [VSmallInt 3]
          (\<lambda>r. v_id r \<noteq> 9 \<and> v_xmin r \<notin> set [] \<and> xid_committed (v_xmin r) demo_idle_tm \<and>
               (v_xmax r = 0 \<or> v_xmax r \<notin> set [] \<and> \<not> xid_committed (v_xmax r) demo_idle_tm)) (t_rows demo_table))
        (visible_indexes_for demo_db ''t'' (take_snapshot demo_idle_tm) [] 7)))"
    by (rule committed_unique_scan [where ks = "\<lambda>_. [KExact]"])
      (use demo_sync demo_ready tm in \<open>simp_all add: demo_find demo_visible demo_perm\<close>)
  then show ?thesis
    by (simp only: tm demo_visible demo_conflict find.simps)
      (simp add: demo_row_def version_plain_def xid_committed_def demo_idle_tm_def txn_manager_new_def
        demo_index_def_def index_plain_def)
qed

lemma demo_ixs [simp]: "db_indexes demo_db = [(''i'', demo_index)]"
  by (simp add: demo_db_def)

lemma demo_map: "map_of (db_indexes demo_db) ''i'' = Some demo_index"
  by simp

lemma version_plain_sel: "v_id (version_plain i vs x) = i" "v_values (version_plain i vs x) = vs"
  by (simp_all add: version_plain_def)

lemma demo_live: "index_live ''t'' demo_index"
  by (simp add: index_live_def demo_index_def_def index_plain_def)

lemma demo_names: "index_names_ok demo_db"
  by (simp add: index_names_ok_def demo_db_def demo_index_def_def index_plain_def)

lemma demo_fresh: "keys_ok [KExact] key \<Longrightarrow> i \<noteq> 5 \<Longrightarrow> i \<notin> set (ix_ids demo_env demo_index key)"
  using ix_ids_insert [of demo_env "[KExact]" "index_new demo_index_def" "[VSmallInt 3]" key 5]
  by (simp add: demo_index_def)

theorem index_insert_row_covers_witness:
  "\<exists>db'. index_insert_row demo_env ''t'' 6 [VSmallInt 4] 7 demo_db = Some db' \<and>
     (\<exists>ix'. map_of (db_indexes db') ''i'' = Some ix' \<and>
        ix_covers demo_env [KExact] ix' ([demo_row] @ [version_plain 6 [VSmallInt 4] 2]))"
proof -
  have "\<exists>db'. index_insert_row demo_env ''t'' (v_id (version_plain 6 [VSmallInt 4] 2))
      (v_values (version_plain 6 [VSmallInt 4] 2)) 7 demo_db = Some db' \<and>
    map fst (db_indexes db') = map fst (db_indexes demo_db) \<and>
    (\<forall>n ix. map_of (db_indexes demo_db) n = Some ix \<longrightarrow>
      (\<exists>ix'. map_of (db_indexes db') n = Some ix' \<and> ix_def ix' = ix_def ix \<and>
        (if index_live ''t'' ix then ix_covers demo_env [KExact] ix' ([demo_row] @ [version_plain 6 [VSmallInt 4] 2])
         else ix' = ix)))"
    by (rule index_insert_row_covers [where ks = "\<lambda>_. [KExact]"])
      (use demo_names demo_covers in
        \<open>auto simp: demo_perm demo_fresh demo_key_for version_plain_def demo_row_def\<close>)
  then obtain db' where db': "index_insert_row demo_env ''t'' 6 [VSmallInt 4] 7 demo_db = Some db'"
    "\<exists>ix'. map_of (db_indexes db') ''i'' = Some ix' \<and> ix_def ix' = ix_def demo_index \<and>
        (if index_live ''t'' demo_index then ix_covers demo_env [KExact] ix' ([demo_row] @ [version_plain 6 [VSmallInt 4] 2])
         else ix' = demo_index)"
    using demo_map unfolding version_plain_sel by blast
  then show ?thesis using demo_live by (intro exI [of _ db']) auto
qed


end
