(* ===== verification/Access.thy ===== *)
theory Access
  imports Catalog
begin

text \<open>
  Roles, memberships and access control lists: the closures over role memberships and the
  effective privileges of \<^verbatim>\<open>storage.rs\<close>, and the grant and revoke machinery of
  \<^verbatim>\<open>exec/roles.rs\<close> that keeps every list backed by grant options. The worklist loops are
  shown total and equal to reachability in the membership graph.
\<close>

section \<open>Privilege bits\<close>

definition PRIV_SELECT :: u32 where "PRIV_SELECT = 1"
definition PRIV_INSERT :: u32 where "PRIV_INSERT = 2"
definition PRIV_UPDATE :: u32 where "PRIV_UPDATE = 4"
definition PRIV_DELETE :: u32 where "PRIV_DELETE = 8"
definition PRIV_TRUNCATE :: u32 where "PRIV_TRUNCATE = 16"
definition PRIV_REFERENCES :: u32 where "PRIV_REFERENCES = 32"
definition PRIV_TRIGGER :: u32 where "PRIV_TRIGGER = 64"
definition PRIV_USAGE :: u32 where "PRIV_USAGE = 128"
definition PRIV_CONNECT :: u32 where "PRIV_CONNECT = 256"

unbundle bit_operations_syntax

definition PRIV_ALL_TABLE :: u32 where
  "PRIV_ALL_TABLE = PRIV_SELECT OR PRIV_INSERT OR PRIV_UPDATE OR PRIV_DELETE OR PRIV_TRUNCATE OR
     PRIV_REFERENCES OR PRIV_TRIGGER"

lemmas priv_defs = PRIV_SELECT_def PRIV_INSERT_def PRIV_UPDATE_def PRIV_DELETE_def PRIV_TRUNCATE_def
  PRIV_REFERENCES_def PRIV_TRIGGER_def PRIV_USAGE_def PRIV_CONNECT_def PRIV_ALL_TABLE_def

section \<open>Closures over role memberships\<close>

definition is_superuser_snap :: "database \<Rightarrow> string \<Rightarrow> snapshot \<Rightarrow> nat \<Rightarrow> bool" where
  "is_superuser_snap db role snap own =
     (case find_role db role snap own of Some r \<Rightarrow> ro_superuser r | None \<Rightarrow> False)"

definition role_bypassrls_snap :: "database \<Rightarrow> string \<Rightarrow> snapshot \<Rightarrow> nat \<Rightarrow> bool" where
  "role_bypassrls_snap db role snap own =
     (case find_role db role snap own of Some r \<Rightarrow> ro_superuser r \<or> ro_bypassrls r | None \<Rightarrow> False)"

definition memberships_of :: "database \<Rightarrow> string \<Rightarrow> snapshot \<Rightarrow> nat \<Rightarrow> role_membership list" where
  "memberships_of db name snap own =
     (case find_role db name snap own of Some r \<Rightarrow> ro_memberships r | None \<Rightarrow> [])"

fun push_new :: "string list \<Rightarrow> role_membership list \<Rightarrow> string list" where
  "push_new out [] = out"
| "push_new out (m # ms) = push_new (if mb_role m \<in> set out then out else out @ [mb_role m]) ms"

text \<open>Every role name some membership mentions: the universe of the loops.\<close>

definition group_names :: "database \<Rightarrow> string set" where
  "group_names db = (\<Union>(n, vs) \<in> set (db_roles db). \<Union>r \<in> set vs. mb_role ` set (ro_memberships r))"

lemma finite_group_names [simp]: "finite (group_names db)"
  by (auto simp: group_names_def)

lemma memberships_of_names: "mb_role ` set (memberships_of db name snap own) \<subseteq> group_names db"
proof (cases "find_role db name snap own")
  case (Some r)
  then obtain vs where vs: "map_of (db_roles db) name = Some vs" "find (\<lambda>r. role_visible r snap own) vs = Some r"
    by (auto simp: find_role_def bind_eq_Some_conv)
  then have "(name, vs) \<in> set (db_roles db)" "r \<in> set vs"
    by (auto simp: find_Some_iff intro: map_of_SomeD)
  with Some show ?thesis by (auto simp: memberships_of_def group_names_def)
qed (simp add: memberships_of_def)

lemma set_push_new: "set (push_new out ms) = set out \<union> mb_role ` set ms"
  by (induction ms arbitrary: out) auto

lemma distinct_push_new: "distinct out \<Longrightarrow> distinct (push_new out ms)"
  by (induction ms arbitrary: out) auto

lemma push_new_prefix: "\<exists>more. push_new out ms = out @ more"
  by (induction ms arbitrary: out) (auto, metis append.assoc)

lemma push_new_measure:
  assumes "finite U" and "mb_role ` set ms \<subseteq> U"
  shows "card (U - set (push_new out ms)) + length (push_new out ms) = card (U - set out) + length out"
  using assms
proof (induction ms arbitrary: out)
  case (Cons m ms)
  show ?case
  proof (cases "mb_role m \<in> set out")
    case True
    with Cons show ?thesis by simp
  next
    case False
    with Cons.prems have m: "mb_role m \<in> U - set out" by simp
    have "U - set (out @ [mb_role m]) = (U - set out) - {mb_role m}" by auto
    with m Cons.prems(1) have "card (U - set (out @ [mb_role m])) + 1 = card (U - set out)"
      by (metis Suc_eq_plus1 card_Suc_Diff1 finite_Diff)
    with Cons.IH [of "out @ [mb_role m]"] Cons.prems False show ?thesis by simp
  qed
qed simp

text \<open>
  The loop of \<^verbatim>\<open>role_closure\<close>, \<^verbatim>\<open>membership_closure\<close> and \<^verbatim>\<open>membership_closure_any\<close>: the vector
  is its own queue. \<open>follow\<close> selects the edges.
\<close>

function closure_loop ::
  "(role_membership \<Rightarrow> bool) \<Rightarrow> database \<Rightarrow> snapshot \<Rightarrow> nat \<Rightarrow> nat \<Rightarrow> string list \<Rightarrow> string list" where
  "closure_loop follow db snap own i out =
     (if i < length out
      then closure_loop follow db snap own (Suc i)
             (push_new out (filter follow (memberships_of db (out ! i) snap own)))
      else out)"
  by pat_completeness auto

termination
proof (relation "measure (\<lambda>(follow, db, snap, own, i, out). card (group_names db - set out) + length out - i)")
  fix follow db snap own i and out :: "string list"
  assume i: "i < length out"
  let ?ms = "filter follow (memberships_of db (out ! i) snap own)"
  have "mb_role ` set ?ms \<subseteq> group_names db" using memberships_of_names by fastforce
  then have "card (group_names db - set (push_new out ?ms)) + length (push_new out ?ms) =
      card (group_names db - set out) + length out"
    by (intro push_new_measure) simp_all
  with i show "((follow, db, snap, own, Suc i, push_new out ?ms), follow, db, snap, own, i, out)
      \<in> measure (\<lambda>(follow, db, snap, own, i, out). card (group_names db - set out) + length out - i)"
    by simp
qed simp

declare closure_loop.simps [simp del]

definition role_closure :: "database \<Rightarrow> string \<Rightarrow> snapshot \<Rightarrow> nat \<Rightarrow> string list" where
  "role_closure db role snap own = closure_loop mb_inherit db snap own 0 [role]"

definition membership_closure :: "database \<Rightarrow> string \<Rightarrow> snapshot \<Rightarrow> nat \<Rightarrow> string list" where
  "membership_closure db role snap own = closure_loop (\<lambda>_. True) db snap own 0 [role]"

definition membership_closure_any :: "database \<Rightarrow> string \<Rightarrow> snapshot \<Rightarrow> nat \<Rightarrow> string list" where
  "membership_closure_any db name snap own = closure_loop mb_inherit db snap own 0 [name]"

text \<open>\<^verbatim>\<open>membership_would_cycle\<close>: the same loop, stopped at the grantee.\<close>

function cycle_loop :: "database \<Rightarrow> string \<Rightarrow> snapshot \<Rightarrow> nat \<Rightarrow> nat \<Rightarrow> string list \<Rightarrow> bool" where
  "cycle_loop db grantee snap own i seen =
     (if i < length seen
      then if seen ! i = grantee then True
           else cycle_loop db grantee snap own (Suc i)
                  (push_new seen (memberships_of db (seen ! i) snap own))
      else False)"
  by pat_completeness auto

termination
proof (relation "measure (\<lambda>(db, grantee, snap, own, i, seen). card (group_names db - set seen) + length seen - i)")
  fix db and grantee :: string and snap own i and seen :: "string list"
  assume i: "i < length seen"
  let ?ms = "memberships_of db (seen ! i) snap own"
  have "card (group_names db - set (push_new seen ?ms)) + length (push_new seen ?ms) =
      card (group_names db - set seen) + length seen"
    by (intro push_new_measure memberships_of_names) simp
  with i show "((db, grantee, snap, own, Suc i, push_new seen ?ms), db, grantee, snap, own, i, seen)
      \<in> measure (\<lambda>(db, grantee, snap, own, i, seen). card (group_names db - set seen) + length seen - i)"
    by simp
qed simp

declare cycle_loop.simps [simp del]

definition membership_would_cycle :: "database \<Rightarrow> string \<Rightarrow> string \<Rightarrow> snapshot \<Rightarrow> nat \<Rightarrow> bool" where
  "membership_would_cycle db role grantee snap own = cycle_loop db grantee snap own 0 [role]"

text \<open>\<^verbatim>\<open>member_can_set_role\<close>: a depth-first search; the head of the list is the top of the stack.\<close>

function set_role_loop :: "database \<Rightarrow> string \<Rightarrow> snapshot \<Rightarrow> nat \<Rightarrow> string list \<Rightarrow> string list \<Rightarrow> bool" where
  "set_role_loop db target snap own [] seen = False"
| "set_role_loop db target snap own (cur # stack) seen =
     (if cur = target then True
      else if cur \<in> set seen then set_role_loop db target snap own stack seen
      else set_role_loop db target snap own
             (rev (map mb_role (filter mb_set (memberships_of db cur snap own))) @ stack) (seen @ [cur]))"
  by pat_completeness auto

termination
proof (relation "inv_image (less_than <*lex*> less_than)
    (\<lambda>(db, target, snap, own, stack, seen). (card ((group_names db \<union> set stack) - set seen), length stack))")
  fix db and target :: string and snap :: snapshot and own :: nat and cur and stack seen :: "string list"
  have "card (group_names db \<union> set stack - set seen) \<le> card (group_names db \<union> set (cur # stack) - set seen)"
    by (intro card_mono) auto
  then show "((db, target, snap, own, stack, seen), db, target, snap, own, cur # stack, seen)
      \<in> inv_image (less_than <*lex*> less_than)
    (\<lambda>(db, target, snap, own, stack, seen). (card ((group_names db \<union> set stack) - set seen), length stack))"
    by auto
  let ?new = "rev (map mb_role (filter mb_set (memberships_of db cur snap own))) @ stack"
  assume "cur \<notin> set seen"
  then have "group_names db \<union> set ?new - set (seen @ [cur]) \<subset> group_names db \<union> set (cur # stack) - set seen"
    using memberships_of_names [of db cur snap own] by fastforce
  then have "card (group_names db \<union> set ?new - set (seen @ [cur])) < card (group_names db \<union> set (cur # stack) - set seen)"
    by (intro psubset_card_mono) auto
  then show "((db, target, snap, own, ?new, seen @ [cur]), db, target, snap, own, cur # stack, seen)
      \<in> inv_image (less_than <*lex*> less_than)
    (\<lambda>(db, target, snap, own, stack, seen). (card ((group_names db \<union> set stack) - set seen), length stack))"
    by auto
qed (intro wf_inv_image wf_lex_prod wf_less_than)

declare set_role_loop.simps(2) [simp del]

definition member_can_set_role :: "database \<Rightarrow> string \<Rightarrow> string \<Rightarrow> snapshot \<Rightarrow> nat \<Rightarrow> bool" where
  "member_can_set_role db role target snap own = set_role_loop db target snap own [role] []"

section \<open>Reachability\<close>

definition member_edges ::
  "(role_membership \<Rightarrow> bool) \<Rightarrow> database \<Rightarrow> snapshot \<Rightarrow> nat \<Rightarrow> (string \<times> string) set" where
  "member_edges follow db snap own =
     {(a, mb_role m) | a m. m \<in> set (memberships_of db a snap own) \<and> follow m}"

lemma member_edges_iff:
  "(a, b) \<in> member_edges follow db snap own \<longleftrightarrow>
     (\<exists>m \<in> set (memberships_of db a snap own). follow m \<and> mb_role m = b)"
  by (auto simp: member_edges_def)

lemma closed_image: "(\<And>a b. a \<in> S \<Longrightarrow> (a, b) \<in> E \<Longrightarrow> b \<in> S) \<Longrightarrow> E\<^sup>* `` S = S"
proof -
  assume closed: "\<And>a b. a \<in> S \<Longrightarrow> (a, b) \<in> E \<Longrightarrow> b \<in> S"
  have "b \<in> S" if "(a, b) \<in> E\<^sup>*" "a \<in> S" for a b
    using that by (induction rule: rtrancl_induct) (auto intro: closed)
  then show ?thesis by auto
qed

lemma image_rtrancl_step: "a \<in> S \<Longrightarrow> T \<subseteq> E `` {a} \<Longrightarrow> E\<^sup>* `` (S \<union> T) = E\<^sup>* `` S"
  by (blast intro: converse_rtrancl_into_rtrancl)

lemma nth_push_new: "j < length out \<Longrightarrow> push_new out ms ! j = out ! j"
  using push_new_prefix [of out ms] by (auto simp: nth_append)

lemma closure_loop_reach:
  "(\<And>j b. j < i \<Longrightarrow> j < length out \<Longrightarrow> (out ! j, b) \<in> member_edges follow db snap own \<Longrightarrow> b \<in> set out) \<Longrightarrow>
     set (closure_loop follow db snap own i out) = (member_edges follow db snap own)\<^sup>* `` set out"
proof (induction follow db snap own i out rule: closure_loop.induct)
  case (1 follow db snap own i out)
  let ?E = "member_edges follow db snap own"
  show ?case
  proof (cases "i < length out")
    case True
    let ?ms = "filter follow (memberships_of db (out ! i) snap own)"
    have succ: "mb_role ` set ?ms = ?E `` {out ! i}" by (auto simp: member_edges_iff)
    have "set (closure_loop follow db snap own (Suc i) (push_new out ?ms)) = ?E\<^sup>* `` set (push_new out ?ms)"
    proof (rule "1.IH" [OF True])
      fix j b
      assume j: "j < Suc i" "(push_new out ?ms ! j, b) \<in> ?E"
      with True have "(out ! j, b) \<in> ?E" by (simp add: nth_push_new)
      with j "1.prems" [of j b] True succ show "b \<in> set (push_new out ?ms)"
        by (cases "j = i") (auto simp: set_push_new)
    qed
    also have "\<dots> = ?E\<^sup>* `` set out"
      unfolding set_push_new succ using True by (intro image_rtrancl_step [of "out ! i"]) auto
    finally show ?thesis using True by (simp add: closure_loop.simps [of follow db snap own i])
  next
    case False
    then have "?E\<^sup>* `` set out = set out"
      using "1.prems" by (intro closed_image) (auto simp: in_set_conv_nth)
    with False show ?thesis by (simp add: closure_loop.simps [of follow db snap own i])
  qed
qed

lemma distinct_closure_loop: "distinct out \<Longrightarrow> distinct (closure_loop follow db snap own i out)"
proof (induction follow db snap own i out rule: closure_loop.induct)
  case (1 follow db snap own i out)
  then show ?case by (subst closure_loop.simps) (simp add: distinct_push_new)
qed

lemma set_closure_loop:
  "set (closure_loop follow db snap own 0 [role]) = {n. (role, n) \<in> (member_edges follow db snap own)\<^sup>*}"
  by (subst closure_loop_reach) auto

lemma cycle_loop_reach:
  "(\<And>j b. j < i \<Longrightarrow> j < length seen \<Longrightarrow> (seen ! j, b) \<in> member_edges (\<lambda>_. True) db snap own \<Longrightarrow> b \<in> set seen) \<Longrightarrow>
     grantee \<notin> set (take i seen) \<Longrightarrow>
     cycle_loop db grantee snap own i seen \<longleftrightarrow> grantee \<in> (member_edges (\<lambda>_. True) db snap own)\<^sup>* `` set seen"
proof (induction db grantee snap own i seen rule: cycle_loop.induct)
  case (1 db grantee snap own i seen)
  let ?E = "member_edges (\<lambda>_. True) db snap own"
  let ?ms = "memberships_of db (seen ! i) snap own"
  show ?case
  proof (cases "i < length seen \<and> seen ! i \<noteq> grantee")
    case True
    have succ: "mb_role ` set ?ms = ?E `` {seen ! i}" by (auto simp: member_edges_iff)
    have "cycle_loop db grantee snap own (Suc i) (push_new seen ?ms) \<longleftrightarrow> grantee \<in> ?E\<^sup>* `` set (push_new seen ?ms)"
    proof (rule "1.IH")
      fix j b
      assume j: "j < Suc i" "(push_new seen ?ms ! j, b) \<in> ?E"
      with True have "(seen ! j, b) \<in> ?E" by (simp add: nth_push_new)
      with j "1.prems"(1) [of j b] True succ show "b \<in> set (push_new seen ?ms)"
        by (cases "j = i") (auto simp: set_push_new)
    next
      obtain more where "push_new seen ?ms = seen @ more" using push_new_prefix by blast
      with True "1.prems"(2) show "grantee \<notin> set (take (Suc i) (push_new seen ?ms))"
        by (auto simp: take_Suc_conv_app_nth)
    qed (use True in auto)
    also have "?E\<^sup>* `` set (push_new seen ?ms) = ?E\<^sup>* `` set seen"
      unfolding set_push_new succ using True by (intro image_rtrancl_step [of "seen ! i"]) auto
    finally show ?thesis using True by (simp add: cycle_loop.simps [of db grantee snap own i])
  next
    case False
    show ?thesis
    proof (cases "i < length seen")
      case True
      with False have "grantee \<in> set seen" by (metis nth_mem)
      then have "grantee \<in> ?E\<^sup>* `` set seen" by blast
      with True False show ?thesis by (simp add: cycle_loop.simps [of db grantee snap own i])
    next
      case False
      then have "?E\<^sup>* `` set seen = set seen"
        using "1.prems"(1) by (intro closed_image) (auto simp: in_set_conv_nth)
      with False "1.prems"(2) show ?thesis by (simp add: cycle_loop.simps [of db grantee snap own i])
    qed
  qed
qed

lemma set_role_loop_reach:
  "(\<And>a b. a \<in> set seen \<Longrightarrow> (a, b) \<in> member_edges mb_set db snap own \<Longrightarrow> b \<in> set seen \<union> set stack) \<Longrightarrow>
     target \<notin> set seen \<Longrightarrow>
     set_role_loop db target snap own stack seen \<longleftrightarrow>
       target \<in> (member_edges mb_set db snap own)\<^sup>* `` (set seen \<union> set stack)"
proof (induction db target snap own stack seen rule: set_role_loop.induct)
  case (1 db target snap own seen)
  then have "(member_edges mb_set db snap own)\<^sup>* `` set seen = set seen" by (intro closed_image) auto
  with 1 show ?case by simp
next
  case (2 db target snap own cur stack seen)
  let ?E = "member_edges mb_set db snap own"
  let ?new = "map mb_role (filter mb_set (memberships_of db cur snap own))"
  have succ: "set ?new = ?E `` {cur}" by (auto simp: member_edges_iff)
  show ?case
  proof (cases "cur = target")
    case True
    then have "target \<in> ?E\<^sup>* `` (set seen \<union> set (cur # stack))" by auto
    with True show ?thesis unfolding set_role_loop.simps(2) by simp
  next
    case ne: False
    show ?thesis
    proof (cases "cur \<in> set seen")
      case True
      then have eq: "set seen \<union> set (cur # stack) = set seen \<union> set stack" by auto
      have "set_role_loop db target snap own stack seen \<longleftrightarrow> target \<in> ?E\<^sup>* `` (set seen \<union> set stack)"
        using "2.prems" eq by (intro "2.IH"(1) [OF ne True]) auto
      with ne True show ?thesis unfolding set_role_loop.simps(2) eq by simp
    next
      case False
      have "set_role_loop db target snap own (rev ?new @ stack) (seen @ [cur]) \<longleftrightarrow>
          target \<in> ?E\<^sup>* `` (set (seen @ [cur]) \<union> set (rev ?new @ stack))"
      proof (rule "2.IH"(2) [OF ne False])
        fix a b
        assume "a \<in> set (seen @ [cur])" "(a, b) \<in> ?E"
        with succ "2.prems"(1) [of a b] show "b \<in> set (seen @ [cur]) \<union> set (rev ?new @ stack)"
          by (cases "a = cur") auto
      qed (use ne "2.prems"(2) in simp)
      also have "set (seen @ [cur]) \<union> set (rev ?new @ stack) = (set seen \<union> set (cur # stack)) \<union> ?E `` {cur}"
        using succ by auto
      also have "?E\<^sup>* `` \<dots> = ?E\<^sup>* `` (set seen \<union> set (cur # stack))"
        by (rule image_rtrancl_step [of cur]) auto
      finally show ?thesis using ne False unfolding set_role_loop.simps(2) by simp
    qed
  qed
qed

section \<open>Effective privileges\<close>

fun or_all :: "u32 list \<Rightarrow> u32" where
  "or_all [] = 0"
| "or_all (p # ps) = p OR or_all ps"

definition owner_item_privs :: "table \<Rightarrow> u32" where
  "owner_item_privs t =
     (case find (\<lambda>e. ac_role e = t_owner t \<and> (ac_grantor e = [] \<or> ac_grantor e = t_owner t)) (t_acl t) of
        Some e \<Rightarrow> ac_privs e | None \<Rightarrow> PRIV_ALL_TABLE)"

definition table_privs_in ::
  "database \<Rightarrow> string \<Rightarrow> table \<Rightarrow> string list \<Rightarrow> snapshot \<Rightarrow> nat \<Rightarrow> u32" where
  "table_privs_in db role t closure snap own =
     (if is_superuser_snap db role snap own then PRIV_ALL_TABLE
      else if t_owner t = role then owner_item_privs t
      else
        (let eff_owner = (if t_owner t = ''pg_database_owner'' then db_owner db else t_owner t)
         in (if eff_owner \<in> set closure then owner_item_privs t else 0) OR
            (if ''pg_read_all_data'' \<in> set closure then PRIV_SELECT else 0) OR
            (if ''pg_write_all_data'' \<in> set closure then PRIV_INSERT OR PRIV_UPDATE OR PRIV_DELETE else 0) OR
            (if ''pg_maintain'' \<in> set closure then 512 else 0) OR
            or_all (map ac_privs
              (filter (\<lambda>e. ac_role e = ''public'' \<or> ac_role e \<in> set closure) (t_acl t)))))"

definition table_privs :: "database \<Rightarrow> string \<Rightarrow> table \<Rightarrow> snapshot \<Rightarrow> nat \<Rightarrow> u32" where
  "table_privs db role t snap own = table_privs_in db role t (role_closure db role snap own) snap own"

definition column_privs_in ::
  "database \<Rightarrow> string \<Rightarrow> table \<Rightarrow> string \<Rightarrow> string list \<Rightarrow> snapshot \<Rightarrow> nat \<Rightarrow> u32" where
  "column_privs_in db role t column closure snap own =
     (let privs = table_privs_in db role t closure snap own
      in if privs = PRIV_ALL_TABLE then privs
         else privs OR or_all (map ca_privs
           (filter (\<lambda>e. (ca_role e = ''public'' \<or> ca_role e \<in> set closure) \<and> column \<in> set (ca_columns e))
             (t_col_acl t))))"

definition has_col_priv :: "database \<Rightarrow> string \<Rightarrow> table \<Rightarrow> u32 \<Rightarrow> snapshot \<Rightarrow> nat \<Rightarrow> bool" where
  "has_col_priv db role t b snap own =
     (if table_privs db role t snap own AND b = b then True
      else list_ex (\<lambda>e. ca_role e \<in> set (role_closure db role snap own) \<and> ca_privs e AND b = b) (t_col_acl t))"

definition sequence_privs :: "database \<Rightarrow> string \<Rightarrow> sequence \<Rightarrow> snapshot \<Rightarrow> nat \<Rightarrow> u32" where
  "sequence_privs db role s snap own =
     (let all = PRIV_USAGE OR PRIV_SELECT OR PRIV_UPDATE in
      if is_superuser_snap db role snap own then all
      else if sq_owner s = role
      then (let items = filter (\<lambda>e. ac_role e = role) (sq_acl s)
            in if items \<noteq> [] then or_all (map ac_privs items) else all)
      else
        (let closure = role_closure db role snap own
         in (if ''pg_read_all_data'' \<in> set closure then PRIV_SELECT else 0) OR
            (if ''pg_write_all_data'' \<in> set closure then PRIV_UPDATE else 0) OR
            or_all (map ac_privs
              (filter (\<lambda>e. ac_role e = ''public'' \<or> ac_role e \<in> set closure) (sq_acl s)))))"

definition db_connect_allowed :: "database \<Rightarrow> string \<Rightarrow> snapshot \<Rightarrow> nat \<Rightarrow> bool" where
  "db_connect_allowed db role snap own =
     (if is_superuser_snap db role snap own then True
      else
        (let closure = role_closure db role snap own;
             mine = filter (\<lambda>e. ac_role e \<in> set closure) (db_acl db);
             allowed = list_ex (\<lambda>e. ac_privs e AND PRIV_CONNECT \<noteq> 0) mine;
             denied = list_ex (\<lambda>e. ac_privs e AND PRIV_CONNECT = 0) mine
         in \<not> (denied \<and> \<not> allowed)))"

section \<open>Administration of memberships\<close>

definition has_privs_of_role :: "database \<Rightarrow> snapshot \<Rightarrow> nat \<Rightarrow> string \<Rightarrow> string \<Rightarrow> bool" where
  "has_privs_of_role db snap own member role \<longleftrightarrow>
     member = role \<or> is_superuser_snap db member snap own \<or>
     role \<in> set (membership_closure_any db member snap own)"

definition select_best_admin :: "database \<Rightarrow> snapshot \<Rightarrow> nat \<Rightarrow> string \<Rightarrow> string \<Rightarrow> string option" where
  "select_best_admin db snap own member role =
     (if member = role then None
      else find (\<lambda>cand. list_ex (\<lambda>m. mb_role m = role \<and> mb_admin m) (memberships_of db cand snap own))
             (membership_closure_any db member snap own))"

definition has_admin_option :: "database \<Rightarrow> snapshot \<Rightarrow> nat \<Rightarrow> string \<Rightarrow> string \<Rightarrow> bool" where
  "has_admin_option db snap own member role \<longleftrightarrow>
     is_superuser_snap db member snap own \<or> select_best_admin db snap own member role \<noteq> None"

definition is_admin_of_role :: "database \<Rightarrow> snapshot \<Rightarrow> nat \<Rightarrow> string \<Rightarrow> string \<Rightarrow> bool" where
  "is_admin_of_role db snap own actor target =
     (if is_superuser_snap db actor snap own then True
      else list_ex (\<lambda>m. mb_role m = target \<and> mb_admin m) (memberships_of db actor snap own))"

definition check_role_grant_permission ::
  "database \<Rightarrow> snapshot \<Rightarrow> nat \<Rightarrow> string \<Rightarrow> string \<Rightarrow> bool \<Rightarrow> exec_error + unit" where
  "check_role_grant_permission db snap own actor role is_grant =
     (let denied = Inl (ExecErr ''42501''
            (''permission denied to '' @ (if is_grant then ''grant'' else ''revoke'') @ '' role \"'' @ role @ [CHR 0x22]));
          target_super = is_superuser_snap db role snap own;
          cur_super = is_superuser_snap db actor snap own
      in if target_super \<and> \<not> cur_super then denied
         else if cur_super \<or> select_best_admin db snap own actor role \<noteq> None then Inr ()
         else denied)"

text \<open>\<^verbatim>\<open>GRANTED BY\<close>; \<open>session_user\<close> is the name kept by the session.\<close>

datatype grantor = GrRole string | GrCurrentUser | GrCurrentRole | GrSessionUser

definition resolve_grantor :: "string \<Rightarrow> string \<Rightarrow> grantor option \<Rightarrow> string" where
  "resolve_grantor actor session_user granted_by =
     (case granted_by of
        None \<Rightarrow> actor
      | Some (GrRole r) \<Rightarrow> r
      | Some GrCurrentUser \<Rightarrow> actor
      | Some GrCurrentRole \<Rightarrow> actor
      | Some GrSessionUser \<Rightarrow> session_user)"

definition resolve_role_grantor ::
  "database \<Rightarrow> snapshot \<Rightarrow> nat \<Rightarrow> string \<Rightarrow> string \<Rightarrow> string \<Rightarrow> grantor option \<Rightarrow> bool \<Rightarrow>
     exec_error + string" where
  "resolve_role_grantor db snap own actor session_user role granted_by is_grant =
     (case granted_by of
        Some gb \<Rightarrow>
          (let g = resolve_grantor actor session_user granted_by in
           if find_role db g snap own = None
           then Inl (ExecErr ''42704'' (''role \"'' @ g @ ''\" does not exist''))
           else if \<not> has_privs_of_role db snap own actor g
           then Inl (ExecErr ''42501'' (''permission denied to '' @ (if is_grant then ''grant'' else ''revoke'') @
                  '' privileges as role \"'' @ g @ [CHR 0x22]))
           else if is_grant \<and> g \<noteq> ''postgres'' \<and> select_best_admin db snap own g role \<noteq> Some g
           then Inl (ExecErr ''42501'' (''permission denied to grant privileges as role \"'' @ g @ [CHR 0x22]))
           else Inr g)
      | None \<Rightarrow>
          if is_superuser_snap db actor snap own then Inr ''postgres''
          else Inr (case select_best_admin db snap own actor role of Some a \<Rightarrow> a | None \<Rightarrow> actor))"

section \<open>Access control lists\<close>

text \<open>The bits of its requested ones each candidate can pass on, in the order of the candidates.\<close>

definition direct_go :: "string \<Rightarrow> acl_entry list \<Rightarrow> u32 \<Rightarrow> string \<Rightarrow> u32" where
  "direct_go owner acl bits who =
     (if who = owner then bits
      else or_all (map ac_grant_option (filter (\<lambda>e. ac_role e = who \<or> ac_role e = ''public'') acl)) AND bits)"

fun grantor_groups :: "(string \<Rightarrow> u32) \<Rightarrow> string list \<Rightarrow> u32 \<Rightarrow> (string \<times> u32) list" where
  "grantor_groups go [] remaining = []"
| "grantor_groups go (cand # cands) remaining =
     (if remaining = 0 then []
      else let took = go cand AND remaining
           in if took \<noteq> 0 then (cand, took) # grantor_groups go cands (remaining AND NOT took)
              else grantor_groups go cands remaining)"

definition select_grantor_groups ::
  "database \<Rightarrow> snapshot \<Rightarrow> nat \<Rightarrow> string \<Rightarrow> string \<Rightarrow> string \<Rightarrow> acl_entry list \<Rightarrow> u32 \<Rightarrow>
     grantor option \<Rightarrow> exec_error + (string \<times> u32) list" where
  "select_grantor_groups db snap own actor session_user owner acl bits granted_by =
     (case granted_by of
        Some gb \<Rightarrow>
          (let g = resolve_grantor actor session_user granted_by in
           if find_role db g snap own = None
           then Inl (ExecErr ''42704'' (''role \"'' @ g @ ''\" does not exist''))
           else if \<not> has_privs_of_role db snap own actor g
           then Inl (ExecErr ''42501'' (''must inherit privileges of role \"'' @ g @ [CHR 0x22]))
           else Inr [(g, direct_go owner acl bits g)])
      | None \<Rightarrow>
          if actor = owner \<or> is_superuser_snap db actor snap own then Inr [(owner, bits)]
          else Inr (grantor_groups (direct_go owner acl bits) (membership_closure_any db actor snap own) bits))"

definition check_stranger_grantor :: "(string \<times> u32) list \<Rightarrow> bool \<Rightarrow> string \<Rightarrow> string \<Rightarrow> exec_error + unit" where
  "check_stranger_grantor groups actor_any kind name =
     (if groups = [] \<and> \<not> actor_any
      then Inl (ExecErr ''42501'' (''permission denied for '' @ kind @ '' \"'' @ name @ [CHR 0x22]))
      else Inr ())"

definition acl_go_bits :: "acl_entry list \<Rightarrow> string \<Rightarrow> string \<Rightarrow> u32" where
  "acl_go_bits acl owner role =
     (if role = owner then - 1
      else or_all (map ac_grant_option (filter (\<lambda>e. ac_role e = role \<or> ac_role e = ''public'') acl)))"

text \<open>
  \<^verbatim>\<open>validate_acl_backing\<close>: the first entry that a touched grantor granted beyond its own grant
  options is an error, or is cut down and its grantee touched in turn.
\<close>

definition unbacked :: "string \<Rightarrow> string list \<Rightarrow> acl_entry list \<Rightarrow> acl_entry \<Rightarrow> u32" where
  "unbacked owner affected acl e =
     (if ac_grantor e = [] \<or> ac_grantor e = owner \<or> ac_privs e = 0 then 0
      else if ac_grantor e \<notin> set affected then 0
      else ac_privs e AND NOT (acl_go_bits acl owner (ac_grantor e)))"

definition strip :: "u32 \<Rightarrow> acl_entry \<Rightarrow> acl_entry" where
  "strip bits e = e\<lparr>ac_privs := ac_privs e AND NOT bits, ac_grant_option := ac_grant_option e AND NOT bits\<rparr>"

lemma unat_and_le: "unat (a AND b) \<le> unat a" for a b :: "'a::len word"
  by (metis word_and_le2 word_le_nat_alt)

lemma strip_less: "unbacked owner affected acl e \<noteq> 0 \<Longrightarrow>
    unat (ac_privs (strip (unbacked owner affected acl e) e)) < unat (ac_privs e)"
proof -
  assume u: "unbacked owner affected acl e \<noteq> 0"
  then have ub: "unbacked owner affected acl e = ac_privs e AND NOT (acl_go_bits acl owner (ac_grantor e))"
    by (simp add: unbacked_def split: if_splits)
  let ?p = "ac_privs e" and ?go = "acl_go_bits acl owner (ac_grantor e)"
  have "?p AND NOT (?p AND NOT ?go) \<noteq> ?p"
  proof
    assume "?p AND NOT (?p AND NOT ?go) = ?p"
    then have "?p AND NOT ?go = 0" by (simp add: bit_eq_iff bit_simps) blast
    with u ub show False by simp
  qed
  moreover have "unat (?p AND NOT (?p AND NOT ?go)) \<le> unat ?p" by (rule unat_and_le)
  ultimately have "unat (?p AND NOT (?p AND NOT ?go)) < unat ?p" by (metis le_neq_implies_less word_unat_eq_iff)
  then show ?thesis by (simp add: strip_def ub)
qed

lemma sum_list_update_less:
  "i < length xs \<Longrightarrow> f y < f (xs ! i) \<Longrightarrow> (\<Sum>x\<leftarrow>xs[i := y]. f x) < (\<Sum>x\<leftarrow>xs. (f x :: nat))"
  by (induction xs arbitrary: i) (auto split: nat.split)

lemma position_where_Some: "position_where p xs = Some i \<Longrightarrow> i < length xs \<and> p (xs ! i) \<and> (\<forall>j < i. \<not> p (xs ! j))"
proof (induction xs arbitrary: i)
  case (Cons x xs)
  then show ?case by (auto split: if_splits option.splits simp: less_Suc_eq_0_disj nth_Cons')
qed simp

lemma position_where_None: "position_where p xs = None \<longleftrightarrow> (\<forall>x \<in> set xs. \<not> p x)"
  by (induction xs) (auto split: option.splits)

function validate_acl_backing ::
  "string \<Rightarrow> bool \<Rightarrow> string list \<Rightarrow> acl_entry list \<Rightarrow> exec_error + acl_entry list" where
  "validate_acl_backing owner cascade affected acl =
     (case position_where (\<lambda>e. unbacked owner affected acl e \<noteq> 0) acl of
        None \<Rightarrow> Inr acl
      | Some i \<Rightarrow>
          if \<not> cascade then Inl (ExecErr ''2BP01'' ''dependent privileges exist'')
          else
            validate_acl_backing owner cascade
              (if ac_role (acl ! i) \<in> set affected then affected else affected @ [ac_role (acl ! i)])
              (acl[i := strip (unbacked owner affected acl (acl ! i)) (acl ! i)]))"
  by pat_completeness auto

termination
proof (relation "measure (\<lambda>(owner, cascade, affected, acl). \<Sum>e\<leftarrow>acl. unat (ac_privs e))")
  fix owner :: string and cascade and affected :: "string list" and acl :: "acl_entry list" and i
  assume "position_where (\<lambda>e. unbacked owner affected acl e \<noteq> 0) acl = Some i"
  then have "i < length acl" "unbacked owner affected acl (acl ! i) \<noteq> 0" by (auto dest: position_where_Some)
  then have "(\<Sum>e\<leftarrow>acl[i := strip (unbacked owner affected acl (acl ! i)) (acl ! i)]. unat (ac_privs e))
      < (\<Sum>e\<leftarrow>acl. unat (ac_privs e))"
    by (intro sum_list_update_less strip_less)
  then show "((owner, cascade, if ac_role (acl ! i) \<in> set affected then affected else affected @ [ac_role (acl ! i)],
        acl[i := strip (unbacked owner affected acl (acl ! i)) (acl ! i)]), owner, cascade, affected, acl)
      \<in> measure (\<lambda>(owner, cascade, affected, acl). \<Sum>e\<leftarrow>acl. unat (ac_privs e))"
    by simp
qed simp

declare validate_acl_backing.simps [simp del]

text \<open>\<^verbatim>\<open>apply_acl_delta\<close>: each grantee and each group of bits of one grantor, then the backing check.\<close>

definition delta_index :: "string \<Rightarrow> string \<Rightarrow> string \<Rightarrow> acl_entry list \<Rightarrow> nat option" where
  "delta_index owner grantee gr acl =
     position_where (\<lambda>e. ac_role e = grantee \<and> (ac_grantor e = gr \<or> ac_grantor e = [] \<and> gr = owner)) acl"

definition grant_entry :: "string \<Rightarrow> u32 \<Rightarrow> bool \<Rightarrow> acl_entry \<Rightarrow> acl_entry" where
  "grant_entry gr gbits with_option e =
     e\<lparr>ac_grantor := (if ac_grantor e = [] then gr else ac_grantor e),
       ac_privs := ac_privs e OR gbits,
       ac_grant_option := (if with_option then ac_grant_option e OR gbits else ac_grant_option e)\<rparr>"

definition delta_step ::
  "string \<Rightarrow> bool \<Rightarrow> bool \<Rightarrow> bool \<Rightarrow> bool \<Rightarrow> string \<Rightarrow> string \<times> u32 \<Rightarrow> acl_entry list \<Rightarrow> acl_entry list" where
  "delta_step owner revoke keep_zero with_option option_for grantee grp acl =
     (case grp of (gr, gbits) \<Rightarrow>
        if gbits = 0 then acl
        else
          (let blank = \<lparr>ac_role = grantee, ac_privs = 0, ac_grant_option = 0, ac_grantor = gr\<rparr> in
           case delta_index owner grantee gr acl of
             Some i \<Rightarrow>
               if \<not> revoke then acl[i := grant_entry gr gbits with_option (acl ! i)]
               else if option_for
               then acl[i := (acl ! i)\<lparr>ac_grant_option := ac_grant_option (acl ! i) AND NOT gbits\<rparr>]
               else acl[i := strip gbits (acl ! i)]
           | None \<Rightarrow>
               if \<not> revoke then acl @ [grant_entry gr gbits with_option blank]
               else if keep_zero then acl @ [blank]
               else acl))"

definition apply_acl_delta ::
  "acl_entry list \<Rightarrow> string list \<Rightarrow> (string \<times> u32) list \<Rightarrow> bool \<Rightarrow> bool \<Rightarrow> bool \<Rightarrow> bool \<Rightarrow> bool \<Rightarrow> string \<Rightarrow>
     exec_error + acl_entry list" where
  "apply_acl_delta acl grantees groups revoke keep_zero with_option option_for cascade owner =
     (let acl1 = fold (\<lambda>g. fold (delta_step owner revoke keep_zero with_option option_for g) groups) grantees acl;
          prune = (\<lambda>a. if keep_zero then a else filter (\<lambda>e. ac_privs e \<noteq> 0 \<or> ac_grant_option e \<noteq> 0) a)
      in if revoke
         then (case validate_acl_backing owner cascade grantees acl1 of
                 Inl e \<Rightarrow> Inl e | Inr acl2 \<Rightarrow> Inr (prune acl2))
         else Inr (prune acl1))"

section \<open>Backing of grants\<close>

text \<open>\<open>cut_down\<close>: an entry that lost bits and nothing else.\<close>

definition cut_down :: "acl_entry \<Rightarrow> acl_entry \<Rightarrow> bool" where
  "cut_down e e' \<longleftrightarrow>
     ac_role e' = ac_role e \<and> ac_grantor e' = ac_grantor e \<and>
     ac_privs e' AND ac_privs e = ac_privs e' \<and> ac_grant_option e' AND ac_grant_option e = ac_grant_option e'"

lemma cut_down_refl [simp]: "cut_down e e"
  by (simp add: cut_down_def)

lemma and_sub_trans: "a AND b = a \<Longrightarrow> b AND c = b \<Longrightarrow> a AND c = a" for a b c :: "'a::len word"
  by (metis and.assoc)

lemma cut_down_trans: "cut_down e e' \<Longrightarrow> cut_down e' e'' \<Longrightarrow> cut_down e e''"
  unfolding cut_down_def using and_sub_trans by metis

lemma cut_down_strip: "cut_down e (strip b e)"
proof -
  have "(x AND NOT b) AND x = x AND NOT b" for x :: u32 by (simp add: bit_eq_iff bit_simps) blast
  then show ?thesis by (simp add: cut_down_def strip_def)
qed

lemma list_all2_update: "list_all2 P xs xs \<Longrightarrow> i < length xs \<Longrightarrow> P (xs ! i) y \<Longrightarrow> list_all2 P xs (xs[i := y])"
  by (auto simp: list_all2_conv_all_nth nth_list_update)

lemma validate_cut_down:
  assumes "validate_acl_backing owner cascade affected acl = Inr acl'"
  shows "\<exists>affected'. set affected \<subseteq> set affected' \<and> (\<forall>e \<in> set acl'. unbacked owner affected' acl' e = 0) \<and>
    list_all2 cut_down acl acl' \<and> (\<forall>i < length acl. acl' ! i \<noteq> acl ! i \<longrightarrow> ac_role (acl ! i) \<in> set affected') \<and>
    (\<not> cascade \<longrightarrow> acl' = acl)"
  using assms
proof (induction owner cascade affected acl rule: validate_acl_backing.induct)
  case (1 owner cascade affected acl)
  show ?case
  proof (cases "position_where (\<lambda>e. unbacked owner affected acl e \<noteq> 0) acl")
    case None
    then have "acl' = acl"
      using "1.prems" by (simp add: validate_acl_backing.simps [of owner cascade affected acl])
    moreover have "\<forall>e \<in> set acl. unbacked owner affected acl e = 0" using None by (simp add: position_where_None)
    ultimately show ?thesis by (intro exI [of _ affected]) (simp add: list_all2_refl)
  next
    case (Some i)
    let ?aff = "if ac_role (acl ! i) \<in> set affected then affected else affected @ [ac_role (acl ! i)]"
    let ?e = "strip (unbacked owner affected acl (acl ! i)) (acl ! i)"
    have c: cascade using "1.prems" Some
      by (simp add: validate_acl_backing.simps [of owner cascade affected acl] split: if_splits)
    have "validate_acl_backing owner cascade ?aff (acl[i := ?e]) = Inr acl'"
      using "1.prems" [unfolded validate_acl_backing.simps [of owner cascade affected acl] Some] c by simp
    then obtain aff' where aff': "set ?aff \<subseteq> set aff'" "\<forall>e \<in> set acl'. unbacked owner aff' acl' e = 0"
      "list_all2 cut_down (acl[i := ?e]) acl'"
      "\<forall>j < length (acl[i := ?e]). acl' ! j \<noteq> acl[i := ?e] ! j \<longrightarrow> ac_role (acl[i := ?e] ! j) \<in> set aff'"
      using "1.IH" [OF Some] c by blast
    have i: "i < length acl" using Some position_where_Some by fastforce
    have "list_all2 cut_down acl (acl[i := ?e])"
      using i by (auto simp: list_all2_conv_all_nth nth_list_update cut_down_strip)
    then have cut: "list_all2 cut_down acl acl'"
      using aff'(3) list_all2_trans [of cut_down cut_down cut_down] cut_down_trans by blast
    have role: "ac_role (acl ! i) \<in> set aff'" using aff'(1) by (auto split: if_splits)
    have "\<forall>j < length acl. acl' ! j \<noteq> acl ! j \<longrightarrow> ac_role (acl ! j) \<in> set aff'"
    proof (intro allI impI)
      fix j
      assume j: "j < length acl" "acl' ! j \<noteq> acl ! j"
      show "ac_role (acl ! j) \<in> set aff'"
      proof (cases "j = i")
        case False
        then have "acl[i := ?e] ! j = acl ! j" by simp
        with j aff'(4) show ?thesis by (metis length_list_update)
      qed (use role in simp)
    qed
    with aff' cut c show ?thesis by (intro exI [of _ aff']) (auto split: if_splits)
  qed
qed

lemma validate_error:
  "validate_acl_backing owner False affected acl =
     (if \<exists>e \<in> set acl. unbacked owner affected acl e \<noteq> 0
      then Inl (ExecErr ''2BP01'' ''dependent privileges exist'') else Inr acl)"
  using position_where_None [of "\<lambda>e. unbacked owner affected acl e \<noteq> 0" acl]
  by (subst validate_acl_backing.simps) (auto split: option.splits)

lemma validate_cascade: "\<exists>acl'. validate_acl_backing owner True affected acl = Inr acl'"
proof (induction owner True affected acl rule: validate_acl_backing.induct)
  case (1 owner affected acl)
  then show ?case
    by (cases "position_where (\<lambda>e. unbacked owner affected acl e \<noteq> 0) acl")
      (auto simp: validate_acl_backing.simps [of owner True affected acl])
qed

section \<open>Properties\<close>



lemma or_all_and: "or_all (map f xs) AND r = or_all (map (\<lambda>x. f x AND r) xs)"
  by (induction xs) (simp_all add: bit.conj_disj_distrib2)

lemma grantor_groups_zero [simp]: "grantor_groups go cands 0 = []"
  by (cases cands) simp_all

lemma grantor_groups_sub: "(c, b) \<in> set (grantor_groups go cands r) \<Longrightarrow> b AND r = b \<and> b \<noteq> 0 \<and> b AND go c = b \<and> c \<in> set cands"
proof (induction go cands r rule: grantor_groups.induct)
  case (2 go cand cands r)
  show ?case
  proof (cases "r = 0 \<or> go cand AND r = 0")
    case True
    with 2 show ?thesis by (auto simp: Let_def split: if_splits)
  next
    case False
    then consider "c = cand" "b = go cand AND r" | "(c, b) \<in> set (grantor_groups go cands (r AND NOT (go cand AND r)))"
      using "2.prems" by (auto simp: Let_def)
    then show ?thesis
    proof cases
      case 1
      have "(go cand AND r) AND r = go cand AND r" "(go cand AND r) AND go cand = go cand AND r"
        by (simp_all add: bit_eq_iff bit_simps, blast+)
      with 1 False show ?thesis by simp
    next
      case 2
      then have "b AND (r AND NOT (go cand AND r)) = b \<and> b \<noteq> 0 \<and> b AND go c = b \<and> c \<in> set cands"
        using "2.IH"(1) False by simp
      moreover have "b AND r = b" if "b AND (r AND NOT (go cand AND r)) = b"
        using that by (metis and.assoc and.commute and.left_idem)
      ultimately show ?thesis by simp
    qed
  qed
qed simp

lemma grantor_groups_all: "or_all (map snd (grantor_groups go cands r)) = or_all (map go cands) AND r"
proof (induction go cands r rule: grantor_groups.induct)
  case (2 go cand cands r)
  show ?case
  proof (cases "r = 0 \<or> go cand AND r = 0")
    case True
    with 2 show ?thesis by (auto simp: Let_def bit.conj_disj_distrib2)
  next
    case False
    then have "or_all (map snd (grantor_groups go (cand # cands) r)) =
        (go cand AND r) OR (or_all (map go cands) AND (r AND NOT (go cand AND r)))"
      using "2.IH"(1) by (simp add: Let_def)
    also have "\<dots> = (go cand OR or_all (map go cands)) AND r"
      by (simp add: bit_eq_iff bit_simps) blast
    finally show ?thesis by simp
  qed
qed simp

lemma grantor_groups_disjoint: "sorted_wrt (\<lambda>g h. snd g AND snd h = 0) (grantor_groups go cands r)"
proof (induction go cands r rule: grantor_groups.induct)
  case (2 go cand cands r)
  have "(go cand AND r) AND b = 0" if "b AND (r AND NOT (go cand AND r)) = b" for b
  proof -
    have "(go cand AND r) AND (b AND (r AND NOT (go cand AND r))) = 0" by (simp add: bit_eq_iff bit_simps)
    with that show ?thesis by simp
  qed
  then have "\<forall>h \<in> set (grantor_groups go cands (r AND NOT (go cand AND r))). (go cand AND r) AND snd h = 0"
    using grantor_groups_sub by (metis prod.collapse)
  with 2 show ?case by (auto simp: Let_def)
qed simp

text \<open>
  The grantor groups of a grant: the candidates' groups are disjoint, none is empty, each
  holds only bits its grantor may pass on, and together they are the requested bits that
  any candidate may pass on.
\<close>

theorem grantor_groups_partition:
  "sorted_wrt (\<lambda>g h. snd g AND snd h = 0) (grantor_groups go cands bits) \<and>
   (\<forall>g \<in> set (grantor_groups go cands bits). snd g \<noteq> 0 \<and> fst g \<in> set cands \<and> snd g AND go (fst g) = snd g) \<and>
   or_all (map snd (grantor_groups go cands bits)) = or_all (map go cands) AND bits"
  using grantor_groups_sub [of _ _ go cands bits]
  by (auto simp: grantor_groups_disjoint grantor_groups_all)

theorem grantor_groups_partition_witness:
  "let gs = grantor_groups (\<lambda>r. if r = ''a'' then 3 else 6) [''a'', ''b''] 7
   in (\<forall>g \<in> set gs. snd g \<noteq> 0 \<and> fst g \<in> {''a'', ''b''}) \<and> or_all (map snd gs) = 7"
  using grantor_groups_partition [of "\<lambda>r. if r = ''a'' then 3 else 6" "[''a'', ''b'']" 7]
  by (simp add: Let_def)

section \<open>Where the code departs from its intent\<close>

text \<open>
  Grants between roles may form a cycle, since nothing refuses to grant a privilege back to
  its own grantor. A cycle backs itself: after the owner revokes the privilege with
  \<^verbatim>\<open>CASCADE\<close> from the role it granted it to, both roles keep it.
\<close>

definition cyclic_acl :: "acl_entry list" where
  "cyclic_acl =
     [\<lparr>ac_role = ''a'', ac_privs = 1, ac_grant_option = 1, ac_grantor = ''o''\<rparr>,
      \<lparr>ac_role = ''b'', ac_privs = 1, ac_grant_option = 1, ac_grantor = ''a''\<rparr>,
      \<lparr>ac_role = ''a'', ac_privs = 1, ac_grant_option = 1, ac_grantor = ''b''\<rparr>]"

theorem revoke_leaves_cycle:
  "apply_acl_delta cyclic_acl [''a''] [(''o'', 1)] True False False False True ''o'' = Inr (tl cyclic_acl)"
proof -
  have v: "validate_acl_backing ''o'' True [''a'']
      (strip 1 (hd cyclic_acl) # tl cyclic_acl) = Inr (strip 1 (hd cyclic_acl) # tl cyclic_acl)"
    by (subst validate_acl_backing.simps) (simp add: cyclic_acl_def strip_def unbacked_def acl_go_bits_def)
  show ?thesis
    using v by (simp add: apply_acl_delta_def delta_step_def delta_index_def cyclic_acl_def strip_def)
qed

text \<open>
  A column privilege granted to \<^verbatim>\<open>PUBLIC\<close> counts in \<open>column_privs_in\<close>, but the gate that admits
  a scan, \<open>has_col_priv\<close>, looks only for the roles of the closure and refuses.
\<close>

definition public_column_table :: table where
  "public_column_table = (table_new [(''a'', CtInt)] 0)\<lparr>t_col_acl :=
     [\<lparr>ca_role = ''public'', ca_privs = PRIV_SELECT, ca_columns = [''a''], ca_grant_option = 0, ca_grantor = []\<rparr>]\<rparr>"

definition no_roles_db :: database where
  "no_roles_db = \<lparr>db_tables = [], db_temp_tables = [], db_temp_indexes = [], db_indexes = [], db_sequences = [],
     db_roles = [], db_owner = ''postgres'', db_acl = [], db_obj_schema = []\<rparr>"

lemma no_roles_closure [simp]: "role_closure no_roles_db r snap own = [r]"
proof -
  have "memberships_of no_roles_db n snap own = []" for n
    by (simp add: memberships_of_def find_role_def no_roles_db_def)
  then show ?thesis by (simp add: role_closure_def closure_loop.simps)
qed

theorem public_column_grant_refused:
  "column_privs_in no_roles_db ''u'' public_column_table ''a'' (role_closure no_roles_db ''u'' snap own) snap own
     = PRIV_SELECT \<and>
   \<not> has_col_priv no_roles_db ''u'' public_column_table PRIV_SELECT snap own"
proof -
  have "table_privs_in no_roles_db ''u'' public_column_table [''u''] snap own = 0"
    by (simp add: table_privs_in_def is_superuser_snap_def find_role_def no_roles_db_def public_column_table_def
        table_new_def)
  then show ?thesis
    by (simp add: column_privs_in_def has_col_priv_def table_privs_def Let_def)
      (simp add: public_column_table_def priv_defs)
qed

text \<open>
  An entry for \<^verbatim>\<open>PUBLIC\<close> in the database's list has no effect on who may connect, so that
  \<^verbatim>\<open>REVOKE CONNECT ... FROM PUBLIC\<close> takes nothing away.
\<close>

theorem connect_ignores_public:
  assumes "ac_role e = ''public''" and "''public'' \<notin> set (role_closure db role snap own)"
  shows "db_connect_allowed (db\<lparr>db_acl := e # db_acl db\<rparr>) role snap own = db_connect_allowed db role snap own"
proof -
  have f: "find_role (db\<lparr>db_acl := x\<rparr>) n snap own = find_role db n snap own" for x n
    by (simp add: find_role_def)
  have "closure_loop follow (db\<lparr>db_acl := x\<rparr>) snap own i out = closure_loop follow db snap own i out" for x follow i out
  proof (induction follow db snap own i out rule: closure_loop.induct)
    case (1 follow db snap own i out)
    have "find_role (db\<lparr>db_acl := x\<rparr>) n snap own = find_role db n snap own" for n by (simp add: find_role_def)
    with 1 show ?case
      by (simp add: closure_loop.simps [of follow "db\<lparr>db_acl := x\<rparr>"] closure_loop.simps [of follow db snap own i]
          memberships_of_def)
  qed
  then have "role_closure (db\<lparr>db_acl := x\<rparr>) role snap own = role_closure db role snap own" for x
    by (simp add: role_closure_def)
  with assms f show ?thesis by (simp add: db_connect_allowed_def is_superuser_snap_def Let_def)
qed

end
