(* ===== verification/Sequences.thy ===== *)
theory Sequences
  imports Access
begin

text \<open>
  Sequences, \<^verbatim>\<open>exec/seq.rs\<close>: the resolution of \<^verbatim>\<open>CREATE\<close> and \<^verbatim>\<open>ALTER SEQUENCE\<close> options and
  \<^verbatim>\<open>nextval\<close>, \<^verbatim>\<open>currval\<close>, \<^verbatim>\<open>lastval\<close> and \<^verbatim>\<open>setval\<close> with the session-local values. The lemmas
  state the invariant of the stored parameters, and what the values returned are.
\<close>

section \<open>Options\<close>

fun seq_type_name :: "seq_type \<Rightarrow> string" where
  "seq_type_name SeqSmallInt = ''smallint''"
| "seq_type_name SeqInteger = ''integer''"
| "seq_type_name SeqBigInt = ''bigint''"

fun seq_type_min :: "seq_type \<Rightarrow> i64" where
  "seq_type_min SeqSmallInt = - 32768"
| "seq_type_min SeqInteger = - 2147483648"
| "seq_type_min SeqBigInt = - 9223372036854775808"

fun seq_type_max :: "seq_type \<Rightarrow> i64" where
  "seq_type_max SeqSmallInt = 32767"
| "seq_type_max SeqInteger = 2147483647"
| "seq_type_max SeqBigInt = 9223372036854775807"

record seq_opts =
  so_type :: "seq_type option"
  so_start :: "i64 option"
  so_increment :: "i64 option"
  so_min_value :: "i64 option"
  so_max_value :: "i64 option"
  so_reset_min :: bool
  so_reset_max :: bool
  so_cycle :: "bool option"
  so_restart :: "i64 option"
  so_cache :: "i64 option"

definition RESTART_SENTINEL :: i64 where
  "RESTART_SENTINEL = - 9223372036854775808"

definition or_else :: "'a option \<Rightarrow> 'a option \<Rightarrow> 'a \<Rightarrow> 'a" where
  "or_else a b c = (case a of Some x \<Rightarrow> x | None \<Rightarrow> (case b of Some y \<Rightarrow> y | None \<Rightarrow> c))"

text \<open>The decimal rendering of an \<^verbatim>\<open>i64\<close>.\<close>

definition i64_text :: "i64 \<Rightarrow> string" where
  "i64_text i =
     (if sint i < 0 then CHR ''-'' # dec_string (nat (- sint i)) else dec_string (nat (sint i)))"

record seq_params =
  sp_type :: seq_type
  sp_start :: i64
  sp_increment :: i64
  sp_min_value :: i64
  sp_max_value :: i64
  sp_cycle :: bool
  sp_cache :: i64
  sp_restart :: "i64 option"

definition sequence_checks ::
  "seq_opts \<Rightarrow> sequence option \<Rightarrow> seq_type \<Rightarrow> i64 \<Rightarrow> i64 \<Rightarrow> i64 \<Rightarrow> i64 \<Rightarrow> bool \<Rightarrow> i64 \<Rightarrow>
     exec_error + seq_params" where
  "sequence_checks opts cur ty start increment min_value max_value cyc cache =
     (let bad = (\<lambda>m. Inl (ExecErr ''22023'' m));
          ok = (\<lambda>restart. Inr \<lparr>sp_type = ty, sp_start = start, sp_increment = increment, sp_min_value = min_value,
                  sp_max_value = max_value, sp_cycle = cyc, sp_cache = cache, sp_restart = restart\<rparr>)
      in if sint max_value \<le> sint min_value
         then bad (''MINVALUE ('' @ i64_text min_value @ '') must be less than MAXVALUE ('' @ i64_text max_value @ '')'')
         else if sint start < sint min_value \<or> sint max_value < sint start
         then bad (''START value ('' @ i64_text start @ '') cannot be less than MINVALUE ('' @ i64_text min_value @
                '') or greater than MAXVALUE ('' @ i64_text max_value @ '')'')
         else if cur = None \<and> so_restart opts \<noteq> None
         then Inl (ExecErr ''42601'' ''syntax error: RESTART is not allowed in CREATE SEQUENCE'')
         else
           (case so_restart opts of
              None \<Rightarrow> ok None
            | Some v \<Rightarrow>
                if v = RESTART_SENTINEL then ok (Some start)
                else if sint v < sint min_value \<or> sint max_value < sint v
                then bad ''RESTART value out of bounds''
                else ok (Some v)))"

definition sequence_params :: "seq_opts \<Rightarrow> sequence option \<Rightarrow> exec_error + seq_params" where
  "sequence_params opts cur =
     (let bad = (\<lambda>m. Inl (ExecErr ''22023'' m));
          increment = or_else (so_increment opts) (map_option sq_increment cur) 1
      in if increment = 0 then bad ''INCREMENT must not be zero''
         else
           (let descending = sint increment < 0;
                ty = or_else (so_type opts) (map_option sq_type cur) SeqBigInt;
                (ty_min, ty_max) =
                  (case (so_type opts, cur) of
                     (Some new_t, Some s) \<Rightarrow>
                       if new_t \<noteq> sq_type s
                       then (sq_min_value s = seq_type_min (sq_type s), sq_max_value s = seq_type_max (sq_type s))
                       else (False, False)
                   | _ \<Rightarrow> (False, False));
                reset_max = (ty_max \<or> so_reset_max opts);
                reset_min = (ty_min \<or> so_reset_min opts);
                max_default = (if descending then - 1 else seq_type_max ty);
                max_value =
                  (case so_max_value opts of
                     Some v \<Rightarrow> v
                   | None \<Rightarrow> (case cur of Some s \<Rightarrow> if \<not> reset_max then sq_max_value s else max_default
                             | None \<Rightarrow> max_default));
                min_default = (if descending then seq_type_min ty else 1);
                min_value =
                  (case so_min_value opts of
                     Some v \<Rightarrow> v
                   | None \<Rightarrow> (case cur of Some s \<Rightarrow> if \<not> reset_min then sq_min_value s else min_default
                             | None \<Rightarrow> min_default))
            in if sint max_value < sint (seq_type_min ty) \<or> sint (seq_type_max ty) < sint max_value
               then bad (''MAXVALUE ('' @ i64_text max_value @ '') is out of range for sequence data type '' @ seq_type_name ty)
               else if sint min_value < sint (seq_type_min ty) \<or> sint (seq_type_max ty) < sint min_value
               then bad (''MINVALUE ('' @ i64_text min_value @ '') is out of range for sequence data type '' @ seq_type_name ty)
               else
                 (let start =
                        (case so_start opts of
                           Some v \<Rightarrow> v
                         | None \<Rightarrow> (case cur of Some s \<Rightarrow> sq_start s
                                   | None \<Rightarrow> if descending then max_value else min_value));
                      cyc = or_else (so_cycle opts) (map_option sq_cycle cur) False;
                      cache = or_else (so_cache opts) (map_option sq_cache cur) 1
                  in case so_cache opts of
                       Some c \<Rightarrow>
                         if sint c < 1
                         then bad (''CACHE value '' @ i64_text c @ '' must be greater than zero'')
                         else sequence_checks opts cur ty start increment min_value max_value cyc cache
                     | None \<Rightarrow> sequence_checks opts cur ty start increment min_value max_value cyc cache)))"

section \<open>The engine\<close>

text \<open>
  \<^verbatim>\<open>Engine\<close>: the database, the transaction manager and the state of sequence functions. The
  replication slots, the queues of deferred checks and the parse-cache epoch are not modelled.
\<close>

record engine =
  en_db :: database
  en_txns :: txn_manager
  en_seq_currval :: "nat \<times> string \<rightharpoonup> i64"
  en_seq_advanced :: "string list"
  en_seq_lastval :: "nat \<rightharpoonup> i64"

definition note_advanced :: "string \<Rightarrow> engine \<Rightarrow> engine" where
  "note_advanced name eng =
     (if name \<in> set (en_seq_advanced eng) then eng
      else eng\<lparr>en_seq_advanced := en_seq_advanced eng @ [name]\<rparr>)"

text \<open>The value after the current one; \<^verbatim>\<open>None\<close> where the addition of the increment overflows.\<close>

definition seq_advance :: "string \<Rightarrow> sequence \<Rightarrow> exec_error + i64" where
  "seq_advance name s =
     (let which = (if 0 < sint (sq_increment s) then ''maximum'' else ''minimum'');
          msg = ''nextval: reached '' @ which @ '' value of sequence \"'' @ name @ [CHR 0x22]
      in case sq_current s of
           None \<Rightarrow> Inr (sq_start s)
         | Some v \<Rightarrow>
             if \<not> sq_is_called s then Inr v
             else
               (let n = sint v + sint (sq_increment s)
                in if n < - (2 ^ 63) \<or> 2 ^ 63 \<le> n then Inl (ExecErr ''22000'' msg)
                   else
                     (let over = (if 0 < sint (sq_increment s) then sint (sq_max_value s) < n
                                  else n < sint (sq_min_value s))
                      in if \<not> over then Inr (word_of_int n)
                         else if sq_cycle s
                         then Inr (if 0 < sint (sq_increment s) then sq_min_value s else sq_max_value s)
                         else Inl (ExecErr ''22000''
                           (msg @ '' ('' @ i64_text (if 0 < sint (sq_increment s) then sq_max_value s else sq_min_value s) @ '')'')))))"

definition no_relation :: "string \<Rightarrow> exec_error" where
  "no_relation name = ExecErr ''42P01'' (''relation \"'' @ name @ ''\" does not exist'')"

definition seq_denied :: "string \<Rightarrow> exec_error" where
  "seq_denied name = ExecErr ''42501'' (''permission denied for sequence \"'' @ name @ [CHR 0x22])"

definition seq_nextval ::
  "engine \<Rightarrow> snapshot \<Rightarrow> nat \<Rightarrow> nat \<Rightarrow> string \<Rightarrow> string \<Rightarrow> (exec_error + i64) \<times> engine" where
  "seq_nextval eng snap own session role name =
     (case find_sequence (en_db eng) name snap own of
        None \<Rightarrow> (Inl (no_relation name), eng)
      | Some s \<Rightarrow>
          if sequence_privs (en_db eng) role s snap own AND PRIV_USAGE = 0 then (Inl (seq_denied name), eng)
          else
            (case seq_advance name s of
               Inl e \<Rightarrow> (Inl e, eng)
             | Inr v \<Rightarrow>
                 (case update_sequence (en_db eng) name snap own (\<lambda>q. q\<lparr>sq_current := Some v, sq_is_called := True\<rparr>) of
                    None \<Rightarrow> (Inl (no_relation name), eng)
                  | Some db' \<Rightarrow>
                      (Inr v, note_advanced name
                         (eng\<lparr>en_db := db', en_seq_currval := (en_seq_currval eng)((session, name) \<mapsto> v),
                              en_seq_lastval := (en_seq_lastval eng)(session \<mapsto> v)\<rparr>)))))"

definition seq_currval ::
  "engine \<Rightarrow> snapshot \<Rightarrow> nat \<Rightarrow> nat \<Rightarrow> string \<Rightarrow> string \<Rightarrow> exec_error + i64" where
  "seq_currval eng snap own session role name =
     (case find_sequence (en_db eng) name snap own of
        None \<Rightarrow> Inl (no_relation name)
      | Some s \<Rightarrow>
          if sequence_privs (en_db eng) role s snap own AND PRIV_USAGE = 0 then Inl (seq_denied name)
          else
            (case en_seq_currval eng (session, name) of
               Some v \<Rightarrow> Inr v
             | None \<Rightarrow> Inl (ExecErr ''55000''
                 (''currval of sequence \"'' @ name @ ''\" is not yet defined in this session''))))"

definition seq_lastval :: "engine \<Rightarrow> nat \<Rightarrow> exec_error + i64" where
  "seq_lastval eng session =
     (case en_seq_lastval eng session of
        Some v \<Rightarrow> Inr v | None \<Rightarrow> Inl (ExecErr ''55000'' ''lastval is not yet defined in this session''))"

definition seq_setval ::
  "engine \<Rightarrow> snapshot \<Rightarrow> nat \<Rightarrow> nat \<Rightarrow> string \<Rightarrow> string \<Rightarrow> i64 \<Rightarrow> bool \<Rightarrow> (exec_error + i64) \<times> engine" where
  "seq_setval eng snap own session role name v is_called =
     (case find_sequence (en_db eng) name snap own of
        None \<Rightarrow> (Inl (no_relation name), eng)
      | Some s \<Rightarrow>
          if sequence_privs (en_db eng) role s snap own AND PRIV_UPDATE = 0 then (Inl (seq_denied name), eng)
          else if sint v < sint (sq_min_value s) \<or> sint (sq_max_value s) < sint v
          then (Inl (ExecErr ''22003'' (''setval: value '' @ i64_text v @ '' is out of bounds for sequence \"'' @ name @
                  ''\" ('' @ i64_text (sq_min_value s) @ ''..'' @ i64_text (sq_max_value s) @ '')'')), eng)
          else
            (case update_sequence (en_db eng) name snap own (\<lambda>q. q\<lparr>sq_current := Some v, sq_is_called := is_called\<rparr>) of
               None \<Rightarrow> (Inl (no_relation name), eng)
             | Some db' \<Rightarrow>
                 (Inr v, note_advanced name
                    (eng\<lparr>en_db := db', en_seq_currval :=
                       (if is_called then (en_seq_currval eng)((session, name) \<mapsto> v) else en_seq_currval eng)\<rparr>))))"

section \<open>Invariant\<close>

text \<open>The parameters of a stored sequence, and its position inside the bounds.\<close>

definition seq_wf :: "sequence \<Rightarrow> bool" where
  "seq_wf s \<longleftrightarrow>
     sint (sq_increment s) \<noteq> 0 \<and> sint (sq_min_value s) < sint (sq_max_value s) \<and>
     sint (sq_min_value s) \<le> sint (sq_start s) \<and> sint (sq_start s) \<le> sint (sq_max_value s) \<and>
     sint (seq_type_min (sq_type s)) \<le> sint (sq_min_value s) \<and>
     sint (sq_max_value s) \<le> sint (seq_type_max (sq_type s)) \<and>
     (case sq_current s of None \<Rightarrow> True
      | Some v \<Rightarrow> sint (sq_min_value s) \<le> sint v \<and> sint v \<le> sint (sq_max_value s))"

definition params_seq :: "string \<Rightarrow> seq_params \<Rightarrow> nat \<Rightarrow> sequence" where
  "params_seq name p xid =
     sequence_new name (sp_type p) (sp_start p) (sp_increment p) (sp_min_value p) (sp_max_value p) (sp_cycle p)
       (sp_cache p) xid"

lemma sint_eq_0 [simp]: "sint (w :: 'a::len word) = 0 \<longleftrightarrow> w = 0"
  by (metis signed_0 signed_word_eqI)

lemma sequence_checks_wf:
  assumes "sequence_checks opts cur ty start increment min_value max_value cyc cache = Inr p" and "increment \<noteq> 0"
    and "sint (seq_type_min ty) \<le> sint min_value" and "sint max_value \<le> sint (seq_type_max ty)"
  shows "seq_wf (params_seq name p xid) \<and>
    (\<forall>r. sp_restart p = Some r \<longrightarrow> sint (sp_min_value p) \<le> sint r \<and> sint r \<le> sint (sp_max_value p))"
  using assms
  by (auto simp: sequence_checks_def Let_def seq_wf_def params_seq_def sequence_new_def split: if_splits option.splits)

lemma sequence_params_wf:
  assumes "sequence_params opts cur = Inr p"
  shows "seq_wf (params_seq name p xid) \<and>
    (\<forall>r. sp_restart p = Some r \<longrightarrow> sint (sp_min_value p) \<le> sint r \<and> sint r \<le> sint (sp_max_value p))"
proof -
  obtain ty start increment min_value max_value cyc cache where
    "sequence_checks opts cur ty start increment min_value max_value cyc cache = Inr p" "increment \<noteq> 0"
    "sint (seq_type_min ty) \<le> sint min_value" "sint max_value \<le> sint (seq_type_max ty)"
    using assms
    unfolding sequence_params_def Let_def
    by (auto split: if_splits prod.splits option.splits simp del: seq_type_min.simps seq_type_max.simps)
  then show ?thesis by (rule sequence_checks_wf)
qed

section \<open>Lookups after an advance\<close>

lemma find_upd_first:
  assumes "\<And>x. p (f x) = p x"
  shows "upd_first (\<lambda>x. if p x then Some (f x) else None) xs = Some ys \<Longrightarrow> find p ys = map_option f (find p xs)"
  using assms by (induction xs arbitrary: ys) (auto split: if_splits)

lemma upd_first_Some:
  "find p xs = Some x \<Longrightarrow> \<exists>ys. upd_first (\<lambda>x. if p x then Some (f x) else None) xs = Some ys"
  by (induction xs) (auto split: if_splits)

lemma update_sequence_found:
  assumes "find_sequence db name snap own = Some s" and "\<And>q. seq_visible (f q) snap own = seq_visible q snap own"
  shows "\<exists>db'. update_sequence db name snap own f = Some db' \<and> find_sequence db' name snap own = Some (f s) \<and>
    db_roles db' = db_roles db \<and> db_owner db' = db_owner db"
proof -
  obtain vs where vs: "map_of (db_sequences db) name = Some vs" "find (\<lambda>s. seq_visible s snap own) vs = Some s"
    using assms(1) by (auto simp: find_sequence_def bind_eq_Some_conv)
  obtain ys where ys: "upd_first (\<lambda>s. if seq_visible s snap own then Some (f s) else None) vs = Some ys"
    using upd_first_Some [OF vs(2)] by blast
  then have "find (\<lambda>s. seq_visible s snap own) ys = Some (f s)"
    using find_upd_first [of "\<lambda>s. seq_visible s snap own" f vs ys] assms(2) vs(2) by simp
  with vs ys show ?thesis by (simp add: update_sequence_def find_sequence_def map_of_hm_modify)
qed

lemma find_role_cong: "db_roles db' = db_roles db \<Longrightarrow> find_role db' = find_role db"
  by (simp add: find_role_def fun_eq_iff)

lemma closure_loop_cong:
  assumes "db_roles db' = db_roles db"
  shows "closure_loop follow db' snap own i out = closure_loop follow db snap own i out"
  using assms
proof (induction follow db snap own i out rule: closure_loop.induct)
  case (1 follow db snap own i out)
  have m: "memberships_of db' = memberships_of db"
    using find_role_cong [OF "1.prems"] by (simp add: memberships_of_def fun_eq_iff)
  show ?case
  proof (cases "i < length out")
    case True
    note IH = "1.IH" [OF True "1.prems"]
    show ?thesis
      unfolding closure_loop.simps [of follow db' snap own i] closure_loop.simps [of follow db snap own i] m
      using True IH by simp
  next
    case False
    then show ?thesis
      by (simp add: closure_loop.simps [of follow db' snap own i] closure_loop.simps [of follow db snap own i])
  qed
qed

lemma sequence_privs_cong:
  assumes "db_roles db' = db_roles db" and "sq_owner s' = sq_owner s" and "sq_acl s' = sq_acl s"
  shows "sequence_privs db' role s' snap own = sequence_privs db role s snap own"
  using assms(2,3) find_role_cong [OF assms(1)] closure_loop_cong [OF assms(1)]
  by (simp add: sequence_privs_def is_superuser_snap_def role_closure_def Let_def)

lemma sint_sum:
  fixes a b :: i64
  assumes "- 9223372036854775808 \<le> sint a + sint b" and "sint a + sint b < 9223372036854775808"
  shows "sint (word_of_int (sint a) + word_of_int (sint b) :: i64) = sint a + sint b"
proof -
  have "sint (word_of_int (sint a + sint b) :: i64) = sint a + sint b"
    using assms by (simp add: signed_of_int signed_take_bit_int_eq_self del: of_int_add)
  then show ?thesis by simp
qed

lemma seq_visible_step [simp]:
  "seq_visible (q\<lparr>sq_current := c, sq_is_called := b\<rparr>) snap own = seq_visible q snap own"
  by (simp add: seq_visible_def)

lemma seq_advance_Inr:
  assumes "seq_wf s" and "seq_advance name s = Inr v"
  shows "sint (sq_min_value s) \<le> sint v \<and> sint v \<le> sint (sq_max_value s) \<and>
    seq_wf (s\<lparr>sq_current := Some v, sq_is_called := True\<rparr>)"
  using assms
  by (auto simp: seq_advance_def Let_def seq_wf_def sint_sum split: option.splits if_splits)

lemma seq_advance_called:
  assumes "seq_advance name s = Inr v" and "sq_current s = Some c" and "sq_is_called s" and "\<not> sq_cycle s"
  shows "sint v = sint c + sint (sq_increment s)"
  using assms
  by (auto simp: seq_advance_def Let_def sint_sum split: if_splits)

section \<open>Properties\<close>

text \<open>
  C36. Options that \<^verbatim>\<open>CREATE\<close> or \<^verbatim>\<open>ALTER SEQUENCE\<close> accepts give a well-formed sequence: a nonzero
  increment, bounds in order and inside the data type, a start between them; and a restart
  value lies between the bounds.
\<close>

theorem sequence_params_wellformed:
  "case sequence_params opts cur of
     Inl e \<Rightarrow> True
   | Inr p \<Rightarrow> seq_wf (params_seq name p xid) \<and>
       (case sp_restart p of None \<Rightarrow> True
        | Some r \<Rightarrow> sint (sp_min_value p) \<le> sint r \<and> sint r \<le> sint (sp_max_value p))"
  using sequence_params_wf by (auto split: sum.split option.split)


definition demo_seq :: sequence where
  "demo_seq = sequence_new ''s'' SeqBigInt 1 1 1 100 False 1 1"

definition demo_engine :: engine where
  "demo_engine = \<lparr>en_db = no_roles_db\<lparr>db_sequences := [(''s'', [demo_seq])],
       db_roles := [(''postgres'', [bootstrap_postgres])]\<rparr>,
     en_txns = txn_manager_new, en_seq_currval = Map.empty, en_seq_advanced = [], en_seq_lastval = Map.empty\<rparr>"

lemma demo_seq_found:
  "find_sequence (en_db demo_engine) ''s'' \<lparr>sn_active = [], sn_next_xid = 5\<rparr> 9 = Some demo_seq"
  "sequence_privs (en_db demo_engine) ''postgres'' demo_seq \<lparr>sn_active = [], sn_next_xid = 5\<rparr> 9 AND PRIV_USAGE \<noteq> 0"
  by (simp_all add: find_sequence_def demo_engine_def demo_seq_def sequence_new_def seq_visible_def
      sequence_privs_def is_superuser_snap_def find_role_def bootstrap_postgres_def role_visible_def priv_defs)


fun draws :: "string \<Rightarrow> nat \<Rightarrow> sequence \<Rightarrow> i64 list" where
  "draws name 0 s = []"
| "draws name (Suc k) s =
     (case seq_advance name s of
        Inl e \<Rightarrow> draws name k s
      | Inr v \<Rightarrow> v # draws name k (s\<lparr>sq_current := Some v, sq_is_called := True\<rparr>))"

lemma draws_beyond:
  assumes "\<not> sq_cycle s" and "sq_is_called s" and "sq_current s = Some c"
  shows "\<forall>v \<in> set (draws name k s).
    if 0 < sint (sq_increment s) then sint c < sint v else sint (sq_increment s) < 0 \<longrightarrow> sint v < sint c"
  using assms
proof (induction k arbitrary: s c)
  case (Suc k)
  show ?case
  proof (cases "seq_advance name s")
    case (Inl e)
    with Suc show ?thesis by simp
  next
    case (Inr v)
    have v: "sint v = sint c + sint (sq_increment s)"
      using seq_advance_called [OF Inr] Suc.prems by simp
    have "\<forall>u \<in> set (draws name k (s\<lparr>sq_current := Some v, sq_is_called := True\<rparr>)).
        if 0 < sint (sq_increment s) then sint v < sint u else sint (sq_increment s) < 0 \<longrightarrow> sint u < sint v"
      using Suc.IH [of "s\<lparr>sq_current := Some v, sq_is_called := True\<rparr>" v] Suc.prems by simp
    with v Inr show ?thesis by (auto split: if_splits)
  qed
qed simp

text \<open>
  C38. A sequence that does not cycle never repeats a value: the values that any number of
  successive calls return, whichever sessions call, run strictly upward for a positive
  increment and strictly downward for a negative one.
\<close>

theorem draws_strict:
  assumes "\<not> sq_cycle s" and "sint (sq_increment s) \<noteq> 0"
  shows "if 0 < sint (sq_increment s) then sorted_wrt (\<lambda>u v. sint u < sint v) (draws name k s)
    else sorted_wrt (\<lambda>u v. sint v < sint u) (draws name k s)"
  using assms
proof (induction k arbitrary: s)
  case (Suc k)
  show ?case
  proof (cases "seq_advance name s")
    case (Inl e)
    with Suc show ?thesis by simp
  next
    case (Inr v)
    let ?s = "s\<lparr>sq_current := Some v, sq_is_called := True\<rparr>"
    have "\<forall>u \<in> set (draws name k ?s). if 0 < sint (sq_increment s) then sint v < sint u
        else sint (sq_increment s) < 0 \<longrightarrow> sint u < sint v"
      using draws_beyond [of ?s v name k] Suc.prems by simp
    with Suc.IH [of ?s] Suc.prems Inr show ?thesis by (auto split: if_splits)
  qed
qed simp

theorem draws_strict_witness:
  "sorted_wrt (\<lambda>u v. sint u < sint v) (draws ''s'' 3 demo_seq) \<and> draws ''s'' 3 demo_seq \<noteq> []"
  using draws_strict [of demo_seq "''s''" 3]
  by (simp add: demo_seq_def sequence_new_def numeral_3_eq_3 seq_advance_def split: sum.split)

section \<open>Where the code departs from its intent\<close>

text \<open>
  A cycling sequence whose bound is the last machine integer does not cycle: the addition is
  checked before the bound, and its overflow is reported as an exhausted sequence.
\<close>

theorem cycle_overflow_fails:
  "\<exists>e. seq_advance name (demo_seq\<lparr>sq_max_value := 9223372036854775807, sq_cycle := True,
     sq_current := Some 9223372036854775807, sq_is_called := True\<rparr>) = Inl e"
  by (simp add: seq_advance_def demo_seq_def sequence_new_def)

text \<open>
  \<^verbatim>\<open>RESTART WITH\<close> the least machine integer is taken for a bare \<^verbatim>\<open>RESTART\<close>: the restart value is
  the start.
\<close>

theorem restart_sentinel_confused:
  "case sequence_params \<lparr>so_type = None, so_start = Some 5, so_increment = None,
       so_min_value = Some (- 9223372036854775808), so_max_value = None, so_reset_min = False, so_reset_max = False,
       so_cycle = None, so_restart = Some (- 9223372036854775808), so_cache = None\<rparr> (Some demo_seq) of
     Inr p \<Rightarrow> sp_restart p = Some 5 | Inl e \<Rightarrow> False"
  by (simp add: sequence_params_def sequence_checks_def demo_seq_def sequence_new_def or_else_def RESTART_SENTINEL_def)

end
