(* ===== verification/Vacuum.thy ===== *)
theory Vacuum
  imports Sequences IndexMaint
begin

text \<open>
  Vacuum, \<^verbatim>\<open>Engine::vacuum_table\<close> and its relatives of \<^verbatim>\<open>storage.rs\<close>: row versions that no
  snapshot can see are removed, with their index entries and the chunks of the wide values
  only they refer to. \<^verbatim>\<open>None\<close> is the panic of an index column past the end of a row. The
  invariant \<open>db_indexed\<close> (every live index covers the rows of all versions of its table)
  excludes that panic and is kept.
\<close>

section \<open>Operations\<close>

text \<open>The loop over the removed versions that takes their entries out of the indexes.\<close>

fun remove_entries :: "key_env \<Rightarrow> string \<Rightarrow> row_version list \<Rightarrow> database \<Rightarrow> database option" where
  "remove_entries env tab [] db = Some db"
| "remove_entries env tab (v # vs) db =
     (case index_remove_row env tab (v_id v) (v_values v) db of
        None \<Rightarrow> None
      | Some db' \<Rightarrow> remove_entries env tab vs db')"

definition is_chunk :: "u32 list \<Rightarrow> row_version \<Rightarrow> bool" where
  "is_chunk vids r = (case v_values r of VInt vid # _ \<Rightarrow> ucast vid \<in> set vids | _ \<Rightarrow> False)"

text \<open>
  The sweep over the versions of the toast table; \<open>gone\<close> collects over all of them, and the
  position map is rebuilt from the first version on that lost a row.
\<close>

fun reap_chunks :: "u32 list \<Rightarrow> row_version list \<Rightarrow> table list \<Rightarrow> row_version list \<times> table list" where
  "reap_chunks vids gone [] = (gone, [])"
| "reap_chunks vids gone (t # ts) =
     (let gone' = gone @ filter (is_chunk vids) (t_rows t);
          t' = t\<lparr>t_rows := filter (\<lambda>r. \<not> is_chunk vids r) (t_rows t)\<rparr>;
          t'' = (if gone' \<noteq> [] then rebuild_row_index t' else t');
          (gone'', ts') = reap_chunks vids gone' ts
      in (gone'', t'' # ts'))"

definition prune_toast_info :: "u32 list \<Rightarrow> table \<Rightarrow> table" where
  "prune_toast_info vids t = t\<lparr>t_toast_info := fold hm_remove vids (t_toast_info t)\<rparr>"

definition live_vids :: "table list \<Rightarrow> u32 list" where
  "live_vids versions = concat (map v_toast (concat (map t_rows versions)))"

definition toast_table_name :: "database \<Rightarrow> string \<Rightarrow> string option" where
  "toast_table_name db name =
     (case map_of (db_tables db) name of
        None \<Rightarrow> None
      | Some versions \<Rightarrow>
          if versions = [] then None
          else if t_toast_relid (last versions) = 0 then None
          else table_name_by_oid db (t_toast_relid (last versions)))"

definition dead_vids :: "database \<Rightarrow> string \<Rightarrow> row_version list \<Rightarrow> u32 list" where
  "dead_vids db name dead =
     (let vids = filter (\<lambda>v. v \<noteq> 0) (concat (map v_toast dead))
      in case map_of (db_tables db) name of
           Some versions \<Rightarrow> filter (\<lambda>v. v \<notin> set (live_vids versions)) vids
         | None \<Rightarrow> vids)"

definition vacuum_toast_chunks :: "key_env \<Rightarrow> string \<Rightarrow> row_version list \<Rightarrow> database \<Rightarrow> database option" where
  "vacuum_toast_chunks env name dead db =
     (let vids = dead_vids db name dead in
      if vids = [] then Some db
      else
        (case toast_table_name db name of
           None \<Rightarrow> Some db
         | Some toast_name \<Rightarrow>
             (case map_of (db_tables db) toast_name of
                None \<Rightarrow> Some db
              | Some versions \<Rightarrow>
                  (let (gone, versions') = reap_chunks vids [] versions;
                       db1 = db\<lparr>db_tables := hm_modify toast_name (\<lambda>_. versions') (db_tables db)\<rparr>
                   in case remove_entries env toast_name gone db1 of
                        None \<Rightarrow> None
                      | Some db2 \<Rightarrow>
                          Some (db2\<lparr>db_tables :=
                            hm_modify name (map (prune_toast_info vids)) (db_tables db2)\<rparr>)))))"

definition vacuum_table :: "key_env \<Rightarrow> string \<Rightarrow> engine \<Rightarrow> (nat \<times> engine) option" where
  "vacuum_table env name eng =
     (let db = en_db eng; gone = version_dead_to_all (en_txns eng);
          versions = case_option [] id (map_of (db_tables db) name);
          dead = concat (map (\<lambda>t. filter gone (t_rows t)) versions);
          db1 = db\<lparr>db_tables := hm_modify name (map (retain_versions (\<lambda>v. \<not> gone v))) (db_tables db)\<rparr>
      in case remove_entries env name dead db1 of
           None \<Rightarrow> None
         | Some db2 \<Rightarrow>
             (case vacuum_toast_chunks env name dead db2 of
                None \<Rightarrow> None
              | Some db3 \<Rightarrow> Some (length dead, eng\<lparr>en_db := db3\<rparr>)))"

fun vacuum_tables :: "key_env \<Rightarrow> string list \<Rightarrow> engine \<Rightarrow> ((string \<times> nat) list \<times> engine) option" where
  "vacuum_tables env [] eng = Some ([], eng)"
| "vacuum_tables env (name # names) eng =
     (case vacuum_table env name eng of
        None \<Rightarrow> None
      | Some (n, eng') \<Rightarrow>
          map_option (apfst (\<lambda>out. if 0 < n then (name, n) # out else out)) (vacuum_tables env names eng'))"

definition vacuum_all :: "key_env \<Rightarrow> engine \<Rightarrow> ((string \<times> nat) list \<times> engine) option" where
  "vacuum_all env eng =
     map_option (apfst (sort_by (\<lambda>a b. then_with (ord_cmp (fst a) (fst b)) (ord_cmp (snd a) (snd b)))))
       (vacuum_tables env (map fst (db_tables (en_db eng))) eng)"

text \<open>
  A temporary table, whose removed versions are taken out of the indexes of the permanent
  table of the same name. The inner \<^verbatim>\<open>None\<close> means that the session has no such table.
\<close>

definition vacuum_temp_table :: "key_env \<Rightarrow> nat \<Rightarrow> string \<Rightarrow> engine \<Rightarrow> (nat option \<times> engine) option" where
  "vacuum_temp_table env session name eng =
     (let db = en_db eng; gone = version_dead_to_all (en_txns eng) in
      case temp_table db session name of
        None \<Rightarrow> Some (None, eng)
      | Some t \<Rightarrow>
          (let dead = filter gone (t_rows t);
               db1 = db\<lparr>db_temp_tables := hm_modify session
                 (hm_modify name (retain_versions (\<lambda>v. \<not> gone v))) (db_temp_tables db)\<rparr>
           in case remove_entries env name dead db1 of
                None \<Rightarrow> None
              | Some db2 \<Rightarrow> Some (Some (length dead), eng\<lparr>en_db := db2\<rparr>)))"

section \<open>Indexes over the rows of all tables\<close>

text \<open>
  \<open>indexed env ks db rows\<close>: every live, usable index covers the rows that \<open>rows\<close> gives for its
  table. The kinds of the columns of each index are the parameter \<open>ks\<close>.
\<close>

definition indexed :: "key_env \<Rightarrow> (string \<Rightarrow> key_kind list) \<Rightarrow> database \<Rightarrow> (string \<Rightarrow> row_version list) \<Rightarrow> bool" where
  "indexed env ks db rows \<longleftrightarrow>
     index_names_ok db \<and>
     (\<forall>(n, ix) \<in> set (db_indexes db). \<forall>tab. index_live tab ix \<longrightarrow> ix_covers env (ks n) ix (rows tab))"

definition versions_of :: "database \<Rightarrow> string \<Rightarrow> table list" where
  "versions_of db name = case_option [] id (map_of (db_tables db) name)"

definition rows_of :: "database \<Rightarrow> string \<Rightarrow> row_version list" where
  "rows_of db name = concat (map t_rows (versions_of db name))"

definition db_indexed :: "key_env \<Rightarrow> (string \<Rightarrow> key_kind list) \<Rightarrow> database \<Rightarrow> bool" where
  "db_indexed env ks db \<longleftrightarrow> indexed env ks db (rows_of db)"

text \<open>All tables are in step with their position maps, and ids are distinct within a name.\<close>

definition db_synced :: "database \<Rightarrow> bool" where
  "db_synced db \<longleftrightarrow>
     (\<forall>name. (\<forall>t \<in> set (versions_of db name). tb_sync t) \<and> distinct (map v_id (rows_of db name)))"

lemma indexed_subset:
  "indexed env ks db rows \<Longrightarrow> (\<And>tab. set (rows' tab) \<subseteq> set (rows tab)) \<Longrightarrow> indexed env ks db rows'"
  unfolding indexed_def using ix_covers_subset by fastforce

lemma indexed_tables [simp]:
  "indexed env ks (db\<lparr>db_tables := ts\<rparr>) = indexed env ks db"
  "indexed env ks (db\<lparr>db_temp_tables := tmps\<rparr>) = indexed env ks db"
  by (simp_all add: indexed_def index_names_ok_def fun_eq_iff)

lemma index_remove_row_frame: "index_remove_row env tab i values db = Some db' \<Longrightarrow> db' = db\<lparr>db_indexes := db_indexes db'\<rparr>"
  by (auto simp: index_remove_row_def split: option.splits)

text \<open>
  A row fits the indexes of a table when it has a well-typed key in each. What an index is
  about is its definition, which no change of entries touches.
\<close>

definition index_defs :: "database \<Rightarrow> (string \<times> index_def) list" where
  "index_defs db = map (apsnd ix_def) (db_indexes db)"

definition row_fits :: "(string \<Rightarrow> key_kind list) \<Rightarrow> database \<Rightarrow> string \<Rightarrow> row \<Rightarrow> bool" where
  "row_fits ks db tab vals \<longleftrightarrow>
     (\<forall>(n, d) \<in> set (index_defs db). ix_table d = tab \<longrightarrow> ix_dropped_xmax d = 0 \<longrightarrow> ix_planner_usable d \<longrightarrow>
        (\<exists>key. cols_key (ix_cols d) vals = Some key \<and> keys_ok (ks n) key))"

lemma row_fits_live:
  "row_fits ks db tab vals \<Longrightarrow> (n, ix) \<in> set (db_indexes db) \<Longrightarrow> index_live tab ix \<Longrightarrow>
     \<exists>key. index_key_for ix vals = Some key \<and> keys_ok (ks n) key"
  by (force simp: row_fits_def index_defs_def index_live_def index_key_for_def)

lemma row_fitsI:
  "(\<And>n ix. (n, ix) \<in> set (db_indexes db) \<Longrightarrow> index_live tab ix \<Longrightarrow>
      \<exists>key. index_key_for ix vals = Some key \<and> keys_ok (ks n) key) \<Longrightarrow> row_fits ks db tab vals"
  by (force simp: row_fits_def index_defs_def index_live_def index_key_for_def)

lemma row_fits_cong: "index_defs db' = index_defs db \<Longrightarrow> row_fits ks db' = row_fits ks db"
  by (simp add: row_fits_def fun_eq_iff)

lemma index_defs_remove: "index_remove_row env tab i vals db = Some db' \<Longrightarrow> index_defs db' = index_defs db"
proof -
  have modify: "map (apsnd ix_def) (hm_modify n (\<lambda>ix. index_remove env ix key i) m) = map (apsnd ix_def) m" for n key m
    by (induction m) (auto simp: index_remove_def)
  have "apply_targets (\<lambda>key ix. index_remove env ix key i) vals ts ixs = Some ixs' \<Longrightarrow>
      map (apsnd ix_def) ixs' = map (apsnd ix_def) ixs" for ts ixs ixs'
    by (induction ts arbitrary: ixs) (auto simp: modify split: option.splits)
  then show "index_remove_row env tab i vals db = Some db' \<Longrightarrow> index_defs db' = index_defs db"
    by (auto simp: index_remove_row_def index_defs_def split: option.splits)
qed

lemma remove_fitting_row:
  assumes "indexed env ks db rows" and "row_fits ks db tab vals"
    and "set rows' \<subseteq> {x \<in> set (rows tab). v_id x \<noteq> i}"
  shows "\<exists>ixs. index_remove_row env tab i vals db = Some (db\<lparr>db_indexes := ixs\<rparr>) \<and>
    indexed env ks (db\<lparr>db_indexes := ixs\<rparr>) (rows(tab := rows'))"
proof -
  have names: "index_names_ok db" and cov: "ix_covers env (ks n) ix (rows tb)"
    if "(n, ix) \<in> set (db_indexes db)" "index_live tb ix" for n ix tb
    using assms(1) that by (auto simp: indexed_def)
  have names: "index_names_ok db" using assms(1) by (simp add: indexed_def)
  have "\<forall>(n, ix) \<in> set (db_indexes db). index_live tab ix \<longrightarrow>
      ix_covers env (ks n) ix (rows tab) \<and> (\<exists>key. index_key_for ix vals = Some key \<and> keys_ok (ks n) key)"
    using cov row_fits_live [OF assms(2)] by blast
  from remove_row_covers [OF names this assms(3)] obtain db' where db':
    "index_remove_row env tab i vals db = Some db'"
    "map fst (db_indexes db') = map fst (db_indexes db)"
    "\<And>n ix. map_of (db_indexes db) n = Some ix \<Longrightarrow>
      \<exists>ix'. map_of (db_indexes db') n = Some ix' \<and> ix_def ix' = ix_def ix \<and>
        (if index_live tab ix then ix_covers env (ks n) ix' rows' else ix' = ix)"
    by blast
  have d: "distinct (map fst (db_indexes db))" "distinct (map fst (db_indexes db'))"
    using names db'(2) by (simp_all add: index_names_ok_def)
  have old: "\<exists>ix. (n, ix) \<in> set (db_indexes db) \<and> ix_def ix' = ix_def ix \<and>
      (if index_live tab ix then ix_covers env (ks n) ix' rows' else ix' = ix)"
    if "(n, ix') \<in> set (db_indexes db')" for n ix'
  proof -
    have "map_of (db_indexes db') n = Some ix'" using that d(2) by simp
    moreover have "n \<in> fst ` set (db_indexes db)" using that db'(2) by (metis fst_conv image_eqI set_map)
    then obtain ix where "map_of (db_indexes db) n = Some ix"
      by (metis map_of_eq_None_iff option.exhaust)
    ultimately show ?thesis using db'(3) [of n ix] map_of_SomeD by fastforce
  qed
  have "index_names_ok db'"
    using old names d(2) unfolding index_names_ok_def by (metis (mono_tags, lifting) case_prodD case_prodI2)
  moreover have "ix_covers env (ks n) ix' ((rows(tab := rows')) tb)"
    if mem: "(n, ix') \<in> set (db_indexes db')" and lv: "index_live tb ix'" for n ix' tb
  proof -
    obtain ix where ix: "(n, ix) \<in> set (db_indexes db)" "ix_def ix' = ix_def ix"
      "if index_live tab ix then ix_covers env (ks n) ix' rows' else ix' = ix" using old [OF mem] by blast
    then have "index_live tb ix" using lv by (simp add: index_live_def)
    then show ?thesis using ix lv cov [OF ix(1)] by (cases "tb = tab") (auto simp: index_live_def)
  qed
  ultimately have "indexed env ks db' (rows(tab := rows'))" unfolding indexed_def by blast
  then show ?thesis using db'(1) index_remove_row_frame by metis
qed

lemma remove_row_indexed:
  assumes "indexed env ks db rows" and "r \<in> set (rows tab)"
    and "set rows' \<subseteq> {x \<in> set (rows tab). v_id x \<noteq> v_id r}"
  shows "\<exists>ixs. index_remove_row env tab (v_id r) (v_values r) db = Some (db\<lparr>db_indexes := ixs\<rparr>) \<and>
    indexed env ks (db\<lparr>db_indexes := ixs\<rparr>) (rows(tab := rows'))"
proof (rule remove_fitting_row [OF assms(1) _ assms(3)])
  show "row_fits ks db tab (v_values r)"
  proof (rule row_fitsI)
    fix n ix
    assume "(n, ix) \<in> set (db_indexes db)" "index_live tab ix"
    then have "ix_covers env (ks n) ix (rows tab)" using assms(1) unfolding indexed_def by blast
    from ix_coversD [OF this assms(2)]
    show "\<exists>key. index_key_for ix (v_values r) = Some key \<and> keys_ok (ks n) key" by metis
  qed
qed

lemma remove_entries_indexed:
  assumes "indexed env ks db rows" and "set vs \<subseteq> set (rows tab)"
    and "set rows' \<subseteq> {x \<in> set (rows tab). v_id x \<notin> v_id ` set vs}" and "distinct (map v_id vs)"
  shows "\<exists>ixs. remove_entries env tab vs db = Some (db\<lparr>db_indexes := ixs\<rparr>) \<and>
    indexed env ks (db\<lparr>db_indexes := ixs\<rparr>) (rows(tab := rows'))"
  using assms
proof (induction vs arbitrary: db rows)
  case Nil
  then have "indexed env ks db (rows(tab := rows'))" by (intro indexed_subset [OF Nil.prems(1)]) auto
  then show ?case by (intro exI [of _ "db_indexes db"]) (simp add: fun_upd_def)
next
  case (Cons v vs)
  let ?mid = "filter (\<lambda>x. v_id x \<noteq> v_id v) (rows tab)"
  have twice: "db\<lparr>db_indexes := a\<rparr>\<lparr>db_indexes := b\<rparr> = db\<lparr>db_indexes := b\<rparr>" for a b
    by simp
  obtain ixs where ixs: "index_remove_row env tab (v_id v) (v_values v) db = Some (db\<lparr>db_indexes := ixs\<rparr>)"
    "indexed env ks (db\<lparr>db_indexes := ixs\<rparr>) (rows(tab := ?mid))"
    using remove_row_indexed [OF Cons.prems(1), of v tab ?mid] Cons.prems(2) by auto
  have "\<exists>ixs'. remove_entries env tab vs (db\<lparr>db_indexes := ixs\<rparr>) = Some (db\<lparr>db_indexes := ixs\<rparr>\<lparr>db_indexes := ixs'\<rparr>) \<and>
    indexed env ks (db\<lparr>db_indexes := ixs\<rparr>\<lparr>db_indexes := ixs'\<rparr>) ((rows(tab := ?mid))(tab := rows'))"
  proof (rule Cons.IH [OF ixs(2)])
    show "set vs \<subseteq> set ((rows(tab := ?mid)) tab)"
      using Cons.prems(2,4) by (auto simp: image_iff)
  qed (use Cons.prems(3,4) in auto)
  then obtain ixs' where "remove_entries env tab (v # vs) db = Some (db\<lparr>db_indexes := ixs'\<rparr>)"
    "indexed env ks (db\<lparr>db_indexes := ixs'\<rparr>) (rows(tab := rows'))"
    using ixs(1) by (auto simp only: fun_upd_upd remove_entries.simps option.case twice)
  then show ?case by blast
qed

section \<open>What vacuum does to the tables\<close>

lemma versions_of_modify:
  "versions_of (db\<lparr>db_tables := hm_modify name (map f) (db_tables db)\<rparr>) n =
     (if n = name then map f (versions_of db n) else versions_of db n)"
  by (auto simp: versions_of_def map_of_hm_modify split: option.splits)

lemma versions_of_indexes [simp]: "versions_of (db\<lparr>db_indexes := ixs\<rparr>) = versions_of db"
  by (simp add: versions_of_def fun_eq_iff)

lemma rows_of_indexes [simp]: "rows_of (db\<lparr>db_indexes := ixs\<rparr>) = rows_of db"
  by (simp add: rows_of_def fun_eq_iff)

lemma db_synced_indexes [simp]: "db_synced (db\<lparr>db_indexes := ixs\<rparr>) = db_synced db"
  by (simp add: db_synced_def)

lemma tb_sync_prune [simp]: "tb_sync (prune_toast_info vids t) = tb_sync t"
  "t_rows (prune_toast_info vids t) = t_rows t"
  by (simp_all add: prune_toast_info_def tb_sync_def)

text \<open>
  \<open>thinned p ts ts'\<close>: the same versions, in order, with the rows outside \<open>p\<close> taken out.
\<close>

definition thinned :: "(row_version \<Rightarrow> bool) \<Rightarrow> table list \<Rightarrow> table list \<Rightarrow> bool" where
  "thinned p ts ts' \<longleftrightarrow>
     list_all2 (\<lambda>t t'. t_rows t' = filter p (t_rows t) \<and> (tb_sync t \<longrightarrow> tb_sync t') \<and>
       t_oid t' = t_oid t \<and> t_toast_relid t' = t_toast_relid t) ts ts'"

lemma thinned_rows: "thinned p ts ts' \<Longrightarrow> concat (map t_rows ts') = filter p (concat (map t_rows ts))"
  unfolding thinned_def by (induction rule: list_all2_induct) simp_all

lemma thinned_sync: "thinned p ts ts' \<Longrightarrow> \<forall>t \<in> set ts. tb_sync t \<Longrightarrow> \<forall>t \<in> set ts'. tb_sync t"
  unfolding thinned_def by (induction rule: list_all2_induct) simp_all

lemma thinned_refl: "thinned (\<lambda>_. True) ts ts"
  by (simp add: thinned_def list_all2_same)

lemma thinned_cong: "thinned p ts ts' \<Longrightarrow> (\<And>r. r \<in> set (concat (map t_rows ts)) \<Longrightarrow> p r = q r) \<Longrightarrow> thinned q ts ts'"
  unfolding thinned_def by (induction rule: list_all2_induct) (auto intro!: filter_cong)

lemma thinned_visible:
  assumes "thinned p ts ts'" and "\<And>r. r \<in> set (concat (map t_rows ts)) \<Longrightarrow> q r \<Longrightarrow> p r"
  shows "map (\<lambda>t. filter q (t_rows t)) ts' = map (\<lambda>t. filter q (t_rows t)) ts"
  using assms unfolding thinned_def by (induction rule: list_all2_induct) (auto intro!: filter_cong)

lemma thinned_map:
  "(\<And>t. t \<in> set ts \<Longrightarrow> t_rows (f t) = filter p (t_rows t) \<and> (tb_sync t \<longrightarrow> tb_sync (f t)) \<and> t_oid (f t) = t_oid t \<and>
      t_toast_relid (f t) = t_toast_relid t) \<Longrightarrow> thinned p ts (map f ts)"
  by (auto simp: thinned_def list_all2_map2 list_all2_same)

lemma thinned_trans: "thinned p ts ts' \<Longrightarrow> thinned q ts' ts'' \<Longrightarrow> thinned (\<lambda>r. p r \<and> q r) ts ts''"
  unfolding thinned_def
  by (rule list_all2_trans [of "\<lambda>t t'. t_rows t' = filter p (t_rows t) \<and> (tb_sync t \<longrightarrow> tb_sync t') \<and>
       t_oid t' = t_oid t \<and> t_toast_relid t' = t_toast_relid t"]) (auto intro!: filter_cong)

lemma reap_chunks_spec:
  assumes "reap_chunks vids gone ts = (gone', ts')"
  shows "gone' = gone @ filter (is_chunk vids) (concat (map t_rows ts)) \<and> thinned (\<lambda>r. \<not> is_chunk vids r) ts ts'"
  using assms
proof (induction ts arbitrary: gone gone' ts')
  case Nil
  then show ?case by (simp add: thinned_def)
next
  case (Cons t ts)
  let ?gone = "gone @ filter (is_chunk vids) (t_rows t)"
  let ?t = "t\<lparr>t_rows := filter (\<lambda>r. \<not> is_chunk vids r) (t_rows t)\<rparr>"
  obtain g us where "reap_chunks vids ?gone ts = (g, us)" by (rule prod.exhaust)
  with Cons.prems have us: "reap_chunks vids ?gone ts = (gone', us)"
    "ts' = (if ?gone \<noteq> [] then rebuild_row_index ?t else ?t) # us"
    unfolding reap_chunks.simps Let_def by auto
  have keep: "filter (\<lambda>r. \<not> is_chunk vids r) (t_rows t) = t_rows t" if "?gone = []"
    using that by (auto simp: filter_empty_conv filter_id_conv)
  have same: "?t = t" if "?gone = []"
    unfolding keep [OF that] by simp
  have sync: "tb_sync t \<longrightarrow> tb_sync (if ?gone \<noteq> [] then rebuild_row_index ?t else ?t)"
  proof
    assume t: "tb_sync t"
    then have "tb_sync (rebuild_row_index ?t)"
      by (intro tb_sync_rebuild) (simp add: distinct_map_filter tb_sync_distinct)
    moreover have "tb_sync ?t" if "?gone = []" unfolding same [OF that] by (rule t)
    ultimately show "tb_sync (if ?gone \<noteq> [] then rebuild_row_index ?t else ?t)" by (split if_split) blast
  qed
  define t' where "t' = (if ?gone \<noteq> [] then rebuild_row_index ?t else ?t)"
  have fields: "t_rows t' = filter (\<lambda>r. \<not> is_chunk vids r) (t_rows t)" "t_oid t' = t_oid t"
    "t_toast_relid t' = t_toast_relid t"
    by (simp_all add: t'_def rebuild_row_index_def)
  from Cons.IH [OF us(1)] have "gone' = ?gone @ filter (is_chunk vids) (concat (map t_rows ts))"
    and "thinned (\<lambda>r. \<not> is_chunk vids r) ts us" by simp_all
  moreover have "ts' = t' # us" unfolding t'_def by (rule us(2))
  moreover have "tb_sync t \<longrightarrow> tb_sync t'" unfolding t'_def by (rule sync)
  ultimately show ?case using fields by (simp add: thinned_def)
qed

lemma table_name_by_oid_modify:
  assumes "\<And>t. t_oid (f t) = t_oid t"
  shows "table_name_by_oid (db\<lparr>db_tables := hm_modify name (map f) (db_tables db)\<rparr>) oid = table_name_by_oid db oid"
proof -
  have "find_first (\<lambda>(n, vs). if list_ex (\<lambda>v. t_oid v = oid) vs then Some n else None) (hm_modify name (map f) ts) =
      find_first (\<lambda>(n, vs). if list_ex (\<lambda>v. t_oid v = oid) vs then Some n else None) ts" for ts
    by (induction ts) (auto simp: list_ex_iff assms)
  then show ?thesis by (simp add: table_name_by_oid_def)
qed

lemma toast_table_name_modify:
  assumes "\<And>t. t_oid (f t) = t_oid t" and "\<And>t. t_toast_relid (f t) = t_toast_relid t"
  shows "toast_table_name (db\<lparr>db_tables := hm_modify name (map f) (db_tables db)\<rparr>) n = toast_table_name db n"
  using table_name_by_oid_modify [of f, OF assms(1)]
  by (auto simp: toast_table_name_def map_of_hm_modify last_map assms split: option.splits)

lemma toast_table_name_indexes [simp]: "toast_table_name (db\<lparr>db_indexes := ixs\<rparr>) = toast_table_name db"
  by (simp add: toast_table_name_def table_name_by_oid_def fun_eq_iff split: option.split)

lemma db_synced_thinned:
  assumes "db_synced db" and "\<And>n. thinned (p n) (versions_of db n) (versions_of db' n)"
  shows "db_synced db'"
proof -
  have "rows_of db' n = filter (p n) (rows_of db n)" for n
    using thinned_rows [OF assms(2)] by (simp add: rows_of_def)
  then show ?thesis
    using assms(1) thinned_sync [OF assms(2)] by (simp add: db_synced_def distinct_map_filter)
qed

lemma sweep_indexed:
  assumes "indexed env ks db rows" and "distinct (map v_id (rows tab))"
  shows "\<exists>ixs. remove_entries env tab (filter p (rows tab)) db = Some (db\<lparr>db_indexes := ixs\<rparr>) \<and>
    indexed env ks (db\<lparr>db_indexes := ixs\<rparr>) (rows(tab := filter (\<lambda>r. \<not> p r) (rows tab)))"
proof (rule remove_entries_indexed [OF assms(1)])
  have "inj_on v_id (set (rows tab))" using assms(2) by (simp add: distinct_map)
  then show "set (filter (\<lambda>r. \<not> p r) (rows tab)) \<subseteq> {x \<in> set (rows tab). v_id x \<notin> v_id ` set (filter p (rows tab))}"
    by (auto dest: inj_onD)
qed (use assms(2) in \<open>auto simp: distinct_map_filter\<close>)

lemma db_indexed_thinned:
  assumes "indexed env ks db rows" and "\<And>n. rows_of db n = rows n"
  shows "db_indexed env ks db"
proof -
  have "rows_of db = rows" using assms(2) by blast
  then show ?thesis using assms(1) by (simp add: db_indexed_def)
qed

lemma is_chunk_Nil [simp]: "is_chunk [] r = False"
  by (simp add: is_chunk_def split: list.split sql_value.split)

lemma thinned_prune: "thinned p ts ts' \<Longrightarrow> thinned p ts (map (prune_toast_info vids) ts')"
  by (simp add: thinned_def list_all2_map2) (simp add: prune_toast_info_def)

lemma vacuum_toast_spec:
  assumes "db_indexed env ks db" and "db_synced db"
  shows "\<exists>db'. vacuum_toast_chunks env name dead db = Some db' \<and> db_indexed env ks db' \<and>
    (\<forall>n. thinned (\<lambda>r. \<not> (toast_table_name db name = Some n \<and> is_chunk (dead_vids db name dead) r))
       (versions_of db n) (versions_of db' n))"
proof -
  let ?vids = "dead_vids db name dead"
  let ?keep = "\<lambda>n r. \<not> (toast_table_name db name = Some n \<and> is_chunk ?vids r)"
  have same: ?thesis if "vacuum_toast_chunks env name dead db = Some db"
    "\<And>n r. r \<in> set (rows_of db n) \<Longrightarrow> ?keep n r"
    using that assms(1) by (auto simp: rows_of_def intro!: thinned_cong [OF thinned_refl])
  consider "?vids = [] \<or> toast_table_name db name = None"
    | tn where "?vids \<noteq> []" "toast_table_name db name = Some tn" "map_of (db_tables db) tn = None"
    | tn vs where "?vids \<noteq> []" "toast_table_name db name = Some tn" "map_of (db_tables db) tn = Some vs"
    by (metis option.exhaust)
  then show ?thesis
  proof cases
    case 1
    then show ?thesis by (intro same) (auto simp: vacuum_toast_chunks_def Let_def)
  next
    case (2 tn)
    then show ?thesis
      by (intro same) (auto simp: vacuum_toast_chunks_def Let_def rows_of_def versions_of_def)
  next
    case (3 tn vs)
    have vs: "versions_of db tn = vs" using 3 by (simp add: versions_of_def)
    obtain gone vs' where r: "reap_chunks ?vids [] vs = (gone, vs')" by (rule prod.exhaust)
    from reap_chunks_spec [OF r] have gone: "gone = filter (is_chunk ?vids) (rows_of db tn)"
      and thin: "thinned (\<lambda>r. \<not> is_chunk ?vids r) vs vs'" by (simp_all add: rows_of_def vs)
    define db1 where "db1 = db\<lparr>db_tables := hm_modify tn (\<lambda>_. vs') (db_tables db)\<rparr>"
    have ix1: "indexed env ks db1 (rows_of db)" using assms(1) by (simp add: db1_def db_indexed_def)
    obtain ixs where ixs: "remove_entries env tn gone db1 = Some (db1\<lparr>db_indexes := ixs\<rparr>)"
      "indexed env ks (db1\<lparr>db_indexes := ixs\<rparr>) ((rows_of db)(tn := filter (\<lambda>r. \<not> is_chunk ?vids r) (rows_of db tn)))"
      using sweep_indexed [OF ix1, of tn "is_chunk ?vids"] assms(2) gone by (auto simp: db_synced_def)
    define db' where "db' = db1\<lparr>db_indexes := ixs, db_tables := hm_modify name (map (prune_toast_info ?vids)) (db_tables db1)\<rparr>"
    have run: "vacuum_toast_chunks env name dead db = Some db'"
      using 3 r ixs(1) by (simp add: vacuum_toast_chunks_def Let_def db1_def [symmetric] db'_def)
    have v1: "versions_of db1 n = (if n = tn then vs' else versions_of db n)" for n
      using 3 by (simp add: db1_def versions_of_def map_of_hm_modify)
    have "versions_of db' n = (if n = name then map (prune_toast_info ?vids) (versions_of db1 n) else versions_of db1 n)" for n
      using versions_of_modify [where db = db1 and name = name and f = "prune_toast_info ?vids" and n = n] by (simp add: db'_def versions_of_def)
    moreover have "thinned (?keep n) (versions_of db n) (versions_of db1 n)" for n
    proof (cases "n = tn")
      case True
      with 3 thin show ?thesis by (simp add: v1 vs)
    next
      case False
      with 3 show ?thesis by (simp add: v1) (rule thinned_cong [OF thinned_refl], simp)
    qed
    ultimately have t: "thinned (?keep n) (versions_of db n) (versions_of db' n)" for n
      by (simp add: thinned_prune)
    have "rows_of db' n = filter (?keep n) (rows_of db n)" for n
      using thinned_rows [OF t] by (simp add: rows_of_def)
    then have "rows_of db' n = ((rows_of db)(tn := filter (\<lambda>r. \<not> is_chunk ?vids r) (rows_of db tn))) n" for n
      using 3 by auto
    moreover have "indexed env ks db' = indexed env ks (db1\<lparr>db_indexes := ixs\<rparr>)"
      unfolding db'_def by (rule indexed_tables)
    ultimately have "db_indexed env ks db'"
      using db_indexed_thinned [of env ks db' "(rows_of db)(tn := filter (\<lambda>r. \<not> is_chunk ?vids r) (rows_of db tn))"] ixs(2)
      by metis
    with run t show ?thesis by blast
  qed
qed

text \<open>
  One table: the versions of the name lose exactly the dead rows, the toast table exactly the
  chunks of value ids that only dead rows referred to; nothing else changes, and the result
  is well-formed again.
\<close>

lemma vacuum_table_spec:
  assumes "db_indexed env ks (en_db eng)" and "db_synced (en_db eng)"
  shows "\<exists>eng' vids. vacuum_table env name eng =
      Some (length (filter (version_dead_to_all (en_txns eng)) (rows_of (en_db eng) name)), eng') \<and>
    eng' = eng\<lparr>en_db := en_db eng'\<rparr> \<and> db_indexed env ks (en_db eng') \<and> db_synced (en_db eng') \<and>
    (\<forall>v \<in> set (rows_of (en_db eng) name). version_dead_to_all (en_txns eng) v \<or> set (v_toast v) \<inter> set vids = {}) \<and>
    (\<forall>n. thinned (\<lambda>r. \<not> (n = name \<and> version_dead_to_all (en_txns eng) r) \<and>
         \<not> (toast_table_name (en_db eng) name = Some n \<and> is_chunk vids r))
       (versions_of (en_db eng) n) (versions_of (en_db eng') n))"
proof -
  let ?db = "en_db eng" and ?gone = "version_dead_to_all (en_txns eng)"
  let ?f = "retain_versions (\<lambda>v. \<not> ?gone v)"
  define db1 where "db1 = ?db\<lparr>db_tables := hm_modify name (map ?f) (db_tables ?db)\<rparr>"
  have dead: "concat (map (\<lambda>t. filter ?gone (t_rows t)) (versions_of ?db name)) = filter ?gone (rows_of ?db name)"
    by (simp add: rows_of_def filter_concat comp_def)
  have "indexed env ks db1 (rows_of ?db)" using assms(1) by (simp add: db1_def db_indexed_def)
  from sweep_indexed [OF this, of name ?gone] obtain ixs where
    ixs: "remove_entries env name (filter ?gone (rows_of ?db name)) db1 = Some (db1\<lparr>db_indexes := ixs\<rparr>)"
    "indexed env ks (db1\<lparr>db_indexes := ixs\<rparr>) ((rows_of ?db)(name := filter (\<lambda>r. \<not> ?gone r) (rows_of ?db name)))"
    using assms(2) by (auto simp: db_synced_def)
  define db2 where "db2 = db1\<lparr>db_indexes := ixs\<rparr>"
  have keep: "t_oid (?f t) = t_oid t \<and> t_toast_relid (?f t) = t_toast_relid t" for t
    by (simp add: retain_versions_def Let_def rebuild_row_index_def)
  have v2: "versions_of db2 n = (if n = name then map ?f (versions_of ?db n) else versions_of ?db n)" for n
    by (simp add: db2_def db1_def versions_of_modify)
  have thin2: "thinned (\<lambda>r. \<not> (n = name \<and> ?gone r)) (versions_of ?db n) (versions_of db2 n)" for n
    by (cases "n = name") (auto simp: v2 keep tb_sync_retain intro!: thinned_map thinned_refl)
  have toast: "toast_table_name db2 name = toast_table_name ?db name"
    by (simp add: db2_def db1_def) (rule toast_table_name_modify; simp add: keep)
  have rows2: "rows_of db2 n = filter (\<lambda>r. \<not> (n = name \<and> ?gone r)) (rows_of ?db n)" for n
    using thinned_rows [OF thin2] by (simp add: rows_of_def)
  have "rows_of db2 = (rows_of ?db)(name := filter (\<lambda>r. \<not> ?gone r) (rows_of ?db name))"
    by (auto simp: fun_eq_iff rows2)
  with ixs(2) have ix2: "db_indexed env ks db2" by (simp add: db_indexed_def db2_def)
  have sync2: "db_synced db2" using db_synced_thinned [OF assms(2) thin2] .
  let ?vids = "dead_vids db2 name (filter ?gone (rows_of ?db name))"
  obtain db3 where db3: "vacuum_toast_chunks env name (filter ?gone (rows_of ?db name)) db2 = Some db3"
    "db_indexed env ks db3"
    "\<And>n. thinned (\<lambda>r. \<not> (toast_table_name ?db name = Some n \<and> is_chunk ?vids r)) (versions_of db2 n) (versions_of db3 n)"
    using vacuum_toast_spec [OF ix2 sync2, of name "filter ?gone (rows_of ?db name)"] toast by auto
  have run: "vacuum_table env name eng = Some (length (filter ?gone (rows_of ?db name)), eng\<lparr>en_db := db3\<rparr>)"
    using ixs(1) db3(1) dead
    by (simp add: vacuum_table_def Let_def db1_def [symmetric] versions_of_def [symmetric] db2_def)
  have disj: "?gone v \<or> set (v_toast v) \<inter> set ?vids = {}" if v: "v \<in> set (rows_of ?db name)" for v
  proof -
    have "v \<in> set (rows_of db2 name)" if "\<not> ?gone v" using v that rows2 [of name] by simp
    then show ?thesis
      by (auto simp: dead_vids_def Let_def live_vids_def rows_of_def versions_of_def split: option.splits)
  qed
  note thin3 = thinned_trans [OF thin2 db3(3)]
  have "db_synced db3" using db_synced_thinned [OF assms(2) thin3] .
  with run db3(2) disj thin3 show ?thesis
    by (intro exI [of _ "eng\<lparr>en_db := db3\<rparr>"] exI [of _ ?vids]) auto
qed

section \<open>Properties\<close>

text \<open>
  C4. Vacuum of a well-formed table does not panic, keeps the invariants, leaves no version that
  is dead to all, and changes nothing a reader can see: for every registered and for a fresh
  snapshot, the visible rows of every version of every table but the toast table are the
  same. The chunks of the wide values that the surviving rows refer to stay as well.
\<close>

theorem vacuum_keeps_visible:
  assumes "db_indexed env ks (en_db eng)" and "db_synced (en_db eng)" and "tm_wf (en_txns eng)"
    and "\<forall>v \<in> set (rows_of (en_db eng) name). v_xmax v < tm_next_xid (en_txns eng)"
  shows "\<exists>k eng'. vacuum_table env name eng = Some (k, eng') \<and>
    en_txns eng' = en_txns eng \<and> db_indexed env ks (en_db eng') \<and> db_synced (en_db eng') \<and>
    (\<forall>v \<in> set (rows_of (en_db eng') name). \<not> version_dead_to_all (en_txns eng) v) \<and>
    (\<forall>s owns n. (s = take_snapshot (en_txns eng) \<or> s \<in> snd ` set (tm_snapshots (en_txns eng))) \<longrightarrow>
       toast_table_name (en_db eng) name \<noteq> Some n \<longrightarrow>
       map (\<lambda>t. filter (\<lambda>r. row_visible r s owns) (t_rows t)) (versions_of (en_db eng') n) =
       map (\<lambda>t. filter (\<lambda>r. row_visible r s owns) (t_rows t)) (versions_of (en_db eng) n)) \<and>
    (\<forall>v \<in> set (rows_of (en_db eng') name). \<forall>vid \<in> set (v_toast v). \<forall>tn.
       toast_table_name (en_db eng) name = Some tn \<longrightarrow> tn \<noteq> name \<longrightarrow>
       filter (is_chunk [vid]) (rows_of (en_db eng') tn) = filter (is_chunk [vid]) (rows_of (en_db eng) tn))"
proof -
  let ?gone = "version_dead_to_all (en_txns eng)" and ?tn = "toast_table_name (en_db eng) name"
  from vacuum_table_spec [OF assms(1,2), of name] obtain k eng' vids where run:
    "vacuum_table env name eng = Some (k, eng')" "eng' = eng\<lparr>en_db := en_db eng'\<rparr>" "db_indexed env ks (en_db eng')"
    "db_synced (en_db eng')"
    and vids: "\<forall>v \<in> set (rows_of (en_db eng) name). ?gone v \<or> set (v_toast v) \<inter> set vids = {}"
    and thin: "\<And>n. thinned (\<lambda>r. \<not> (n = name \<and> ?gone r) \<and> \<not> (?tn = Some n \<and> is_chunk vids r))
       (versions_of (en_db eng) n) (versions_of (en_db eng') n)"
    by blast
  have txns: "en_txns eng' = en_txns eng" by (subst run(2)) simp
  have rows: "rows_of (en_db eng') n =
      filter (\<lambda>r. \<not> (n = name \<and> ?gone r) \<and> \<not> (?tn = Some n \<and> is_chunk vids r)) (rows_of (en_db eng) n)" for n
    using thinned_rows [OF thin] by (simp add: rows_of_def)
  have visible: "map (\<lambda>t. filter (\<lambda>r. row_visible r s owns) (t_rows t)) (versions_of (en_db eng') n) =
       map (\<lambda>t. filter (\<lambda>r. row_visible r s owns) (t_rows t)) (versions_of (en_db eng) n)"
    if s: "s = take_snapshot (en_txns eng) \<or> s \<in> snd ` set (tm_snapshots (en_txns eng))" and n: "?tn \<noteq> Some n" for s owns n
  proof -
    have "\<not> row_visible r s owns" if "r \<in> set (rows_of (en_db eng) name)" "?gone r" for r
      using dead_invisible [OF assms(3) _ that(2) s] assms(4) that(1) by blast
    then have dead: "\<not> row_visible r s owns" if "r \<in> set (rows_of (en_db eng) n)" "n = name \<and> ?gone r" for r
      using that by blast
    show ?thesis
      by (rule thinned_visible [OF thin]) (use n dead in \<open>auto simp: rows_of_def\<close>)
  qed
  have "filter (is_chunk [vid]) (rows_of (en_db eng') tn) = filter (is_chunk [vid]) (rows_of (en_db eng) tn)"
    if v: "v \<in> set (rows_of (en_db eng') name)" "vid \<in> set (v_toast v)" "?tn = Some tn" "tn \<noteq> name" for v vid tn
  proof -
    have "vid \<notin> set vids" using v(1,2) vids rows [of name] by auto
    then have "\<not> is_chunk vids r" if "is_chunk [vid] r" for r
      using that by (auto simp: is_chunk_def split: list.splits sql_value.splits)
    then show ?thesis using v(4) by (auto simp: rows intro!: filter_cong)
  qed
  moreover have "\<forall>v \<in> set (rows_of (en_db eng') name). \<not> ?gone v" by (simp add: rows)
  ultimately show ?thesis
    using run(1,3,4) txns visible by (intro exI [of _ k] exI [of _ eng'] conjI) blast+
qed

text \<open>The small catalog, its row deleted by the committed transaction 3.\<close>

definition demo_deleted :: engine where
  "demo_deleted =
     \<lparr>en_db = demo_db\<lparr>db_tables := [(''t'', [set_xmax 0 3 demo_table])]\<rparr>, en_txns = demo_idle_tm,
      en_seq_currval = Map.empty, en_seq_advanced = [], en_seq_lastval = Map.empty\<rparr>"

lemma demo_deleted_rows [simp]:
  "rows_of (en_db demo_deleted) n = (if n = ''t'' then [demo_row\<lparr>v_xmax := 3\<rparr>] else [])"
  "versions_of (en_db demo_deleted) n = (if n = ''t'' then [set_xmax 0 3 demo_table] else [])"
  by (simp_all add: demo_deleted_def rows_of_def versions_of_def set_xmax_def)

lemma demo_deleted_wf: "db_indexed demo_env (\<lambda>_. [KExact]) (en_db demo_deleted)" "db_synced (en_db demo_deleted)"
proof -
  have "ix_covers demo_env [KExact] demo_index [demo_row\<lparr>v_xmax := 3\<rparr>]"
    using demo_covers by (simp add: ix_covers_def)
  moreover have "index_names_ok (en_db demo_deleted)" "db_indexes (en_db demo_deleted) = [(''i'', demo_index)]"
    using demo_names by (simp_all add: demo_deleted_def index_names_ok_def)
  moreover have "index_live tab demo_index \<longleftrightarrow> tab = ''t''" for tab
    using demo_live by (auto simp: index_live_def)
  ultimately show "db_indexed demo_env (\<lambda>_. [KExact]) (en_db demo_deleted)"
    by (simp add: db_indexed_def indexed_def)
  show "db_synced (en_db demo_deleted)"
    using tb_sync_set_xmax [OF demo_sync, of 0] by (simp add: db_synced_def)
qed

theorem vacuum_keeps_visible_witness:
  "\<exists>k eng'. vacuum_table demo_env ''t'' demo_deleted = Some (k, eng') \<and>
     (\<forall>v \<in> set (rows_of (en_db eng') ''t''). \<not> version_dead_to_all demo_idle_tm v)"
proof -
  have tm: "en_txns demo_deleted = demo_idle_tm" by (simp add: demo_deleted_def)
  have wf: "tm_wf (en_txns demo_deleted)"
    by (simp add: tm demo_idle_tm_def tm_wf_def txn_manager_new_def)
  have old: "\<forall>v \<in> set (rows_of (en_db demo_deleted) ''t''). v_xmax v < tm_next_xid (en_txns demo_deleted)"
    by (simp add: tm demo_idle_tm_def)
  from vacuum_keeps_visible [OF demo_deleted_wf wf old] obtain k eng' where "vacuum_table demo_env ''t'' demo_deleted = Some (k, eng')"
    "\<forall>v \<in> set (rows_of (en_db eng') ''t''). \<not> version_dead_to_all (en_txns demo_deleted) v"
    by (elim exE conjE)
  then show ?thesis unfolding tm by (intro exI conjI)
qed

section \<open>Where the code departs from its intent\<close>

text \<open>
  Temporary tables have no entries in the permanent indexes, yet their vacuum removes the
  dead rows from the indexes of a permanent table of the same name. If an index of that
  table is on a column that the temporary rows do not have, the removal panics.
\<close>

definition shadowing_engine :: engine where
  "shadowing_engine =
     demo_deleted\<lparr>en_db := demo_db\<lparr>db_temp_tables := [(7, [(''t'', push_version
       \<lparr>v_id = 6, v_values = [], v_xmin = 2, v_xmax = 3, v_toast = []\<rparr> (table_new [] 2))])]\<rparr>\<rparr>"

theorem vacuum_temp_panics: "vacuum_temp_table demo_env 7 ''t'' shadowing_engine = None"
proof -
  let ?v = "\<lparr>v_id = 6, v_values = [], v_xmin = 2, v_xmax = 3, v_toast = []\<rparr> :: row_version"
  let ?t = "push_version ?v (table_new [] 2)"
  have tmp: "temp_table (en_db shadowing_engine) 7 ''t'' = Some ?t"
    by (simp add: shadowing_engine_def temp_table_def)
  have rows: "t_rows ?t = [?v]" by (simp add: push_version_def table_new_def)
  have dead: "version_dead_to_all (en_txns shadowing_engine) ?v"
    by (simp add: shadowing_engine_def demo_deleted_def version_dead_to_all_def demo_idle_tm_def txn_manager_new_def)
  have "index_remove_row demo_env ''t'' i [] (demo_db\<lparr>db_temp_tables := tmps\<rparr>) = None" for i tmps
    by (simp add: index_remove_row_def index_targets_def demo_index_def_def index_plain_def cols_key_def)
  then show ?thesis
    unfolding vacuum_temp_table_def Let_def tmp option.case rows
    by (simp add: dead) (simp add: shadowing_engine_def)
qed

end
