(* ===== verification/RowView.thy ===== *)
theory RowView
  imports Vacuum
begin

text \<open>
  The rows of the whole database as one map from ids to versions. \<open>find_row_version\<close>
  searches the tables of all names, then the temporary ones; under the invariant
  \<open>db_rows_ok\<close> (position maps in step, ids distinct over all tables) the search, the restamping
  and the removal of a version are lookup, update and deletion on that map.
\<close>

section \<open>The tables in the order of the search\<close>

definition perm_tables :: "database \<Rightarrow> table list" where
  "perm_tables db = concat (map snd (db_tables db))"

definition temp_tables :: "database \<Rightarrow> table list" where
  "temp_tables db = concat (map (map snd) (map snd (db_temp_tables db)))"

definition all_tables :: "database \<Rightarrow> table list" where
  "all_tables db = perm_tables db @ temp_tables db"

definition tables_ok :: "table list \<Rightarrow> bool" where
  "tables_ok ts \<longleftrightarrow> (\<forall>t \<in> set ts. tb_sync t) \<and> distinct (map v_id (concat (map t_rows ts)))"

definition db_rows_ok :: "database \<Rightarrow> bool" where
  "db_rows_ok db \<longleftrightarrow> distinct (map fst (db_tables db)) \<and> tables_ok (all_tables db)"

definition view_in :: "table list \<Rightarrow> nat \<Rightarrow> row_version option" where
  "view_in ts i = find_first (version_in i) ts"

lemma find_first_append:
  "find_first f (xs @ ys) = (case find_first f xs of Some y \<Rightarrow> Some y | None \<Rightarrow> find_first f ys)"
  by (induction xs) (auto split: option.splits)

lemma find_first_map: "find_first f (map g xs) = find_first (f \<circ> g) xs"
  by (induction xs) (auto split: option.splits)

lemma find_first_concat: "find_first (find_first f) xss = find_first f (concat xss)"
  by (induction xss) (auto simp: find_first_append split: option.splits)

lemma find_first_keys: "find_first (\<lambda>(k, x). f x) m = find_first f (map snd m)"
  by (induction m) (auto split: option.splits)

lemma find_row_version_view: "find_row_version db i = view_in (all_tables db) i"
proof -
  have "find_first (\<lambda>(n, vs). find_first (version_in i) vs) (db_tables db) = find_first (version_in i) (perm_tables db)"
    by (simp add: find_first_keys find_first_concat perm_tables_def)
  moreover have "find_first (\<lambda>(s, tmps). find_first (\<lambda>(n, t). version_in i t) tmps) (db_temp_tables db) =
      find_first (version_in i) (temp_tables db)"
    by (simp add: find_first_keys find_first_concat [symmetric] temp_tables_def find_first_map comp_def)
  ultimately show ?thesis
    by (auto simp: find_row_version_def view_in_def all_tables_def find_first_append split: option.split)
qed

lemma version_in_abs: "version_in i t = tb_abs t i"
  by (simp add: version_in_def tb_abs_def split: option.split)

lemma view_in_simps [simp]:
  "view_in [] i = None"
  "view_in (t # ts) i = (case tb_abs t i of Some v \<Rightarrow> Some v | None \<Rightarrow> view_in ts i)"
  by (auto simp: view_in_def version_in_abs split: option.split)

lemma view_in_append: "view_in (xs @ ys) i = (case view_in xs i of Some v \<Rightarrow> Some v | None \<Rightarrow> view_in ys i)"
  by (auto simp: view_in_def find_first_append split: option.split)

lemma tables_ok_simps [simp]:
  "tables_ok []"
  "tables_ok (t # ts) \<longleftrightarrow> tb_sync t \<and> tables_ok ts \<and> v_id ` set (t_rows t) \<inter> v_id ` set (concat (map t_rows ts)) = {}"
  using tb_sync_distinct by (auto simp: tables_ok_def)

lemma tables_ok_append:
  "tables_ok (xs @ ys) \<longleftrightarrow> tables_ok xs \<and> tables_ok ys \<and>
     v_id ` set (concat (map t_rows xs)) \<inter> v_id ` set (concat (map t_rows ys)) = {}"
  by (auto simp: tables_ok_def)

lemma view_in_Some:
  "tables_ok ts \<Longrightarrow> view_in ts i = Some v \<longleftrightarrow> v \<in> set (concat (map t_rows ts)) \<and> v_id v = i"
proof (induction ts)
  case (Cons t ts)
  then have t: "tb_sync t" and disj: "v_id ` set (t_rows t) \<inter> v_id ` set (concat (map t_rows ts)) = {}" by simp_all
  show ?case
  proof (cases "tb_abs t i")
    case None
    then have "i \<notin> v_id ` set (t_rows t)" using tb_abs_None [OF t] by blast
    with None Cons show ?thesis by auto
  next
    case (Some w)
    then have w: "w \<in> set (t_rows t)" "v_id w = i" using tb_abs_Some [OF t] by blast+
    then have "i \<notin> v_id ` set (concat (map t_rows ts))" using disj by blast
    moreover have "v \<in> set (t_rows t) \<and> v_id v = i \<longleftrightarrow> v = w" using tb_abs_Some [OF t, of i v] Some by auto
    ultimately show ?thesis using Some by auto
  qed
qed simp

lemma view_in_None: "tables_ok ts \<Longrightarrow> view_in ts i = None \<longleftrightarrow> i \<notin> v_id ` set (concat (map t_rows ts))"
  using view_in_Some [of ts i] by (cases "view_in ts i") (force simp: image_iff)+

section \<open>Changing the first table that answers\<close>

lemma upd_first_append:
  "upd_first f (xs @ ys) =
     (case upd_first f xs of Some zs \<Rightarrow> Some (zs @ ys) | None \<Rightarrow> map_option ((@) xs) (upd_first f ys))"
proof (induction xs)
  case Nil
  then show ?case by (cases "upd_first f ys") simp_all
next
  case (Cons x xs)
  then show ?case by (cases "f x"; cases "upd_first f xs"; cases "upd_first f ys") simp_all
qed

lemma upd_first_keys:
  "map_option (map snd) (upd_first (\<lambda>(k, x). map_option (Pair k) (f x)) m) = upd_first f (map snd m)"
proof (induction m)
  case (Cons e m)
  obtain k x where e: "e = (k, x)" by (cases e)
  from Cons show ?case unfolding e
    by (cases "f x"; cases "upd_first (\<lambda>(k, x). map_option (Pair k) (f x)) m"; cases "upd_first f (map snd m)") simp_all
qed simp

lemma upd_first_concat: "map_option concat (upd_first (upd_first f) xss) = upd_first f (concat xss)"
proof (induction xss)
  case (Cons xs xss)
  then show ?case
    by (cases "upd_first f xs"; cases "upd_first (upd_first f) xss"; cases "upd_first f (concat xss)")
      (simp_all add: upd_first_append)
qed simp

lemma upd_first_all2: "upd_first f xs = Some ys \<Longrightarrow> list_all2 (\<lambda>x y. y = x \<or> f x = Some y) xs ys"
  by (induction xs arbitrary: ys) (auto split: option.splits simp: list_all2_same)

lemma take_first_append:
  "take_first f (xs @ ys) =
     (case take_first f xs of Some (r, zs) \<Rightarrow> Some (r, zs @ ys) | None \<Rightarrow> map_option (apsnd ((@) xs)) (take_first f ys))"
proof (induction xs)
  case Nil
  then show ?case by (cases "take_first f ys") auto
next
  case (Cons x xs)
  then show ?case by (cases "f x"; cases "take_first f xs"; cases "take_first f ys") auto
qed

lemma take_first_keys:
  "map_option (apsnd (map snd)) (take_first (\<lambda>(k, x). map_option (apsnd (Pair k)) (f x)) m) = take_first f (map snd m)"
proof (induction m)
  case (Cons e m)
  obtain k x where e: "e = (k, x)" by (cases e)
  from Cons show ?case unfolding e
    by (cases "f x"; cases "take_first (\<lambda>(k, x). map_option (apsnd (Pair k)) (f x)) m"; cases "take_first f (map snd m)") auto
qed simp

lemma take_first_concat: "map_option (apsnd concat) (take_first (take_first f) xss) = take_first f (concat xss)"
proof (induction xss)
  case (Cons xs xss)
  then show ?case
    by (cases "take_first f xs"; cases "take_first (take_first f) xss"; cases "take_first f (concat xss)")
      (auto simp: take_first_append)
qed simp

lemma take_first_all2:
  "take_first f xs = Some (r, ys) \<Longrightarrow> list_all2 (\<lambda>x y. y = x \<or> f x = Some (r, y)) xs ys"
  by (induction xs arbitrary: ys) (auto split: option.splits simp: list_all2_same)

lemma map_of_all2:
  "list_all2 (\<lambda>(k, x) (k', y). k' = k \<and> R x y) m m' \<Longrightarrow> rel_option R (map_of m n) (map_of m' n)"
  by (induction rule: list_all2_induct) auto

section \<open>One table\<close>

text \<open>
  \<open>reworked t t'\<close>: rows may be gone or have another deleter, and the rest of the table is as it
  was.
\<close>

definition cell_of :: "row_version \<Rightarrow> nat \<times> row \<times> u32 list" where
  "cell_of r = (v_id r, v_values r, v_toast r)"

definition reworked :: "table \<Rightarrow> table \<Rightarrow> bool" where
  "reworked t t' \<longleftrightarrow>
     t' = t\<lparr>t_rows := t_rows t', t_row_index := t_row_index t'\<rparr> \<and>
     cell_of ` set (t_rows t') \<subseteq> cell_of ` set (t_rows t)"

lemma reworked_refl [simp]: "reworked t t"
  by (simp add: reworked_def)

lemma reworked_set_xmax: "p < length (t_rows t) \<Longrightarrow> reworked t (set_xmax p x t)"
proof -
  assume p: "p < length (t_rows t)"
  have "cell_of ` set ((t_rows t)[p := (t_rows t ! p)\<lparr>v_xmax := x\<rparr>]) \<subseteq> cell_of ` set (t_rows t)"
    using set_update_subset_insert [of "t_rows t" p] nth_mem [OF p] by (fastforce simp: cell_of_def image_iff)
  then show ?thesis by (simp add: reworked_def set_xmax_def)
qed

lemma restamp_in_None: "restamp_in i c x t = None \<longleftrightarrow> tb_abs t i = None"
  by (simp add: restamp_in_def tb_abs_def split: option.split)

lemma restamp_in_Some:
  assumes "tb_sync t" and "restamp_in i c x t = Some t'"
  shows "tb_sync t' \<and> map v_id (t_rows t') = map v_id (t_rows t) \<and> reworked t t' \<and>
    tb_abs t' = (tb_abs t)(i := map_option (\<lambda>v. if c v then v\<lparr>v_xmax := x\<rparr> else v) (tb_abs t i))"
proof -
  obtain p where p: "row_pos t i = Some p" "t' = (if c (t_rows t ! p) then set_xmax p x t else t)"
    using assms(2) by (auto simp: restamp_in_def split: option.splits)
  then have lt: "p < length (t_rows t)" using tb_sync_pos [OF assms(1)] by blast
  have at: "tb_abs t i = Some (t_rows t ! p)" using p(1) by (simp add: tb_abs_def)
  show ?thesis
  proof (cases "c (t_rows t ! p)")
    case True
    have "map v_id ((t_rows t)[p := (t_rows t ! p)\<lparr>v_xmax := x\<rparr>]) = map v_id (t_rows t)"
      using lt by (simp add: map_update list_update_same_conv)
    with True p at lt show ?thesis
      using tb_sync_set_xmax [OF assms(1) lt] tb_abs_set_xmax [OF assms(1) p(1)] reworked_set_xmax [OF lt]
      by (simp add: set_xmax_def)
  next
    case False
    with p at assms(1) show ?thesis by (simp add: fun_upd_idem)
  qed
qed

lemma take_own_None: "take_own i owns t = None \<longleftrightarrow> tb_abs t i = None"
  by (simp add: take_own_def tb_abs_def split: option.split)

lemma reworked_swap_remove:
  assumes "tb_sync t" and "swap_remove_version p t = Some (rv, t')"
  shows "reworked t t'"
proof -
  have "set (t_rows t') \<subseteq> set (t_rows t)"
    using swap_remove_version_sync [OF assms] by (metis set_mset_add_mset_insert set_mset_mset subset_insertI)
  moreover have "t' = t\<lparr>t_rows := t_rows t', t_row_index := t_row_index t'\<rparr>"
    using assms(2) by (auto simp: swap_remove_version_def Let_def split: if_splits)
  ultimately show ?thesis unfolding reworked_def by blast
qed

lemma take_own_Some:
  assumes "tb_sync t" and "take_own i owns t = Some (r, t')"
  obtains v where "tb_abs t i = Some v" "v_xmin v \<in> set owns" "r = Some (v_values v)" "tb_sync t'"
      "mset (t_rows t) = add_mset v (mset (t_rows t'))" "tb_abs t' = (tb_abs t)(i := None)" "reworked t t'"
  | v where "tb_abs t i = Some v" "v_xmin v \<notin> set owns" "r = None" "t' = t"
proof -
  obtain p where p: "row_pos t i = Some p" using assms(2) by (auto simp: take_own_def split: option.splits)
  then have lt: "p < length (t_rows t)" and id: "v_id (t_rows t ! p) = i" using tb_sync_pos [OF assms(1)] by blast+
  have at: "tb_abs t i = Some (t_rows t ! p)" using p by (simp add: tb_abs_def)
  show thesis
  proof (cases "v_xmin (t_rows t ! p) \<in> set owns")
    case True
    obtain rv u where u: "swap_remove_version p t = Some (rv, u)"
      using lt by (auto simp: swap_remove_version_def Let_def)
    note sync = swap_remove_version_sync [OF assms(1) u]
    have "r = Some (v_values rv)" "t' = u" using assms(2) p True u by (auto simp: take_own_def)
    then show thesis
      using that(1) [OF at True] sync tb_abs_swap_remove [OF assms(1) u] reworked_swap_remove [OF assms(1) u] id by auto
  next
    case False
    then show thesis using that(2) [OF at] assms(2) p by (auto simp: take_own_def)
  qed
qed

section \<open>A list of tables\<close>

lemma restamp_tables:
  assumes "tables_ok ts"
  shows "case upd_first (restamp_in i c x) ts of
      None \<Rightarrow> view_in ts i = None
    | Some ts' \<Rightarrow> tables_ok ts' \<and> map (\<lambda>t. map v_id (t_rows t)) ts' = map (\<lambda>t. map v_id (t_rows t)) ts \<and>
        view_in ts' = (view_in ts)(i := map_option (\<lambda>v. if c v then v\<lparr>v_xmax := x\<rparr> else v) (view_in ts i))"
  using assms
proof (induction ts)
  case Nil
  then show ?case by simp
next
  case (Cons t ts)
  let ?g = "map_option (\<lambda>v. if c v then v\<lparr>v_xmax := x\<rparr> else v)"
  have t: "tb_sync t" and ts: "tables_ok ts" using Cons.prems by simp_all
  have ids: "v_id ` set us = v_id ` set ws" if "map v_id us = map v_id ws" for us ws
    using that by (metis set_map)
  show ?case
  proof (cases "restamp_in i c x t")
    case None
    then have none: "tb_abs t i = None" by (simp add: restamp_in_None)
    show ?thesis
    proof (cases "upd_first (restamp_in i c x) ts")
      case None
      with none \<open>restamp_in i c x t = None\<close> Cons.IH [OF ts] show ?thesis by simp
    next
      case (Some us)
      with Cons.IH [OF ts] have us: "tables_ok us" "map (\<lambda>t. map v_id (t_rows t)) us = map (\<lambda>t. map v_id (t_rows t)) ts"
        "view_in us = (view_in ts)(i := ?g (view_in ts i))" by simp_all
      have "map v_id (concat (map t_rows us)) = map v_id (concat (map t_rows ts))"
        using us(2) by (simp add: map_concat comp_def)
      then have "v_id ` set (concat (map t_rows us)) = v_id ` set (concat (map t_rows ts))" by (rule ids)
      then have "tables_ok (t # us)" using us(1) Cons.prems by simp
      moreover have "view_in (t # us) = (view_in (t # ts))(i := ?g (view_in (t # ts) i))"
        by (auto simp: fun_eq_iff us(3) none split: option.split)
      ultimately show ?thesis using None Some us(2) by simp
    qed
  next
    case (Some t')
    note t' = restamp_in_Some [OF t Some]
    then have "v_id ` set (t_rows t') = v_id ` set (t_rows t)" using ids by blast
    then have "tables_ok (t' # ts)" using t' Cons.prems by simp
    moreover have "\<exists>v. tb_abs t i = Some v" using Some restamp_in_None [of i c x t] by fastforce
    then have "view_in (t' # ts) = (view_in (t # ts))(i := ?g (view_in (t # ts) i))"
      using t' by (auto simp: fun_eq_iff split: option.split)
    ultimately show ?thesis using Some t' by simp
  qed
qed

lemma take_tables:
  assumes "tables_ok ts"
  shows "case take_first (take_own i owns) ts of
      None \<Rightarrow> view_in ts i = None
    | Some (r, ts') \<Rightarrow>
        (\<exists>v. view_in ts i = Some v \<and>
          (if v_xmin v \<in> set owns
           then r = Some (v_values v) \<and> tables_ok ts' \<and> view_in ts' = (view_in ts)(i := None) \<and>
             mset (concat (map t_rows ts)) = add_mset v (mset (concat (map t_rows ts')))
           else r = None \<and> ts' = ts))"
  using assms
proof (induction ts)
  case Nil
  then show ?case by simp
next
  case (Cons t ts)
  have t: "tb_sync t" and ts: "tables_ok ts" using Cons.prems by simp_all
  have sub: "v_id ` set us \<subseteq> v_id ` set ws" if "mset ws = add_mset v (mset us)" for us ws :: "row_version list" and v
    using that by (metis image_mono set_mset_add_mset_insert set_mset_mset subset_insertI)
  show ?case
  proof (cases "take_own i owns t")
    case None
    then have none: "tb_abs t i = None" by (simp add: take_own_None)
    show ?thesis
    proof (cases "take_first (take_own i owns) ts")
      case None
      with none \<open>take_own i owns t = None\<close> Cons.IH [OF ts] show ?thesis by simp
    next
      case (Some res)
      obtain r us where res: "res = (r, us)" by (cases res)
      with Some Cons.IH [OF ts] obtain v where v: "view_in ts i = Some v"
        "if v_xmin v \<in> set owns
         then r = Some (v_values v) \<and> tables_ok us \<and> view_in us = (view_in ts)(i := None) \<and>
           mset (concat (map t_rows ts)) = add_mset v (mset (concat (map t_rows us)))
         else r = None \<and> us = ts" by auto
      have "tables_ok (t # us)" if "tables_ok us"
        "mset (concat (map t_rows ts)) = add_mset v (mset (concat (map t_rows us)))"
        using that Cons.prems sub [OF that(2)] by auto
      moreover have "view_in (t # us) = (view_in (t # ts))(i := None)" if "view_in us = (view_in ts)(i := None)"
        using that none by (auto simp: fun_eq_iff split: option.split)
      ultimately show ?thesis using v None Some res none by auto
    qed
  next
    case (Some res)
    obtain r t' where res: "take_own i owns t = Some (r, t')" using Some by (cases res) simp
    from take_own_Some [OF t this] show ?thesis
    proof cases
      case (1 v)
      have later: "view_in ts i = None"
        using Cons.prems tb_abs_Some [OF t] 1(1) view_in_None [OF ts] by fastforce
      have "tables_ok (t' # ts)" using 1(4) Cons.prems sub [OF 1(5)] by auto
      moreover have "view_in (t' # ts) = (view_in (t # ts))(i := None)"
        using later 1(6) by (auto simp: fun_eq_iff split: option.split)
      ultimately show ?thesis using res 1 by simp
    next
      case (2 v)
      then show ?thesis using res by simp
    qed
  qed
qed

section \<open>The database\<close>

lemma upd_first_nested:
  "map_option (concat \<circ> map (map snd)) (upd_first (upd_first (\<lambda>(k, x). map_option (Pair k) (f x))) xss) =
     upd_first f (concat (map (map snd) xss))"
proof -
  have "map_option (map (map snd)) (upd_first (upd_first (\<lambda>(k, x). map_option (Pair k) (f x))) xss) =
      upd_first (upd_first f) (map (map snd) xss)"
  proof (induction xss)
    case (Cons xs xss)
    then show ?case using upd_first_keys [of f xs]
      by (cases "upd_first (\<lambda>(k, x). map_option (Pair k) (f x)) xs"; cases "upd_first f (map snd xs)";
          cases "upd_first (upd_first (\<lambda>(k, x). map_option (Pair k) (f x))) xss";
          cases "upd_first (upd_first f) (map (map snd) xss)") simp_all
  qed simp
  then show ?thesis by (metis option.map_comp upd_first_concat)
qed

lemma all_tables_restamp:
  "all_tables (restamp_version db i c x) =
     case_option (all_tables db) id (upd_first (restamp_in i c x) (all_tables db))"
proof -
  let ?f = "restamp_in i c x"
  let ?perm = "upd_first (\<lambda>(n, vs). map_option (Pair n) (upd_first ?f vs)) (db_tables db)"
  let ?temp = "upd_first (\<lambda>(s, tmps). map_option (Pair s)
      (upd_first (\<lambda>(n, t). map_option (Pair n) (?f t)) tmps)) (db_temp_tables db)"
  have perm: "upd_first ?f (perm_tables db) = map_option (concat \<circ> map snd) ?perm"
    using upd_first_keys [of "upd_first ?f" "db_tables db"] upd_first_concat [of ?f "map snd (db_tables db)"]
    by (metis option.map_comp perm_tables_def)
  have "map_option (map snd) ?temp = upd_first (upd_first (\<lambda>(n, t). map_option (Pair n) (?f t))) (map snd (db_temp_tables db))"
    by (rule upd_first_keys)
  then have temp: "upd_first ?f (temp_tables db) = map_option (concat \<circ> map (map snd) \<circ> map snd) ?temp"
    using upd_first_nested [of ?f "map snd (db_temp_tables db)"]
    by (metis option.map_comp temp_tables_def)
  show ?thesis
    by (cases ?perm; cases ?temp)
      (simp_all add: restamp_version_def all_tables_def upd_first_append perm_tables_def temp_tables_def
        perm [unfolded perm_tables_def] temp [unfolded temp_tables_def map_map])
qed

lemma db_tables_restamp:
  "list_all2 (\<lambda>(n, vs) (n', vs'). n' = n \<and> list_all2 (\<lambda>t t'. t' = t \<or> restamp_in i c x t = Some t') vs vs')
     (db_tables db) (db_tables (restamp_version db i c x))"
proof -
  let ?f = "restamp_in i c x"
  let ?R = "\<lambda>(n, vs) (n', vs'). n' = n \<and> list_all2 (\<lambda>t t'. t' = t \<or> ?f t = Some t') vs vs'"
  have refl: "list_all2 ?R m m" for m by (auto simp: list_all2_same)
  show ?thesis
  proof (cases "upd_first (\<lambda>(n, vs). map_option (Pair n) (upd_first ?f vs)) (db_tables db)")
    case None
    then have "db_tables (restamp_version db i c x) = db_tables db"
      by (simp add: restamp_version_def split: option.split)
    then show ?thesis using refl by simp
  next
    case (Some ts)
    have "list_all2 ?R (db_tables db) ts"
      by (rule list_all2_mono [OF upd_first_all2 [OF Some]])
        (auto simp: list_all2_same split: prod.splits dest: upd_first_all2)
    then show ?thesis using Some by (simp add: restamp_version_def)
  qed
qed

lemma take_first_nested:
  "map_option (apsnd (concat \<circ> map (map snd))) (take_first (take_first (\<lambda>(k, x). map_option (apsnd (Pair k)) (f x))) xss) =
     take_first f (concat (map (map snd) xss))"
proof -
  have "map_option (apsnd (map (map snd))) (take_first (take_first (\<lambda>(k, x). map_option (apsnd (Pair k)) (f x))) xss) =
      take_first (take_first f) (map (map snd) xss)"
  proof (induction xss)
    case (Cons xs xss)
    then show ?case using take_first_keys [of f xs]
      by (cases "take_first (\<lambda>(k, x). map_option (apsnd (Pair k)) (f x)) xs"; cases "take_first f (map snd xs)";
          cases "take_first (take_first (\<lambda>(k, x). map_option (apsnd (Pair k)) (f x))) xss";
          cases "take_first (take_first f) (map (map snd) xss)") auto
  qed simp
  then have "take_first f (concat (map (map snd) xss)) =
      map_option (apsnd concat) (map_option (apsnd (map (map snd)))
        (take_first (take_first (\<lambda>(k, x). map_option (apsnd (Pair k)) (f x))) xss))"
    by (simp only: take_first_concat)
  then show ?thesis by (simp add: option.map_comp comp_def apsnd_def prod.map_comp id_def)
qed

lemma all_tables_remove:
  "case take_first (take_own i owns) (all_tables db) of
     None \<Rightarrow> remove_own_version db i owns = (None, db)
   | Some (r, ts) \<Rightarrow>
       fst (remove_own_version db i owns) =
         map_option (\<lambda>vals. (vals, take_first (take_own i owns) (perm_tables db) = None)) r \<and>
       all_tables (snd (remove_own_version db i owns)) = ts"
proof -
  let ?f = "take_own i owns"
  let ?perm = "take_first (\<lambda>(n, vs). map_option (apsnd (Pair n)) (take_first ?f vs)) (db_tables db)"
  let ?temp = "take_first (\<lambda>(s, tmps). map_option (apsnd (Pair s))
      (take_first (\<lambda>(n, t). map_option (apsnd (Pair n)) (?f t)) tmps)) (db_temp_tables db)"
  have "take_first ?f (concat (map snd (db_tables db))) = map_option (apsnd concat) (map_option (apsnd (map snd)) ?perm)"
    by (simp only: take_first_keys take_first_concat)
  then have perm: "take_first ?f (concat (map snd (db_tables db))) = map_option (apsnd (concat \<circ> map snd)) ?perm"
    by (simp add: option.map_comp comp_def apsnd_def prod.map_comp id_def)
  have "take_first ?f (concat (map (map snd) (map snd (db_temp_tables db)))) =
      map_option (apsnd (concat \<circ> map (map snd))) (map_option (apsnd (map snd)) ?temp)"
    by (simp only: take_first_keys take_first_nested)
  then have temp: "take_first ?f (concat (map (map snd \<circ> snd) (db_temp_tables db))) =
      map_option (apsnd (concat \<circ> map (map snd \<circ> snd))) ?temp"
    by (simp add: option.map_comp comp_def apsnd_def prod.map_comp id_def)
  show ?thesis
  proof (cases ?perm)
    case None
    then show ?thesis
      by (cases ?temp)
        (auto simp: remove_own_version_def all_tables_def take_first_append perm_tables_def temp_tables_def perm temp)
  next
    case (Some res)
    then show ?thesis
      by (cases res)
        (auto simp: remove_own_version_def all_tables_def take_first_append perm_tables_def temp_tables_def perm)
  qed
qed

lemma db_tables_remove:
  "list_all2 (\<lambda>(n, vs) (n', vs'). n' = n \<and> list_all2 (\<lambda>t t'. t' = t \<or> (\<exists>r. take_own i owns t = Some (r, t'))) vs vs')
     (db_tables db) (db_tables (snd (remove_own_version db i owns)))"
proof -
  let ?f = "take_own i owns"
  let ?Q = "\<lambda>t t'. t' = t \<or> (\<exists>r. ?f t = Some (r, t'))"
  let ?R = "\<lambda>(n, vs) (n', vs'). n' = n \<and> list_all2 ?Q vs vs'"
  have refl: "list_all2 ?R m m" for m by (auto simp: list_all2_same)
  show ?thesis
  proof (cases "take_first (\<lambda>(n, vs). map_option (apsnd (Pair n)) (take_first ?f vs)) (db_tables db)")
    case None
    then have "db_tables (snd (remove_own_version db i owns)) = db_tables db"
      by (simp add: remove_own_version_def split: option.split prod.split)
    then show ?thesis using refl by simp
  next
    case (Some res)
    obtain r ts where res: "res = (r, ts)" by (cases res)
    have inner: "list_all2 ?Q vs vs'" if "take_first ?f vs = Some (r, vs')" for vs vs'
      by (rule list_all2_mono [OF take_first_all2 [OF that]]) auto
    have "list_all2 ?R (db_tables db) ts"
      by (rule list_all2_mono [OF take_first_all2 [OF Some [unfolded res]]])
        (auto simp: list_all2_same split: prod.splits dest: inner)
    then show ?thesis using Some res by (simp add: remove_own_version_def)
  qed
qed

lemma versions_all2:
  "list_all2 (\<lambda>(n, vs) (n', vs'). n' = n \<and> list_all2 R vs vs') (db_tables db) (db_tables db') \<Longrightarrow>
     list_all2 R (versions_of db n) (versions_of db' n)"
  by (drule map_of_all2 [where n = n]) (auto simp: versions_of_def split: option.split elim: option.rel_cases)

lemma keys_all2:
  "list_all2 (\<lambda>(k, x) (k', y). k' = k \<and> R x y) m m' \<Longrightarrow> map fst m' = map fst m"
  by (induction rule: list_all2_induct) auto

lemma versions_all_tables: "t \<in> set (versions_of db n) \<Longrightarrow> t \<in> set (all_tables db)"
proof -
  assume t: "t \<in> set (versions_of db n)"
  then obtain vs where "map_of (db_tables db) n = Some vs" "t \<in> set vs"
    by (cases "map_of (db_tables db) n") (auto simp: versions_of_def)
  then have "(n, vs) \<in> set (db_tables db)" "t \<in> set vs" using map_of_SomeD by fast+
  then show ?thesis by (force simp: all_tables_def perm_tables_def)
qed

lemma db_rows_ok_sync: "db_rows_ok db \<Longrightarrow> t \<in> set (versions_of db n) \<Longrightarrow> tb_sync t"
  using versions_all_tables by (auto simp: db_rows_ok_def tables_ok_def)

lemma find_row_version_Some:
  "db_rows_ok db \<Longrightarrow> find_row_version db i = Some v \<longleftrightarrow> v \<in> set (concat (map t_rows (all_tables db))) \<and> v_id v = i"
  by (simp add: find_row_version_view db_rows_ok_def view_in_Some)

lemma rows_of_view: "db_rows_ok db \<Longrightarrow> r \<in> set (rows_of db n) \<Longrightarrow> find_row_version db (v_id r) = Some r"
  using versions_all_tables by (fastforce simp: find_row_version_Some rows_of_def)

lemma reworked_rows:
  "list_all2 reworked ts ts' \<Longrightarrow> cell_of ` set (concat (map t_rows ts')) \<subseteq> cell_of ` set (concat (map t_rows ts))"
proof (induction rule: list_all2_induct)
  case (Cons t ts t' ts')
  then have "cell_of ` set (t_rows t') \<subseteq> cell_of ` set (t_rows t)" by (simp add: reworked_def)
  with Cons.IH show ?case unfolding list.map concat.simps set_append image_Un by blast
qed simp

lemma ix_covers_cells:
  assumes "ix_covers env ks ix rows" and "cell_of ` set rows' \<subseteq> cell_of ` set rows"
  shows "ix_covers env ks ix rows'"
proof -
  have "\<exists>r \<in> set rows. v_id r = v_id r' \<and> v_values r = v_values r'" if "r' \<in> set rows'" for r'
    using assms(2) that by (fastforce simp: cell_of_def)
  with assms(1) show ?thesis unfolding ix_covers_def by metis
qed

lemma indexed_cells:
  assumes "indexed env ks db rows" and "\<And>n. cell_of ` set (rows' n) \<subseteq> cell_of ` set (rows n)"
  shows "indexed env ks db rows'"
proof -
  have "ix_covers env (ks n) ix (rows' tab)"
    if "(n, ix) \<in> set (db_indexes db)" "index_live tab ix" for n ix tab
    using ix_covers_cells [OF _ assms(2)] assms(1) that unfolding indexed_def by blast
  then show ?thesis using assms(1) unfolding indexed_def by blast
qed

lemma db_indexed_reworked:
  assumes "db_indexed env ks db" and "\<And>n. list_all2 reworked (versions_of db n) (versions_of db' n)"
    and "db_indexes db' = db_indexes db"
  shows "db_indexed env ks db'"
proof -
  have "indexed env ks db' (rows_of db)"
    using assms(1,3) by (simp add: db_indexed_def indexed_def index_names_ok_def)
  then show ?thesis
    unfolding db_indexed_def
    using indexed_cells [of env ks db' "rows_of db" "rows_of db'"] reworked_rows [OF assms(2)] by (simp add: rows_of_def)
qed

text \<open>Restamping is an update of the map, and keeps the invariants.\<close>

lemma restamp_version_spec:
  assumes "db_rows_ok db"
  shows "db_rows_ok (restamp_version db i c x) \<and>
    find_row_version (restamp_version db i c x) =
      (find_row_version db)(i := map_option (\<lambda>v. if c v then v\<lparr>v_xmax := x\<rparr> else v) (find_row_version db i)) \<and>
    (\<forall>n. list_all2 reworked (versions_of db n) (versions_of (restamp_version db i c x) n)) \<and>
    db_indexes (restamp_version db i c x) = db_indexes db"
proof -
  let ?db = "restamp_version db i c x"
  let ?g = "map_option (\<lambda>v. if c v then v\<lparr>v_xmax := x\<rparr> else v)"
  have ok: "tables_ok (all_tables db)" using assms by (simp add: db_rows_ok_def)
  note tabs = all_tables_restamp [of db i c x]
  have "map fst (db_tables ?db) = map fst (db_tables db)" by (rule keys_all2 [OF db_tables_restamp])
  moreover have "tables_ok (all_tables ?db) \<and>
      view_in (all_tables ?db) = (view_in (all_tables db))(i := ?g (view_in (all_tables db) i))"
    using restamp_tables [OF ok, of i c x] unfolding tabs
    by (cases "upd_first (restamp_in i c x) (all_tables db)") (auto simp: ok fun_upd_idem)
  moreover have "list_all2 reworked (versions_of db n) (versions_of ?db n)" for n
    by (rule list.rel_mono_strong [OF versions_all2 [OF db_tables_restamp]])
      (use restamp_in_Some db_rows_ok_sync [OF assms] in auto)
  moreover have "db_indexes ?db = db_indexes db" by (simp add: restamp_version_def split: option.split)
  moreover have "find_row_version d = view_in (all_tables d)" for d by (simp add: fun_eq_iff find_row_version_view)
  ultimately show ?thesis using assms by (simp add: db_rows_ok_def)
qed

text \<open>
  Removal deletes the version from the map if it is the caller's own, and reports it as
  temporary exactly when no permanent table holds it.
\<close>

definition own_version :: "nat list \<Rightarrow> row_version option \<Rightarrow> bool" where
  "own_version owns v = (case v of Some r \<Rightarrow> v_xmin r \<in> set owns | None \<Rightarrow> False)"

lemma remove_own_version_spec:
  assumes "db_rows_ok db"
  shows "db_rows_ok (snd (remove_own_version db i owns)) \<and>
    find_row_version (snd (remove_own_version db i owns)) =
      (if own_version owns (find_row_version db i) then (find_row_version db)(i := None) else find_row_version db) \<and>
    fst (remove_own_version db i owns) =
      (if own_version owns (find_row_version db i)
       then map_option (\<lambda>v. (v_values v, view_in (perm_tables db) i = None)) (find_row_version db i) else None) \<and>
    (\<forall>n. list_all2 (\<lambda>t t'. reworked t t' \<and> set (t_rows t') \<subseteq> set (t_rows t))
       (versions_of db n) (versions_of (snd (remove_own_version db i owns)) n)) \<and>
    db_indexes (snd (remove_own_version db i owns)) = db_indexes db"
proof -
  let ?res = "remove_own_version db i owns"
  have ok: "tables_ok (all_tables db)" using assms by (simp add: db_rows_ok_def)
  then have okp: "tables_ok (perm_tables db)" by (simp add: all_tables_def tables_ok_append)
  have view: "find_row_version d = view_in (all_tables d)" for d by (simp add: fun_eq_iff find_row_version_view)
  have temp: "take_first (take_own i owns) (perm_tables db) = None \<longleftrightarrow> view_in (perm_tables db) i = None"
    using take_tables [OF okp, of i owns] by (cases "take_first (take_own i owns) (perm_tables db)") auto
  have "map fst (db_tables (snd ?res)) = map fst (db_tables db)" by (rule keys_all2 [OF db_tables_remove])
  moreover have "tables_ok (all_tables (snd ?res)) \<and>
      view_in (all_tables (snd ?res)) =
        (if own_version owns (view_in (all_tables db) i) then (view_in (all_tables db))(i := None) else view_in (all_tables db)) \<and>
      fst ?res = (if own_version owns (view_in (all_tables db) i)
        then map_option (\<lambda>v. (v_values v, view_in (perm_tables db) i = None)) (view_in (all_tables db) i) else None)"
    using take_tables [OF ok, of i owns] all_tables_remove [where i = i and owns = owns and db = db]
    by (cases "take_first (take_own i owns) (all_tables db)") (auto simp: own_version_def ok temp split: if_splits)
  moreover have "list_all2 (\<lambda>t t'. reworked t t' \<and> set (t_rows t') \<subseteq> set (t_rows t))
       (versions_of db n) (versions_of (snd ?res) n)" for n
  proof (rule list.rel_mono_strong [OF versions_all2 [OF db_tables_remove]])
    fix t t'
    assume t: "t \<in> set (versions_of db n)" and "t' = t \<or> (\<exists>r. take_own i owns t = Some (r, t'))"
    then consider "t' = t" | r where "take_own i owns t = Some (r, t')" by blast
    then show "reworked t t' \<and> set (t_rows t') \<subseteq> set (t_rows t)"
    proof cases
      case (2 r)
      from take_own_Some [OF db_rows_ok_sync [OF assms t] 2] show ?thesis
      proof cases
        case (1 v)
        then have "set (t_rows t) = insert v (set (t_rows t'))" by (metis set_mset_add_mset_insert set_mset_mset)
        then show ?thesis using 1 by blast
      qed simp
    qed simp
  qed
  moreover have "db_indexes (snd ?res) = db_indexes db"
    by (simp add: remove_own_version_def split: option.split prod.split)
  ultimately show ?thesis using assms by (simp add: db_rows_ok_def view)
qed

end
