(* ===== verification/Undo.thy ===== *)
theory Undo
  imports RowView
begin

text \<open>
  The write log: \<^verbatim>\<open>WriteOp\<close> and \<^verbatim>\<open>undo_write_op\<close> of \<^verbatim>\<open>storage.rs\<close>, one definition for each kind
  of operation on modelled state. \<^verbatim>\<open>None\<close> is a panic: a row without a column of an index.
\<close>

section \<open>The write log\<close>

datatype write_op =
    InsertRow string nat
  | DeleteRow string nat nat
  | UpdateRow string nat nat nat row
  | CreateTable string
  | DropTable string nat
  | CreateTempTable nat string
  | DropTempTable nat string "table option"
  | AlterTempTable nat string table "string option"
  | CreateIndex string
  | DropIndex string index
  | CreateTempIndex nat string
  | DropTempIndex nat string index
  | AlterTable string table "string option" bool
  | CreateSequence string
  | DropSequence string sequence
  | AlterSequence string sequence
  | SeqAdvance string
  | CreateRole string
  | DropRole string role
  | AlterRole string role
  | DbAcl "acl_entry list"
  | ObjSchemaSet "(string \<times> string) list"
  | DbOwner string
  | SetToastRelid string u32 u32

section \<open>Undoing row changes\<close>

definition prune_orphan_toast_info :: "string \<Rightarrow> u32 list \<Rightarrow> database \<Rightarrow> database" where
  "prune_orphan_toast_info tab vids db =
     (let uniq = filter (\<lambda>v. v \<noteq> 0) (remdups (sort vids)) in
      if uniq = [] then db
      else
        (case map_of (db_tables db) tab of
           None \<Rightarrow> db
         | Some versions \<Rightarrow>
             if list_all (\<lambda>t. t_toast_info t = []) versions then db
             else
               (let referenced = set (live_vids versions); orphans = filter (\<lambda>v. v \<notin> referenced) uniq
                in if orphans = [] then db
                   else db\<lparr>db_tables := hm_modify tab (map (prune_toast_info orphans)) (db_tables db)\<rparr>)))"

definition doomed_vids :: "database \<Rightarrow> nat \<Rightarrow> u32 list" where
  "doomed_vids db i = (case find_row_version db i of Some v \<Rightarrow> v_toast v | None \<Rightarrow> [])"

text \<open>The removal of an own version with its index entries, shared by both undos below.\<close>

definition undo_version :: "key_env \<Rightarrow> string \<Rightarrow> nat \<Rightarrow> nat list \<Rightarrow> database \<Rightarrow> database option" where
  "undo_version env tab i owns db =
     (case remove_own_version db i owns of
        (Some (values, is_temp), db') \<Rightarrow> if is_temp then Some db' else index_remove_row env tab i values db'
      | (None, db') \<Rightarrow> Some db')"

definition undo_insert :: "key_env \<Rightarrow> string \<Rightarrow> nat \<Rightarrow> nat list \<Rightarrow> database \<Rightarrow> database option" where
  "undo_insert env tab i owns db =
     map_option (prune_orphan_toast_info tab (doomed_vids db i)) (undo_version env tab i owns db)"

definition undo_delete :: "nat \<Rightarrow> nat \<Rightarrow> nat list \<Rightarrow> database \<Rightarrow> database" where
  "undo_delete i prev_xmax owns db = restamp_version db i (\<lambda>v. v_xmax v \<in> set owns) prev_xmax"

definition undo_update :: "key_env \<Rightarrow> string \<Rightarrow> nat \<Rightarrow> nat \<Rightarrow> nat \<Rightarrow> nat list \<Rightarrow> database \<Rightarrow> database option" where
  "undo_update env tab old_id new_id prev_xmax owns db =
     map_option (prune_orphan_toast_info tab (doomed_vids db new_id) \<circ>
         (\<lambda>db'. restamp_version db' old_id (\<lambda>v. v_xmax v \<in> set owns) prev_xmax))
       (undo_version env tab new_id owns db)"

section \<open>Undoing changes of tables\<close>

text \<open>The entry of a name after its versions were thinned: gone when none is left.\<close>

definition put_versions :: "string \<Rightarrow> 'a list \<Rightarrow> (string \<times> 'a list) list \<Rightarrow> (string \<times> 'a list) list" where
  "put_versions name vs m = (if vs = [] then hm_remove name m else hm_modify name (\<lambda>_. vs) m)"

definition undo_create_table :: "string \<Rightarrow> nat list \<Rightarrow> database \<Rightarrow> database" where
  "undo_create_table name owns db =
     (case map_of (db_tables db) name of
        None \<Rightarrow> db
      | Some vs \<Rightarrow>
          (let vs' = (case position_where (\<lambda>t. t_created_xmin t \<in> set owns) vs of
                        Some pos \<Rightarrow> swap_remove pos vs | None \<Rightarrow> vs)
           in db\<lparr>db_tables := put_versions name vs' (db_tables db)\<rparr>))"

definition undo_drop_table :: "string \<Rightarrow> nat \<Rightarrow> nat list \<Rightarrow> database \<Rightarrow> database" where
  "undo_drop_table name prev_xmax owns db =
     (case map_of (db_tables db) name of
        None \<Rightarrow> db
      | Some vs \<Rightarrow>
          (case upd_first (\<lambda>t. if t_dropped_xmax t \<in> set owns then Some (t\<lparr>t_dropped_xmax := prev_xmax\<rparr>) else None) vs of
             Some vs' \<Rightarrow> db\<lparr>db_tables := hm_modify name (\<lambda>_. vs') (db_tables db)\<rparr>
           | None \<Rightarrow> db))"

definition put_temp ::
  "nat \<Rightarrow> (string \<times> table) list \<Rightarrow> database \<Rightarrow> database" where
  "put_temp session tmps db =
     db\<lparr>db_temp_tables := (if tmps = [] then hm_remove session (db_temp_tables db)
                              else hm_insert session tmps (db_temp_tables db))\<rparr>"

definition temps_of :: "nat \<Rightarrow> database \<Rightarrow> (string \<times> table) list" where
  "temps_of session db = (case map_of (db_temp_tables db) session of Some m \<Rightarrow> m | None \<Rightarrow> [])"

definition undo_create_temp_table :: "nat \<Rightarrow> string \<Rightarrow> database \<Rightarrow> database" where
  "undo_create_temp_table session name db =
     (case map_of (db_temp_tables db) session of
        None \<Rightarrow> db
      | Some tmps \<Rightarrow> put_temp session (hm_remove name tmps) db)"

definition undo_drop_temp_table :: "nat \<Rightarrow> string \<Rightarrow> table option \<Rightarrow> database \<Rightarrow> database" where
  "undo_drop_temp_table session name prev db =
     put_temp session
       (case prev of Some t \<Rightarrow> hm_insert name t (temps_of session db) | None \<Rightarrow> hm_remove name (temps_of session db)) db"

definition undo_alter_temp_table :: "nat \<Rightarrow> string \<Rightarrow> table \<Rightarrow> string option \<Rightarrow> database \<Rightarrow> database" where
  "undo_alter_temp_table session name prev renamed_to db =
     (let target = case_option name id renamed_to
      in put_temp session (hm_insert name prev (hm_remove target (temps_of session db))) db)"

fun fill_index :: "key_env \<Rightarrow> row_version list \<Rightarrow> index \<Rightarrow> index option" where
  "fill_index env [] ix = Some ix"
| "fill_index env (r # rs) ix =
     (case index_key_for ix (v_values r) of
        None \<Rightarrow> None
      | Some key \<Rightarrow> fill_index env rs (index_insert env ix key (v_id r)))"

fun map_values :: "('v \<Rightarrow> 'v option) \<Rightarrow> ('k \<times> 'v) list \<Rightarrow> ('k \<times> 'v) list option" where
  "map_values f [] = Some []"
| "map_values f ((k, v) # m) =
     (case f v of None \<Rightarrow> None | Some v' \<Rightarrow> map_option ((#) (k, v')) (map_values f m))"

definition rebuild_indexes ::
  "key_env \<Rightarrow> string \<Rightarrow> string option \<Rightarrow> row_version list \<Rightarrow> database \<Rightarrow> database option" where
  "rebuild_indexes env name renamed_to rows db =
     map_option (\<lambda>ixs. db\<lparr>db_indexes := ixs\<rparr>)
       (map_values (\<lambda>ix.
          let ours = (ix_table (ix_def ix) = name \<or> Some (ix_table (ix_def ix)) = renamed_to)
          in if ours \<and> ix_dropped_xmax (ix_def ix) = 0 \<and> ix_planner_usable (ix_def ix)
             then fill_index env rows (ix\<lparr>ix_tree := []\<rparr>) else Some ix) (db_indexes db))"

definition undo_alter_table ::
  "key_env \<Rightarrow> string \<Rightarrow> table \<Rightarrow> string option \<Rightarrow> bool \<Rightarrow> nat list \<Rightarrow> database \<Rightarrow> database option" where
  "undo_alter_table env name prev renamed_to rewrite_rows owns db =
     (let target = case_option name id renamed_to;
          ts = (case map_of (db_tables db) target of
                  None \<Rightarrow> db_tables db
                | Some vs \<Rightarrow> put_versions target (filter (\<lambda>t. t_created_xmin t \<notin> set owns) vs) (db_tables db));
          ts' = hm_insert name (case_option [] id (map_of ts name) @ [prev]) ts;
          db' = db\<lparr>db_tables := ts'\<rparr>
      in if rewrite_rows then rebuild_indexes env name renamed_to (t_rows prev) db' else Some db')"

definition undo_toast_relid :: "string \<Rightarrow> u32 \<Rightarrow> u32 \<Rightarrow> database \<Rightarrow> database" where
  "undo_toast_relid tab toast_relid prev db =
     db\<lparr>db_tables := hm_modify tab
       (map (\<lambda>t. if t_toast_relid t = toast_relid then t\<lparr>t_toast_relid := prev\<rparr> else t)) (db_tables db)\<rparr>"

section \<open>Undoing changes of indexes\<close>

definition undo_create_index :: "string \<Rightarrow> nat list \<Rightarrow> database \<Rightarrow> database" where
  "undo_create_index name owns db =
     (case map_of (db_indexes db) name of
        Some ix \<Rightarrow> if ix_created_xmin (ix_def ix) \<in> set owns then db\<lparr>db_indexes := hm_remove name (db_indexes db)\<rparr> else db
      | None \<Rightarrow> db)"

definition undo_drop_index :: "string \<Rightarrow> index \<Rightarrow> nat list \<Rightarrow> database \<Rightarrow> database" where
  "undo_drop_index name index owns db =
     (case map_of (db_indexes db) name of
        Some ix \<Rightarrow>
          if ix_dropped_xmax (ix_def ix) \<in> set owns then db\<lparr>db_indexes := hm_insert name index (db_indexes db)\<rparr> else db
      | None \<Rightarrow> db)"

definition undo_create_temp_index :: "nat \<Rightarrow> string \<Rightarrow> nat list \<Rightarrow> database \<Rightarrow> database" where
  "undo_create_temp_index session name owns db =
     (case Option.bind (map_of (db_temp_indexes db) session) (\<lambda>m. map_of m name) of
        Some ix \<Rightarrow>
          if ix_created_xmin (ix_def ix) \<in> set owns
          then db\<lparr>db_temp_indexes := hm_modify session (hm_remove name) (db_temp_indexes db)\<rparr> else db
      | None \<Rightarrow> db)"

definition undo_drop_temp_index :: "nat \<Rightarrow> string \<Rightarrow> index \<Rightarrow> nat list \<Rightarrow> database \<Rightarrow> database" where
  "undo_drop_temp_index session name index owns db =
     (case Option.bind (map_of (db_temp_indexes db) session) (\<lambda>m. map_of m name) of
        Some ix \<Rightarrow>
          if ix_dropped_xmax (ix_def ix) \<in> set owns
          then db\<lparr>db_temp_indexes := hm_modify session (hm_insert name index) (db_temp_indexes db)\<rparr> else db
      | None \<Rightarrow> db)"

section \<open>Undoing changes of sequences and roles\<close>

definition undo_create_sequence :: "string \<Rightarrow> nat list \<Rightarrow> database \<Rightarrow> database" where
  "undo_create_sequence name owns db =
     (case map_of (db_sequences db) name of
        None \<Rightarrow> db
      | Some vs \<Rightarrow>
          db\<lparr>db_sequences := put_versions name (filter (\<lambda>s. sq_created_xmin s \<notin> set owns) vs) (db_sequences db)\<rparr>)"

definition undo_drop_sequence :: "string \<Rightarrow> sequence \<Rightarrow> nat list \<Rightarrow> database \<Rightarrow> database" where
  "undo_drop_sequence name seq owns db =
     (case map_of (db_sequences db) name of
        None \<Rightarrow> db
      | Some vs \<Rightarrow>
          if list_ex (\<lambda>s. sq_created_xmin s = sq_created_xmin seq \<and> sq_dropped_xmax s \<in> set owns) vs
          then (case upd_first (\<lambda>s. if sq_created_xmin s = sq_created_xmin seq
                                     then Some (seq\<lparr>sq_dropped_xmax := 0\<rparr>) else None) vs of
                  Some vs' \<Rightarrow> db\<lparr>db_sequences := hm_modify name (\<lambda>_. vs') (db_sequences db)\<rparr>
                | None \<Rightarrow> db)
          else db)"

definition undo_alter_sequence :: "string \<Rightarrow> sequence \<Rightarrow> nat list \<Rightarrow> database \<Rightarrow> database" where
  "undo_alter_sequence name prev owns db =
     (case map_of (db_sequences db) name of
        None \<Rightarrow> db
      | Some vs \<Rightarrow>
          (let vs1 = filter (\<lambda>s. sq_created_xmin s \<notin> set owns) vs;
               vs2 = (case upd_first (\<lambda>s. if sq_created_xmin s = sq_created_xmin prev then Some prev else None) vs1 of
                        Some vs' \<Rightarrow> vs' | None \<Rightarrow> vs1 @ [prev])
           in db\<lparr>db_sequences := hm_modify name (\<lambda>_. vs2) (db_sequences db)\<rparr>))"

definition undo_create_role :: "string \<Rightarrow> nat list \<Rightarrow> database \<Rightarrow> database" where
  "undo_create_role name owns db =
     (case map_of (db_roles db) name of
        None \<Rightarrow> db
      | Some vs \<Rightarrow>
          db\<lparr>db_roles := put_versions name (filter (\<lambda>r. ro_created_xmin r \<notin> set owns) vs) (db_roles db)\<rparr>)"

definition undo_drop_role :: "string \<Rightarrow> role \<Rightarrow> nat list \<Rightarrow> database \<Rightarrow> database" where
  "undo_drop_role name prev owns db =
     (case map_of (db_roles db) name of
        None \<Rightarrow> db
      | Some vs \<Rightarrow>
          if list_ex (\<lambda>r. ro_created_xmin r = ro_created_xmin prev \<and> ro_dropped_xmax r \<in> set owns) vs
          then (case upd_first (\<lambda>r. if ro_created_xmin r = ro_created_xmin prev
                                     then Some (prev\<lparr>ro_dropped_xmax := 0\<rparr>) else None) vs of
                  Some vs' \<Rightarrow> db\<lparr>db_roles := hm_modify name (\<lambda>_. vs') (db_roles db)\<rparr>
                | None \<Rightarrow> db)
          else db)"

definition undo_alter_role :: "string \<Rightarrow> role \<Rightarrow> nat list \<Rightarrow> database \<Rightarrow> database" where
  "undo_alter_role name prev owns db =
     (case map_of (db_roles db) name of
        None \<Rightarrow> db
      | Some vs \<Rightarrow>
          (let vs1 = filter (\<lambda>r. ro_created_xmin r \<notin> set owns) vs;
               vs2 = (case upd_first (\<lambda>r. if ro_created_xmin r = ro_created_xmin prev then Some prev else None) vs1 of
                        Some vs' \<Rightarrow> vs' | None \<Rightarrow> vs1 @ [prev])
           in db\<lparr>db_roles := hm_modify name (\<lambda>_. vs2) (db_roles db)\<rparr>))"

section \<open>One operation, and a log\<close>

fun undo_op :: "key_env \<Rightarrow> nat list \<Rightarrow> write_op \<Rightarrow> database \<Rightarrow> database option" where
  "undo_op env owns (InsertRow tab i) db = undo_insert env tab i owns db"
| "undo_op env owns (DeleteRow tab i prev_xmax) db = Some (undo_delete i prev_xmax owns db)"
| "undo_op env owns (UpdateRow tab old_id new_id prev_xmax vs) db = undo_update env tab old_id new_id prev_xmax owns db"
| "undo_op env owns (CreateTable name) db = Some (undo_create_table name owns db)"
| "undo_op env owns (DropTable name prev_xmax) db = Some (undo_drop_table name prev_xmax owns db)"
| "undo_op env owns (CreateTempTable session name) db = Some (undo_create_temp_table session name db)"
| "undo_op env owns (DropTempTable session name prev) db = Some (undo_drop_temp_table session name prev db)"
| "undo_op env owns (AlterTempTable session name prev renamed) db =
     Some (undo_alter_temp_table session name prev renamed db)"
| "undo_op env owns (CreateIndex name) db = Some (undo_create_index name owns db)"
| "undo_op env owns (DropIndex name ix) db = Some (undo_drop_index name ix owns db)"
| "undo_op env owns (CreateTempIndex session name) db = Some (undo_create_temp_index session name owns db)"
| "undo_op env owns (DropTempIndex session name ix) db = Some (undo_drop_temp_index session name ix owns db)"
| "undo_op env owns (AlterTable name prev renamed rewrite) db = undo_alter_table env name prev renamed rewrite owns db"
| "undo_op env owns (CreateSequence name) db = Some (undo_create_sequence name owns db)"
| "undo_op env owns (DropSequence name s) db = Some (undo_drop_sequence name s owns db)"
| "undo_op env owns (AlterSequence name prev) db = Some (undo_alter_sequence name prev owns db)"
| "undo_op env owns (SeqAdvance name) db = Some db"
| "undo_op env owns (CreateRole name) db = Some (undo_create_role name owns db)"
| "undo_op env owns (DropRole name prev) db = Some (undo_drop_role name prev owns db)"
| "undo_op env owns (AlterRole name prev) db = Some (undo_alter_role name prev owns db)"
| "undo_op env owns (DbAcl prev) db = Some (db\<lparr>db_acl := prev\<rparr>)"
| "undo_op env owns (ObjSchemaSet prev) db = Some (db\<lparr>db_obj_schema := prev\<rparr>)"
| "undo_op env owns (DbOwner prev) db = Some (db\<lparr>db_owner := prev\<rparr>)"
| "undo_op env owns (SetToastRelid tab relid prev) db = Some (undo_toast_relid tab relid prev db)"

definition undo_write_op :: "key_env \<Rightarrow> nat list \<Rightarrow> write_op \<Rightarrow> engine \<Rightarrow> engine option" where
  "undo_write_op env owns op eng = map_option (\<lambda>db. eng\<lparr>en_db := db\<rparr>) (undo_op env owns op (en_db eng))"

text \<open>The loop of \<^verbatim>\<open>undo_all\<close>, newest first.\<close>

fun undo_each :: "key_env \<Rightarrow> nat list \<Rightarrow> write_op list \<Rightarrow> engine \<Rightarrow> engine option" where
  "undo_each env owns [] eng = Some eng"
| "undo_each env owns (op # ops) eng = Option.bind (undo_write_op env owns op eng) (undo_each env owns ops)"

definition undo_all :: "key_env \<Rightarrow> nat list \<Rightarrow> write_op list \<Rightarrow> engine \<Rightarrow> engine option" where
  "undo_all env owns writes eng = undo_each env owns (rev writes) eng"

section \<open>Undo of row changes as an operation on the map of versions\<close>

definition restore :: "nat list \<Rightarrow> nat \<Rightarrow> nat \<Rightarrow> (nat \<rightharpoonup> row_version) \<Rightarrow> (nat \<rightharpoonup> row_version)" where
  "restore owns i x m = m(i := map_option (\<lambda>v. if v_xmax v \<in> set owns then v\<lparr>v_xmax := x\<rparr> else v) (m i))"

definition retract :: "nat list \<Rightarrow> nat \<Rightarrow> (nat \<rightharpoonup> row_version) \<Rightarrow> (nat \<rightharpoonup> row_version)" where
  "retract owns i m = (if own_version owns (m i) then m(i := None) else m)"

fun undo_view :: "nat list \<Rightarrow> write_op \<Rightarrow> (nat \<rightharpoonup> row_version) \<Rightarrow> (nat \<rightharpoonup> row_version)" where
  "undo_view owns (InsertRow tab i) m = retract owns i m"
| "undo_view owns (DeleteRow tab i x) m = restore owns i x m"
| "undo_view owns (UpdateRow tab i j x vals) m = restore owns i x (retract owns j m)"
| "undo_view owns _ m = m"

fun row_op :: "write_op \<Rightarrow> bool" where
  "row_op (InsertRow tab i) = True"
| "row_op (DeleteRow tab i x) = True"
| "row_op (UpdateRow tab i j x vals) = True"
| "row_op (SeqAdvance name) = True"
| "row_op _ = False"

text \<open>A version that the operation created has a key in every live index of its table.\<close>

definition version_fits :: "(string \<Rightarrow> key_kind list) \<Rightarrow> database \<Rightarrow> string \<Rightarrow> nat \<Rightarrow> bool" where
  "version_fits ks db tab i \<longleftrightarrow> (\<forall>v. find_row_version db i = Some v \<longrightarrow> row_fits ks db tab (v_values v))"

fun op_fits :: "(string \<Rightarrow> key_kind list) \<Rightarrow> database \<Rightarrow> write_op \<Rightarrow> bool" where
  "op_fits ks db (InsertRow tab i) = version_fits ks db tab i"
| "op_fits ks db (UpdateRow tab i j x vals) = version_fits ks db tab j"
| "op_fits ks db _ = True"

text \<open>Rewriting the versions of a name without touching rows changes nothing the map shows.\<close>

definition same_rows :: "table \<Rightarrow> table \<Rightarrow> bool" where
  "same_rows t t' \<longleftrightarrow> t_rows t' = t_rows t \<and> t_row_index t' = t_row_index t"

lemma same_rows_refl [simp]: "same_rows t t"
  by (simp add: same_rows_def)

lemma same_rows_tables:
  "list_all2 same_rows ts ts' \<Longrightarrow>
     map t_rows ts' = map t_rows ts \<and> view_in ts' = view_in ts \<and> tables_ok ts' = tables_ok ts"
proof (induction rule: list_all2_induct)
  case (Cons t ts t' ts')
  then have "tb_abs t' = tb_abs t" "tb_sync t' = tb_sync t" "t_rows t' = t_rows t"
    by (simp_all add: same_rows_def tb_abs_def row_pos_def tb_sync_def fun_eq_iff)
  with Cons.IH show ?case by (auto simp: fun_eq_iff split: option.split)
qed simp

lemma modify_tables_spec:
  assumes f: "\<And>t. same_rows t (f t)"
    and db': "db' = db\<lparr>db_tables := hm_modify tab (map f) (db_tables db)\<rparr>"
  shows "db_rows_ok db' = db_rows_ok db \<and> find_row_version db' = find_row_version db \<and> rows_of db' = rows_of db"
proof -
  have "list_all2 same_rows (concat (map snd m)) (concat (map snd (hm_modify tab (map f) m)))" for m
    by (induction m) (auto simp: list_all2_append list_all2_map2 list_all2_same f intro!: list_all2_appendI)
  then have *: "list_all2 same_rows (concat (map snd m) @ ts) (concat (map snd (hm_modify tab (map f) m)) @ ts)" for m ts
    by (intro list_all2_appendI) (auto simp: list_all2_same)
  note list = same_rows_tables [OF * [of "db_tables db" "temp_tables db"]]
  have all: "all_tables db' = concat (map snd (hm_modify tab (map f) (db_tables db))) @ temp_tables db"
    "all_tables db = concat (map snd (db_tables db)) @ temp_tables db"
    by (simp_all add: db' all_tables_def perm_tables_def temp_tables_def)
  have "versions_of db' n = (if n = tab then map f (versions_of db n) else versions_of db n)" for n
    unfolding db' by (rule versions_of_modify)
  then have "rows_of db' n = rows_of db n" for n using f by (simp add: rows_of_def comp_def same_rows_def)
  moreover have "db_rows_ok db' = db_rows_ok db"
    using list by (simp add: db_rows_ok_def all) (simp add: db')
  moreover have "find_row_version db' = find_row_version db"
    using list by (simp add: fun_eq_iff find_row_version_view all)
  ultimately show ?thesis by (simp add: fun_eq_iff)
qed

lemma prune_orphan_spec:
  "db_rows_ok (prune_orphan_toast_info tab vids db) = db_rows_ok db \<and>
   find_row_version (prune_orphan_toast_info tab vids db) = find_row_version db \<and>
   rows_of (prune_orphan_toast_info tab vids db) = rows_of db \<and>
   db_indexes (prune_orphan_toast_info tab vids db) = db_indexes db"
proof -
  have "same_rows t (prune_toast_info orphans t)" for t orphans
    by (simp add: same_rows_def prune_toast_info_def)
  note m = modify_tables_spec [OF this refl]
  show ?thesis
    by (auto simp: prune_orphan_toast_info_def Let_def m split: option.splits)
qed

lemma db_indexed_same:
  "db_indexes db' = db_indexes db \<Longrightarrow> rows_of db' = rows_of db \<Longrightarrow> db_indexed env ks db' = db_indexed env ks db"
  by (simp add: db_indexed_def indexed_def index_names_ok_def)

lemma rows_of_subset:
  "list_all2 (\<lambda>t t'. reworked t t' \<and> set (t_rows t') \<subseteq> set (t_rows t)) (versions_of db n) (versions_of db' n) \<Longrightarrow>
     set (rows_of db' n) \<subseteq> set (rows_of db n)"
  unfolding rows_of_def by (induction rule: list_all2_induct) auto

lemma find_row_indexes [simp]: "find_row_version (db\<lparr>db_indexes := ixs\<rparr>) = find_row_version db"
  by (simp add: fun_eq_iff find_row_version_view all_tables_def perm_tables_def temp_tables_def)

lemma db_rows_ok_indexes [simp]: "db_rows_ok (db\<lparr>db_indexes := ixs\<rparr>) = db_rows_ok db"
  by (simp add: db_rows_ok_def all_tables_def perm_tables_def temp_tables_def)

lemma undo_version_spec:
  assumes "db_rows_ok db" and "db_indexed env ks db" and "version_fits ks db tab i"
  shows "\<exists>db'. undo_version env tab i owns db = Some db' \<and> db_rows_ok db' \<and> db_indexed env ks db' \<and>
    find_row_version db' = retract owns i (find_row_version db) \<and> index_defs db' = index_defs db"
proof -
  define db1 where "db1 = snd (remove_own_version db i owns)"
  from remove_own_version_spec [OF assms(1), of i owns]
  have ok: "db_rows_ok db1" and view: "find_row_version db1 = retract owns i (find_row_version db)"
    and res: "fst (remove_own_version db i owns) =
      (if own_version owns (find_row_version db i)
       then map_option (\<lambda>v. (v_values v, view_in (perm_tables db) i = None)) (find_row_version db i) else None)"
    and thin: "\<And>n. list_all2 (\<lambda>t t'. reworked t t' \<and> set (t_rows t') \<subseteq> set (t_rows t)) (versions_of db n) (versions_of db1 n)"
    and ixs: "db_indexes db1 = db_indexes db"
    by (simp_all add: db1_def retract_def)
  have defs: "index_defs db1 = index_defs db" by (simp add: index_defs_def ixs)
  have rows: "set (rows_of db1 n) \<subseteq> set (rows_of db n)" for n by (rule rows_of_subset [OF thin])
  have ix1: "indexed env ks db1 (rows_of db)"
    using assms(2) ixs by (simp add: db_indexed_def indexed_def index_names_ok_def)
  then have idx1: "db_indexed env ks db1" unfolding db_indexed_def by (rule indexed_subset) (rule rows)
  have run: "undo_version env tab i owns db =
      (case fst (remove_own_version db i owns) of
         Some (vals, is_temp) \<Rightarrow> if is_temp then Some db1 else index_remove_row env tab i vals db1 | None \<Rightarrow> Some db1)"
    by (simp add: undo_version_def db1_def split: prod.split option.split)
  show ?thesis
  proof (cases "own_version owns (find_row_version db i) \<and> view_in (perm_tables db) i \<noteq> None")
    case False
    then have "undo_version env tab i owns db = Some db1"
      unfolding run res by (auto simp: own_version_def split: option.splits)
    then show ?thesis using ok view idx1 defs by blast
  next
    case True
    then obtain v where v: "find_row_version db i = Some v" by (auto simp: own_version_def split: option.splits)
    have fits: "row_fits ks db1 tab (v_values v)"
      using assms(3) v row_fits_cong [OF defs] by (simp add: version_fits_def)
    have gone: "find_row_version db1 i = None" using view True by (simp add: retract_def)
    have "set (rows_of db1 tab) \<subseteq> {x \<in> set (rows_of db tab). v_id x \<noteq> i}"
      using rows rows_of_view [OF ok] gone by fastforce
    from remove_fitting_row [OF ix1 fits this] obtain ixs' where ixs':
      "index_remove_row env tab i (v_values v) db1 = Some (db1\<lparr>db_indexes := ixs'\<rparr>)"
      "indexed env ks (db1\<lparr>db_indexes := ixs'\<rparr>) ((rows_of db)(tab := rows_of db1 tab))" by blast
    have "indexed env ks (db1\<lparr>db_indexes := ixs'\<rparr>) (rows_of db1)"
      by (rule indexed_subset [OF ixs'(2)]) (use rows in auto)
    then have "db_indexed env ks (db1\<lparr>db_indexes := ixs'\<rparr>)" by (simp add: db_indexed_def)
    moreover have "undo_version env tab i owns db = Some (db1\<lparr>db_indexes := ixs'\<rparr>)"
      unfolding run res using True v ixs'(1) by auto
    ultimately show ?thesis
      using ok view index_defs_remove [OF ixs'(1)] defs by (intro exI [of _ "db1\<lparr>db_indexes := ixs'\<rparr>"]) simp
  qed
qed

text \<open>
  One row operation: its undo returns, keeps the invariants, and acts on the map as
  \<open>undo_view\<close> says.
\<close>

lemma undo_op_spec:
  assumes "db_rows_ok db" and "db_indexed env ks db" and "row_op op" and "op_fits ks db op"
  shows "\<exists>db'. undo_op env owns op db = Some db' \<and> db_rows_ok db' \<and> db_indexed env ks db' \<and>
    find_row_version db' = undo_view owns op (find_row_version db) \<and> index_defs db' = index_defs db"
proof -
  have restamp: "db_rows_ok (undo_delete i x owns d) \<and> db_indexed env ks (undo_delete i x owns d) \<and>
      find_row_version (undo_delete i x owns d) = restore owns i x (find_row_version d) \<and>
      index_defs (undo_delete i x owns d) = index_defs d"
    if "db_rows_ok d" "db_indexed env ks d" for d i x
    using restamp_version_spec [OF that(1), of i "\<lambda>v. v_xmax v \<in> set owns" x]
      db_indexed_reworked [OF that(2), of "undo_delete i x owns d"]
    by (simp add: undo_delete_def restore_def index_defs_def)
  have prune: "db_rows_ok (prune_orphan_toast_info tab vids d) = db_rows_ok d"
    "db_indexed env ks (prune_orphan_toast_info tab vids d) = db_indexed env ks d"
    "find_row_version (prune_orphan_toast_info tab vids d) = find_row_version d"
    "index_defs (prune_orphan_toast_info tab vids d) = index_defs d" for tab vids d
    using prune_orphan_spec [of tab vids d] db_indexed_same [of "prune_orphan_toast_info tab vids d" d]
    by (simp_all add: index_defs_def)
  show ?thesis
  proof (cases op)
    case (InsertRow tab i)
    with undo_version_spec [OF assms(1,2), of tab i owns] assms(4) obtain d where
      "undo_version env tab i owns db = Some d" "db_rows_ok d" "db_indexed env ks d"
      "find_row_version d = retract owns i (find_row_version db)" "index_defs d = index_defs db" by auto
    then show ?thesis using InsertRow by (simp add: undo_insert_def prune)
  next
    case (DeleteRow tab i x)
    then show ?thesis using restamp [OF assms(1,2)] by simp
  next
    case (UpdateRow tab i j x vals)
    with undo_version_spec [OF assms(1,2), of tab j owns] assms(4) obtain d where
      "undo_version env tab j owns db = Some d" "db_rows_ok d" "db_indexed env ks d"
      "find_row_version d = retract owns j (find_row_version db)" "index_defs d = index_defs db" by auto
    then show ?thesis
      using UpdateRow restamp [of d i x] by (simp add: undo_update_def prune undo_delete_def [symmetric])
  qed (use assms in auto)
qed

lemma retract_sub: "retract owns i m j = Some v \<Longrightarrow> m j = Some v"
  by (auto simp: retract_def split: if_splits)

lemma restore_sub: "restore owns i x m j = Some v \<Longrightarrow> \<exists>w. m j = Some w \<and> v_values w = v_values v"
  by (auto simp: restore_def split: if_splits)

lemma undo_view_sub: "undo_view owns op m j = Some v \<Longrightarrow> \<exists>w. m j = Some w \<and> v_values w = v_values v"
  by (cases op) (auto dest: retract_sub restore_sub)

lemma op_fits_step:
  assumes "op_fits ks db op" and "index_defs db' = index_defs db"
    and "find_row_version db' = undo_view owns op' (find_row_version db)"
  shows "op_fits ks db' op"
proof -
  have "version_fits ks db' tab i" if "version_fits ks db tab i" for tab i
    using that undo_view_sub [of owns op' "find_row_version db" i] assms(3) row_fits_cong [OF assms(2)]
    unfolding version_fits_def by metis
  then show ?thesis using assms(1) by (cases op) simp_all
qed

definition undo_log_view :: "nat list \<Rightarrow> write_op list \<Rightarrow> (nat \<rightharpoonup> row_version) \<Rightarrow> (nat \<rightharpoonup> row_version)" where
  "undo_log_view owns ops m = fold (undo_view owns) (rev ops) m"

lemma undo_each_spec:
  assumes "db_rows_ok (en_db eng)" and "db_indexed env ks (en_db eng)" and "list_all row_op ops"
    and "\<forall>op \<in> set ops. op_fits ks (en_db eng) op"
  shows "\<exists>eng'. undo_each env owns ops eng = Some eng' \<and> eng' = eng\<lparr>en_db := en_db eng'\<rparr> \<and>
    db_rows_ok (en_db eng') \<and> db_indexed env ks (en_db eng') \<and>
    find_row_version (en_db eng') = fold (undo_view owns) ops (find_row_version (en_db eng)) \<and>
    index_defs (en_db eng') = index_defs (en_db eng)"
  using assms
proof (induction ops arbitrary: eng)
  case (Cons op ops)
  then obtain db where db: "undo_op env owns op (en_db eng) = Some db" "db_rows_ok db" "db_indexed env ks db"
    "find_row_version db = undo_view owns op (find_row_version (en_db eng))" "index_defs db = index_defs (en_db eng)"
    using undo_op_spec [of "en_db eng" env ks op owns] by auto
  let ?eng = "eng\<lparr>en_db := db\<rparr>"
  have "\<forall>op' \<in> set ops. op_fits ks (en_db ?eng) op'"
    using Cons.prems(4) op_fits_step [OF _ db(5,4)] by simp
  with Cons.IH [of ?eng] db Cons.prems(3) obtain eng' where
    "undo_each env owns ops ?eng = Some eng'" "eng' = ?eng\<lparr>en_db := en_db eng'\<rparr>" "db_rows_ok (en_db eng')"
    "db_indexed env ks (en_db eng')"
    "find_row_version (en_db eng') = fold (undo_view owns) ops (find_row_version db)"
    "index_defs (en_db eng') = index_defs db" by auto
  then show ?case using db by (intro exI [of _ eng']) (simp add: undo_write_op_def)
qed simp

section \<open>Writes interleaved with other transactions\<close>

text \<open>
  \<open>written owns b ops m\<close>: the map of versions is \<open>m\<close> after the transaction with the xids
  \<open>owns\<close> logged \<open>ops\<close>, and \<open>b\<close> is what the map would be had it written nothing. Between its
  writes other transactions change any rows except those it touched.
\<close>

fun touched_ids :: "write_op \<Rightarrow> nat set" where
  "touched_ids (InsertRow tab i) = {i}"
| "touched_ids (DeleteRow tab i x) = {i}"
| "touched_ids (UpdateRow tab i j x vals) = {i, j}"
| "touched_ids _ = {}"

definition touched :: "write_op list \<Rightarrow> nat set" where
  "touched ops = \<Union> (touched_ids ` set ops)"

inductive written :: "nat list \<Rightarrow> (nat \<rightharpoonup> row_version) \<Rightarrow> write_op list \<Rightarrow> (nat \<rightharpoonup> row_version) \<Rightarrow> bool"
  for owns :: "nat list" where
  start: "written owns m [] m"
| others: "written owns b ops m \<Longrightarrow> (\<forall>i \<in> touched ops. b' i = b i \<and> m' i = m i) \<Longrightarrow>
     (\<forall>i. i \<notin> touched ops \<longrightarrow> b' i = m' i) \<Longrightarrow> written owns b' ops m'"
| insert: "written owns b ops m \<Longrightarrow> m i = None \<Longrightarrow> v_xmin v \<in> set owns \<Longrightarrow>
     written owns b (ops @ [InsertRow tab i]) (m(i \<mapsto> v))"
| delete: "written owns b ops m \<Longrightarrow> m i = Some v \<Longrightarrow> x \<in> set owns \<Longrightarrow>
     written owns b (ops @ [DeleteRow tab i (v_xmax v)]) (m(i \<mapsto> v\<lparr>v_xmax := x\<rparr>))"
| update: "written owns b ops m \<Longrightarrow> m i = Some v \<Longrightarrow> m j = None \<Longrightarrow> x \<in> set owns \<Longrightarrow> v_xmin w \<in> set owns \<Longrightarrow>
     written owns b (ops @ [UpdateRow tab i j (v_xmax v) vals]) (m(i \<mapsto> v\<lparr>v_xmax := x\<rparr>, j \<mapsto> w))"
| advance: "written owns b ops m \<Longrightarrow> written owns b (ops @ [SeqAdvance name]) m"

lemma touched_simps [simp]:
  "touched [] = {}" "touched (op # ops) = touched_ids op \<union> touched ops" "touched (xs @ ys) = touched xs \<union> touched ys"
  by (auto simp: touched_def)

lemma undo_log_view_snoc: "undo_log_view owns (ops @ [op]) m = undo_log_view owns ops (undo_view owns op m)"
  by (simp add: undo_log_view_def)

lemma undo_view_elsewhere: "i \<notin> touched_ids op \<Longrightarrow> undo_view owns op m i = m i"
  by (cases op) (auto simp: retract_def restore_def)

lemma undo_view_local:
  "i \<in> touched_ids op \<Longrightarrow> (\<forall>j \<in> touched_ids op. m j = m' j) \<Longrightarrow> undo_view owns op m i = undo_view owns op m' i"
  by (cases op) (auto simp: retract_def restore_def)

lemma undo_log_elsewhere: "i \<notin> touched ops \<Longrightarrow> undo_log_view owns ops m i = m i"
  by (induction ops arbitrary: m rule: rev_induct) (simp_all add: undo_log_view_snoc undo_view_elsewhere undo_log_view_def)

lemma undo_log_local:
  "(\<forall>j \<in> touched ops. m j = m' j) \<Longrightarrow> i \<in> touched ops \<Longrightarrow> undo_log_view owns ops m i = undo_log_view owns ops m' i"
proof (induction ops arbitrary: m m' rule: rev_induct)
  case (snoc op ops)
  let ?u = "undo_view owns op"
  have same: "?u m j = ?u m' j" if "j \<in> touched (ops @ [op])" for j
    using that snoc.prems(1) undo_view_elsewhere [of j op owns] undo_view_local [of j op m m' owns]
    by (cases "j \<in> touched_ids op") auto
  show ?case
  proof (cases "i \<in> touched ops")
    case True
    then show ?thesis unfolding undo_log_view_snoc using snoc.IH [of "?u m" "?u m'"] same by simp
  next
    case False
    then show ?thesis
      unfolding undo_log_view_snoc using same [OF snoc.prems(2)] by (simp add: undo_log_elsewhere)
  qed
qed simp

lemma written_elsewhere: "written owns b ops m \<Longrightarrow> i \<notin> touched ops \<Longrightarrow> b i = m i"
  by (induction rule: written.induct) auto

lemma undo_insert_step: "m i = None \<Longrightarrow> v_xmin v \<in> set owns \<Longrightarrow> undo_view owns (InsertRow tab i) (m(i \<mapsto> v)) = m"
  by (simp add: retract_def own_version_def fun_upd_idem)

lemma undo_delete_step:
  "m i = Some v \<Longrightarrow> x \<in> set owns \<Longrightarrow> undo_view owns (DeleteRow tab i (v_xmax v)) (m(i \<mapsto> v\<lparr>v_xmax := x\<rparr>)) = m"
  by (simp add: restore_def fun_upd_idem)

lemma undo_update_step:
  assumes "m i = Some v" and "m j = None" and "x \<in> set owns" and "v_xmin w \<in> set owns"
  shows "undo_view owns (UpdateRow tab i j (v_xmax v) vals) (m(i \<mapsto> v\<lparr>v_xmax := x\<rparr>, j \<mapsto> w)) = m"
proof -
  have "i \<noteq> j" using assms by auto
  with assms show ?thesis by (auto simp: retract_def restore_def own_version_def fun_eq_iff)
qed

lemma undo_log_view_Nil [simp]: "undo_log_view owns [] m = m"
  by (simp add: undo_log_view_def)

lemma append_snoc_cases:
  assumes "ops @ [op] = pre @ tail"
  obtains "tail = []" "pre = ops @ [op]" | tail' where "tail = tail' @ [op]" "ops = pre @ tail'"
  using assms by (cases tail rule: rev_cases) auto

text \<open>Undoing a tail leaves the transaction as if it had logged only what comes before it.\<close>

lemma written_prefix: "written owns b ops m \<Longrightarrow> ops = pre @ tail \<Longrightarrow> written owns b pre (undo_log_view owns tail m)"
proof (induction arbitrary: tail rule: written.induct)
  case (start m)
  then show ?case by (simp add: written.start)
next
  case (others b ops m b' m')
  let ?u = "undo_log_view owns tail"
  have same: "?u m' i = ?u m i" if "i \<in> touched ops" for i
  proof (cases "i \<in> touched tail")
    case True
    then show ?thesis using others.hyps(2) others.prems by (intro undo_log_local) auto
  next
    case False
    then show ?thesis using others.hyps(2) that by (simp add: undo_log_elsewhere)
  qed
  note ih = others.IH [OF others.prems]
  have "b' i = ?u m' i" if i: "i \<notin> touched pre" for i
  proof (cases "i \<in> touched ops")
    case True
    then show ?thesis using same written_elsewhere [OF ih i] others.hyps(2) by simp
  next
    case False
    then have "i \<notin> touched tail" using others.prems by simp
    with False others.hyps(3) show ?thesis by (simp add: undo_log_elsewhere)
  qed
  then show ?case using same others.hyps(2) others.prems by (intro written.others [OF ih]) auto
next
  case (insert b ops m i v tab)
  from insert.prems show ?case
  proof (cases rule: append_snoc_cases)
    case 1
    then show ?thesis using written.insert [OF insert.hyps(1-3), of tab] by (simp only: undo_log_view_Nil)
  next
    case (2 tail')
    then show ?thesis
      unfolding 2(1) undo_log_view_snoc undo_insert_step [of m i v owns tab, OF insert.hyps(2,3)] by (intro insert.IH)
  qed
next
  case (delete b ops m i v x tab)
  from delete.prems show ?case
  proof (cases rule: append_snoc_cases)
    case 1
    then show ?thesis using written.delete [OF delete.hyps(1-3), of tab] by (simp only: undo_log_view_Nil)
  next
    case (2 tail')
    then show ?thesis
      unfolding 2(1) undo_log_view_snoc undo_delete_step [of m i v x owns tab, OF delete.hyps(2,3)] by (intro delete.IH)
  qed
next
  case (update b ops m i v j x w tab vals)
  from update.prems show ?case
  proof (cases rule: append_snoc_cases)
    case 1
    then show ?thesis using written.update [OF update.hyps(1-5), of tab vals] by (simp only: undo_log_view_Nil)
  next
    case (2 tail')
    then show ?thesis
      unfolding 2(1) undo_log_view_snoc undo_update_step [of m i v j x owns w tab vals, OF update.hyps(2-5)] by (intro update.IH)
  qed
next
  case (advance b ops m name)
  from advance.prems show ?case
  proof (cases rule: append_snoc_cases)
    case 1
    then show ?thesis using advance.hyps by (auto intro: written.advance)
  next
    case (2 tail')
    then show ?thesis using advance.IH by (simp add: undo_log_view_snoc)
  qed
qed

lemma undo_written: "written owns b ops m \<Longrightarrow> undo_log_view owns ops m = b"
proof
  fix i
  assume "written owns b ops m"
  then have "written owns b [] (undo_log_view owns ops m)" by (rule written_prefix) simp
  then show "undo_log_view owns ops m i = b i" using written_elsewhere [of owns b "[]" _ i] by simp
qed

section \<open>Property\<close>

text \<open>
  C5. Abort is atomic: undoing the log of a transaction, newest first, leaves the rows of the
  database exactly as the other transactions' writes alone would have made them, provided
  no other transaction wrote a row it had touched. The undo does not panic and keeps the
  row store and the index contents consistent.
\<close>

theorem abort_is_atomic:
  assumes "db_rows_ok (en_db eng)" and "db_indexed env ks (en_db eng)" and "list_all row_op writes"
    and "\<forall>op \<in> set writes. op_fits ks (en_db eng) op"
    and "written owns base writes (find_row_version (en_db eng))"
  shows "\<exists>eng'. undo_all env owns writes eng = Some eng' \<and> find_row_version (en_db eng') = base \<and>
    db_rows_ok (en_db eng') \<and> db_indexed env ks (en_db eng') \<and> en_txns eng' = en_txns eng"
proof -
  from undo_each_spec [OF assms(1,2), of "rev writes" owns] assms(3,4) obtain eng' where e:
    "undo_each env owns (rev writes) eng = Some eng'" "eng' = eng\<lparr>en_db := en_db eng'\<rparr>" "db_rows_ok (en_db eng')"
    "db_indexed env ks (en_db eng')"
    "find_row_version (en_db eng') = fold (undo_view owns) (rev writes) (find_row_version (en_db eng))"
    by (auto simp: list_all_iff)
  have "find_row_version (en_db eng') = base"
    using undo_written [OF assms(5)] e(5) by (simp add: undo_log_view_def)
  moreover have "en_txns eng' = en_txns eng" by (subst e(2)) simp
  ultimately show ?thesis using e(1,3,4) unfolding undo_all_def by blast
qed

text \<open>The small catalog, its row deleted by the running transaction 7.\<close>

definition demo_deleting :: engine where
  "demo_deleting = demo_deleted\<lparr>en_db := demo_db\<lparr>db_tables := [(''t'', [set_xmax 0 7 demo_table])]\<rparr>\<rparr>"

lemma demo_deleting_wf:
  "db_rows_ok (en_db demo_deleting)" "db_indexed demo_env (\<lambda>_. [KExact]) (en_db demo_deleting)"
  "written [7] [5 \<mapsto> demo_row] [DeleteRow ''t'' 5 0] (find_row_version (en_db demo_deleting))"
  and demo_deleting_view: "find_row_version (en_db demo_deleting) = [5 \<mapsto> demo_row\<lparr>v_xmax := 7\<rparr>]"
proof -
  have tabs: "all_tables (en_db demo_deleting) = [set_xmax 0 7 demo_table]"
    by (simp add: all_tables_def perm_tables_def temp_tables_def demo_deleting_def demo_db_def)
  have sync: "tb_sync (set_xmax 0 7 demo_table)" by (rule tb_sync_set_xmax [OF demo_sync]) simp
  have rows: "t_rows (set_xmax 0 7 demo_table) = [demo_row\<lparr>v_xmax := 7\<rparr>]" by (simp add: set_xmax_def)
  show "db_rows_ok (en_db demo_deleting)"
    unfolding db_rows_ok_def tabs by (simp add: sync) (simp add: demo_deleting_def)
  have names: "index_names_ok (en_db demo_deleting)" "db_indexes (en_db demo_deleting) = [(''i'', demo_index)]"
    using demo_names by (simp_all add: demo_deleting_def index_names_ok_def)
  have "rows_of (en_db demo_deleting) n = (if n = ''t'' then [demo_row\<lparr>v_xmax := 7\<rparr>] else [])" for n
    by (simp add: demo_deleting_def rows_of_def versions_of_def set_xmax_def)
  moreover have "ix_covers demo_env [KExact] demo_index [demo_row\<lparr>v_xmax := 7\<rparr>]"
    using demo_covers by (simp add: ix_covers_def)
  moreover have "index_live tab demo_index \<longleftrightarrow> tab = ''t''" for tab
    using demo_live by (auto simp: index_live_def)
  ultimately show "db_indexed demo_env (\<lambda>_. [KExact]) (en_db demo_deleting)"
    using names by (simp add: db_indexed_def indexed_def)
  have "tb_abs (set_xmax 0 7 demo_table) i = (if i = 5 then Some (demo_row\<lparr>v_xmax := 7\<rparr>) else None)" for i
    using tb_abs_Some [OF sync, of i "demo_row\<lparr>v_xmax := 7\<rparr>"] tb_abs_None [OF sync, of i]
    by (simp add: rows) (cases "i = 5"; simp add: demo_row_def version_plain_def)
  then show view: "find_row_version (en_db demo_deleting) = [5 \<mapsto> demo_row\<lparr>v_xmax := 7\<rparr>]"
    by (simp add: fun_eq_iff find_row_version_view tabs)
  have "written [7] [5 \<mapsto> demo_row] ([] @ [DeleteRow ''t'' 5 (v_xmax demo_row)]) ([5 \<mapsto> demo_row](5 \<mapsto> demo_row\<lparr>v_xmax := 7\<rparr>))"
    by (rule written.delete [OF written.start]) simp_all
  then show "written [7] [5 \<mapsto> demo_row] [DeleteRow ''t'' 5 0] (find_row_version (en_db demo_deleting))"
    by (simp add: view) (simp add: demo_row_def version_plain_def)
qed

theorem abort_is_atomic_witness:
  "\<exists>eng'. undo_all demo_env [7] [DeleteRow ''t'' 5 0] demo_deleting = Some eng' \<and>
     find_row_version (en_db eng') = [5 \<mapsto> demo_row]"
  using abort_is_atomic [OF demo_deleting_wf(1,2) _ _ demo_deleting_wf(3)] by auto

end
