(* ===== verification/Dml.thy ===== *)
theory Dml
  imports Undo
begin

text \<open>
  The statement steps that change the store: the apply loops of \<^verbatim>\<open>INSERT\<close>, \<^verbatim>\<open>UPDATE\<close> and \<^verbatim>\<open>DELETE\<close>
  of \<^verbatim>\<open>exec/dml.rs\<close> with the conflict checks before them, the removal of toast chunks, the swap
  of a table version by \<^verbatim>\<open>ALTER TABLE\<close> and the marking of dropped indexes and sequences. The
  planning of the statements (predicates, routing to partitions, triggers, constraints) is not
  modelled: the loops take the planned rows, and the toasting of wide values is a step of its own
  (theory \<^verbatim>\<open>Toast\<close>). \<^verbatim>\<open>None\<close> is a panic (an \<^verbatim>\<open>expect\<close>, or an index column past the end of a row).
\<close>

section \<open>Statement context\<close>

datatype isolation_level = ReadCommitted | RepeatableRead | Serializable

record stmt_ctx =
  cx_snap :: snapshot
  cx_own :: nat
  cx_write_xid :: nat
  cx_all_xids :: "nat list"
  cx_level :: isolation_level
  cx_session :: nat
  cx_role :: string

section \<open>Conflict checks\<close>

definition check_row_lock :: "engine \<Rightarrow> string \<Rightarrow> nat \<Rightarrow> nat \<Rightarrow> exec_error + unit" where
  "check_row_lock eng tab row_id own =
     (case row_lock_holder row_id (en_txns eng) of
        Some h \<Rightarrow>
          if h \<noteq> own \<and> h \<in> tm_active (en_txns eng)
          then Inl (ExecErr ''40001'' (''could not obtain lock on row in relation \"'' @ tab @ [CHR 0x22]))
          else Inr ()
      | None \<Rightarrow> Inr ())"

definition check_write_conflict :: "engine \<Rightarrow> nat \<Rightarrow> isolation_level \<Rightarrow> exec_error + unit" where
  "check_write_conflict eng xmax level =
     (if xmax = 0 then Inr ()
      else if xid_committed xmax (en_txns eng)
      then (case level of
              ReadCommitted \<Rightarrow> Inr ()
            | _ \<Rightarrow> Inl (ExecErr ''40001'' ''could not serialize access due to concurrent update''))
      else Inr ())"

section \<open>A table through its mutable reference\<close>

definition find_table_mut :: "database \<Rightarrow> string \<Rightarrow> snapshot \<Rightarrow> nat list \<Rightarrow> nat \<Rightarrow> table option" where
  "find_table_mut db name snap owns session =
     (case temp_table db session name of
        Some t \<Rightarrow> Some t
      | None \<Rightarrow> Option.bind (map_of (db_tables db) (table_key db name)) (find (\<lambda>t. table_visible t snap owns)))"

definition with_table ::
  "stmt_ctx \<Rightarrow> string \<Rightarrow> (table \<Rightarrow> ('a \<times> table) option) \<Rightarrow> database \<Rightarrow> ('a \<times> database) option" where
  "with_table ctx name f db =
     (case find_table_mut db name (cx_snap ctx) (cx_all_xids ctx) (cx_session ctx) of
        None \<Rightarrow> None
      | Some t \<Rightarrow>
          (case f t of
             None \<Rightarrow> None
           | Some (a, t') \<Rightarrow>
               map_option (Pair a)
                 (update_table db name (cx_snap ctx) (cx_all_xids ctx) (cx_session ctx) (\<lambda>_. t'))))"

section \<open>The apply loops\<close>

fun push_rows :: "nat \<Rightarrow> string \<Rightarrow> (nat \<times> row) list \<Rightarrow> table \<Rightarrow> (write_op list \<times> table) option" where
  "push_rows x tab [] t = Some ([], t)"
| "push_rows x tab ((i, vals) # ins) t =
     map_option (apfst ((#) (InsertRow tab i))) (push_rows x tab ins (push_version (version_plain i vals x) t))"

fun index_rows_of :: "key_env \<Rightarrow> string \<Rightarrow> nat \<Rightarrow> (nat \<times> row) list \<Rightarrow> database \<Rightarrow> database option" where
  "index_rows_of env tab session [] db = Some db"
| "index_rows_of env tab session ((i, vals) # ins) db =
     (case index_insert_row env tab i vals session db of
        None \<Rightarrow> None
      | Some db' \<Rightarrow> index_rows_of env tab session ins db')"

definition apply_row_inserts ::
  "key_env \<Rightarrow> stmt_ctx \<Rightarrow> string \<Rightarrow> (nat \<times> row) list \<Rightarrow> database \<Rightarrow> (write_op list \<times> database) option" where
  "apply_row_inserts env ctx tab ins db =
     (case with_table ctx tab (push_rows (cx_write_xid ctx) tab ins) db of
        None \<Rightarrow> None
      | Some (ops, db') \<Rightarrow> map_option (Pair ops) (index_rows_of env tab (cx_session ctx) ins db'))"

fun mark_rows :: "nat \<Rightarrow> string \<Rightarrow> (nat \<times> nat) list \<Rightarrow> table \<Rightarrow> (write_op list \<times> table) option" where
  "mark_rows x tab [] t = Some ([], t)"
| "mark_rows x tab ((i, prev_xmax) # dels) t =
     (case row_pos t i of
        None \<Rightarrow> None
      | Some pos \<Rightarrow> map_option (apfst ((#) (DeleteRow tab i prev_xmax))) (mark_rows x tab dels (set_xmax pos x t)))"

definition apply_row_deletes ::
  "stmt_ctx \<Rightarrow> string \<Rightarrow> (nat \<times> nat) list \<Rightarrow> database \<Rightarrow> (write_op list \<times> database) option" where
  "apply_row_deletes ctx tab dels db = with_table ctx tab (mark_rows (cx_write_xid ctx) tab dels) db"

text \<open>An update plans the old id, the deleter it had and the new values; ids are allocated first.\<close>

fun alloc_row_ids :: "'a list \<Rightarrow> txn_manager \<Rightarrow> nat list \<times> txn_manager" where
  "alloc_row_ids [] tm = ([], tm)"
| "alloc_row_ids (r # rs) tm =
     (let (i, tm') = alloc_row_id tm; (is, tm'') = alloc_row_ids rs tm' in (i # is, tm''))"

fun replace_rows ::
  "nat \<Rightarrow> string \<Rightarrow> ((nat \<times> nat \<times> row) \<times> nat) list \<Rightarrow> table \<Rightarrow> (write_op list \<times> table) option" where
  "replace_rows x tab [] t = Some ([], t)"
| "replace_rows x tab (((old_id, prev_xmax, vals), new_id) # upds) t =
     (case row_pos t old_id of
        None \<Rightarrow> None
      | Some pos \<Rightarrow>
          map_option (apfst ((#) (UpdateRow tab old_id new_id prev_xmax (v_values (t_rows t ! pos)))))
            (replace_rows x tab upds (push_version (version_plain new_id vals x) (set_xmax pos x t))))"

definition apply_row_updates ::
  "key_env \<Rightarrow> stmt_ctx \<Rightarrow> string \<Rightarrow> (nat \<times> nat \<times> row) list \<Rightarrow> engine \<Rightarrow> (write_op list \<times> engine) option" where
  "apply_row_updates env ctx tab upds eng =
     (let (ids, tm) = alloc_row_ids upds (en_txns eng) in
      case with_table ctx tab (replace_rows (cx_write_xid ctx) tab (zip upds ids)) (en_db eng) of
        None \<Rightarrow> None
      | Some (ops, db) \<Rightarrow>
          map_option (\<lambda>db'. (ops, eng\<lparr>en_db := db', en_txns := tm\<rparr>))
            (index_rows_of env tab (cx_session ctx) (map (\<lambda>((_, _, vals), i). (i, vals)) (zip upds ids)) db))"

section \<open>Toast chunks of deleted rows\<close>

definition toast_table_name_by_oid :: "database \<Rightarrow> u32 \<Rightarrow> snapshot \<Rightarrow> nat \<Rightarrow> string option" where
  "toast_table_name_by_oid db oid snap own =
     find_first (\<lambda>(n, vs). if list_ex (\<lambda>v. t_oid v = oid \<and> table_visible v snap [own]) vs then Some n else None)
       (db_tables db)"

fun mark_chunks :: "nat \<Rightarrow> string \<Rightarrow> (nat \<times> nat) list \<Rightarrow> table \<Rightarrow> write_op list \<times> table" where
  "mark_chunks x tab [] t = ([], t)"
| "mark_chunks x tab ((i, prev_xmax) # dels) t =
     (case row_pos t i of
        None \<Rightarrow> mark_chunks x tab dels t
      | Some pos \<Rightarrow> apfst ((#) (DeleteRow tab i prev_xmax)) (mark_chunks x tab dels (set_xmax pos x t)))"

definition toast_delete_chunks ::
  "stmt_ctx \<Rightarrow> string \<Rightarrow> u32 list \<Rightarrow> database \<Rightarrow> (write_op list \<times> database) option" where
  "toast_delete_chunks ctx tab vids db =
     (let lookup = (\<lambda>n. find_table db n (cx_snap ctx) (cx_all_xids ctx) (cx_session ctx));
          skip = Some ([], db)
      in if vids = [] then skip
         else case lookup tab of
           None \<Rightarrow> skip
         | Some t \<Rightarrow>
             if t_toast_relid t = 0 then skip
             else case toast_table_name_by_oid db (t_toast_relid t) (cx_snap ctx) (cx_own ctx) of
               None \<Rightarrow> skip
             | Some toast_name \<Rightarrow>
                 (case lookup toast_name of
                    None \<Rightarrow> skip
                  | Some tt \<Rightarrow>
                      (let chunks = map (\<lambda>r. (v_id r, v_xmax r))
                             (filter (\<lambda>r. v_xmax r = 0 \<and> is_chunk vids r) (t_rows tt))
                       in if chunks = [] then skip
                          else with_table ctx toast_name (Some \<circ> mark_chunks (cx_write_xid ctx) toast_name chunks) db)))"

section \<open>Marking dropped objects\<close>

definition require_table_owner :: "database \<Rightarrow> stmt_ctx \<Rightarrow> string \<Rightarrow> exec_error + unit" where
  "require_table_owner db ctx tab =
     (case find_table db tab (cx_snap ctx) (cx_all_xids ctx) (cx_session ctx) of
        Some t \<Rightarrow>
          if t_owner t \<noteq> cx_role ctx \<and> \<not> is_superuser_snap db (cx_role ctx) (cx_snap ctx) (cx_own ctx)
          then Inl (ExecErr ''42501'' (''permission denied: must be owner of table \"'' @ tab @ [CHR 0x22]))
          else Inr ()
      | None \<Rightarrow> Inr ())"

definition require_seq_owner :: "database \<Rightarrow> stmt_ctx \<Rightarrow> string \<Rightarrow> exec_error + unit" where
  "require_seq_owner db ctx name =
     (case find_sequence db name (cx_snap ctx) (cx_own ctx) of
        Some s \<Rightarrow>
          if sq_owner s \<noteq> cx_role ctx \<and> \<not> is_superuser_snap db (cx_role ctx) (cx_snap ctx) (cx_own ctx)
          then Inl (ExecErr ''42501'' (''permission denied: must be owner of sequence \"'' @ name @ [CHR 0x22]))
          else Inr ()
      | None \<Rightarrow> Inr ())"

definition no_table :: "string \<Rightarrow> exec_error" where
  "no_table name = ExecErr ''42P01'' (''relation \"'' @ name @ ''\" does not exist'')"

definition fresh_rows_log :: "string \<Rightarrow> row_version list option \<Rightarrow> write_op list" where
  "fresh_rows_log target new_rows = (case new_rows of Some rows \<Rightarrow> map (\<lambda>r. InsertRow target (v_id r)) rows | None \<Rightarrow> [])"

definition alter_swap_temp ::
  "stmt_ctx \<Rightarrow> string \<Rightarrow> string option \<Rightarrow> table \<Rightarrow> row_version list option \<Rightarrow> database \<Rightarrow>
     exec_error + write_op list \<times> database" where
  "alter_swap_temp ctx name renamed_to next new_rows db =
     (case temp_table db (cx_session ctx) name of
        None \<Rightarrow> Inl (no_table name)
      | Some prev \<Rightarrow>
          (let next1 = (case new_rows of Some rows \<Rightarrow> rebuild_row_index (next\<lparr>t_rows := rows\<rparr>) | None \<Rightarrow> next);
               target = case_option name id renamed_to;
               tmps = temps_of (cx_session ctx) db;
               tmps1 = (if renamed_to \<noteq> None then hm_remove name tmps else tmps)
           in Inr (AlterTempTable (cx_session ctx) name prev renamed_to # fresh_rows_log target new_rows,
                   db\<lparr>db_temp_tables := hm_insert (cx_session ctx) (hm_insert target next1 tmps1) (db_temp_tables db)\<rparr>)))"

text \<open>
  \<open>alter_swap\<close>: the visible version is marked dropped and, unless the rows are rewritten, hands
  its rows to the new version. On a rename the versions move to the new name, in place of
  any that were stored there. The inner \<^verbatim>\<open>None\<close> is a panic.
\<close>

definition retire_version :: "nat \<Rightarrow> bool \<Rightarrow> table \<Rightarrow> table" where
  "retire_version own rewrite old =
     (let old' = old\<lparr>t_dropped_xmax := own\<rparr>
      in if rewrite then old' else rebuild_row_index (old'\<lparr>t_rows := []\<rparr>))"

definition next_version :: "nat \<Rightarrow> row_version list option \<Rightarrow> table \<Rightarrow> table \<Rightarrow> table" where
  "next_version own new_rows next old =
     (let next1 = next\<lparr>t_created_xmin := own, t_dropped_xmax := 0\<rparr>
      in rebuild_row_index (next1\<lparr>t_rows := (case new_rows of Some rows \<Rightarrow> rows | None \<Rightarrow> t_rows old)\<rparr>))"

definition alter_swap ::
  "stmt_ctx \<Rightarrow> string \<Rightarrow> string option \<Rightarrow> table \<Rightarrow> row_version list option \<Rightarrow> database \<Rightarrow>
     exec_error + (write_op list \<times> database) option" where
  "alter_swap ctx name renamed_to next new_rows db =
     (let visible = (\<lambda>t. table_visible t (cx_snap ctx) (cx_all_xids ctx)) in
      if is_temp_table db (cx_session ctx) name
      then map_sum id Some (alter_swap_temp ctx name renamed_to next new_rows db)
      else
        (case find_table db name (cx_snap ctx) (cx_all_xids ctx) (cx_session ctx) of
           None \<Rightarrow> Inl (no_table name)
         | Some prev \<Rightarrow>
             (let target = case_option name id renamed_to;
                  versions = case_option [] id (map_of (db_tables db) name);
                  log = AlterTable name prev renamed_to (new_rows \<noteq> None) # fresh_rows_log target new_rows
              in case (find visible versions,
                       upd_first (\<lambda>t. if visible t then Some (retire_version (cx_own ctx) (new_rows \<noteq> None) t) else None)
                         versions) of
                   (Some old, Some versions') \<Rightarrow>
                     (let vs = versions' @ [next_version (cx_own ctx) new_rows next old];
                          ts = (if renamed_to \<noteq> None then hm_insert target vs (hm_remove name (db_tables db))
                                else hm_modify name (\<lambda>_. vs) (db_tables db))
                      in Inr (Some (log, db\<lparr>db_tables := ts\<rparr>)))
                 | _ \<Rightarrow> Inr None)))"

definition drop_one_index ::
  "stmt_ctx \<Rightarrow> string \<Rightarrow> bool \<Rightarrow> database \<Rightarrow> exec_error + write_op list \<times> database" where
  "drop_one_index ctx name if_exists db =
     (let mark = (\<lambda>ix. ix\<lparr>ix_def := (ix_def ix)\<lparr>ix_dropped_xmax := cx_own ctx\<rparr>\<rparr>);
          visible = (\<lambda>ix. index_visible (ix_def ix) (cx_snap ctx) (cx_all_xids ctx));
          temp = Option.bind (map_of (db_temp_indexes db) (cx_session ctx)) (\<lambda>m. map_of m name)
      in case (case temp of Some ix \<Rightarrow> if visible ix then Some ix else None | None \<Rightarrow> None) of
           Some ix \<Rightarrow>
             (case require_table_owner db ctx (ix_table (ix_def ix)) of
                Inl e \<Rightarrow> Inl e
              | Inr _ \<Rightarrow>
                  Inr ([DropTempIndex (cx_session ctx) name ix],
                       db\<lparr>db_temp_indexes := hm_modify (cx_session ctx) (hm_modify name mark) (db_temp_indexes db)\<rparr>))
         | None \<Rightarrow>
             (case find_index db name (cx_snap ctx) (cx_all_xids ctx) of
                None \<Rightarrow>
                  if if_exists then Inr ([], db)
                  else Inl (ExecErr ''42P01'' (''index \"'' @ name @ ''\" does not exist''))
              | Some ix \<Rightarrow>
                  (case require_table_owner db ctx (ix_table (ix_def ix)) of
                     Inl e \<Rightarrow> Inl e
                   | Inr _ \<Rightarrow> Inr ([DropIndex name ix], db\<lparr>db_indexes := hm_modify name mark (db_indexes db)\<rparr>))))"

definition drop_sequence_version :: "stmt_ctx \<Rightarrow> string \<Rightarrow> database \<Rightarrow> (write_op list \<times> database) option" where
  "drop_sequence_version ctx name db =
     (case find_sequence db name (cx_snap ctx) (cx_own ctx) of
        None \<Rightarrow> None
      | Some prev \<Rightarrow>
          map_option (Pair [DropSequence name prev])
            (update_sequence db name (cx_snap ctx) (cx_own ctx) (\<lambda>s. s\<lparr>sq_dropped_xmax := cx_own ctx\<rparr>)))"

definition forget_obj_schema :: "string \<Rightarrow> database \<Rightarrow> write_op list \<times> database" where
  "forget_obj_schema key db =
     (if map_of (db_obj_schema db) key \<noteq> None
      then ([ObjSchemaSet (db_obj_schema db)], db\<lparr>db_obj_schema := hm_remove key (db_obj_schema db)\<rparr>)
      else ([], db))"

definition drop_table_version :: "stmt_ctx \<Rightarrow> string \<Rightarrow> database \<Rightarrow> (write_op list \<times> database) option" where
  "drop_table_version ctx name db =
     with_table ctx name
       (\<lambda>t. Some ([DropTable name (t_dropped_xmax t)], t\<lparr>t_dropped_xmax := cx_own ctx\<rparr>)) db"

section \<open>The apply loops as writes on the map of versions\<close>

text \<open>
  \<open>with_table\<close> replaces one table of the search order by its image, and its name keeps the
  place of every other version.
\<close>

definition table_replaced :: "database \<Rightarrow> table \<Rightarrow> table \<Rightarrow> database \<Rightarrow> bool" where
  "table_replaced db t t' db' \<longleftrightarrow>
     (\<exists>as bs. all_tables db = as @ t # bs \<and> all_tables db' = as @ t' # bs) \<and>
     map fst (db_tables db') = map fst (db_tables db) \<and> db_indexes db' = db_indexes db \<and>
     (\<forall>n. list_all2 (\<lambda>u u'. u' = u \<or> u = t \<and> u' = t') (versions_of db n) (versions_of db' n))"

lemma upd_first_split:
  "upd_first f xs = Some ys \<Longrightarrow> \<exists>as x y bs. xs = as @ x # bs \<and> ys = as @ y # bs \<and> f x = Some y \<and> (\<forall>a \<in> set as. f a = None)"
proof (induction xs arbitrary: ys)
  case (Cons x xs)
  show ?case
  proof (cases "f x")
    case None
    with Cons.prems obtain zs where "upd_first f xs = Some zs" "ys = x # zs" by auto
    with Cons.IH obtain as y z bs where "xs = as @ y # bs" "zs = as @ z # bs" "f y = Some z" "\<forall>a \<in> set as. f a = None" by blast
    with None \<open>ys = x # zs\<close> show ?thesis by (intro exI [of _ "x # as"]) auto
  next
    case (Some y)
    with Cons.prems show ?thesis by (intro exI [of _ "[]"]) auto
  qed
qed simp

lemma find_upd_split:
  assumes "find p xs = Some t" and "upd_first (\<lambda>x. if p x then Some (g x) else None) xs = Some ys"
  shows "\<exists>as bs. xs = as @ t # bs \<and> ys = as @ g t # bs"
proof -
  obtain as x y bs where s: "xs = as @ x # bs" "ys = as @ y # bs" "(if p x then Some (g x) else None) = Some y"
    "\<forall>a \<in> set as. (if p a then Some (g a) else None) = None"
    using upd_first_split [OF assms(2)] by blast
  then have "p x" "\<forall>a \<in> set as. \<not> p a" "y = g x" by (auto split: if_splits)
  then have "find p xs = Some x" using s(1) by (induction as arbitrary: xs) auto
  with assms(1) s \<open>y = g x\<close> show ?thesis by auto
qed

lemma concat_modify:
  "map_of m k = Some vs \<Longrightarrow> \<exists>as bs. concat (map (h \<circ> snd) m) = as @ h vs @ bs \<and>
     concat (map (h \<circ> snd) (hm_modify k f m)) = as @ h (f vs) @ bs"
proof (induction m)
  case (Cons e m)
  obtain k' ws where e: "e = (k', ws)" by (cases e)
  show ?case
  proof (cases "k' = k")
    case True
    with Cons.prems e show ?thesis
      by - (rule exI [of _ "[]"], rule exI [of _ "concat (map (h \<circ> snd) m)"], simp add: comp_def)
  next
    case False
    with Cons.prems e have "map_of m k = Some vs" by simp
    from Cons.IH [OF this] obtain as bs where "concat (map (h \<circ> snd) m) = as @ h vs @ bs"
      "concat (map (h \<circ> snd) (hm_modify k f m)) = as @ h (f vs) @ bs" by blast
    with False e show ?thesis
      by - (rule exI [of _ "h ws @ as"], rule exI [of _ bs], simp add: comp_def)
  qed
qed simp

lemma map_snd_modify:
  "map_of m k = Some t \<Longrightarrow> \<exists>as bs. map snd m = as @ t # bs \<and> map snd (hm_modify k f m) = as @ f t # bs"
  using concat_modify [of m k t "\<lambda>x. [x]" f] by (simp add: comp_def)

lemma update_table_replaced:
  assumes "find_table_mut db name snap owns session = Some t"
    and "update_table db name snap owns session (\<lambda>_. t') = Some db'"
  shows "table_replaced db t t' db'"
proof (cases "temp_table db session name")
  case (Some u)
  then obtain tmps where tmps: "map_of (db_temp_tables db) session = Some tmps" "map_of tmps name = Some u"
    by (auto simp: temp_table_def bind_eq_Some_conv)
  have t: "u = t" using assms(1) Some by (simp add: find_table_mut_def)
  have db': "db' = db\<lparr>db_temp_tables := hm_modify session (hm_modify name (\<lambda>_. t')) (db_temp_tables db)\<rparr>"
    using assms(2) Some by (simp add: update_table_def)
  obtain as bs where outer: "concat (map (map snd \<circ> snd) (db_temp_tables db)) = as @ map snd tmps @ bs"
    "concat (map (map snd \<circ> snd) (hm_modify session (hm_modify name (\<lambda>_. t')) (db_temp_tables db))) =
      as @ map snd (hm_modify name (\<lambda>_. t') tmps) @ bs"
    using concat_modify [OF tmps(1), of "map snd" "hm_modify name (\<lambda>_. t')"] by blast
  obtain cs ds where inner: "map snd tmps = cs @ u # ds" "map snd (hm_modify name (\<lambda>_. t') tmps) = cs @ t' # ds"
    using map_snd_modify [OF tmps(2), of "\<lambda>_. t'"] by blast
  have "all_tables db = (perm_tables db @ as @ cs) @ t # (ds @ bs)"
    "all_tables db' = (perm_tables db @ as @ cs) @ t' # (ds @ bs)"
    using outer inner t by (simp_all add: all_tables_def temp_tables_def db' perm_tables_def comp_def)
  then have "\<exists>as bs. all_tables db = as @ t # bs \<and> all_tables db' = as @ t' # bs" by blast
  moreover have "map fst (db_tables db') = map fst (db_tables db) \<and> db_indexes db' = db_indexes db" by (simp add: db')
  moreover have "list_all2 (\<lambda>u u'. u' = u \<or> u = t \<and> u' = t') (versions_of db n) (versions_of db' n)" for n
    by (simp add: db' versions_of_def list_all2_same)
  ultimately show ?thesis unfolding table_replaced_def by blast
next
  case None
  let ?key = "table_key db name" and ?vis = "\<lambda>t. table_visible t snap owns"
  from None assms(2) obtain vs vs' where vs: "map_of (db_tables db) ?key = Some vs"
    "upd_first (\<lambda>t. if ?vis t then Some t' else None) vs = Some vs'"
    "db' = db\<lparr>db_tables := hm_modify ?key (\<lambda>_. vs') (db_tables db)\<rparr>"
    by (auto simp: update_table_def Let_def split: option.splits)
  have "find ?vis vs = Some t" using assms(1) None vs(1) by (simp add: find_table_mut_def)
  from find_upd_split [OF this vs(2)] obtain cs ds where inner: "vs = cs @ t # ds" "vs' = cs @ t' # ds" by blast
  obtain as bs where "concat (map (id \<circ> snd) (db_tables db)) = as @ id vs @ bs"
    "concat (map (id \<circ> snd) (hm_modify ?key (\<lambda>_. vs') (db_tables db))) = as @ id vs' @ bs"
    using concat_modify [OF vs(1), of id "\<lambda>_. vs'"] by blast
  then have "all_tables db = (as @ cs) @ t # (ds @ bs @ temp_tables db)"
    "all_tables db' = (as @ cs) @ t' # (ds @ bs @ temp_tables db)"
    using inner by (simp_all add: all_tables_def perm_tables_def temp_tables_def vs(3))
  then have "\<exists>as bs. all_tables db = as @ t # bs \<and> all_tables db' = as @ t' # bs" by blast
  moreover have "map fst (db_tables db') = map fst (db_tables db) \<and> db_indexes db' = db_indexes db" by (simp add: vs(3))
  moreover have "list_all2 (\<lambda>u u'. u' = u \<or> u = t \<and> u' = t') (versions_of db n) (versions_of db' n)" for n
  proof (cases "n = ?key")
    case True
    then have "versions_of db n = vs" "versions_of db' n = vs'" using vs by (simp_all add: versions_of_def map_of_hm_modify)
    then show ?thesis using inner by (auto simp: list_all2_append list_all2_same)
  next
    case False
    then have "versions_of db' n = versions_of db n" by (simp add: vs(3) versions_of_def map_of_hm_modify)
    then show ?thesis by (simp add: list_all2_same)
  qed
  ultimately show ?thesis unfolding table_replaced_def by blast
qed

lemma with_table_replaced:
  assumes "with_table ctx name f db = Some (a, db')"
  obtains t t' where "f t = Some (a, t')" "table_replaced db t t' db'"
proof -
  let ?s = "cx_snap ctx" and ?o = "cx_all_xids ctx" and ?n = "cx_session ctx"
  obtain t t' where t: "find_table_mut db name ?s ?o ?n = Some t" "f t = Some (a, t')"
    "update_table db name ?s ?o ?n (\<lambda>_. t') = Some db'"
    using assms by (auto simp: with_table_def split: option.splits)
  then show thesis using that update_table_replaced [OF t(1,3)] by blast
qed

text \<open>What the replacement does to the map, when the new table acts on its own part of it.\<close>

lemma view_replaced:
  assumes "table_replaced db t t' db'" and "db_rows_ok db" and "tb_sync t'"
    and "v_id ` set (t_rows t') \<subseteq> v_id ` set (t_rows t) \<union> {i. find_row_version db i = None}"
    and "\<And>i. tb_abs t i = None \<Longrightarrow> tb_abs t' i = None \<or> find_row_version db i = None"
    and "\<And>i. tb_abs t i \<noteq> None \<Longrightarrow> tb_abs t' i \<noteq> None"
  shows "db_rows_ok db' \<and>
    find_row_version db' = (\<lambda>i. case tb_abs t' i of Some v \<Rightarrow> Some v | None \<Rightarrow> find_row_version db i)"
proof -
  obtain as bs where tabs: "all_tables db = as @ t # bs" "all_tables db' = as @ t' # bs"
    using assms(1) by (auto simp: table_replaced_def)
  have ok: "tables_ok (as @ t # bs)" using assms(2) tabs by (simp add: db_rows_ok_def)
  have none: "view_in as i = None \<and> tb_abs t i = None \<and> view_in bs i = None" if "find_row_version db i = None" for i
    using that by (simp add: find_row_version_view tabs view_in_append split: option.splits)
  have sep: "v_id ` set (t_rows t') \<inter> v_id ` set (concat (map t_rows cs)) = {}"
    if "tables_ok cs" "v_id ` set (t_rows t) \<inter> v_id ` set (concat (map t_rows cs)) = {}"
      "\<And>i. find_row_version db i = None \<Longrightarrow> view_in cs i = None" for cs
    using assms(4) that(2) that(3) view_in_None [OF that(1)] by blast
  have "tables_ok as" "tables_ok (t # bs)"
    "v_id ` set (concat (map t_rows as)) \<inter> v_id ` (set (t_rows t) \<union> set (concat (map t_rows bs))) = {}"
    using ok by (simp_all add: tables_ok_append)
  then have parts: "tables_ok as" "tables_ok bs" "tb_sync t"
    "v_id ` set (concat (map t_rows as)) \<inter> v_id ` set (concat (map t_rows bs)) = {}"
    "v_id ` set (t_rows t) \<inter> v_id ` set (concat (map t_rows as)) = {}"
    "v_id ` set (t_rows t) \<inter> v_id ` set (concat (map t_rows bs)) = {}"
    unfolding tables_ok_simps image_Un by blast+
  have "v_id ` set (t_rows t') \<inter> v_id ` set (concat (map t_rows as)) = {}"
    "v_id ` set (t_rows t') \<inter> v_id ` set (concat (map t_rows bs)) = {}"
    using sep [OF parts(1,5)] sep [OF parts(2,6)] none by simp_all
  then have "tables_ok (as @ t' # bs)"
    using parts(1,2,4) assms(3)
    unfolding tables_ok_append tables_ok_simps list.map concat.simps set_append image_Un by blast
  then have "db_rows_ok db'"
    using assms(1,2) tabs by (simp add: db_rows_ok_def table_replaced_def)
  moreover have "find_row_version db' i = (case tb_abs t' i of Some v \<Rightarrow> Some v | None \<Rightarrow> find_row_version db i)" for i
  proof (cases "tb_abs t' i")
    case None
    then have "tb_abs t i = None" using assms(6) by blast
    with None show ?thesis by (simp add: find_row_version_view tabs view_in_append split: option.split)
  next
    case (Some v)
    have "view_in as i = None"
    proof (cases "tb_abs t i")
      case None
      then have "find_row_version db i = None" using assms(5) [of i] Some by simp
      then show ?thesis using none by blast
    next
      case (Some w)
      then have "i \<in> v_id ` set (t_rows t)" using tb_abs_Some [OF parts(3)] by force
      then have "i \<notin> v_id ` set (concat (map t_rows as))" using parts(5) by (metis disjoint_iff)
      then show ?thesis using view_in_None [OF parts(1), of i] by blast
    qed
    with Some show ?thesis by (simp add: find_row_version_view tabs view_in_append)
  qed
  ultimately show ?thesis by blast
qed

text \<open>The three kinds of change on a map of versions.\<close>

definition mark_view :: "nat \<Rightarrow> nat \<Rightarrow> (nat \<rightharpoonup> row_version) \<Rightarrow> (nat \<rightharpoonup> row_version)" where
  "mark_view x i m = m(i := map_option (\<lambda>v. v\<lparr>v_xmax := x\<rparr>) (m i))"

definition push_view :: "nat \<Rightarrow> nat \<times> row \<Rightarrow> (nat \<rightharpoonup> row_version) \<Rightarrow> (nat \<rightharpoonup> row_version)" where
  "push_view x = (\<lambda>(i, vals) m. m(i \<mapsto> version_plain i vals x))"

definition replace_view :: "nat \<Rightarrow> (nat \<times> nat \<times> row) \<times> nat \<Rightarrow> (nat \<rightharpoonup> row_version) \<Rightarrow> (nat \<rightharpoonup> row_version)" where
  "replace_view x = (\<lambda>((i, prev_xmax, vals), j) m. push_view x (j, vals) (mark_view x i m))"

lemma push_rows_spec:
  assumes "tb_sync t" and "distinct (map fst ins)" and "\<forall>i \<in> set (map fst ins). tb_abs t i = None"
  shows "\<exists>t'. push_rows x tab ins t = Some (map (\<lambda>(i, vals). InsertRow tab i) ins, t') \<and> tb_sync t' \<and>
    tb_abs t' = fold (push_view x) ins (tb_abs t)"
  using assms
proof (induction ins arbitrary: t)
  case (Cons e ins)
  obtain i vals where e: "e = (i, vals)" by (cases e)
  let ?t = "push_version (version_plain i vals x) t"
  have none: "tb_abs t (v_id (version_plain i vals x)) = None" using Cons.prems(3) e by (simp add: version_plain_def)
  have t: "tb_sync ?t" "tb_abs ?t = (tb_abs t)(i \<mapsto> version_plain i vals x)"
    using tb_sync_push [OF Cons.prems(1) none] tb_abs_push [OF Cons.prems(1) none] by (simp_all add: version_plain_def)
  have "\<forall>j \<in> set (map fst ins). tb_abs ?t j = None" "distinct (map fst ins)"
    using Cons.prems(2,3) e t(2) by auto
  with Cons.IH [OF t(1)] obtain t' where
    "push_rows x tab ins ?t = Some (map (\<lambda>(i, vals). InsertRow tab i) ins, t')" "tb_sync t'"
    "tb_abs t' = fold (push_view x) ins (tb_abs ?t)" by blast
  then show ?case using e t(2) by (simp add: push_view_def)
qed simp

lemma set_xmax_pos:
  assumes "tb_sync t" and "tb_abs t i = Some v"
  obtains pos where "row_pos t i = Some pos" "t_rows t ! pos = v" "tb_sync (set_xmax pos x t)"
    "tb_abs (set_xmax pos x t) = mark_view x i (tb_abs t)"
proof -
  obtain pos where pos: "row_pos t i = Some pos" "t_rows t ! pos = v"
    using assms(2) by (auto simp: tb_abs_def)
  then have "pos < length (t_rows t)" using tb_sync_pos [OF assms(1)] by blast
  then show thesis
    using that [OF pos] tb_sync_set_xmax [OF assms(1)] tb_abs_set_xmax [OF assms(1) pos(1)] by (simp add: mark_view_def)
qed

lemma mark_view_dom [simp]:
  "mark_view x i m j = None \<longleftrightarrow> m j = None" "(\<exists>v. mark_view x i m j = Some v) \<longleftrightarrow> (\<exists>v. m j = Some v)"
  by (auto simp: mark_view_def)

lemma mark_rows_spec:
  assumes "tb_sync t" and "\<forall>i \<in> set (map fst dels). tb_abs t i \<noteq> None"
  shows "\<exists>t'. mark_rows x tab dels t = Some (map (\<lambda>(i, p). DeleteRow tab i p) dels, t') \<and> tb_sync t' \<and>
    tb_abs t' = fold (\<lambda>(i, p). mark_view x i) dels (tb_abs t)"
  using assms
proof (induction dels arbitrary: t)
  case (Cons e dels)
  obtain i p where e: "e = (i, p)" by (cases e)
  obtain v where v: "tb_abs t i = Some v" using Cons.prems(2) e by auto
  from set_xmax_pos [OF Cons.prems(1) v, of x] obtain pos where pos: "row_pos t i = Some pos"
    "tb_sync (set_xmax pos x t)" "tb_abs (set_xmax pos x t) = mark_view x i (tb_abs t)" by metis
  have "\<forall>j \<in> set (map fst dels). tb_abs (set_xmax pos x t) j \<noteq> None"
    using Cons.prems(2) e pos(3) by auto
  from Cons.IH [OF pos(2) this] show ?case using e pos by auto
qed simp

lemma replace_rows_spec:
  assumes "tb_sync t" and "\<forall>u \<in> set upds. tb_abs t (fst (fst u)) \<noteq> None" and "distinct (map snd upds)"
    and "\<forall>j \<in> set (map snd upds). tb_abs t j = None"
  shows "\<exists>ops t'. replace_rows x tab upds t = Some (ops, t') \<and> tb_sync t' \<and>
    list_all2 (\<lambda>((i, p, vals), j) op. \<exists>old. op = UpdateRow tab i j p old) upds ops \<and>
    tb_abs t' = fold (replace_view x) upds (tb_abs t)"
  using assms
proof (induction upds arbitrary: t)
  case (Cons e upds)
  obtain i p vals j where e: "e = ((i, p, vals), j)" by (cases e) auto
  obtain v where v: "tb_abs t i = Some v" using Cons.prems(2) e by auto
  from set_xmax_pos [OF Cons.prems(1) v, of x] obtain pos where pos: "row_pos t i = Some pos"
    "tb_sync (set_xmax pos x t)" "tb_abs (set_xmax pos x t) = mark_view x i (tb_abs t)" by metis
  let ?t = "push_version (version_plain j vals x) (set_xmax pos x t)"
  have none: "tb_abs (set_xmax pos x t) (v_id (version_plain j vals x)) = None"
    using Cons.prems(4) e pos(3) by (simp add: version_plain_def)
  have t: "tb_sync ?t" "tb_abs ?t = replace_view x e (tb_abs t)"
    using tb_sync_push [OF pos(2) none] tb_abs_push [OF pos(2) none] pos(3) e
    by (simp_all add: replace_view_def push_view_def version_plain_def)
  have "\<forall>u \<in> set upds. tb_abs ?t (fst (fst u)) \<noteq> None" "\<forall>k \<in> set (map snd upds). tb_abs ?t k = None"
    using Cons.prems(2-4) e unfolding t(2) by (auto simp: replace_view_def push_view_def)
  with Cons.IH [OF t(1)] Cons.prems(3) obtain ops t' where "replace_rows x tab upds ?t = Some (ops, t')" "tb_sync t'"
    "list_all2 (\<lambda>((i, p, vals), j) op. \<exists>old. op = UpdateRow tab i j p old) upds ops"
    "tb_abs t' = fold (replace_view x) upds (tb_abs ?t)" by auto
  then show ?case using e pos(1) t(2) by (auto simp: list_all2_Cons1)
qed simp

text \<open>The same changes on the whole map, of which a table's part is a submap.\<close>

lemma mark_view_add: "m i \<noteq> None \<Longrightarrow> mark_view x i (M ++ m) = M ++ mark_view x i m"
  by (auto simp: mark_view_def fun_eq_iff map_add_def split: option.splits)

lemma push_view_add: "push_view x e (M ++ m) = M ++ push_view x e m"
  by (cases e) (simp add: push_view_def)

lemma fold_push_add: "fold (push_view x) ins (M ++ m) = M ++ fold (push_view x) ins m"
  by (induction ins arbitrary: m) (simp_all add: push_view_add)

lemma fold_mark_add:
  "\<forall>i \<in> set (map fst dels). m i \<noteq> None \<Longrightarrow>
     fold (\<lambda>(i, p). mark_view x i) dels (M ++ m) = M ++ fold (\<lambda>(i, p). mark_view x i) dels m"
proof (induction dels arbitrary: m)
  case (Cons e dels)
  obtain i p where e: "e = (i, p)" by (cases e)
  have "\<forall>j \<in> set (map fst dels). mark_view x i m j \<noteq> None" using Cons.prems by simp
  from Cons.IH [OF this] show ?case using Cons.prems e by (simp add: mark_view_add)
qed simp

lemma fold_replace_add:
  "\<forall>u \<in> set upds. m (fst (fst u)) \<noteq> None \<Longrightarrow>
     fold (replace_view x) upds (M ++ m) = M ++ fold (replace_view x) upds m"
proof (induction upds arbitrary: m)
  case (Cons e upds)
  obtain i p vals j where e: "e = ((i, p, vals), j)" by (cases e) auto
  have "replace_view x e (M ++ m) = M ++ replace_view x e m"
    using Cons.prems e by (simp add: replace_view_def push_view_add mark_view_add)
  moreover have "\<forall>u \<in> set upds. replace_view x e m (fst (fst u)) \<noteq> None"
    using Cons.prems e by (auto simp: replace_view_def push_view_def)
  ultimately show ?case using Cons.IH by simp
qed simp

text \<open>The changes extend the log of the transaction that makes them.\<close>

lemma written_push:
  assumes "written owns b ops m" and "x \<in> set owns" and "distinct (map fst ins)" and "\<forall>i \<in> set (map fst ins). m i = None"
  shows "written owns b (ops @ map (\<lambda>(i, vals). InsertRow tab i) ins) (fold (push_view x) ins m)"
  using assms
proof (induction ins arbitrary: ops m)
  case (Cons e ins)
  obtain i vals where e: "e = (i, vals)" by (cases e)
  have "written owns b (ops @ [InsertRow tab i]) (push_view x e m)"
    using written.insert [OF Cons.prems(1), of i "version_plain i vals x" tab] Cons.prems(2,4) e
    by (simp add: push_view_def version_plain_def)
  moreover have "\<forall>j \<in> set (map fst ins). push_view x e m j = None"
    using Cons.prems(3,4) e by (auto simp: push_view_def)
  ultimately show ?case using Cons.IH [of "ops @ [InsertRow tab i]" "push_view x e m"] Cons.prems(2,3) e by simp
qed simp

lemma mark_view_other [simp]: "j \<noteq> i \<Longrightarrow> mark_view x i m j = m j"
  by (simp add: mark_view_def)

lemma written_mark:
  assumes "written owns b ops m" and "x \<in> set owns" and "distinct (map fst dels)"
    and "\<forall>(i, p) \<in> set dels. map_option v_xmax (m i) = Some p"
  shows "written owns b (ops @ map (\<lambda>(i, p). DeleteRow tab i p) dels) (fold (\<lambda>(i, p). mark_view x i) dels m)"
  using assms
proof (induction dels arbitrary: ops m)
  case (Cons e dels)
  obtain i p where e: "e = (i, p)" by (cases e)
  with Cons.prems(4) obtain v where v: "m i = Some v" "v_xmax v = p" by auto
  have "written owns b (ops @ [DeleteRow tab i p]) (mark_view x i m)"
    using written.delete [OF Cons.prems(1) v(1) Cons.prems(2), of tab] v by (simp add: mark_view_def)
  moreover have "\<forall>(j, q) \<in> set dels. map_option v_xmax (mark_view x i m j) = Some q"
  proof
    fix f assume f: "f \<in> set dels"
    obtain j q where jq: "f = (j, q)" by (cases f)
    then have "j \<noteq> i" using f Cons.prems(3) e by force
    then show "case f of (j, q) \<Rightarrow> map_option v_xmax (mark_view x i m j) = Some q"
      using f jq Cons.prems(4) by auto
  qed
  ultimately show ?case using Cons.IH [of "ops @ [DeleteRow tab i p]" "mark_view x i m"] Cons.prems(2,3) e by simp
qed simp

lemma replace_view_other:
  "j \<noteq> fst (fst u) \<Longrightarrow> j \<noteq> snd u \<Longrightarrow> replace_view x u m j = m j"
  by (cases u) (auto simp: replace_view_def push_view_def)

lemma written_replace:
  assumes "written owns b ops m" and "x \<in> set owns" and "distinct (map (fst \<circ> fst) upds)" and "distinct (map snd upds)"
    and "\<forall>((i, p, vals), j) \<in> set upds. map_option v_xmax (m i) = Some p" and "\<forall>j \<in> set (map snd upds). m j = None"
    and "list_all2 (\<lambda>((i, p, vals), j) op. \<exists>old. op = UpdateRow tab i j p old) upds news"
  shows "written owns b (ops @ news) (fold (replace_view x) upds m)"
  using assms
proof (induction upds arbitrary: ops m news)
  case (Cons u upds)
  obtain i p vals j where u: "u = ((i, p, vals), j)" by (cases u) auto
  from Cons.prems(7) u obtain old news' where news: "news = UpdateRow tab i j p old # news'"
    "list_all2 (\<lambda>((i, p, vals), j) op. \<exists>old. op = UpdateRow tab i j p old) upds news'"
    by (auto simp: list_all2_Cons1)
  from Cons.prems(5) u obtain v where v: "m i = Some v" "v_xmax v = p" by auto
  have none: "m j = None" using Cons.prems(6) u by simp
  have step: "written owns b (ops @ [UpdateRow tab i j p old]) (replace_view x u m)"
    using written.update [OF Cons.prems(1) v(1) none Cons.prems(2), of "version_plain j vals x" tab old] v u Cons.prems(2)
    by (simp add: replace_view_def push_view_def mark_view_def version_plain_def)
  have marked: "\<forall>((i, p, vals), j) \<in> set upds. map_option v_xmax (replace_view x u m i) = Some p"
  proof
    fix w assume w: "w \<in> set upds"
    obtain i' p' vals' j' where w': "w = ((i', p', vals'), j')" by (cases w) auto
    have m: "map_option v_xmax (m i') = Some p'" using Cons.prems(5) w w' by auto
    have "i' \<noteq> i" using Cons.prems(3) u w w' by force
    moreover have "i' \<noteq> j" using m none by auto
    ultimately have "replace_view x u m i' = m i'" using u by (simp add: replace_view_other)
    then show "(\<lambda>((i, p, vals), j). map_option v_xmax (replace_view x u m i) = Some p) w"
      using m w' by simp
  qed
  have "\<forall>k \<in> set (map snd upds). replace_view x u m k = None"
  proof
    fix k assume k: "k \<in> set (map snd upds)"
    then have "m k = None" using Cons.prems(6) by auto
    moreover have "k \<noteq> i" using \<open>m k = None\<close> v by auto
    moreover have "k \<noteq> j" using Cons.prems(4) u k by auto
    ultimately show "replace_view x u m k = None" using u by (simp add: replace_view_other)
  qed
  with Cons.IH [OF step] marked Cons.prems(2-4) news show ?case by simp
qed simp

text \<open>A table's part of the map, and the map after the table was replaced.\<close>

lemma table_part:
  assumes "db_rows_ok db" and "t \<in> set (all_tables db)"
  shows "tb_sync t" and "find_row_version db ++ tb_abs t = find_row_version db"
proof -
  have ok: "tables_ok (all_tables db)" using assms(1) by (simp add: db_rows_ok_def)
  obtain as bs where ts: "all_tables db = as @ t # bs" using assms(2) by (meson split_list)
  then show sync: "tb_sync t" using ok by (simp add: tables_ok_append)
  have "find_row_version db i = Some v" if "tb_abs t i = Some v" for i v
  proof -
    have "v \<in> set (t_rows t)" "v_id v = i" using tb_abs_Some [OF sync] that by auto
    then show ?thesis using view_in_Some [OF ok, of i v] assms(2) by (auto simp: find_row_version_view)
  qed
  then show "find_row_version db ++ tb_abs t = find_row_version db"
    by (auto simp: fun_eq_iff map_add_def split: option.split)
qed

lemma find_table_mut_in:
  assumes "find_table_mut db name snap owns session = Some t"
  shows "t \<in> set (all_tables db)"
proof (cases "temp_table db session name")
  case (Some u)
  then obtain tmps where "map_of (db_temp_tables db) session = Some tmps" "map_of tmps name = Some t"
    using assms by (auto simp: temp_table_def find_table_mut_def bind_eq_Some_conv)
  then have "tmps \<in> snd ` set (db_temp_tables db)" "t \<in> snd ` set tmps" by (force dest: map_of_SomeD)+
  then show ?thesis by (auto simp: all_tables_def temp_tables_def)
next
  case None
  then obtain vs where vs: "map_of (db_tables db) (table_key db name) = Some vs"
    "find (\<lambda>t. table_visible t snap owns) vs = Some t"
    using assms by (auto simp: find_table_mut_def bind_eq_Some_conv)
  then have "vs \<in> snd ` set (db_tables db)" "t \<in> set vs"
    by (force dest: map_of_SomeD) (metis vs(2) find_Some_iff nth_mem)
  then show ?thesis by (auto simp: all_tables_def perm_tables_def)
qed

lemma with_table_view:
  assumes "db_rows_ok db" and "find_table_mut db name (cx_snap ctx) (cx_all_xids ctx) (cx_session ctx) = Some t"
    and "f t = Some (a, t')" and "tb_sync t'" and "\<forall>i. tb_abs t i \<noteq> None \<longrightarrow> tb_abs t' i \<noteq> None"
    and "\<forall>i. tb_abs t' i \<noteq> None \<longrightarrow> tb_abs t i = None \<longrightarrow> find_row_version db i = None"
  shows "\<exists>db'. with_table ctx name f db = Some (a, db') \<and> db_rows_ok db' \<and> db_indexes db' = db_indexes db \<and>
    find_row_version db' = find_row_version db ++ tb_abs t'"
proof -
  let ?upd = "update_table db name (cx_snap ctx) (cx_all_xids ctx) (cx_session ctx) (\<lambda>_. t')"
  have part: "tb_sync t" "t \<in> set (all_tables db)"
    using table_part(1) [OF assms(1)] find_table_mut_in [OF assms(2)] by blast+
  have "?upd \<noteq> None"
  proof (cases "temp_table db (cx_session ctx) name")
    case None
    with assms(2) obtain vs where vs: "map_of (db_tables db) (table_key db name) = Some vs"
      "find (\<lambda>t. table_visible t (cx_snap ctx) (cx_all_xids ctx)) vs = Some t"
      by (auto simp: find_table_mut_def bind_eq_Some_conv)
    moreover have "upd_first (\<lambda>t. if P t then Some t' else None) us \<noteq> None" if "find P us = Some t" for P us
      using that by (induction us) auto
    ultimately show ?thesis using None by (auto simp: update_table_def Let_def split: option.split)
  qed (simp add: update_table_def)
  then obtain db' where db': "?upd = Some db'" by blast
  have run: "with_table ctx name f db = Some (a, db')" using assms(2,3) db' by (simp add: with_table_def)
  have rep: "table_replaced db t t' db'" by (rule update_table_replaced [OF assms(2) db'])
  have "v_id ` set (t_rows t') \<subseteq> v_id ` set (t_rows t) \<union> {i. find_row_version db i = None}"
  proof
    fix i assume "i \<in> v_id ` set (t_rows t')"
    then have "tb_abs t' i \<noteq> None" using tb_abs_None [OF assms(4)] by blast
    then show "i \<in> v_id ` set (t_rows t) \<union> {i. find_row_version db i = None}"
      using assms(6) tb_abs_None [OF part(1), of i] by blast
  qed
  moreover have "tb_abs t' i = None \<or> find_row_version db i = None" if "tb_abs t i = None" for i
    using assms(6) that by metis
  ultimately have v: "db_rows_ok db' \<and>
    find_row_version db' = (\<lambda>i. case tb_abs t' i of Some v \<Rightarrow> Some v | None \<Rightarrow> find_row_version db i)"
    using view_replaced [OF rep assms(1,4)] assms(5) by blast
  moreover have "(\<lambda>i. case tb_abs t' i of Some v \<Rightarrow> Some v | None \<Rightarrow> find_row_version db i) = find_row_version db ++ tb_abs t'"
    by (simp add: fun_eq_iff map_add_def split: option.split)
  moreover have "db_indexes db' = db_indexes db" using rep by (simp add: table_replaced_def)
  ultimately show ?thesis using run by auto
qed

text \<open>The index entries of the new rows, which leave the row store alone.\<close>

lemma index_insert_frame:
  assumes "row_fits ks db tab vals"
  shows "\<exists>ixs. index_insert_row env tab i vals session db = Some (db\<lparr>db_indexes := ixs\<rparr>) \<and>
    index_defs (db\<lparr>db_indexes := ixs\<rparr>) = index_defs db"
proof (cases "is_temp_table db session tab")
  case True
  then show ?thesis by (intro exI [of _ "db_indexes db"]) (simp add: index_insert_row_def)
next
  case False
  let ?f = "\<lambda>key ix. index_insert env ix key i"
  have modify: "map (apsnd ix_def) (hm_modify n (?f key) m) = map (apsnd ix_def) m" for n key m
    by (induction m) (auto simp: index_insert_def)
  have frame: "apply_targets ?f vals ts ixs = Some ixs' \<Longrightarrow> map (apsnd ix_def) ixs' = map (apsnd ix_def) ixs" for ts ixs ixs'
    by (induction ts arbitrary: ixs) (auto simp: modify split: option.splits)
  have "cols_key cols vals \<noteq> None" if "(m, cols) \<in> set (index_targets tab (\<lambda>_. True) db)" for m cols
    using that assms by (fastforce simp: index_targets_def row_fits_def index_defs_def)
  then obtain ixs where ixs: "apply_targets ?f vals (index_targets tab (\<lambda>_. True) db) (db_indexes db) = Some ixs"
    using apply_targets_None [of ?f vals] by (metis option.exhaust prod.collapse)
  then show ?thesis using False frame [OF ixs] by (intro exI [of _ ixs]) (simp add: index_insert_row_def index_defs_def)
qed

lemma index_rows_frame:
  "(\<forall>e \<in> set ins. row_fits ks db tab (snd e)) \<Longrightarrow>
     \<exists>ixs. index_rows_of env tab session ins db = Some (db\<lparr>db_indexes := ixs\<rparr>)"
proof (induction ins arbitrary: db)
  case Nil
  show ?case by (intro exI [of _ "db_indexes db"]) simp
next
  case (Cons e ins)
  obtain i vals where e: "e = (i, vals)" by (cases e)
  from Cons.prems e obtain ixs where ixs: "index_insert_row env tab i vals session db = Some (db\<lparr>db_indexes := ixs\<rparr>)"
    "index_defs (db\<lparr>db_indexes := ixs\<rparr>) = index_defs db"
    using index_insert_frame [of ks db tab vals env i session] by auto
  have "\<forall>e \<in> set ins. row_fits ks (db\<lparr>db_indexes := ixs\<rparr>) tab (snd e)"
    using Cons.prems row_fits_cong [OF ixs(2)] by simp
  from Cons.IH [OF this] obtain ixs' where
    "index_rows_of env tab session ins (db\<lparr>db_indexes := ixs\<rparr>) = Some (db\<lparr>db_indexes := ixs\<rparr>\<lparr>db_indexes := ixs'\<rparr>)" by blast
  then show ?case using ixs(1) e by (intro exI [of _ ixs']) simp
qed

lemma alloc_row_ids_upt:
  "alloc_row_ids xs tm = ([tm_next_row_id tm..<tm_next_row_id tm + length xs],
     tm\<lparr>tm_next_row_id := tm_next_row_id tm + length xs\<rparr>)"
  by (induction xs arbitrary: tm) (simp_all add: alloc_row_id_def upt_rec)

lemma fold_push_dom: "fold (push_view x) ins m i \<noteq> None \<longleftrightarrow> i \<in> set (map fst ins) \<or> m i \<noteq> None"
proof (induction ins arbitrary: m)
  case (Cons e ins)
  show ?case unfolding fold_Cons comp_apply Cons.IH by (cases e) (auto simp: push_view_def)
qed simp

lemma fold_mark_dom: "fold (\<lambda>(i, p). mark_view x i) dels m i \<noteq> None \<longleftrightarrow> m i \<noteq> None"
proof (induction dels arbitrary: m)
  case (Cons e dels)
  show ?case unfolding fold_Cons comp_apply Cons.IH by (cases e) (simp only: split_conv mark_view_dom(1))
qed simp

lemma fold_replace_dom: "fold (replace_view x) upds m i \<noteq> None \<longleftrightarrow> i \<in> set (map snd upds) \<or> m i \<noteq> None"
proof (induction upds arbitrary: m)
  case (Cons u upds)
  obtain i p vals j where u: "u = ((i, p, vals), j)" by (cases u) auto
  show ?case
    unfolding fold_Cons comp_apply Cons.IH by (simp add: u replace_view_def push_view_def)
qed simp

text \<open>The planned changes of a statement: fresh ids for new rows, the deleters as they stand for old ones.\<close>

definition fresh_ids :: "database \<Rightarrow> nat list \<Rightarrow> bool" where
  "fresh_ids db is \<longleftrightarrow> distinct is \<and> (\<forall>i \<in> set is. find_row_version db i = None)"

definition planned_on :: "table \<Rightarrow> (nat \<times> nat) list \<Rightarrow> bool" where
  "planned_on t plan \<longleftrightarrow> distinct (map fst plan) \<and> (\<forall>(i, p) \<in> set plan. map_option v_xmax (tb_abs t i) = Some p)"

lemma planned_view:
  assumes "db_rows_ok db" and "t \<in> set (all_tables db)" and "planned_on t plan"
  shows "\<forall>i \<in> set (map fst plan). tb_abs t i \<noteq> None"
    and "\<forall>(i, p) \<in> set plan. map_option v_xmax (find_row_version db i) = Some p"
proof -
  have "find_row_version db i = Some v" if "tb_abs t i = Some v" for i v
    using fun_cong [OF table_part(2) [OF assms(1,2)], of i] that by (simp add: map_add_def)
  then show "\<forall>i \<in> set (map fst plan). tb_abs t i \<noteq> None"
    "\<forall>(i, p) \<in> set plan. map_option v_xmax (find_row_version db i) = Some p"
    using assms(3) by (fastforce simp: planned_on_def)+
qed

lemma inserts_written:
  assumes "db_rows_ok db" and "find_table_mut db tab (cx_snap ctx) (cx_all_xids ctx) (cx_session ctx) = Some t"
    and "fresh_ids db (map fst ins)" and "\<forall>e \<in> set ins. row_fits ks db tab (snd e)"
    and "written owns b ops (find_row_version db)" and "cx_write_xid ctx \<in> set owns"
  shows "\<exists>news db'. apply_row_inserts env ctx tab ins db = Some (news, db') \<and> db_rows_ok db' \<and>
    written owns b (ops @ news) (find_row_version db') \<and> list_all row_op news"
proof -
  let ?x = "cx_write_xid ctx" and ?m = "find_row_version db"
  have t: "t \<in> set (all_tables db)" by (rule find_table_mut_in [OF assms(2)])
  note part = table_part [OF assms(1) t]
  have fresh: "\<forall>i \<in> set (map fst ins). tb_abs t i = None"
    using assms(3) fun_cong [OF part(2)] unfolding fresh_ids_def by (metis map_add_None)
  from push_rows_spec [OF part(1) _ fresh, of ?x tab] assms(3) obtain t' where t':
    "push_rows ?x tab ins t = Some (map (\<lambda>(i, vals). InsertRow tab i) ins, t')" "tb_sync t'"
    "tb_abs t' = fold (push_view ?x) ins (tb_abs t)" by (auto simp: fresh_ids_def)
  have "\<forall>i. tb_abs t i \<noteq> None \<longrightarrow> tb_abs t' i \<noteq> None"
    "\<forall>i. tb_abs t' i \<noteq> None \<longrightarrow> tb_abs t i = None \<longrightarrow> find_row_version db i = None"
    unfolding t'(3) fold_push_dom using assms(3) by (auto simp: fresh_ids_def)
  from with_table_view [where f = "push_rows ?x tab ins", OF assms(1,2) t'(1,2) this] obtain db1 where db1:
    "with_table ctx tab (push_rows ?x tab ins) db = Some (map (\<lambda>(i, vals). InsertRow tab i) ins, db1)"
    "db_rows_ok db1" "db_indexes db1 = db_indexes db" "find_row_version db1 = ?m ++ tb_abs t'" by blast
  have "find_row_version db1 = fold (push_view ?x) ins ?m"
    unfolding db1(4) t'(3) fold_push_add [symmetric] part(2) ..
  moreover have "\<forall>e \<in> set ins. row_fits ks db1 tab (snd e)"
    using assms(4) row_fits_cong [of db1 db] db1(3) by (simp add: index_defs_def)
  then obtain ixs where "index_rows_of env tab (cx_session ctx) ins db1 = Some (db1\<lparr>db_indexes := ixs\<rparr>)"
    using index_rows_frame by blast
  moreover have "list_all row_op (map (\<lambda>(i, vals). InsertRow tab i) ins)" by (auto simp: list_all_iff)
  ultimately show ?thesis
    using db1 written_push [OF assms(5,6), of ins tab] assms(3) by (simp add: apply_row_inserts_def fresh_ids_def)
qed

lemma deletes_written:
  assumes "db_rows_ok db" and "find_table_mut db tab (cx_snap ctx) (cx_all_xids ctx) (cx_session ctx) = Some t"
    and "planned_on t dels" and "written owns b ops (find_row_version db)" and "cx_write_xid ctx \<in> set owns"
  shows "\<exists>news db'. apply_row_deletes ctx tab dels db = Some (news, db') \<and> db_rows_ok db' \<and>
    written owns b (ops @ news) (find_row_version db') \<and> list_all row_op news"
proof -
  let ?x = "cx_write_xid ctx" and ?m = "find_row_version db" and ?mark = "\<lambda>(i, p). mark_view (cx_write_xid ctx) i"
  have t: "t \<in> set (all_tables db)" by (rule find_table_mut_in [OF assms(2)])
  note part = table_part [OF assms(1) t] and plan = planned_view [OF assms(1) t assms(3)]
  from mark_rows_spec [OF part(1) plan(1), of ?x tab] obtain t' where t':
    "mark_rows ?x tab dels t = Some (map (\<lambda>(i, p). DeleteRow tab i p) dels, t')" "tb_sync t'"
    "tb_abs t' = fold ?mark dels (tb_abs t)" by blast
  have "\<forall>i. tb_abs t i \<noteq> None \<longrightarrow> tb_abs t' i \<noteq> None"
    "\<forall>i. tb_abs t' i \<noteq> None \<longrightarrow> tb_abs t i = None \<longrightarrow> find_row_version db i = None"
    unfolding t'(3) fold_mark_dom by auto
  from with_table_view [where f = "mark_rows ?x tab dels", OF assms(1,2) t'(1,2) this] obtain db1 where db1:
    "with_table ctx tab (mark_rows ?x tab dels) db = Some (map (\<lambda>(i, p). DeleteRow tab i p) dels, db1)"
    "db_rows_ok db1" "find_row_version db1 = ?m ++ tb_abs t'" by blast
  have "find_row_version db1 = fold ?mark dels ?m"
    unfolding db1(3) t'(3) fold_mark_add [OF plan(1), symmetric] part(2) ..
  moreover have "list_all row_op (map (\<lambda>(i, p). DeleteRow tab i p) dels)" by (auto simp: list_all_iff)
  ultimately show ?thesis
    using db1 written_mark [OF assms(4,5) _ plan(2), of tab] assms(3) by (simp add: apply_row_deletes_def planned_on_def)
qed

lemma updates_written:
  assumes "db_rows_ok (en_db eng)"
    and "find_table_mut (en_db eng) tab (cx_snap ctx) (cx_all_xids ctx) (cx_session ctx) = Some t"
    and "planned_on t (map (\<lambda>(i, p, vals). (i, p)) upds)" and "\<forall>(i, p, vals) \<in> set upds. row_fits ks (en_db eng) tab vals"
    and "\<forall>i \<ge> tm_next_row_id (en_txns eng). find_row_version (en_db eng) i = None"
    and "written owns b ops (find_row_version (en_db eng))" and "cx_write_xid ctx \<in> set owns"
  shows "\<exists>news eng'. apply_row_updates env ctx tab upds eng = Some (news, eng') \<and> db_rows_ok (en_db eng') \<and>
    written owns b (ops @ news) (find_row_version (en_db eng')) \<and> list_all row_op news"
proof -
  let ?db = "en_db eng"
  let ?x = "cx_write_xid ctx" and ?m = "find_row_version ?db" and ?n = "tm_next_row_id (en_txns eng)"
  define ups where "ups = zip upds [?n..<?n + length upds]"
  have ups: "map fst ups = upds" "map snd ups = [?n..<?n + length upds]" by (simp_all add: ups_def)
  have old: "map (fst \<circ> fst) ups = map fst (map (\<lambda>(i, p, vals). (i, p)) upds)"
    unfolding ups(1) [symmetric] by (auto simp: comp_def split: prod.split)
  have t: "t \<in> set (all_tables ?db)" by (rule find_table_mut_in [OF assms(2)])
  note part = table_part [OF assms(1) t] and plan = planned_view [OF assms(1) t assms(3)]
  have ids: "\<forall>j \<in> set (map snd ups). ?m j = None" using assms(5) unfolding ups by simp
  then have free: "\<forall>j \<in> set (map snd ups). tb_abs t j = None"
    using fun_cong [OF part(2)] by (metis map_add_None)
  have there: "\<forall>u \<in> set ups. tb_abs t (fst (fst u)) \<noteq> None"
  proof
    fix u assume "u \<in> set ups"
    then have "fst (fst u) \<in> set (map (fst \<circ> fst) ups)" by simp
    then show "tb_abs t (fst (fst u)) \<noteq> None" using plan(1) unfolding old by blast
  qed
  from replace_rows_spec [OF part(1) there _ free, of ?x tab] obtain news t' where t':
    "replace_rows ?x tab ups t = Some (news, t')" "tb_sync t'"
    "list_all2 (\<lambda>((i, p, vals), j) op. \<exists>old. op = UpdateRow tab i j p old) ups news"
    "tb_abs t' = fold (replace_view ?x) ups (tb_abs t)" by (auto simp: ups)
  have "\<forall>i. tb_abs t i \<noteq> None \<longrightarrow> tb_abs t' i \<noteq> None"
    "\<forall>i. tb_abs t' i \<noteq> None \<longrightarrow> tb_abs t i = None \<longrightarrow> ?m i = None"
    unfolding t'(4) fold_replace_dom using ids by blast+
  from with_table_view [where f = "replace_rows ?x tab ups", OF assms(1,2) t'(1,2) this] obtain db1 where db1:
    "with_table ctx tab (replace_rows ?x tab ups) ?db = Some (news, db1)"
    "db_rows_ok db1" "db_indexes db1 = db_indexes ?db" "find_row_version db1 = ?m ++ tb_abs t'" by blast
  have view: "find_row_version db1 = fold (replace_view ?x) ups ?m"
    unfolding db1(4) t'(4) fold_replace_add [OF there, symmetric] part(2) ..
  have marked: "\<forall>((i, p, vals), j) \<in> set ups. map_option v_xmax (?m i) = Some p"
  proof
    fix u assume u: "u \<in> set ups"
    obtain i p vals j where e: "u = ((i, p, vals), j)" by (cases u) auto
    then have "(i, p, vals) \<in> set upds" using u unfolding ups(1) [symmetric] by force
    then show "(\<lambda>((i, p, vals), j). map_option v_xmax (?m i) = Some p) u" using plan(2) e by force
  qed
  have w: "written owns b (ops @ news) (find_row_version db1)"
    unfolding view
    by (rule written_replace [OF assms(6,7) _ _ marked ids t'(3)]) (use assms(3) in \<open>simp_all add: old ups planned_on_def\<close>)
  let ?new = "map (\<lambda>((_, _, vals), i). (i, vals)) ups"
  have "\<forall>e \<in> set ?new. row_fits ks db1 tab (snd e)"
  proof
    fix e assume "e \<in> set ?new"
    then obtain i p vals j where "((i, p, vals), j) \<in> set ups" "e = (j, vals)" by auto
    then have "(i, p, vals) \<in> set upds" "e = (j, vals)" unfolding ups(1) [symmetric] by force+
    then show "row_fits ks db1 tab (snd e)"
      using assms(4) row_fits_cong [of db1 ?db] db1(3) by (auto simp: index_defs_def)
  qed
  then obtain ixs where "index_rows_of env tab (cx_session ctx) ?new db1 = Some (db1\<lparr>db_indexes := ixs\<rparr>)"
    using index_rows_frame by blast
  moreover have "list_all row_op news"
    using t'(3) by (induction rule: list_all2_induct) auto
  ultimately show ?thesis
    using db1(1,2) w by (simp add: apply_row_updates_def alloc_row_ids_upt ups_def)
qed

section \<open>Property\<close>

text \<open>What a statement must give: no panic, a consistent row store and a log that says what it did.\<close>

definition logs_writes ::
  "nat list \<Rightarrow> (nat \<rightharpoonup> row_version) \<Rightarrow> write_op list \<Rightarrow> (write_op list \<times> database) option \<Rightarrow> bool" where
  "logs_writes owns b ops r \<longleftrightarrow> (case r of
     None \<Rightarrow> False
   | Some (news, db) \<Rightarrow> db_rows_ok db \<and> list_all row_op news \<and> written owns b (ops @ news) (find_row_version db))"

text \<open>
  C6. The apply loops of INSERT, DELETE and UPDATE do not panic on rows that were planned on
  the table as it stands, keep the row store consistent, and append to the log exactly the
  entries whose undo restores the versions the transaction has not written: the log stays in
  the relation on which an abort relies.
\<close>

theorem statements_log_their_writes:
  assumes "db_rows_ok (en_db eng)" and "written owns b ops (find_row_version (en_db eng))"
    and "cx_write_xid ctx \<in> set owns"
    and "find_table_mut (en_db eng) tab (cx_snap ctx) (cx_all_xids ctx) (cx_session ctx) = Some t"
    and "fresh_ids (en_db eng) (map fst ins)" and "\<forall>e \<in> set ins. row_fits ks (en_db eng) tab (snd e)"
    and "planned_on t dels"
    and "planned_on t (map (\<lambda>(i, p, vals). (i, p)) upds)" and "\<forall>(i, p, vals) \<in> set upds. row_fits ks (en_db eng) tab vals"
    and "\<forall>i \<ge> tm_next_row_id (en_txns eng). find_row_version (en_db eng) i = None"
  shows "logs_writes owns b ops (apply_row_inserts env ctx tab ins (en_db eng)) \<and>
    logs_writes owns b ops (apply_row_deletes ctx tab dels (en_db eng)) \<and>
    logs_writes owns b ops (map_option (apsnd en_db) (apply_row_updates env ctx tab upds eng))"
proof -
  from inserts_written [OF assms(1,4-6,2,3), of env]
  have "logs_writes owns b ops (apply_row_inserts env ctx tab ins (en_db eng))" by (auto simp: logs_writes_def)
  moreover from deletes_written [OF assms(1,4,7,2,3)]
  have "logs_writes owns b ops (apply_row_deletes ctx tab dels (en_db eng))" by (auto simp: logs_writes_def)
  moreover from updates_written [OF assms(1,4,8,9,10,2,3), of env]
  have "logs_writes owns b ops (map_option (apsnd en_db) (apply_row_updates env ctx tab upds eng))"
    by (auto simp: logs_writes_def)
  ultimately show ?thesis by blast
qed

definition demo_ctx :: stmt_ctx where
  "demo_ctx = \<lparr>cx_snap = demo_snap, cx_own = 7, cx_write_xid = 7, cx_all_xids = [7],
     cx_level = ReadCommitted, cx_session = 3, cx_role = ''postgres''\<rparr>"

definition demo_start :: engine where
  "demo_start = demo_deleted\<lparr>en_db := demo_db, en_txns := demo_idle_tm\<lparr>tm_next_row_id := 6\<rparr>\<rparr>"

theorem statements_log_their_writes_witness:
  "logs_writes [7] [5 \<mapsto> demo_row] [] (apply_row_inserts demo_env demo_ctx ''t'' [(6, [VSmallInt 4])] (en_db demo_start)) \<and>
   logs_writes [7] [5 \<mapsto> demo_row] [] (apply_row_deletes demo_ctx ''t'' [(5, 0)] (en_db demo_start)) \<and>
   logs_writes [7] [5 \<mapsto> demo_row] []
     (map_option (apsnd en_db) (apply_row_updates demo_env demo_ctx ''t'' [(5, 0, [VSmallInt 8])] demo_start))"
proof -
  have db: "en_db demo_start = demo_db" "tm_next_row_id (en_txns demo_start) = 6" by (simp_all add: demo_start_def)
  have tabs: "all_tables demo_db = [demo_table]"
    by (simp add: all_tables_def perm_tables_def temp_tables_def demo_db_def)
  have ok: "db_rows_ok demo_db"
    unfolding db_rows_ok_def tabs by (simp add: demo_sync) (simp add: demo_db_def)
  have part: "tb_abs demo_table i = (if i = 5 then Some demo_row else None)" for i
    using tb_abs_Some [OF demo_sync, of i demo_row] tb_abs_None [OF demo_sync, of i]
    by (cases "i = 5") (simp_all add: demo_rows, simp_all add: demo_row_def version_plain_def)
  then have view: "find_row_version demo_db = [5 \<mapsto> demo_row]"
    by (simp add: fun_eq_iff find_row_version_view tabs)
  have start: "written [7] [5 \<mapsto> demo_row] [] (find_row_version demo_db)" unfolding view by (rule written.start)
  have found: "find_table_mut demo_db ''t'' (cx_snap demo_ctx) (cx_all_xids demo_ctx) (cx_session demo_ctx) = Some demo_table"
    by (simp add: find_table_mut_def temp_table_def demo_db_def demo_ctx_def table_key_def)
      (simp add: demo_snap_def table_visible_def demo_table_def push_version_def table_new_def)
  have fits: "row_fits (\<lambda>_. [KExact]) demo_db ''t'' [VSmallInt x]" for x
    by (rule row_fitsI) (simp add: demo_ixs demo_key_for)
  have v: "v_xmax demo_row = 0" by (simp add: demo_row_def version_plain_def)
  show ?thesis
    using statements_log_their_writes [of demo_start "[7]" "[5 \<mapsto> demo_row]" "[]" demo_ctx "''t''" demo_table
        "[(6, [VSmallInt 4])]" "\<lambda>_. [KExact]" "[(5, 0)]" "[(5, 0, [VSmallInt 8])]" demo_env]
      ok start found fits
    by (simp add: db fresh_ids_def planned_on_def part v view) (simp add: demo_ctx_def)
qed

end
