(* ===== verification/Departures.thy ===== *)
theory Departures
  imports Dml
begin

text \<open>
  Executions of the model in which the code departs from what a rollback, a unique index or a
  sequence is meant to do. Each theorem evaluates a short history on concrete data.
\<close>

section \<open>Histories\<close>

definition ctx_of :: "nat \<Rightarrow> stmt_ctx" where
  "ctx_of x = \<lparr>cx_snap = \<lparr>sn_active = [x], sn_next_xid = Suc x\<rparr>, cx_own = x, cx_write_xid = x, cx_all_xids = [x],
     cx_level = ReadCommitted, cx_session = 3, cx_role = ''postgres''\<rparr>"

definition undo_ops :: "nat list \<Rightarrow> write_op list \<Rightarrow> database \<Rightarrow> database option" where
  "undo_ops owns ops db = fold (\<lambda>op r. Option.bind r (undo_op demo_env owns op)) (rev ops) (Some db)"

definition visible_rows :: "database \<Rightarrow> string \<Rightarrow> snapshot \<Rightarrow> row list option" where
  "visible_rows db name snap =
     map_option (\<lambda>t. map v_values (filter (\<lambda>r. row_visible r snap []) (t_rows t))) (find_table db name snap [] 3)"

definition after :: "nat \<Rightarrow> snapshot" where
  "after x = \<lparr>sn_active = [], sn_next_xid = x\<rparr>"

definition plain_db :: database where
  "plain_db = demo_db\<lparr>db_indexes := []\<rparr>"

text \<open>
  A rolled back \<^verbatim>\<open>ALTER TABLE\<close> that rewrote the rows puts the previous table back beside the
  version it had marked dropped, and both hold the same row ids. The undo of a later
  \<^verbatim>\<open>DELETE\<close> finds the id in the stale version first, so the row stays deleted by a
  transaction that rolled back.
\<close>

definition alter_then_delete :: "database \<Rightarrow> database option" where
  "alter_then_delete db =
     (case alter_swap (ctx_of 7) ''t'' None demo_table (Some [version_plain 6 [VSmallInt 3, VNull] 7]) db of
        Inr (Some (ops, db1)) \<Rightarrow>
          Option.bind (undo_ops [7] ops db1) (\<lambda>db2.
          Option.bind (apply_row_deletes (ctx_of 8) ''t'' [(5, 0)] db2) (\<lambda>(ops', db3).
          undo_ops [8] ops' db3))
      | _ \<Rightarrow> None)"

theorem rolled_back_delete_loses_row:
  "visible_rows plain_db ''t'' (after 9) = Some [[VSmallInt 3]] \<and>
   Option.bind (alter_then_delete plain_db) (\<lambda>db. visible_rows db ''t'' (after 9)) = Some []"
  by code_simp

text \<open>
  Renaming a table over one that the same transaction dropped replaces the stored versions
  of that name, so a rollback cannot bring the dropped table back: the name then shows the
  emptied version of the renamed table.
\<close>

definition two_tables :: database where
  "two_tables = plain_db\<lparr>db_tables := [(''t'', [demo_table]),
     (''b'', [push_version (version_plain 6 [VSmallInt 4] 2) (table_new [(''a'', CtSmallInt)] 0)])]\<rparr>"

definition drop_and_rename :: "database \<Rightarrow> database option" where
  "drop_and_rename db =
     Option.bind (drop_table_version (ctx_of 7) ''b'' db) (\<lambda>(ops, db1).
       (case alter_swap (ctx_of 7) ''t'' (Some ''b'') demo_table None db1 of
          Inr (Some (ops', db2)) \<Rightarrow> undo_ops [7] (ops @ ops') db2
        | _ \<Rightarrow> None))"

theorem rolled_back_rename_loses_table:
  "visible_rows two_tables ''b'' (after 8) = Some [[VSmallInt 4]] \<and>
   Option.bind (drop_and_rename two_tables) (\<lambda>db. visible_rows db ''b'' (after 8)) = Some []"
  by code_simp

text \<open>
  While \<^verbatim>\<open>ALTER TABLE\<close> without a rewrite is not committed, its rows are in the new version only,
  so every other transaction finds the table empty.
\<close>

theorem altering_empties_table:
  "(case alter_swap (ctx_of 7) ''t'' None demo_table None plain_db of
      Inr (Some (ops, db)) \<Rightarrow> visible_rows db ''t'' \<lparr>sn_active = [7], sn_next_xid = 8\<rparr>
    | _ \<Rightarrow> None) = Some []"
  by code_simp

text \<open>
  Two transactions delete the same row and both roll back, the first one first: its undo
  finds the second one's mark and does nothing, and the second one restores the mark of the
  first. The row stays deleted.
\<close>

theorem double_rollback_loses_row:
  "Option.bind (apply_row_deletes (ctx_of 7) ''t'' [(5, 0)] plain_db) (\<lambda>(ops, db1).
   Option.bind (apply_row_deletes (ctx_of 8) ''t'' [(5, 7)] db1) (\<lambda>(ops', db2).
   Option.bind (undo_ops [7] ops db2) (\<lambda>db3.
   Option.bind (undo_ops [8] ops' db3) (\<lambda>db4. visible_rows db4 ''t'' (after 9))))) = Some []"
  by code_simp

text \<open>
  A row inserted by another transaction while an index is marked dropped gets no entry, and
  a rollback of the drop restores the index as it was before: the unique check no longer
  finds the row.
\<close>

theorem restored_index_misses_row:
  "(case drop_one_index (ctx_of 7) ''i'' False demo_db of
      Inl e \<Rightarrow> None
    | Inr (ops, db1) \<Rightarrow>
        Option.bind (apply_row_inserts demo_env (ctx_of 8) ''t'' [(6, [VSmallInt 4])] db1) (\<lambda>(ops', db2).
        Option.bind (undo_ops [7] ops db2) (\<lambda>db3.
          if visible_rows db3 ''t'' (after 9) = Some [[VSmallInt 3], [VSmallInt 4]]
          then unique_violation demo_env db3 ''t'' [VSmallInt 4] None (after 9) [] 3 else None))) = Some None"
  by code_simp

text \<open>
  Advances of a sequence are not to be rolled back, but the rollback of \<^verbatim>\<open>DROP SEQUENCE\<close>
  restores the position it had at the drop: a value drawn in between is drawn again.
\<close>

definition drawn :: "engine \<Rightarrow> nat \<Rightarrow> i64 option \<times> engine" where
  "drawn eng own =
     (case seq_nextval eng \<lparr>sn_active = [7], sn_next_xid = 9\<rparr> own 3 ''postgres'' ''s'' of
        (Inr v, eng') \<Rightarrow> (Some v, eng') | (Inl e, eng') \<Rightarrow> (None, eng'))"

definition draw_during_drop :: "engine \<Rightarrow> (i64 option \<times> i64 option) option" where
  "draw_during_drop eng =
     Option.bind (drop_sequence_version (ctx_of 7) ''s'' (en_db eng)) (\<lambda>(ops, db1).
       let (v, eng1) = drawn (eng\<lparr>en_db := db1\<rparr>) 8
       in map_option (\<lambda>db2. (v, fst (drawn (eng1\<lparr>en_db := db2\<rparr>) 8))) (undo_ops [7] ops (en_db eng1)))"

theorem rolled_back_drop_repeats_value: "draw_during_drop demo_engine = Some (Some 1, Some 1)"
  by code_simp

end
