(* ===== verification/Settings.thy ===== *)
theory Settings
  imports Dml Access
begin

text \<open>
  Sessions and their settings (\<^verbatim>\<open>server.rs\<close>): the records of a session and of its open
  transaction, the stack of setting changes of a transaction, and \<^verbatim>\<open>SET\<close>, \<^verbatim>\<open>SET LOCAL\<close>,
  \<^verbatim>\<open>RESET\<close>, \<^verbatim>\<open>SHOW\<close>, \<^verbatim>\<open>SET ROLE\<close>, \<^verbatim>\<open>SET SESSION AUTHORIZATION\<close> and \<^verbatim>\<open>SET TRANSACTION\<close>. Strings are
  byte lists; the trimming of values removes ASCII white space. The detail field of an error
  is left out. Parsing of a floating point value is an argument, and so is the environment
  variable that replaces the default date style.
\<close>

section \<open>State\<close>

datatype bytea_output = BoHex | BoEscape

datatype saved_guc =
    SgReadOnly "bool option"
  | SgByteaOutput bytea_output
  | SgToast toast_compression
  | SgGeneric "string option"
  | SgSessionAuth string string
  | SgTxnChars "bool option" isolation_level "bool option"
  | SgDefaultTxnLevel "isolation_level option"
  | SgDefaultTxnDeferrable "bool option"
  | SgRole string

record guc_entry =
  ge_name :: string
  ge_is_local :: bool
  ge_saved :: saved_guc

text \<open>The marks of the deferred checks: two queue lengths and the modes of the constraints.\<close>

type_synonym constraint_modes = "((string \<times> string) \<times> bool) list"
type_synonym deferred_mark = "nat \<times> constraint_modes \<times> nat"

record txn =
  tx_xid :: nat
  tx_level :: isolation_level
  tx_read_only :: "bool option"
  tx_deferrable :: "bool option"
  tx_snapshot :: "snapshot option"
  tx_first_snapshot_set :: bool
  tx_writes :: "write_op list"
  tx_savepoints :: "(string \<times> nat \<times> nat) list"
  tx_sub_xids :: "nat list"
  tx_owned_xids :: "nat list"
  tx_cursor_marks :: "string list list"
  tx_failed :: bool
  tx_implicit :: bool
  tx_guc_stack :: "guc_entry list"
  tx_guc_marks :: "nat list"
  tx_char_marks :: "(bool option \<times> isolation_level \<times> bool option) list"
  tx_deferred_marks :: "deferred_mark list"

text \<open>A cursor holds the query it was declared with, which only the executor reads.\<close>

typedecl select_stmt

record sql_cursor =
  cu_query :: "select_stmt option"
  cu_cols :: "(string \<times> col_type) list"
  cu_rows :: "row list"
  cu_pos :: i64
  cu_with_hold :: bool
  cu_dead :: bool

record session =
  se_sid :: nat
  se_role :: string
  se_session_user :: string
  se_auth_user :: string
  se_gucs :: "(string \<times> string) list"
  se_txn :: "txn option"
  se_cursors :: "(string \<times> sql_cursor) list"
  se_default_level :: "isolation_level option"
  se_default_read_only :: "bool option"
  se_default_deferrable :: "bool option"
  se_next_level :: "isolation_level option"
  se_next_read_only :: "bool option"
  se_next_deferrable :: "bool option"
  se_bytea_output :: bytea_output
  se_toast_compression :: toast_compression
  se_pending_notices :: "string list"
  se_pending_warnings :: "string list"

definition session_new :: "nat \<Rightarrow> string \<Rightarrow> session" where
  "session_new sid role =
     \<lparr>se_sid = sid, se_role = role, se_session_user = role, se_auth_user = role, se_gucs = [], se_txn = None,
      se_cursors = [], se_default_level = None, se_default_read_only = None, se_default_deferrable = None,
      se_next_level = None, se_next_read_only = None, se_next_deferrable = None, se_bytea_output = BoHex,
      se_toast_compression = Pglz, se_pending_notices = [], se_pending_warnings = []\<rparr>"

datatype exec_result =
    RSelect "(string \<times> col_type) list" "row list"
  | RExplain "(string \<times> col_type) list" "row list"
  | RCommand string
  | RDml string "(string \<times> col_type) list" "row list"

definition err_25001 :: "string \<Rightarrow> exec_error" where
  "err_25001 msg = ExecErr ''25001'' msg"

section \<open>Names of settings\<close>

definition generic_gucs :: "string list" where
  "generic_gucs =
     [''enable_seqscan'', ''default_statistics_target'', ''lo_compat_privileges'', ''enable_indexscan'',
      ''enable_bitmapscan'', ''enable_indexonlyscan'', ''enable_hashagg'', ''enable_hashjoin'', ''enable_mergejoin'',
      ''enable_nestloop'', ''enable_sort'', ''enable_memoize'', ''enable_partitionwise_join'', ''geqo'',
      ''extra_float_digits'', ''work_mem'', ''geqo_threshold'', ''join_collapse_limit'', ''from_collapse_limit'',
      ''jit_above_cost'', ''parallel_setup_cost'', ''parallel_tuple_cost'', ''min_parallel_table_scan_size'',
      ''min_parallel_index_scan_size'', ''max_parallel_workers_per_gather'', ''max_parallel_workers'',
      ''max_worker_processes'', ''plan_cache_mode'', ''lc_numeric'', ''standard_conforming_strings'',
      ''client_min_messages'', ''log_min_messages'', ''icu_validation_level'', ''constraint_exclusion'',
      ''debug_parallel_query'', ''intervalstyle'', ''session_replication_role'', ''stats_fetch_consistency'',
      ''password_encryption'', ''datestyle'', ''client_encoding'', ''row_security'', ''check_function_bodies'',
      ''enable_material'', ''enable_partitionwise_aggregate'', ''enable_partition_pruning'',
      ''enable_incremental_sort'', ''vacuum_cost_delay'', ''hash_mem_multiplier'', ''maintenance_work_mem'',
      ''max_parallel_maintenance_workers'', ''max_stack_depth'', ''timezone'', ''search_path'',
      ''default_table_access_method'']"

definition is_generic_guc :: "string \<Rightarrow> bool" where
  "is_generic_guc name \<longleftrightarrow> name \<in> set generic_gucs"

definition is_custom_guc :: "string \<Rightarrow> bool" where
  "is_custom_guc name \<longleftrightarrow> CHR ''.'' \<in> set name"

text \<open>\<^verbatim>\<open>name_to_static\<close> knows the generic names only.\<close>

definition name_to_static :: "string \<Rightarrow> string" where
  "name_to_static name = (if name \<in> set generic_gucs then name else ''unrecognized'')"

definition guc_stack_name :: "string \<Rightarrow> string" where
  "guc_stack_name name = (if is_generic_guc name then name_to_static name else name)"

definition is_alpha :: "char \<Rightarrow> bool" where
  "is_alpha c \<longleftrightarrow> 65 \<le> (of_char c :: nat) \<and> (of_char c :: nat) \<le> 90 \<or> 97 \<le> (of_char c :: nat) \<and> (of_char c :: nat) \<le> 122"

fun split_on :: "char \<Rightarrow> string \<Rightarrow> string list" where
  "split_on d [] = [[]]"
| "split_on d (c # cs) =
     (if c = d then [] # split_on d cs
      else (case split_on d cs of p # ps \<Rightarrow> (c # p) # ps | [] \<Rightarrow> [[c]]))"

definition guc_first_char :: "char \<Rightarrow> bool" where
  "guc_first_char c \<longleftrightarrow> is_alpha c \<or> c = CHR ''_'' \<or> 128 \<le> (of_char c :: nat)"

definition valid_custom_guc_name :: "string \<Rightarrow> bool" where
  "valid_custom_guc_name name \<longleftrightarrow>
     is_custom_guc name \<and>
     list_all (\<lambda>part. case part of [] \<Rightarrow> False
       | c # cs \<Rightarrow> guc_first_char c \<and> list_all (\<lambda>c. guc_first_char c \<or> is_digit c \<or> c = CHR ''$'') cs)
       (split_on (CHR ''.'') name)"

definition is_known_plpgsql_guc :: "string \<Rightarrow> bool" where
  "is_known_plpgsql_guc name \<longleftrightarrow>
     name \<in> {''plpgsql.variable_conflict'', ''plpgsql.print_strict_params'', ''plpgsql.check_asserts'',
             ''plpgsql.extra_warnings'', ''plpgsql.extra_errors''}"

definition starts_with :: "string \<Rightarrow> string \<Rightarrow> bool" where
  "starts_with p s \<longleftrightarrow> take (length p) s = p"

definition custom_guc_recognized :: "session \<Rightarrow> string \<Rightarrow> bool" where
  "custom_guc_recognized s name \<longleftrightarrow>
     valid_custom_guc_name name \<and>
     \<not> (starts_with ''plpgsql.'' name \<and> \<not> is_known_plpgsql_guc name \<and> map_of (se_gucs s) name = None)"

definition custom_guc_set_error :: "string \<Rightarrow> exec_error option" where
  "custom_guc_set_error name =
     (let e = ExecErr ''42602'' (''invalid configuration parameter name \"'' @ name @ [CHR 0x22]) in
      if \<not> valid_custom_guc_name name then Some e
      else if starts_with ''plpgsql.'' name \<and> \<not> is_known_plpgsql_guc name then Some e
      else None)"

section \<open>Values of settings\<close>

definition ascii_lower :: "char \<Rightarrow> char" where
  "ascii_lower c = (if 65 \<le> (of_char c :: nat) \<and> (of_char c :: nat) \<le> 90 then char_of ((of_char c :: nat) + 32) else c)"

definition ascii_upper :: "char \<Rightarrow> char" where
  "ascii_upper c = (if 97 \<le> (of_char c :: nat) \<and> (of_char c :: nat) \<le> 122 then char_of ((of_char c :: nat) - 32) else c)"

definition lower :: "string \<Rightarrow> string" where
  "lower s = map ascii_lower s"

definition is_space :: "char \<Rightarrow> bool" where
  "is_space c \<longleftrightarrow> of_char c \<in> {9, 10, 11, 12, 13, 32 :: nat}"

definition trim :: "string \<Rightarrow> string" where
  "trim s = rev (dropWhile is_space (rev (dropWhile is_space s)))"

definition parse_bool_guc :: "string \<Rightarrow> bool option" where
  "parse_bool_guc s =
     (let t = lower (trim s) in
      if t = ''1'' then Some True else if t = ''0'' then Some False
      else if t = [] then None
      else map_option snd (find (\<lambda>(word, val). starts_with t word)
        [(''true'', True), (''false'', False), (''yes'', True), (''no'', False), (''on'', True), (''off'', False)]))"

definition parse_isolation_guc :: "string \<Rightarrow> isolation_level option" where
  "parse_isolation_guc s =
     (let t = lower (trim s) in
      if t = ''serializable'' then Some Serializable
      else if t = ''repeatable read'' then Some RepeatableRead
      else if t = ''read committed'' \<or> t = ''read uncommitted'' then Some ReadCommitted
      else None)"

text \<open>\<^verbatim>\<open>str::parse::<i64>\<close>: an optional sign and at least one digit, checked against the range.\<close>

definition digits_value :: "string \<Rightarrow> nat" where
  "digits_value s = foldl (\<lambda>n c. n * 10 + ((of_char c :: nat) - 48)) 0 s"

definition parse_i64 :: "string \<Rightarrow> int option" where
  "parse_i64 s =
     (let (neg, ds) = (case s of c # cs \<Rightarrow> if c = CHR ''-'' then (True, cs) else if c = CHR ''+'' then (False, cs) else (False, s)
                       | [] \<Rightarrow> (False, []));
          n = (if neg then - int (digits_value ds) else int (digits_value ds))
      in if ds = [] \<or> \<not> list_all is_digit ds then None
         else if n < - (2 ^ 63) \<or> 2 ^ 63 \<le> n then None else Some n)"

definition strip_suffix :: "char \<Rightarrow> char \<Rightarrow> string \<Rightarrow> string option" where
  "strip_suffix a b s = (case rev s of c # cs \<Rightarrow> if c = a \<or> c = b then Some (rev cs) else None | [] \<Rightarrow> None)"

definition parse_memory_kb :: "string \<Rightarrow> int option" where
  "parse_memory_kb s =
     (let t0 = trim s;
          t = (case strip_suffix (CHR ''B'') (CHR ''b'') t0 of Some n \<Rightarrow> n | None \<Rightarrow> t0);
          (num, mult) =
            (case strip_suffix (CHR ''k'') (CHR ''K'') t of Some n \<Rightarrow> (n, 1)
             | None \<Rightarrow> (case strip_suffix (CHR ''m'') (CHR ''M'') t of Some n \<Rightarrow> (n, 1024)
             | None \<Rightarrow> (case strip_suffix (CHR ''g'') (CHR ''G'') t of Some n \<Rightarrow> (n, 1024 * 1024)
             | None \<Rightarrow> (t, 1))))
      in Option.bind (parse_i64 (trim num)) (\<lambda>n.
           if n * mult < - (2 ^ 63) \<or> 2 ^ 63 \<le> n * mult then None else Some (n * mult)))"

definition int_text :: "int \<Rightarrow> string" where
  "int_text n = (if n < 0 then CHR ''-'' # dec_string (nat (- n)) else dec_string (nat n))"

definition invalid_value :: "string \<Rightarrow> string \<Rightarrow> exec_error" where
  "invalid_value name v =
     ExecErr ''22023'' (''invalid value for parameter \"'' @ name @ ''\": \"'' @ v @ [CHR 0x22])"

definition validate_enum_guc :: "string \<Rightarrow> string \<Rightarrow> (string \<times> string) list \<Rightarrow> exec_error + string" where
  "validate_enum_guc name v options =
     (case find (\<lambda>(spell, canon). lower (trim v) = spell) options of
        Some (spell, canon) \<Rightarrow> Inr canon | None \<Rightarrow> Inl (invalid_value name v))"

fun datestyle_tokens :: "string list \<Rightarrow> string option \<Rightarrow> string option \<Rightarrow> (string option \<times> string option) option" where
  "datestyle_tokens [] style order = Some (style, order)"
| "datestyle_tokens (tok # toks) style order =
     (let t = map ascii_upper (trim tok);
          put_style = (\<lambda>canon. if style \<noteq> None \<and> style \<noteq> Some canon then None else datestyle_tokens toks (Some canon) order);
          put_order = (\<lambda>canon. if order \<noteq> None \<and> order \<noteq> Some canon then None else datestyle_tokens toks style (Some canon))
      in if t = [] then None
         else if t = ''ISO'' then put_style ''ISO''
         else if t = ''SQL'' then put_style ''SQL''
         else if t = ''POSTGRES'' then put_style ''Postgres''
         else if t = ''GERMAN'' then put_style ''German''
         else if t = ''YMD'' then put_order ''YMD''
         else if t = ''DMY'' \<or> t = ''EURO'' then put_order ''DMY''
         else if t = ''MDY'' \<or> t = ''US'' then put_order ''MDY''
         else if t = ''DEFAULT'' then datestyle_tokens toks style order
         else None)"

text \<open>Splitting yields at least one token, so the check that some token was seen never fails.\<close>

definition validate_datestyle :: "string \<Rightarrow> exec_error + string" where
  "validate_datestyle v =
     (case datestyle_tokens (split_on (CHR '','') v) None None of
        None \<Rightarrow> Inl (invalid_value ''datestyle'' v)
      | Some (style, order) \<Rightarrow> Inr (case_option ''ISO'' id style @ '', '' @ case_option ''MDY'' id order))"

definition client_encodings :: "(string \<times> string) list" where
  "client_encodings =
     [(''sql_ascii'', ''SQL_ASCII''), (''mule_internal'', ''MULE_INTERNAL''), (''latin1'', ''LATIN1''),
      (''latin2'', ''LATIN2''), (''latin3'', ''LATIN3''), (''latin4'', ''LATIN4''), (''latin5'', ''LATIN5''),
      (''latin6'', ''LATIN6''), (''latin7'', ''LATIN7''), (''latin8'', ''LATIN8''), (''latin9'', ''LATIN9''),
      (''latin10'', ''LATIN10''), (''iso_8859_5'', ''ISO_8859_5''), (''iso_8859_6'', ''ISO_8859_6''),
      (''iso_8859_7'', ''ISO_8859_7''), (''iso_8859_8'', ''ISO_8859_8''), (''koi8r'', ''KOI8R''), (''koi8u'', ''KOI8U''),
      (''win866'', ''WIN866''), (''win874'', ''WIN874''), (''win1250'', ''WIN1250''), (''win1251'', ''WIN1251''),
      (''win1252'', ''WIN1252''), (''win1253'', ''WIN1253''), (''win1254'', ''WIN1254''), (''win1255'', ''WIN1255''),
      (''win1256'', ''WIN1256''), (''win1257'', ''WIN1257''), (''win1258'', ''WIN1258''), (''euc_jp'', ''EUC_JP''),
      (''euc_cn'', ''EUC_CN''), (''euc_kr'', ''EUC_KR''), (''euc_tw'', ''EUC_TW''), (''big5'', ''BIG5''),
      (''gb18030'', ''GB18030''), (''uhc'', ''UHC''), (''sjis'', ''SJIS''), (''shift_jis_2004'', ''SHIFT_JIS_2004''),
      (''euc_jis_2004'', ''EUC_JIS_2004''), (''utf8'', ''UTF8'')]"

definition validate_client_encoding :: "string \<Rightarrow> exec_error + string" where
  "validate_client_encoding v = validate_enum_guc ''client_encoding'' v client_encodings"

text \<open>Floats are bit patterns; a NaN is neither below nor inside a range.\<close>

definition f64_nan :: "u64 \<Rightarrow> bool" where
  "f64_nan w \<longleftrightarrow> 9218868437227405312 < unat w mod 2 ^ 63"

definition f64_less :: "u64 \<Rightarrow> u64 \<Rightarrow> bool" where
  "f64_less a b \<longleftrightarrow> \<not> f64_nan a \<and> \<not> f64_nan b \<and> float_key a < float_key b"

definition f64_le :: "u64 \<Rightarrow> u64 \<Rightarrow> bool" where
  "f64_le a b \<longleftrightarrow> \<not> f64_nan a \<and> \<not> f64_nan b \<and> float_key a \<le> float_key b"

definition on_off :: "bool \<Rightarrow> string" where
  "on_off b = (if b then ''on'' else ''off'')"

definition message_levels :: "(string \<times> string) list" where
  "message_levels =
     [(''debug5'', ''debug5''), (''debug4'', ''debug4''), (''debug3'', ''debug3''), (''debug2'', ''debug2''),
      (''debug1'', ''debug1'')]"

text \<open>The integer settings with the bounds that the code checks and the range its message names.\<close>

definition int_guc_range :: "string \<Rightarrow> (int \<times> int option \<times> string) option" where
  "int_guc_range name =
     (if name = ''extra_float_digits'' then Some (-15, Some 3, '' (-15 .. 3)'')
      else if name = ''geqo_threshold'' then Some (2, None, '' (2 .. 2147483647)'')
      else if name = ''join_collapse_limit'' \<or> name = ''from_collapse_limit'' then Some (1, None, '' (1 .. 2147483647)'')
      else if name \<in> {''min_parallel_table_scan_size'', ''min_parallel_index_scan_size'',
                      ''max_parallel_workers_per_gather'', ''max_parallel_workers'', ''max_worker_processes''}
      then Some (0, None, [])
      else if name = ''default_statistics_target'' then Some (1, Some 10000, '' (1 .. 10000)'')
      else if name = ''max_parallel_maintenance_workers'' then Some (0, Some 1024, '' (0 .. 1024)'')
      else None)"

definition enum_guc_options :: "string \<Rightarrow> (string \<times> string) list option" where
  "enum_guc_options name =
     (if name = ''client_min_messages''
      then Some (message_levels @ [(''debug'', ''debug2''), (''log'', ''log''), (''info'', ''info''),
        (''notice'', ''notice''), (''warning'', ''warning''), (''error'', ''error'')])
      else if name = ''log_min_messages''
      then Some (message_levels @ [(''debug'', ''debug2''), (''info'', ''info''), (''notice'', ''notice''),
        (''warning'', ''warning''), (''error'', ''error''), (''log'', ''log''), (''fatal'', ''fatal''), (''panic'', ''panic'')])
      else if name = ''icu_validation_level''
      then Some ((''disabled'', ''disabled'') # message_levels @ [(''warning'', ''warning''), (''error'', ''error''),
        (''fatal'', ''fatal'')])
      else if name = ''constraint_exclusion''
      then Some [(''partition'', ''partition''), (''on'', ''on''), (''off'', ''off''), (''true'', ''on''), (''yes'', ''on''),
        (''1'', ''on''), (''false'', ''off''), (''no'', ''off''), (''0'', ''off'')]
      else if name = ''debug_parallel_query''
      then Some [(''off'', ''off''), (''on'', ''on''), (''regress'', ''regress''), (''true'', ''on''), (''yes'', ''on''),
        (''1'', ''on''), (''false'', ''off''), (''no'', ''off''), (''0'', ''off'')]
      else if name = ''intervalstyle''
      then Some [(''postgres'', ''postgres''), (''postgres_verbose'', ''postgres_verbose''),
        (''sql_standard'', ''sql_standard''), (''iso_8601'', ''iso_8601'')]
      else if name = ''session_replication_role''
      then Some [(''origin'', ''origin''), (''replica'', ''replica''), (''local'', ''local'')]
      else if name = ''stats_fetch_consistency''
      then Some [(''none'', ''none''), (''cache'', ''cache''), (''snapshot'', ''snapshot'')]
      else if name = ''password_encryption'' then Some [(''md5'', ''md5''), (''scram-sha-256'', ''scram-sha-256'')]
      else None)"

definition bool_gucs :: "string set" where
  "bool_gucs = {''enable_seqscan'', ''enable_indexscan'', ''enable_bitmapscan'', ''enable_indexonlyscan'',
     ''enable_hashagg'', ''enable_hashjoin'', ''enable_mergejoin'', ''enable_nestloop'', ''enable_sort'',
     ''enable_memoize'', ''enable_partitionwise_join'', ''geqo'', ''lo_compat_privileges'', ''row_security'',
     ''check_function_bodies'', ''enable_material'', ''enable_partitionwise_aggregate'',
     ''enable_partition_pruning'', ''enable_incremental_sort''}"

definition memory_guc_min :: "string \<Rightarrow> (int \<times> string) option" where
  "memory_guc_min name =
     (if name = ''work_mem'' then Some (64, '' (64kB .. 2097151MB)'')
      else if name = ''maintenance_work_mem'' then Some (64, [])
      else if name = ''max_stack_depth'' then Some (100, [])
      else None)"

definition outside_range :: "string \<Rightarrow> string \<Rightarrow> string \<Rightarrow> exec_error" where
  "outside_range shown name bounds =
     ExecErr ''22023'' (shown @ '' is outside the valid range for parameter \"'' @ name @ ''\"'' @ bounds)"

definition validate_generic_guc :: "(string \<Rightarrow> u64 option) \<Rightarrow> string \<Rightarrow> string \<Rightarrow> exec_error + string" where
  "validate_generic_guc parse_f64 name v =
     (if is_custom_guc name then Inr v
      else if name \<in> bool_gucs
      then (case parse_bool_guc v of Some b \<Rightarrow> Inr (on_off b) | None \<Rightarrow> Inl (invalid_value name v))
      else
        (case int_guc_range name of
           Some (lo, hi, bounds) \<Rightarrow>
             (case parse_i64 (trim v) of
                None \<Rightarrow> Inl (invalid_value name v)
              | Some i \<Rightarrow>
                  if i < lo \<or> (case hi of Some h \<Rightarrow> h < i | None \<Rightarrow> False)
                  then Inl (outside_range v name bounds) else Inr (int_text i))
         | None \<Rightarrow>
        (case memory_guc_min name of
           Some (lo, bounds) \<Rightarrow>
             (case parse_memory_kb v of
                None \<Rightarrow> Inl (invalid_value name v)
              | Some kb \<Rightarrow>
                  if kb < lo then Inl (outside_range (CHR 0x22 # v @ [CHR 0x22]) name bounds) else Inr (int_text kb @ ''kB''))
         | None \<Rightarrow>
        (case enum_guc_options name of
           Some options \<Rightarrow> validate_enum_guc name v options
         | None \<Rightarrow>
           if name \<in> {''jit_above_cost'', ''parallel_setup_cost'', ''parallel_tuple_cost''}
           then (case parse_f64 (trim v) of
                   None \<Rightarrow> Inl (invalid_value name v)
                 | Some f \<Rightarrow>
                     if f64_less f (if name = ''jit_above_cost'' then 0xBFF0000000000000 else 0)
                     then Inl (outside_range v name []) else Inr (trim v))
           else if name = ''vacuum_cost_delay'' \<or> name = ''hash_mem_multiplier''
           then (case parse_f64 (trim v) of
                   None \<Rightarrow> Inl (invalid_value name v)
                 | Some f \<Rightarrow>
                     (let (lo, hi) = (if name = ''vacuum_cost_delay'' then (0, 0x4059000000000000)
                                      else (0x3FF0000000000000, 0x408F400000000000))
                      in if f64_le lo f \<and> f64_le f hi then Inr (trim v) else Inl (outside_range v name [])))
           else if name = ''plan_cache_mode''
           then (let t = lower (trim v) in
                 if t \<in> {''auto'', ''force_generic_plan'', ''force_custom_plan''} then Inr t else Inl (invalid_value name v))
           else if name = ''standard_conforming_strings''
           then (case parse_bool_guc v of
                   None \<Rightarrow> Inl (invalid_value name v)
                 | Some b \<Rightarrow>
                     if b then Inr ''on'' else Inl (ExecErr ''0A000'' ''non-standard string literals are not supported''))
           else if name = ''datestyle'' then validate_datestyle v
           else if name = ''client_encoding'' then validate_client_encoding v
           else if name \<in> {''lc_numeric'', ''timezone'', ''search_path''} then Inr v
           else if name = ''default_table_access_method''
           then (if lower v = ''heap'' then Inr ''heap'' else Inl (invalid_value name v))
           else Inl (ExecErr ''42704'' (''unrecognized configuration parameter \"'' @ name @ [CHR 0x22]))))))"

definition guc_default :: "string \<Rightarrow> string" where
  "guc_default name =
     (case find (\<lambda>(n, v). n = name)
        [(''enable_partitionwise_join'', ''off''), (''extra_float_digits'', ''1''), (''work_mem'', ''4MB''),
         (''geqo_threshold'', ''12''), (''join_collapse_limit'', ''8''), (''from_collapse_limit'', ''8''),
         (''jit_above_cost'', ''100000''), (''parallel_setup_cost'', ''1000''), (''parallel_tuple_cost'', ''0.1''),
         (''min_parallel_table_scan_size'', ''1024''), (''min_parallel_index_scan_size'', ''64''),
         (''max_parallel_workers_per_gather'', ''2''), (''plan_cache_mode'', ''auto''), (''lc_numeric'', ''C''),
         (''standard_conforming_strings'', ''on''), (''client_min_messages'', ''notice''),
         (''log_min_messages'', ''warning''), (''icu_validation_level'', ''warning''),
         (''constraint_exclusion'', ''partition''), (''debug_parallel_query'', ''off''), (''intervalstyle'', ''postgres''),
         (''session_replication_role'', ''origin''), (''stats_fetch_consistency'', ''cache''),
         (''password_encryption'', ''scram-sha-256''), (''datestyle'', ''ISO, MDY''), (''client_encoding'', ''UTF8''),
         (''row_security'', ''on''), (''check_function_bodies'', ''on''), (''enable_material'', ''on''),
         (''enable_partitionwise_aggregate'', ''off''), (''enable_partition_pruning'', ''on''),
         (''enable_incremental_sort'', ''on''), (''vacuum_cost_delay'', ''0''), (''hash_mem_multiplier'', ''2.0''),
         (''maintenance_work_mem'', ''64MB''), (''max_parallel_maintenance_workers'', ''2''),
         (''max_stack_depth'', ''100kB''), (''timezone'', ''GMT''), (''search_path'', ''\"$user\", public''),
         (''default_table_access_method'', ''heap''), (''default_statistics_target'', ''100''),
         (''lo_compat_privileges'', ''off'')] of
        Some (n, v) \<Rightarrow> v | None \<Rightarrow> ''on'')"

section \<open>Reading settings\<close>

definition level_name :: "isolation_level \<Rightarrow> string" where
  "level_name l = (case l of ReadCommitted \<Rightarrow> ''read committed'' | RepeatableRead \<Rightarrow> ''repeatable read'' | Serializable \<Rightarrow> ''serializable'')"

definition first_some :: "'a option list \<Rightarrow> 'a option" where
  "first_some xs = find_first id xs"

definition server_version :: string where
  "server_version = ''0.20.0''"

definition server_version_num :: string where
  "server_version_num = ''2000''"

definition toast_compression_name :: "toast_compression \<Rightarrow> string" where
  "toast_compression_name c = (case c of Pglz \<Rightarrow> ''pglz'' | Lz4 \<Rightarrow> ''lz4'')"

definition toast_compression_from_name :: "string \<Rightarrow> toast_compression option" where
  "toast_compression_from_name s =
     (if lower s = ''pglz'' then Some Pglz else if lower s = ''lz4'' then Some Lz4 else None)"

definition guc_value :: "(string \<Rightarrow> u64 option) \<Rightarrow> string option \<Rightarrow> session \<Rightarrow> string \<Rightarrow> string option" where
  "guc_value parse_f64 pgdatestyle s name =
     (let boot = (if name = ''datestyle'' \<and> map_of (se_gucs s) ''datestyle'' = None
                  then (case pgdatestyle of
                          Some v \<Rightarrow> if trim v \<noteq> [] then (case validate_generic_guc parse_f64 ''datestyle'' v of
                                       Inr canon \<Rightarrow> Some canon | Inl _ \<Rightarrow> None) else None
                        | None \<Rightarrow> None)
                  else None);
          in_txn = (\<lambda>f. Option.bind (se_txn s) f)
      in case boot of Some canon \<Rightarrow> Some canon | None \<Rightarrow>
         if name = ''default_transaction_read_only'' then Some (on_off (se_default_read_only s = Some True))
         else if name = ''bytea_output''
         then Some (case se_bytea_output s of BoHex \<Rightarrow> ''hex'' | BoEscape \<Rightarrow> ''escape'')
         else if name = ''default_toast_compression'' then Some (toast_compression_name (se_toast_compression s))
         else if name = ''server_version'' then Some server_version
         else if name = ''server_version_num'' then Some server_version_num
         else if name = ''transaction_isolation''
         then Some (level_name (case_option ReadCommitted id
           (first_some [map_option tx_level (se_txn s), se_next_level s, se_default_level s])))
         else if name = ''default_transaction_isolation''
         then Some (level_name (case_option ReadCommitted id (se_default_level s)))
         else if name = ''default_transaction_deferrable'' then Some (on_off (se_default_deferrable s = Some True))
         else if name = ''transaction_read_only''
         then Some (on_off (case_option False id
           (first_some [in_txn tx_read_only, se_next_read_only s, se_default_read_only s])))
         else if name = ''transaction_deferrable''
         then Some (on_off (case_option False id
           (first_some [in_txn tx_deferrable, se_next_deferrable s, se_default_deferrable s])))
         else if name = ''role'' then Some (se_role s)
         else if name = ''session_user'' \<or> name = ''session_authorization'' then Some (se_session_user s)
         else if is_generic_guc name \<or> is_custom_guc name
         then (if is_custom_guc name \<and> \<not> custom_guc_recognized s name then None
               else Some (case map_of (se_gucs s) name of
                            Some v \<Rightarrow> v | None \<Rightarrow> if is_custom_guc name then [] else guc_default name))
         else None)"

section \<open>The stack of changes\<close>

definition guc_saved_value :: "session \<Rightarrow> string \<Rightarrow> saved_guc option" where
  "guc_saved_value s name =
     (if name = ''default_transaction_read_only'' then Some (SgReadOnly (se_default_read_only s))
      else if name = ''bytea_output'' then Some (SgByteaOutput (se_bytea_output s))
      else if name = ''default_toast_compression'' then Some (SgToast (se_toast_compression s))
      else if is_generic_guc name \<or> is_custom_guc name then Some (SgGeneric (map_of (se_gucs s) name))
      else if name = ''default_transaction_isolation'' then Some (SgDefaultTxnLevel (se_default_level s))
      else if name = ''default_transaction_deferrable'' then Some (SgDefaultTxnDeferrable (se_default_deferrable s))
      else if name = ''role'' then Some (SgRole (se_role s))
      else if name = ''session_authorization'' then Some (SgSessionAuth (se_session_user s) (se_role s))
      else None)"

definition put_guc :: "string \<Rightarrow> string option \<Rightarrow> session \<Rightarrow> session" where
  "put_guc name v s =
     s\<lparr>se_gucs := (case v of Some x \<Rightarrow> hm_insert name x (se_gucs s) | None \<Rightarrow> filter (\<lambda>e. fst e \<noteq> name) (se_gucs s))\<rparr>"

definition set_txn_chars :: "bool option \<Rightarrow> isolation_level \<Rightarrow> bool option \<Rightarrow> txn \<Rightarrow> txn" where
  "set_txn_chars ro l d t = t\<lparr>tx_read_only := ro, tx_level := l, tx_deferrable := d\<rparr>"

fun restore_saved_guc :: "string \<Rightarrow> saved_guc \<Rightarrow> session \<Rightarrow> session" where
  "restore_saved_guc name (SgSessionAuth user role) s =
     (if name = ''session_authorization'' then s\<lparr>se_session_user := user, se_role := role\<rparr> else s)"
| "restore_saved_guc name (SgReadOnly v) s =
     (if name = ''default_transaction_read_only'' then s\<lparr>se_default_read_only := v\<rparr> else s)"
| "restore_saved_guc name (SgByteaOutput v) s = (if name = ''bytea_output'' then s\<lparr>se_bytea_output := v\<rparr> else s)"
| "restore_saved_guc name (SgToast v) s =
     (if name = ''default_toast_compression'' then s\<lparr>se_toast_compression := v\<rparr> else s)"
| "restore_saved_guc name (SgGeneric v) s = (if is_generic_guc name \<or> is_custom_guc name then put_guc name v s else s)"
| "restore_saved_guc name (SgDefaultTxnLevel v) s =
     (if name = ''default_transaction_isolation'' then s\<lparr>se_default_level := v\<rparr> else s)"
| "restore_saved_guc name (SgDefaultTxnDeferrable v) s =
     (if name = ''default_transaction_deferrable'' then s\<lparr>se_default_deferrable := v\<rparr> else s)"
| "restore_saved_guc name (SgRole r) s = (if name = ''role'' then s\<lparr>se_role := r\<rparr> else s)"
| "restore_saved_guc name (SgTxnChars ro l d) s = s\<lparr>se_txn := map_option (set_txn_chars ro l d) (se_txn s)\<rparr>"

definition push_entry :: "guc_entry \<Rightarrow> session \<Rightarrow> session" where
  "push_entry e s = s\<lparr>se_txn := map_option (\<lambda>t. t\<lparr>tx_guc_stack := tx_guc_stack t @ [e]\<rparr>) (se_txn s)\<rparr>"

definition push_guc_entry :: "string \<Rightarrow> bool \<Rightarrow> session \<Rightarrow> session" where
  "push_guc_entry name is_local s =
     (case guc_saved_value s name of
        None \<Rightarrow> s
      | Some saved \<Rightarrow> push_entry \<lparr>ge_name = name, ge_is_local = is_local, ge_saved = saved\<rparr> s)"

definition revert_guc_stack :: "guc_entry list \<Rightarrow> bool \<Rightarrow> session \<Rightarrow> session" where
  "revert_guc_stack stack commit s =
     fold (\<lambda>e s. if commit \<and> \<not> ge_is_local e then s else restore_saved_guc (ge_name e) (ge_saved e) s) (rev stack) s"

section \<open>SET TRANSACTION\<close>

text \<open>The \<^verbatim>\<open>Debug\<close> form of a string: quotes, backslashes and control characters are escaped.\<close>

definition hex_digit :: "nat \<Rightarrow> char" where
  "hex_digit n = char_of (if n < 10 then 48 + n else 87 + n)"

definition debug_char :: "char \<Rightarrow> string" where
  "debug_char c =
     (let n = (of_char c :: nat) in
      if n = 0 then [CHR 0x5C, CHR ''0''] else if n = 9 then [CHR 0x5C, CHR ''t''] else if n = 10 then [CHR 0x5C, CHR ''n''] else if n = 13 then [CHR 0x5C, CHR ''r'']
      else if n = 34 \<or> n = 92 then [CHR 0x5C, c]
      else if n < 16 then [CHR 0x5C] @ ''u{'' @ [hex_digit n, CHR ''}'']
      else if n < 32 \<or> n = 127 then [CHR 0x5C] @ ''u{'' @ [hex_digit (n div 16), hex_digit (n mod 16), CHR ''}'']
      else [c])"

definition debug_text :: "string \<Rightarrow> string" where
  "debug_text s = CHR 0x22 # concat (map debug_char s) @ [CHR 0x22]"

type_synonym set_result = "exec_error + exec_result \<times> session"

definition stmt_set_transaction_snapshot :: "session \<Rightarrow> string \<Rightarrow> set_result" where
  "stmt_set_transaction_snapshot s ident =
     (if se_txn s = None then Inr (RCommand ''SET'', s)
      else if ident = [] \<or>
           \<not> list_all (\<lambda>c. is_digit c \<or> (65 \<le> (of_char c :: nat) \<and> (of_char c :: nat) \<le> 70) \<or> c = CHR ''-'') ident
      then Inl (ExecErr ''22023'' (''invalid snapshot identifier: '' @ debug_text ident))
      else Inl (ExecErr ''42704'' (''snapshot '' @ debug_text ident @ '' does not exist'')))"

text \<open>The check hooks of the three characteristics; \<open>None\<close> lets the change pass.\<close>

definition check_read_only_change :: "session \<Rightarrow> txn \<Rightarrow> bool option \<Rightarrow> exec_error option" where
  "check_read_only_change s t read_only =
     (let cur = case_option False id (first_some [tx_read_only t, se_default_read_only s]) in
      if read_only = Some False \<and> cur
      then (if tx_savepoints t \<noteq> []
            then Some (err_25001 ''cannot set transaction read-write mode inside a read-only transaction'')
            else if tx_first_snapshot_set t
            then Some (err_25001 ''transaction read-write mode must be set before any query'')
            else None)
      else None)"

definition check_level_change :: "txn \<Rightarrow> isolation_level option \<Rightarrow> exec_error option" where
  "check_level_change t level =
     (if level \<noteq> None \<and> level \<noteq> Some (tx_level t)
      then (if tx_first_snapshot_set t
            then Some (err_25001 ''SET TRANSACTION ISOLATION LEVEL must be called before any query'')
            else if tx_savepoints t \<noteq> []
            then Some (err_25001 ''SET TRANSACTION ISOLATION LEVEL must not be called in a subtransaction'')
            else None)
      else None)"

definition check_deferrable_change :: "txn \<Rightarrow> bool option \<Rightarrow> exec_error option" where
  "check_deferrable_change t deferrable =
     (if deferrable \<noteq> None
      then (if tx_savepoints t \<noteq> []
            then Some (err_25001 ''SET TRANSACTION [NOT] DEFERRABLE cannot be called within a subtransaction'')
            else if tx_first_snapshot_set t
            then Some (err_25001 ''SET TRANSACTION [NOT] DEFERRABLE must be called before any query'')
            else None)
      else None)"

definition local_outside :: exec_error where
  "local_outside = err_25001 ''SET LOCAL can only be used within a transaction block''"

definition stmt_set_transaction ::
  "isolation_level option \<Rightarrow> bool option \<Rightarrow> bool option \<Rightarrow> string option \<Rightarrow> bool \<Rightarrow> session \<Rightarrow> set_result" where
  "stmt_set_transaction level read_only deferrable snapshot is_local s =
     (if is_local \<and> se_txn s = None then Inl local_outside
      else case snapshot of Some ident \<Rightarrow> stmt_set_transaction_snapshot s ident | None \<Rightarrow>
      case se_txn s of
        None \<Rightarrow>
          Inr (RCommand ''SET'',
            s\<lparr>se_next_level := (if level \<noteq> None then level else se_next_level s),
              se_next_read_only := (if read_only \<noteq> None then read_only else se_next_read_only s),
              se_next_deferrable := (if deferrable \<noteq> None then deferrable else se_next_deferrable s)\<rparr>)
      | Some t \<Rightarrow>
          (case first_some [check_read_only_change s t read_only, check_level_change t level, check_deferrable_change t deferrable] of
             Some e \<Rightarrow> Inl e
           | None \<Rightarrow>
               (let changed = (level \<noteq> None \<and> level \<noteq> Some (tx_level t)) \<or>
                              (read_only \<noteq> None \<and> read_only \<noteq> tx_read_only t) \<or>
                              (deferrable \<noteq> None \<and> deferrable \<noteq> tx_deferrable t);
                    s1 = (if changed
                          then push_entry \<lparr>ge_name = ''transaction_characteristics'', ge_is_local = is_local,
                            ge_saved = SgTxnChars (tx_read_only t) (tx_level t) (tx_deferrable t)\<rparr> s
                          else s);
                    apply_chars = set_txn_chars
                      (if read_only \<noteq> None then read_only else tx_read_only t)
                      (case_option (tx_level t) id level)
                      (if deferrable \<noteq> None then deferrable else tx_deferrable t)
                in Inr (RCommand ''SET'', s1\<lparr>se_txn := map_option apply_chars (se_txn s1)\<rparr>))))"

section \<open>SET, RESET and SHOW\<close>

datatype set_value = SvDefault | SvStr string

definition parsed :: "string \<Rightarrow> (string \<Rightarrow> 'a option) \<Rightarrow> set_value \<Rightarrow> exec_error + 'a option" where
  "parsed name parse v =
     (case v of
        SvDefault \<Rightarrow> Inr None
      | SvStr x \<Rightarrow> (case parse x of Some a \<Rightarrow> Inr (Some a) | None \<Rightarrow> Inl (invalid_value name x)))"

definition unrecognized :: "string \<Rightarrow> exec_error" where
  "unrecognized name = ExecErr ''42704'' (''unrecognized configuration parameter \"'' @ name @ [CHR 0x22])"

definition unchangeable :: "string \<Rightarrow> exec_error" where
  "unchangeable name = ExecErr ''55P02'' (''parameter \"'' @ name @ ''\" cannot be changed'')"

text \<open>A setter that validated its value records the value in effect and then applies the new one.\<close>

definition record_and :: "string \<Rightarrow> bool \<Rightarrow> (session \<Rightarrow> session) \<Rightarrow> string \<Rightarrow> session \<Rightarrow> set_result" where
  "record_and name is_local f tag s = Inr (RCommand tag, f (push_guc_entry name is_local s))"

definition set_parsed ::
  "string \<Rightarrow> (string \<Rightarrow> 'a option) \<Rightarrow> set_value \<Rightarrow> bool \<Rightarrow> ('a option \<Rightarrow> session \<Rightarrow> session) \<Rightarrow> session \<Rightarrow> set_result" where
  "set_parsed name parse v is_local f s =
     (case parsed name parse v of Inl e \<Rightarrow> Inl e | Inr x \<Rightarrow> record_and name is_local (f x) ''SET'' s)"

definition parse_bytea_output :: "string \<Rightarrow> bytea_output option" where
  "parse_bytea_output s =
     (if lower s = ''hex'' then Some BoHex else if lower s = ''escape'' then Some BoEscape else None)"

definition stmt_set_guc :: "(string \<Rightarrow> u64 option) \<Rightarrow> string \<Rightarrow> set_value \<Rightarrow> bool \<Rightarrow> session \<Rightarrow> set_result" where
  "stmt_set_guc parse_f64 name v is_local s =
     (if is_local \<and> se_txn s = None then Inl local_outside
      else if name = ''default_transaction_read_only''
      then set_parsed name parse_bool_guc v is_local (\<lambda>x s. s\<lparr>se_default_read_only := x\<rparr>) s
      else if name = ''bytea_output''
      then set_parsed name parse_bytea_output v is_local (\<lambda>x s. s\<lparr>se_bytea_output := case_option BoHex id x\<rparr>) s
      else if name = ''default_toast_compression''
      then set_parsed name toast_compression_from_name v is_local
             (\<lambda>x s. s\<lparr>se_toast_compression := case_option Pglz id x\<rparr>) s
      else if name = ''default_transaction_isolation''
      then set_parsed name parse_isolation_guc v is_local (\<lambda>x s. s\<lparr>se_default_level := x\<rparr>) s
      else if name = ''default_transaction_deferrable''
      then set_parsed name parse_bool_guc v is_local (\<lambda>x s. s\<lparr>se_default_deferrable := x\<rparr>) s
      else if name = ''transaction_isolation''
      then (case parsed name parse_isolation_guc v of
              Inl e \<Rightarrow> Inl e | Inr x \<Rightarrow> stmt_set_transaction x None None None is_local s)
      else if name = ''transaction_read_only''
      then (case parsed name parse_bool_guc v of
              Inl e \<Rightarrow> Inl e | Inr x \<Rightarrow> stmt_set_transaction None x None None is_local s)
      else if name = ''transaction_deferrable''
      then (case parsed name parse_bool_guc v of
              Inl e \<Rightarrow> Inl e | Inr x \<Rightarrow> stmt_set_transaction None None x None is_local s)
      else if is_generic_guc name \<or> is_custom_guc name
      then (case (if is_custom_guc name then custom_guc_set_error name else None) of
              Some e \<Rightarrow> Inl e
            | None \<Rightarrow>
                (case v of
                   SvDefault \<Rightarrow> record_and (guc_stack_name name) is_local (put_guc name None) ''SET'' s
                 | SvStr x \<Rightarrow>
                     (case validate_generic_guc parse_f64 name x of
                        Inl e \<Rightarrow> Inl e
                      | Inr canon \<Rightarrow> record_and (guc_stack_name name) is_local (put_guc name (Some canon)) ''SET'' s)))
      else if name = ''server_version'' \<or> name = ''server_version_num'' then Inl (unchangeable name)
      else Inl (unrecognized name))"

definition guc_display_name :: "string \<Rightarrow> string" where
  "guc_display_name name =
     (if name = ''datestyle'' then ''DateStyle'' else if name = ''intervalstyle'' then ''IntervalStyle''
      else if name = ''timezone'' then ''TimeZone'' else name)"

definition stmt_show_guc :: "(string \<Rightarrow> u64 option) \<Rightarrow> string option \<Rightarrow> string \<Rightarrow> session \<Rightarrow> exec_error + exec_result" where
  "stmt_show_guc parse_f64 pgdatestyle name s =
     (case guc_value parse_f64 pgdatestyle s name of
        Some v \<Rightarrow> Inr (RSelect [(guc_display_name name, CtText)] [[VText v]])
      | None \<Rightarrow> Inl (unrecognized name))"

definition stmt_reset_guc :: "string \<Rightarrow> session \<Rightarrow> set_result" where
  "stmt_reset_guc name s =
     (if name = ''all''
      then (let s1 = fold (\<lambda>n. push_guc_entry n False)
                   [''default_transaction_read_only'', ''bytea_output'', ''default_toast_compression'',
                    ''default_transaction_isolation'', ''default_transaction_deferrable'', ''role''] s;
                s2 = s1\<lparr>se_default_read_only := None, se_bytea_output := BoHex, se_toast_compression := Pglz,
                        se_default_level := None, se_default_deferrable := None, se_role := se_session_user s1\<rparr>;
                s3 = fold (\<lambda>n. push_guc_entry (name_to_static n) False) (map fst (se_gucs s2)) s2
            in Inr (RCommand ''RESET'', s3\<lparr>se_gucs := []\<rparr>))
      else if name = ''default_transaction_read_only''
      then record_and name False (\<lambda>s. s\<lparr>se_default_read_only := None\<rparr>) ''RESET'' s
      else if name = ''default_transaction_isolation''
      then record_and name False (\<lambda>s. s\<lparr>se_default_level := None\<rparr>) ''RESET'' s
      else if name = ''default_transaction_deferrable''
      then record_and name False (\<lambda>s. s\<lparr>se_default_deferrable := None\<rparr>) ''RESET'' s
      else if name \<in> {''transaction_isolation'', ''transaction_read_only'', ''transaction_deferrable''}
      then Inl (ExecErr ''0A000'' (''parameter \"'' @ name @ ''\" cannot be reset''))
      else if name = ''role''
      then record_and name False (\<lambda>s. s\<lparr>se_role := se_session_user s\<rparr>) ''RESET'' s
      else if name = ''session_authorization''
      then record_and name False (\<lambda>s. s\<lparr>se_session_user := se_auth_user s, se_role := se_auth_user s\<rparr>) ''RESET'' s
      else if name = ''bytea_output''
      then record_and name False (\<lambda>s. s\<lparr>se_bytea_output := BoHex\<rparr>) ''RESET'' s
      else if name = ''default_toast_compression''
      then record_and name False (\<lambda>s. s\<lparr>se_toast_compression := Pglz\<rparr>) ''RESET'' s
      else if name = ''server_version'' \<or> name = ''server_version_num'' then Inl (unchangeable name)
      else if is_generic_guc name \<or> is_custom_guc name \<and> custom_guc_recognized s name
      then record_and (guc_stack_name name) False (put_guc name None) ''RESET'' s
      else Inl (unrecognized name))"

text \<open>\<^verbatim>\<open>SET SESSION CHARACTERISTICS\<close>, a branch of \<^verbatim>\<open>run_statement\<close>.\<close>

definition set_session_chars ::
  "isolation_level option \<Rightarrow> bool option \<Rightarrow> bool option \<Rightarrow> session \<Rightarrow> exec_result \<times> session" where
  "set_session_chars level read_only deferrable s =
     (let s1 = (if level \<noteq> None
                then (push_guc_entry ''default_transaction_isolation'' False s)\<lparr>se_default_level := level\<rparr> else s);
          s2 = (if read_only \<noteq> None
                then (push_guc_entry ''default_transaction_read_only'' False s1)\<lparr>se_default_read_only := read_only\<rparr> else s1);
          s3 = (if deferrable \<noteq> None
                then (push_guc_entry ''default_transaction_deferrable'' False s2)\<lparr>se_default_deferrable := deferrable\<rparr> else s2)
      in (RCommand ''SET'', s3))"

section \<open>SET ROLE and SET SESSION AUTHORIZATION\<close>

text \<open>The owner of these lookups is \<^verbatim>\<open>u64::MAX\<close>, which no transaction has.\<close>

definition no_owner :: nat where
  "no_owner = 2 ^ 64 - 1"

definition no_role :: "string \<Rightarrow> exec_error" where
  "no_role name = ExecErr ''42704'' (''role \"'' @ name @ ''\" does not exist'')"

definition stmt_set_session_authorization :: "engine \<Rightarrow> string option \<Rightarrow> bool \<Rightarrow> session \<Rightarrow> set_result" where
  "stmt_set_session_authorization eng target is_local s =
     (if is_local \<and> se_txn s = None then Inl local_outside
      else
        (let snap = take_snapshot (en_txns eng);
             switch = (\<lambda>u. record_and ''session_authorization'' is_local
                         (\<lambda>s. s\<lparr>se_session_user := u, se_role := u\<rparr>) ''SET'' s)
         in case target of
              None \<Rightarrow> switch (se_auth_user s)
            | Some raw \<Rightarrow>
                (let name = lower raw in
                 if find_role (en_db eng) name snap no_owner = None then Inl (no_role name)
                 else if name = se_auth_user s \<or> is_superuser_snap (en_db eng) (se_auth_user s) snap no_owner
                 then switch name
                 else Inl (ExecErr ''42501'' (''permission denied to set session authorization \"'' @ name @ [CHR 0x22])))))"

definition stmt_set_role :: "engine \<Rightarrow> string option \<Rightarrow> bool \<Rightarrow> session \<Rightarrow> set_result" where
  "stmt_set_role eng target is_local s =
     (if is_local \<and> se_txn s = None then Inl local_outside
      else
        (let snap = take_snapshot (en_txns eng);
             switch = (\<lambda>r. record_and ''role'' is_local (\<lambda>s. s\<lparr>se_role := r\<rparr>) ''SET'' s)
         in case target of
              None \<Rightarrow> switch (se_session_user s)
            | Some raw \<Rightarrow>
                (let name = lower raw in
                 if find_role (en_db eng) name snap no_owner = None then Inl (no_role name)
                 else if is_superuser_snap (en_db eng) (se_session_user s) snap no_owner \<or> name = se_session_user s \<or>
                         member_can_set_role (en_db eng) (se_session_user s) name snap no_owner
                 then switch name
                 else Inl (ExecErr ''42501'' (''permission denied to set role \"'' @ name @ [CHR 0x22])))))"

text \<open>The branches of \<^verbatim>\<open>run_statement\<close> that change settings.\<close>

datatype set_stmt =
    SetTransaction "isolation_level option" "bool option" "bool option" "string option"
  | SetSessionChars "isolation_level option" "bool option" "bool option"
  | SetGuc string set_value bool
  | ResetGuc string

definition run_set :: "(string \<Rightarrow> u64 option) \<Rightarrow> engine \<Rightarrow> set_stmt \<Rightarrow> session \<Rightarrow> set_result" where
  "run_set parse_f64 eng st s =
     (case st of
        SetTransaction level ro d snapshot \<Rightarrow> stmt_set_transaction level ro d snapshot False s
      | SetSessionChars level ro d \<Rightarrow> Inr (set_session_chars level ro d s)
      | SetGuc name v is_local \<Rightarrow>
          if name = ''role''
          then stmt_set_role eng (case v of SvDefault \<Rightarrow> None | SvStr x \<Rightarrow> if lower x = ''none'' then None else Some x) is_local s
          else if name = ''session_authorization''
          then stmt_set_session_authorization eng (case v of SvDefault \<Rightarrow> None | SvStr x \<Rightarrow> Some x) is_local s
          else stmt_set_guc parse_f64 name v is_local s
      | ResetGuc name \<Rightarrow> stmt_reset_guc name s)"

section \<open>Reverting the stack\<close>

text \<open>
  Everything the statements above change, the custom variables and planner settings as a map,
  with the characteristics of the open transaction.
\<close>

type_synonym settings =
  "(bool option \<times> isolation_level option \<times> bool option) \<times> (bytea_output \<times> toast_compression) \<times>
   (string \<rightharpoonup> string) \<times> (string \<times> string) \<times> (bool option \<times> isolation_level \<times> bool option) option"

definition chars_of :: "txn \<Rightarrow> bool option \<times> isolation_level \<times> bool option" where
  "chars_of t = (tx_read_only t, tx_level t, tx_deferrable t)"

definition settings :: "session \<Rightarrow> settings" where
  "settings s = ((se_default_read_only s, se_default_level s, se_default_deferrable s),
     (se_bytea_output s, se_toast_compression s), map_of (se_gucs s), (se_role s, se_session_user s),
     map_option chars_of (se_txn s))"

definition guc_stack :: "session \<Rightarrow> guc_entry list option" where
  "guc_stack s = map_option tx_guc_stack (se_txn s)"

lemma chars_simps [simp]:
  "chars_of (set_txn_chars ro l d t) = (ro, l, d)" "tx_guc_stack (set_txn_chars ro l d t) = tx_guc_stack t"
  "chars_of (t\<lparr>tx_guc_stack := es\<rparr>) = chars_of t"
  by (simp_all add: chars_of_def set_txn_chars_def)

lemma map_of_put_guc [simp]: "map_of (se_gucs (put_guc name v s)) = (map_of (se_gucs s))(name := v)"
proof -
  have "map_of (filter (\<lambda>e. fst e \<noteq> name) m) = (map_of m)(name := None)" for m :: "(string \<times> string) list"
    by (induction m) (auto simp: fun_eq_iff)
  then show ?thesis by (simp add: put_guc_def map_of_hm_insert split: option.split)
qed

lemma put_guc_others [simp]:
  "settings (put_guc name v s) = (let (a, b, m, c) = settings s in (a, b, m(name := v), c))"
  by (simp add: settings_def) (simp add: put_guc_def)

lemma restore_settings:
  "settings s = settings s' \<Longrightarrow> settings (restore_saved_guc name v s) = settings (restore_saved_guc name v s')"
proof (cases v)
  case (SgGeneric x)
  then show "settings s = settings s' \<Longrightarrow> ?thesis" by simp
next
  case (SgTxnChars ro l d)
  then show "settings s = settings s' \<Longrightarrow> ?thesis"
    by (cases "se_txn s"; cases "se_txn s'") (simp_all add: settings_def)
qed (simp_all add: settings_def)

lemma revert_Nil [simp]: "revert_guc_stack [] c s = s"
  by (simp add: revert_guc_stack_def)

lemma revert_snoc [simp]:
  "revert_guc_stack (es @ [e]) False s = revert_guc_stack es False (restore_saved_guc (ge_name e) (ge_saved e) s)"
  by (simp add: revert_guc_stack_def)

lemma revert_settings:
  "settings s = settings s' \<Longrightarrow> settings (revert_guc_stack es False s) = settings (revert_guc_stack es False s')"
proof (induction es arbitrary: s s' rule: rev_induct)
  case (snoc e es)
  show ?case unfolding revert_snoc by (rule snoc.IH, rule restore_settings, rule snoc.prems)
qed simp

lemma revert_append: "revert_guc_stack (xs @ ys) c s = revert_guc_stack xs c (revert_guc_stack ys c s)"
  by (simp add: revert_guc_stack_def)

lemma revert_single: "revert_guc_stack [e] False s = restore_saved_guc (ge_name e) (ge_saved e) s"
  by (simp add: revert_guc_stack_def)

lemma push_entry_simps [simp]:
  "settings (push_entry e s) = settings s" "guc_stack (push_entry e s) = map_option (\<lambda>es. es @ [e]) (guc_stack s)"
  "se_gucs (push_entry e s) = se_gucs s" "se_session_user (push_entry e s) = se_session_user s"
  "guc_saved_value (push_entry e s) = guc_saved_value s"
  by (cases "se_txn s"; simp add: push_entry_def settings_def guc_stack_def guc_saved_value_def fun_eq_iff)+

text \<open>\<open>logged s s'\<close>: the session changed from \<open>s\<close> to \<open>s'\<close> and the stack grew by what reverts that.\<close>

definition logged :: "session \<Rightarrow> session \<Rightarrow> bool" where
  "logged s s' \<longleftrightarrow> (\<exists>es new. guc_stack s = Some es \<and> guc_stack s' = Some (es @ new) \<and>
     settings (revert_guc_stack new False s') = settings s)"

lemma logged_refl: "se_txn s \<noteq> None \<Longrightarrow> logged s s"
  by (auto simp: logged_def guc_stack_def)

lemma logged_trans:
  assumes "logged s s1" and "logged s1 s2"
  shows "logged s s2"
proof -
  obtain es new where a: "guc_stack s = Some es" "guc_stack s1 = Some (es @ new)"
    "settings (revert_guc_stack new False s1) = settings s" using assms(1) by (auto simp: logged_def)
  obtain new' where b: "guc_stack s2 = Some (es @ new @ new')" "settings (revert_guc_stack new' False s2) = settings s1"
    using assms(2) a(2) by (auto simp: logged_def)
  have "settings (revert_guc_stack (new @ new') False s2) = settings s"
    unfolding revert_append using revert_settings [OF b(2)] a(3) by simp
  with a b show ?thesis unfolding logged_def by blast
qed

text \<open>A setter that touches what its name saves, and nothing else.\<close>

definition setter :: "string \<Rightarrow> (session \<Rightarrow> session) \<Rightarrow> bool" where
  "setter name f \<longleftrightarrow> (\<forall>s. \<exists>v. guc_saved_value s name = Some v \<and>
     settings (restore_saved_guc name v (f s)) = settings s \<and> guc_stack (f s) = guc_stack s)"

lemma record_logged:
  assumes "setter name f" and "record_and name is_local f tag s = Inr (r, s')" and "se_txn s \<noteq> None"
  shows "logged s s'"
proof -
  obtain v where v: "guc_saved_value s name = Some v" using assms(1) by (auto simp: setter_def)
  let ?e = "\<lparr>ge_name = name, ge_is_local = is_local, ge_saved = v\<rparr>"
  have s': "s' = f (push_entry ?e s)" using assms(2) v by (simp add: record_and_def push_guc_entry_def)
  obtain es where es: "guc_stack s = Some es" using assms(3) by (auto simp: guc_stack_def)
  have "settings (restore_saved_guc name v (f (push_entry ?e s))) = settings (push_entry ?e s) \<and>
    guc_stack (f (push_entry ?e s)) = guc_stack (push_entry ?e s)"
    using assms(1) v unfolding setter_def by (metis push_entry_simps(5) option.inject)
  then show ?thesis using es unfolding s' logged_def by (auto simp: revert_single)
qed

named_theorems setters

lemma special_names:
  "list_all (\<lambda>name. \<not> is_generic_guc name \<and> \<not> is_custom_guc name)
     [''default_transaction_read_only'', ''bytea_output'', ''default_toast_compression'',
      ''default_transaction_isolation'', ''default_transaction_deferrable'', ''role'', ''session_authorization'']"
  by code_simp

lemma special_names_simps [simp]:
  "\<not> is_generic_guc ''default_transaction_isolation''" "\<not> is_custom_guc ''default_transaction_isolation''"
  "\<not> is_generic_guc ''default_transaction_deferrable''" "\<not> is_custom_guc ''default_transaction_deferrable''"
  "\<not> is_generic_guc ''role''" "\<not> is_custom_guc ''role''"
  "\<not> is_generic_guc ''session_authorization''" "\<not> is_custom_guc ''session_authorization''"
  using special_names by simp_all

lemma setter_fields [setters]:
  "setter ''default_transaction_read_only'' (\<lambda>s. s\<lparr>se_default_read_only := ro\<rparr>)"
  "setter ''bytea_output'' (\<lambda>s. s\<lparr>se_bytea_output := b\<rparr>)"
  "setter ''default_toast_compression'' (\<lambda>s. s\<lparr>se_toast_compression := c\<rparr>)"
  "setter ''default_transaction_isolation'' (\<lambda>s. s\<lparr>se_default_level := l\<rparr>)"
  "setter ''default_transaction_deferrable'' (\<lambda>s. s\<lparr>se_default_deferrable := d\<rparr>)"
  "setter ''role'' (\<lambda>s. s\<lparr>se_role := r\<rparr>)"
  "setter ''role'' (\<lambda>s. s\<lparr>se_role := se_session_user s\<rparr>)"
  "setter ''session_authorization'' (\<lambda>s. s\<lparr>se_session_user := u, se_role := u\<rparr>)"
  "setter ''session_authorization'' (\<lambda>s. s\<lparr>se_session_user := se_auth_user s, se_role := se_auth_user s\<rparr>)"
  by (simp_all add: setter_def guc_saved_value_def settings_def guc_stack_def)

lemma setter_guc [setters]:
  assumes "is_generic_guc name \<or> is_custom_guc name"
  shows "setter (guc_stack_name name) (put_guc name v)"
proof -
  have n: "guc_stack_name name = name"
    by (simp add: guc_stack_name_def name_to_static_def is_generic_guc_def)
  have "guc_saved_value s name = Some (SgGeneric (map_of (se_gucs s) name))" for s
    using assms special_names by (auto simp: guc_saved_value_def)
  moreover have "settings (put_guc name (map_of (se_gucs s) name) (put_guc name v s)) = settings s" for s
    by (simp only: put_guc_others) (simp add: settings_def)
  ultimately show ?thesis unfolding n setter_def using assms by (simp add: guc_stack_def put_guc_def)
qed

lemma setter_restore:
  assumes "setter name f" and "guc_saved_value s name = Some v"
  shows "settings (restore_saved_guc name v (f s)) = settings s"
  using assms unfolding setter_def by (metis option.inject)

lemma set_transaction_logged:
  assumes "stmt_set_transaction level ro d snapshot is_local s = Inr (r, s')" and "se_txn s \<noteq> None"
  shows "logged s s'"
proof -
  obtain t where t: "se_txn s = Some t" using assms(2) by blast
  show ?thesis
  proof (cases snapshot)
    case (Some i)
    then show ?thesis using assms(1) t by (simp add: stmt_set_transaction_def stmt_set_transaction_snapshot_def split: if_splits)
  next
    case None
    define e where "e = \<lparr>ge_name = ''transaction_characteristics'', ge_is_local = is_local,
      ge_saved = SgTxnChars (tx_read_only t) (tx_level t) (tx_deferrable t)\<rparr>"
    define ro' where "ro' = (if ro \<noteq> None then ro else tx_read_only t)"
    define l' where "l' = case_option (tx_level t) id level"
    define d' where "d' = (if d \<noteq> None then d else tx_deferrable t)"
    define changed where "changed \<longleftrightarrow> (level \<noteq> None \<and> level \<noteq> Some (tx_level t)) \<or>
      (ro \<noteq> None \<and> ro \<noteq> tx_read_only t) \<or> (d \<noteq> None \<and> d \<noteq> tx_deferrable t)"
    let ?chk = "first_some [check_read_only_change s t ro, check_level_change t level, check_deferrable_change t d]"
    have chk: "?chk = None"
    proof (cases ?chk)
      case (Some err)
      then show ?thesis using assms(1) None t by (simp add: stmt_set_transaction_def)
    qed
    have s': "s' = (let s1 = (if changed then push_entry e s else s) in
        s1\<lparr>se_txn := map_option (set_txn_chars ro' l' d') (se_txn s1)\<rparr>)"
      using assms(1) None t chk unfolding e_def ro'_def l'_def d'_def changed_def
      by (simp add: stmt_set_transaction_def Let_def)
    show ?thesis
    proof (cases changed)
      case True
      have "settings (restore_saved_guc (ge_name e) (ge_saved e) s') = settings s"
        using t True by (simp add: s' e_def push_entry_def settings_def chars_of_def set_txn_chars_def)
      moreover have "guc_stack s' = Some (tx_guc_stack t @ [e])" using t True by (simp add: s' guc_stack_def push_entry_def)
      ultimately show ?thesis
        using t unfolding logged_def
        by - (rule exI [of _ "tx_guc_stack t"], rule exI [of _ "[e]"], simp add: guc_stack_def revert_single)
    next
      case False
      then have "ro' = tx_read_only t \<and> l' = tx_level t \<and> d' = tx_deferrable t"
        by (auto simp: changed_def ro'_def l'_def d'_def split: option.split)
      then have "settings s' = settings s \<and> guc_stack s' = guc_stack s"
        using t False by (simp add: s' settings_def guc_stack_def chars_of_def set_txn_chars_def)
      then show ?thesis using t unfolding logged_def by (auto simp: guc_stack_def)
    qed
  qed
qed

lemma set_parsed_logged:
  assumes "set_parsed name parse v is_local f s = Inr (r, s')" and "\<And>x. setter name (f x)" and "se_txn s \<noteq> None"
  shows "logged s s'"
  using assms record_logged [OF assms(2)] by (auto simp: set_parsed_def split: sum.splits)

lemma stmt_set_guc_named:
  "se_txn s \<noteq> None \<Longrightarrow> stmt_set_guc parse_f64 ''default_transaction_read_only'' v is_local s =
     set_parsed ''default_transaction_read_only'' parse_bool_guc v is_local (\<lambda>x s. s\<lparr>se_default_read_only := x\<rparr>) s"
  "se_txn s \<noteq> None \<Longrightarrow> stmt_set_guc parse_f64 ''bytea_output'' v is_local s =
     set_parsed ''bytea_output'' parse_bytea_output v is_local (\<lambda>x s. s\<lparr>se_bytea_output := case_option BoHex id x\<rparr>) s"
  "se_txn s \<noteq> None \<Longrightarrow> stmt_set_guc parse_f64 ''default_toast_compression'' v is_local s =
     set_parsed ''default_toast_compression'' toast_compression_from_name v is_local (\<lambda>x s. s\<lparr>se_toast_compression := case_option Pglz id x\<rparr>) s"
  "se_txn s \<noteq> None \<Longrightarrow> stmt_set_guc parse_f64 ''default_transaction_isolation'' v is_local s =
     set_parsed ''default_transaction_isolation'' parse_isolation_guc v is_local (\<lambda>x s. s\<lparr>se_default_level := x\<rparr>) s"
  "se_txn s \<noteq> None \<Longrightarrow> stmt_set_guc parse_f64 ''default_transaction_deferrable'' v is_local s =
     set_parsed ''default_transaction_deferrable'' parse_bool_guc v is_local (\<lambda>x s. s\<lparr>se_default_deferrable := x\<rparr>) s"
  "se_txn s \<noteq> None \<Longrightarrow> stmt_set_guc parse_f64 ''transaction_isolation'' v is_local s =
     (case parsed ''transaction_isolation'' parse_isolation_guc v of Inl e \<Rightarrow> Inl e | Inr x \<Rightarrow> stmt_set_transaction x None None None is_local s)"
  "se_txn s \<noteq> None \<Longrightarrow> stmt_set_guc parse_f64 ''transaction_read_only'' v is_local s =
     (case parsed ''transaction_read_only'' parse_bool_guc v of Inl e \<Rightarrow> Inl e | Inr x \<Rightarrow> stmt_set_transaction None x None None is_local s)"
  "se_txn s \<noteq> None \<Longrightarrow> stmt_set_guc parse_f64 ''transaction_deferrable'' v is_local s =
     (case parsed ''transaction_deferrable'' parse_bool_guc v of Inl e \<Rightarrow> Inl e | Inr x \<Rightarrow> stmt_set_transaction None None x None is_local s)"
  by (cases "se_txn s", simp, simp add: stmt_set_guc_def)+

lemma set_guc_logged:
  assumes "stmt_set_guc parse_f64 name v is_local s = Inr (r, s')" and "se_txn s \<noteq> None"
  shows "logged s s'"
proof -
  note sets = set_parsed_logged [OF _ _ assms(2)] and chars = set_transaction_logged [OF _ assms(2)]
  show ?thesis
  proof (cases "name \<in> {''default_transaction_read_only'', ''bytea_output'', ''default_toast_compression'', ''default_transaction_isolation'',
      ''default_transaction_deferrable'', ''transaction_isolation'', ''transaction_read_only'', ''transaction_deferrable''}")
    case True
    then show ?thesis
      unfolding insert_iff empty_iff
    proof (elim disjE FalseE)
      assume n: "name = ''default_transaction_read_only''"
      show ?thesis by (rule sets [OF assms(1) [unfolded n stmt_set_guc_named(1) [OF assms(2)]]]) (rule setters)
    next
      assume n: "name = ''bytea_output''"
      show ?thesis by (rule sets [OF assms(1) [unfolded n stmt_set_guc_named(2) [OF assms(2)]]]) (rule setters)
    next
      assume n: "name = ''default_toast_compression''"
      show ?thesis by (rule sets [OF assms(1) [unfolded n stmt_set_guc_named(3) [OF assms(2)]]]) (rule setters)
    next
      assume n: "name = ''default_transaction_isolation''"
      show ?thesis by (rule sets [OF assms(1) [unfolded n stmt_set_guc_named(4) [OF assms(2)]]]) (rule setters)
    next
      assume n: "name = ''default_transaction_deferrable''"
      show ?thesis by (rule sets [OF assms(1) [unfolded n stmt_set_guc_named(5) [OF assms(2)]]]) (rule setters)
    next
      assume n: "name = ''transaction_isolation''"
      show ?thesis using assms(1) [unfolded n stmt_set_guc_named(6) [OF assms(2)]] by (auto split: sum.splits intro: chars)
    next
      assume n: "name = ''transaction_read_only''"
      show ?thesis using assms(1) [unfolded n stmt_set_guc_named(7) [OF assms(2)]] by (auto split: sum.splits intro: chars)
    next
      assume n: "name = ''transaction_deferrable''"
      show ?thesis using assms(1) [unfolded n stmt_set_guc_named(8) [OF assms(2)]] by (auto split: sum.splits intro: chars)
    qed
  next
    case False
    then have gen: "is_generic_guc name \<or> is_custom_guc name"
      using assms(1) by (auto simp: stmt_set_guc_def split: if_splits)
    note rec = record_logged [OF setter_guc [OF gen] _ assms(2)]
    have "(case (if is_custom_guc name then custom_guc_set_error name else None) of Some e \<Rightarrow> Inl e | None \<Rightarrow>
        (case v of
           SvDefault \<Rightarrow> record_and (guc_stack_name name) is_local (put_guc name None) ''SET'' s
         | SvStr x \<Rightarrow>
             (case validate_generic_guc parse_f64 name x of
                Inl e \<Rightarrow> Inl e
              | Inr canon \<Rightarrow> record_and (guc_stack_name name) is_local (put_guc name (Some canon)) ''SET'' s))) = Inr (r, s')"
      using assms False gen by (simp add: stmt_set_guc_def)
    then show ?thesis using rec by (auto split: option.splits set_value.splits sum.splits)
  qed
qed

definition entry_for :: "session \<Rightarrow> string \<Rightarrow> guc_entry" where
  "entry_for s name = \<lparr>ge_name = name, ge_is_local = False, ge_saved = the (guc_saved_value s name)\<rparr>"

lemma fold_push:
  "\<forall>n \<in> set ns. guc_saved_value s n \<noteq> None \<Longrightarrow>
     (let s' = fold (\<lambda>n. push_guc_entry n False) ns s in
        settings s' = settings s \<and> guc_stack s' = map_option (\<lambda>es. es @ map (entry_for s) ns) (guc_stack s) \<and>
        se_gucs s' = se_gucs s \<and> se_session_user s' = se_session_user s \<and> guc_saved_value s' = guc_saved_value s)"
proof (induction ns arbitrary: s)
  case Nil
  then show ?case by (simp add: option.map_ident)
next
  case (Cons n ns)
  then obtain v where v: "guc_saved_value s n = Some v" by auto
  define s1 where "s1 = push_guc_entry n False s"
  have s1: "s1 = push_entry (entry_for s n) s" by (simp add: s1_def push_guc_entry_def entry_for_def v)
  have same: "guc_saved_value s1 = guc_saved_value s" unfolding s1 by simp
  have "\<forall>m \<in> set ns. guc_saved_value s1 m \<noteq> None" using Cons.prems unfolding same by simp
  from Cons.IH [OF this]
  have IH: "settings (fold (\<lambda>n. push_guc_entry n False) ns s1) = settings s1"
    "guc_stack (fold (\<lambda>n. push_guc_entry n False) ns s1) = map_option (\<lambda>es. es @ map (entry_for s1) ns) (guc_stack s1)"
    "se_gucs (fold (\<lambda>n. push_guc_entry n False) ns s1) = se_gucs s1"
    "se_session_user (fold (\<lambda>n. push_guc_entry n False) ns s1) = se_session_user s1"
    "guc_saved_value (fold (\<lambda>n. push_guc_entry n False) ns s1) = guc_saved_value s1"
    by (simp_all add: Let_def)
  have "entry_for s1 = entry_for s" by (simp add: entry_for_def same fun_eq_iff)
  then show ?case
    using IH by (cases "guc_stack s") (simp_all add: s1_def [symmetric] Let_def, simp_all add: s1)
qed

lemma revert_generic:
  "\<forall>n \<in> set ns. is_generic_guc n \<Longrightarrow> settings x = (a, b, m, c) \<Longrightarrow>
     settings (revert_guc_stack (map (\<lambda>n. \<lparr>ge_name = n, ge_is_local = False, ge_saved = SgGeneric (old n)\<rparr>) ns) False x) =
       (a, b, (\<lambda>k. if k \<in> set ns then old k else m k), c)"
proof (induction ns arbitrary: x m rule: rev_induct)
  case (snoc n ns)
  have "settings (put_guc n (old n) x) = (a, b, m(n := old n), c)" using snoc.prems(2) by simp
  with snoc show ?case by (simp add: fun_eq_iff) fastforce
qed simp

lemma reset_all_logged:
  assumes "stmt_reset_guc ''all'' s = Inr (r, s')" and "se_txn s \<noteq> None"
    and gen: "\<forall>e \<in> set (se_gucs s). is_generic_guc (fst e)"
  shows "logged s s'"
proof -
  let ?six = "[''default_transaction_read_only'', ''bytea_output'', ''default_toast_compression'',
    ''default_transaction_isolation'', ''default_transaction_deferrable'', ''role'']"
  let ?keys = "map fst (se_gucs s)" and ?old = "map_of (se_gucs s)"
  define s1 where "s1 = fold (\<lambda>n. push_guc_entry n False) ?six s"
  define s2 where "s2 = s1\<lparr>se_default_read_only := None, se_bytea_output := BoHex, se_toast_compression := Pglz,
    se_default_level := None, se_default_deferrable := None, se_role := se_session_user s1\<rparr>"
  define s3 where "s3 = fold (\<lambda>n. push_guc_entry (name_to_static n) False) (map fst (se_gucs s2)) s2"
  have s': "s' = s3\<lparr>se_gucs := []\<rparr>"
    using assms(1) by (simp add: stmt_reset_guc_def s1_def s2_def s3_def Let_def del: fold_simps)
  have "\<forall>n \<in> set ?six. guc_saved_value s n \<noteq> None" by (simp add: guc_saved_value_def)
  from fold_push [OF this] have one: "settings s1 = settings s"
    "guc_stack s1 = map_option (\<lambda>es. es @ map (entry_for s) ?six) (guc_stack s)"
    "se_gucs s1 = se_gucs s" "se_session_user s1 = se_session_user s"
    unfolding s1_def [symmetric] by (simp_all add: Let_def)
  have "map name_to_static ?keys = ?keys"
    using gen by (intro map_idI) (auto simp: name_to_static_def is_generic_guc_def)
  moreover have "fold (\<lambda>n. push_guc_entry (name_to_static n) False) ks s2 =
      fold (\<lambda>n. push_guc_entry n False) (map name_to_static ks) s2" for ks
    by (simp add: fold_map comp_def)
  moreover have "se_gucs s2 = se_gucs s" by (simp add: s2_def one(3))
  ultimately have s3: "s3 = fold (\<lambda>n. push_guc_entry n False) ?keys s2"
    unfolding s3_def by metis
  have saved: "guc_saved_value s2 n = Some (SgGeneric (?old n))" if "n \<in> set ?keys" for n
    using that gen special_names one(3) by (auto simp: guc_saved_value_def s2_def)
  then have "\<forall>n \<in> set ?keys. guc_saved_value s2 n \<noteq> None" by blast
  from fold_push [OF this] have two: "settings s3 = settings s2"
    "guc_stack s3 = map_option (\<lambda>es. es @ map (entry_for s2) ?keys) (guc_stack s2)"
    unfolding s3 by (simp_all add: Let_def)
  let ?gen = "map (\<lambda>n. \<lparr>ge_name = n, ge_is_local = False, ge_saved = SgGeneric (?old n)\<rparr>) ?keys"
  have entries: "map (entry_for s2) ?keys = ?gen" using saved by (simp add: entry_for_def)
  obtain es where es: "guc_stack s = Some es" using assms(2) by (auto simp: guc_stack_def)
  have stack: "guc_stack s' = Some (es @ map (entry_for s) ?six @ ?gen)"
  proof -
    have "guc_stack s' = guc_stack s3" "guc_stack s2 = guc_stack s1" by (simp_all add: s' s2_def guc_stack_def)
    then show ?thesis unfolding two(2) one(2) es entries by simp
  qed
  define x where "x = revert_guc_stack ?gen False s'"
  have "settings s' = ((None, None, None), (BoHex, Pglz), Map.empty, (se_session_user s, se_session_user s),
      map_option chars_of (se_txn s))"
    using one two(1) by (simp add: settings_def s' s2_def)
  moreover have "(\<lambda>k. if k \<in> set ?keys then ?old k else Map.empty k) = ?old"
    by (rule ext) (simp add: eq_commute [of None] map_of_eq_None_iff)
  ultimately have x: "settings x = ((None, None, None), (BoHex, Pglz), ?old, (se_session_user s, se_session_user s),
      map_option chars_of (se_txn s))"
    unfolding x_def using revert_generic [of ?keys s'] gen by simp
  have "settings (revert_guc_stack (map (entry_for s) ?six) False x) = settings s"
    using x by (simp add: revert_guc_stack_def entry_for_def guc_saved_value_def settings_def)
  then show ?thesis
    using es stack unfolding logged_def x_def revert_append [symmetric]
    by - (rule exI [of _ es], rule exI [of _ "map (entry_for s) ?six @ ?gen"], simp)
qed

lemma reset_guc_logged:
  assumes "stmt_reset_guc name s = Inr (r, s')" and "se_txn s \<noteq> None" and "name \<noteq> ''all''"
  shows "logged s s'"
proof -
  let ?rec = "\<lambda>n f. record_and n False f ''RESET'' s = Inr (r, s')"
  consider "?rec ''default_transaction_read_only'' (\<lambda>s. s\<lparr>se_default_read_only := None\<rparr>)"
    | "?rec ''default_transaction_isolation'' (\<lambda>s. s\<lparr>se_default_level := None\<rparr>)"
    | "?rec ''default_transaction_deferrable'' (\<lambda>s. s\<lparr>se_default_deferrable := None\<rparr>)"
    | "?rec ''role'' (\<lambda>s. s\<lparr>se_role := se_session_user s\<rparr>)"
    | "?rec ''session_authorization'' (\<lambda>s. s\<lparr>se_session_user := se_auth_user s, se_role := se_auth_user s\<rparr>)"
    | "?rec ''bytea_output'' (\<lambda>s. s\<lparr>se_bytea_output := BoHex\<rparr>)"
    | "?rec ''default_toast_compression'' (\<lambda>s. s\<lparr>se_toast_compression := Pglz\<rparr>)"
    | "is_generic_guc name \<or> is_custom_guc name" "?rec (guc_stack_name name) (put_guc name None)"
    using assms(1,3) unfolding stmt_reset_guc_def by (simp split: if_splits) blast+
  then show ?thesis
    by cases (erule record_logged [OF setter_fields(1) _ assms(2)] record_logged [OF setter_fields(4) _ assms(2)]
      record_logged [OF setter_fields(5) _ assms(2)] record_logged [OF setter_fields(7) _ assms(2)]
      record_logged [OF setter_fields(9) _ assms(2)] record_logged [OF setter_fields(2) _ assms(2)]
      record_logged [OF setter_fields(3) _ assms(2)] record_logged [OF setter_guc _ assms(2)], assumption?)+
qed

lemma record_changed:
  assumes "setter name f" and "se_txn s \<noteq> None"
  shows "logged s (f (push_guc_entry name False s))"
  using record_logged [OF assms(1) _ assms(2)] by (simp add: record_and_def)

lemma push_txn [simp]:
  "se_txn (push_guc_entry name l s) = None \<longleftrightarrow> se_txn s = None"
  "(\<exists>t. se_txn (push_guc_entry name l s) = Some t) \<longleftrightarrow> (\<exists>t. se_txn s = Some t)"
  by (auto simp: push_guc_entry_def push_entry_def split: option.split)

lemma session_chars_logged:
  assumes "se_txn s \<noteq> None"
  shows "logged s (snd (set_session_chars level ro d s))"
proof -
  let ?l = "\<lambda>s. (push_guc_entry ''default_transaction_isolation'' False s)\<lparr>se_default_level := level\<rparr>"
  let ?r = "\<lambda>s. (push_guc_entry ''default_transaction_read_only'' False s)\<lparr>se_default_read_only := ro\<rparr>"
  let ?d = "\<lambda>s. (push_guc_entry ''default_transaction_deferrable'' False s)\<lparr>se_default_deferrable := d\<rparr>"
  have steps: "logged s (?l s)" "logged s (?r s)" "logged s (?d s)" if "se_txn s \<noteq> None" for s
    using record_changed [OF setter_fields(4) that] record_changed [OF setter_fields(1) that]
      record_changed [OF setter_fields(5) that] by simp_all
  define s1 where "s1 = (if level \<noteq> None then ?l s else s)"
  define s2 where "s2 = (if ro \<noteq> None then ?r s1 else s1)"
  have o1: "se_txn s1 \<noteq> None" using assms unfolding s1_def by (cases level) simp_all
  have o2: "se_txn s2 \<noteq> None" using o1 unfolding s2_def by (cases ro) simp_all
  have first: "logged s s1" using steps(1) [OF assms] logged_refl [OF assms] by (simp add: s1_def)
  have second: "logged s1 s2" using steps(2) [OF o1] logged_refl [OF o1] by (simp add: s2_def)
  have result: "snd (set_session_chars level ro d s) = (if d \<noteq> None then ?d s2 else s2)"
    unfolding set_session_chars_def Let_def s1_def s2_def snd_conv ..
  have third: "logged s2 (if d \<noteq> None then ?d s2 else s2)" using steps(3) [OF o2] logged_refl [OF o2] by simp
  show ?thesis unfolding result by (rule logged_trans [OF logged_trans [OF first second] third])
qed

lemma set_role_logged:
  "stmt_set_role eng target is_local s = Inr (r, s') \<Longrightarrow> se_txn s \<noteq> None \<Longrightarrow> logged s s'"
  by (auto simp: stmt_set_role_def Let_def intro: record_logged [OF setter_fields(6)] split: if_splits option.splits)

lemma set_session_authorization_logged:
  "stmt_set_session_authorization eng target is_local s = Inr (r, s') \<Longrightarrow> se_txn s \<noteq> None \<Longrightarrow> logged s s'"
  by (auto simp: stmt_set_session_authorization_def Let_def intro: record_logged [OF setter_fields(8)] split: if_splits option.splits)

lemma run_set_logged:
  assumes "run_set parse_f64 eng st s = Inr (r, s')" and "se_txn s \<noteq> None"
    and "st = ResetGuc ''all'' \<longrightarrow> (\<forall>e \<in> set (se_gucs s). is_generic_guc (fst e))"
  shows "logged s s'"
proof (cases st)
  case (SetTransaction l ro d snapshot)
  then show ?thesis using assms set_transaction_logged by (simp add: run_set_def)
next
  case (SetSessionChars l ro d)
  then show ?thesis using assms(1) session_chars_logged [OF assms(2), of l ro d] by (auto simp: run_set_def)
next
  case (SetGuc name v is_local)
  then show ?thesis
    using assms(1) set_role_logged [OF _ assms(2)] set_session_authorization_logged [OF _ assms(2)] set_guc_logged [OF _ assms(2)]
    by (simp add: run_set_def split: if_splits)
next
  case (ResetGuc name)
  then show ?thesis
    using assms reset_all_logged [OF _ assms(2)] reset_guc_logged [OF _ assms(2)] by (cases "name = ''all''") (auto simp: run_set_def)
qed

section \<open>Property\<close>

text \<open>The setting statements of a transaction in order; one that fails changes nothing.\<close>

fun run_sets :: "(string \<Rightarrow> u64 option) \<Rightarrow> (engine \<times> set_stmt) list \<Rightarrow> session \<Rightarrow> session" where
  "run_sets parse_f64 [] s = s"
| "run_sets parse_f64 ((eng, st) # sts) s =
     run_sets parse_f64 sts (case run_set parse_f64 eng st s of Inl e \<Rightarrow> s | Inr (r, s') \<Rightarrow> s')"

text \<open>No custom variable is set when \<^verbatim>\<open>RESET ALL\<close> runs.\<close>

fun resets_generic :: "(string \<Rightarrow> u64 option) \<Rightarrow> (engine \<times> set_stmt) list \<Rightarrow> session \<Rightarrow> bool" where
  "resets_generic parse_f64 [] s \<longleftrightarrow> True"
| "resets_generic parse_f64 ((eng, st) # sts) s \<longleftrightarrow>
     (st = ResetGuc ''all'' \<longrightarrow> list_all (\<lambda>e. is_generic_guc (fst e)) (se_gucs s)) \<and>
     resets_generic parse_f64 sts (case run_set parse_f64 eng st s of Inl e \<Rightarrow> s | Inr (r, s') \<Rightarrow> s')"

lemma run_sets_logged: "resets_generic parse_f64 sts s \<Longrightarrow> se_txn s \<noteq> None \<Longrightarrow> logged s (run_sets parse_f64 sts s)"
proof (induction sts arbitrary: s)
  case Nil
  then show ?case by (simp add: logged_refl)
next
  case (Cons e sts)
  obtain eng st where e: "e = (eng, st)" by (cases e)
  define s1 where "s1 = (case run_set parse_f64 eng st s of Inl e \<Rightarrow> s | Inr (r, s') \<Rightarrow> s')"
  have step: "logged s s1"
  proof (cases "run_set parse_f64 eng st s")
    case (Inl err)
    then show ?thesis using logged_refl Cons.prems(2) by (simp add: s1_def)
  next
    case (Inr p)
    obtain r s' where p: "p = (r, s')" by (cases p)
    show ?thesis
      using run_set_logged [of parse_f64 eng st s r s'] Inr p Cons.prems e by (simp add: s1_def list_all_iff)
  qed
  then have "se_txn s1 \<noteq> None" by (auto simp: logged_def guc_stack_def)
  with Cons.IH [of s1] Cons.prems(1) e have "logged s1 (run_sets parse_f64 sts s1)" by (simp add: s1_def)
  with step show ?case using logged_trans by (simp add: e s1_def)
qed

text \<open>
  C7. Rolling back to any point of a transaction restores its settings: after any
  statements that set, reset or switch settings, roles or transaction characteristics,
  undoing the entries they pushed on the stack, newest first, gives back every session
  default, planner setting, custom variable, role, session user and characteristic.
  \<^verbatim>\<open>RESET ALL\<close> is covered while no custom variable is set.
\<close>

theorem settings_roll_back:
  assumes "se_txn s = Some t" and "resets_generic parse_f64 sts s"
  shows "\<exists>t' entries. se_txn (run_sets parse_f64 sts s) = Some t' \<and> tx_guc_stack t' = tx_guc_stack t @ entries \<and>
    settings (revert_guc_stack entries False (run_sets parse_f64 sts s)) = settings s"
  using run_sets_logged [OF assms(2)] assms(1) by (auto simp: logged_def guc_stack_def)

definition txn_new :: "nat \<Rightarrow> txn" where
  "txn_new xid =
     \<lparr>tx_xid = xid, tx_level = ReadCommitted, tx_read_only = None, tx_deferrable = None, tx_snapshot = None,
      tx_first_snapshot_set = False, tx_writes = [], tx_savepoints = [], tx_sub_xids = [], tx_owned_xids = [],
      tx_cursor_marks = [], tx_failed = False, tx_implicit = False, tx_guc_stack = [], tx_guc_marks = [],
      tx_char_marks = [], tx_deferred_marks = []\<rparr>"

definition demo_session :: session where
  "demo_session = (session_new 3 ''postgres'')\<lparr>se_txn := Some (txn_new 7)\<rparr>"

definition demo_sets :: "(engine \<times> set_stmt) list" where
  "demo_sets = map (Pair demo_start)
     [SetGuc ''my.flag'' (SvStr ''1'') False, SetGuc ''work_mem'' (SvStr ''64kB'') True,
      SetGuc ''bytea_output'' (SvStr ''escape'') False, SetTransaction (Some Serializable) None None None]"

theorem settings_roll_back_witness:
  "\<exists>t' entries. se_txn (run_sets (\<lambda>_. None) demo_sets demo_session) = Some t' \<and> tx_guc_stack t' = [] @ entries \<and>
     settings (revert_guc_stack entries False (run_sets (\<lambda>_. None) demo_sets demo_session)) = settings demo_session"
proof -
  have "resets_generic (\<lambda>_. None) demo_sets demo_session" by (simp add: demo_sets_def)
  from settings_roll_back [OF _ this, of "txn_new 7"] show ?thesis by (simp add: demo_session_def txn_new_def)
qed

section \<open>Where the code departs from its intent\<close>

definition value_after :: "string \<Rightarrow> bool \<Rightarrow> session \<Rightarrow> string option" where
  "value_after name commit s =
     (case se_txn s of
        None \<Rightarrow> None
      | Some t \<Rightarrow> guc_value (\<lambda>_. None) None (revert_guc_stack (tx_guc_stack t) commit (s\<lparr>se_txn := None\<rparr>)) name)"

text \<open>A value set after \<^verbatim>\<open>SET LOCAL\<close> of the same setting is lost at commit.\<close>

theorem set_after_local_lost:
  "value_after ''geqo'' True
     (run_sets (\<lambda>_. None) (map (Pair demo_start) [SetGuc ''geqo'' (SvStr ''off'') False]) demo_session) = Some ''off'' \<and>
   value_after ''geqo'' True
     (run_sets (\<lambda>_. None) (map (Pair demo_start)
        [SetGuc ''geqo'' (SvStr ''on'') True, SetGuc ''geqo'' (SvStr ''off'') False]) demo_session) = Some ''on''"
  by code_simp

text \<open>\<^verbatim>\<open>RESET ALL\<close> records no entry for a custom variable, so a rollback does not restore it.\<close>

theorem reset_all_forgets_custom:
  "value_after ''my.flag'' False
     (run_sets (\<lambda>_. None) (map (Pair demo_start) [ResetGuc ''my.flag'']) (put_guc ''my.flag'' (Some ''1'') demo_session)) = Some ''1'' \<and>
   value_after ''my.flag'' False
     (run_sets (\<lambda>_. None) (map (Pair demo_start) [ResetGuc ''all'']) (put_guc ''my.flag'' (Some ''1'') demo_session)) = Some []"
  by code_simp

text \<open>A bare letter is taken for \<^verbatim>\<open>on\<close>, although it begins both \<^verbatim>\<open>on\<close> and \<^verbatim>\<open>off\<close>.\<close>

theorem ambiguous_bool_is_on: "parse_bool_guc ''o'' = Some True \<and> parse_bool_guc ''of'' = Some False"
  by code_simp

end
