(* ===== verification/Deferred.thy ===== *)
theory Deferred
  imports Settings
begin

text \<open>
  Deferred constraint checks (\<^verbatim>\<open>exec/deferred.rs\<close>): the queue of a session, its modes, the marks
  of savepoints and the flush of the queue. Firing one entry runs the executor on tables
  with foreign keys and triggers, which are not modelled: the flush takes the firing of a
  constraint entry and of a trigger entry as arguments. The constraints that
  \<^verbatim>\<open>SET CONSTRAINTS\<close> can name are an argument too.
\<close>

section \<open>State\<close>

datatype pending_fk =
    PfChild string string "sql_value list"
  | PfParent string string string nat row
  | PfUnique string string

record pending_trig =
  pt_def_table :: string
  pt_fire_table :: string
  pt_trigger_name :: string
  pt_event :: u8
  pt_old_values :: "row option"
  pt_new_values :: "row option"

record deferred_state =
  df_queue :: "pending_fk list"
  df_modes :: constraint_modes
  df_firing :: "(string \<times> string) list"
  df_trig_queue :: "pending_trig list"

type_synonym deferred_map = "(nat \<times> deferred_state) list"

definition deferred_empty :: deferred_state where
  "deferred_empty = \<lparr>df_queue = [], df_modes = [], df_firing = [], df_trig_queue = []\<rparr>"

definition state_of :: "deferred_map \<Rightarrow> nat \<Rightarrow> deferred_state" where
  "state_of m sid = (case map_of m sid of Some st \<Rightarrow> st | None \<Rightarrow> deferred_empty)"

definition hm_delete :: "'k \<Rightarrow> ('k \<times> 'v) list \<Rightarrow> ('k \<times> 'v) list" where
  "hm_delete k m = filter (\<lambda>e. fst e \<noteq> k) m"

definition store_state :: "nat \<Rightarrow> deferred_state \<Rightarrow> deferred_map \<Rightarrow> deferred_map" where
  "store_state sid st m =
     (if df_queue st = [] \<and> df_modes st = [] \<and> df_trig_queue st = [] then hm_delete sid m else hm_insert sid st m)"

section \<open>Modes\<close>

text \<open>The flags of a constraint that the mode depends on.\<close>

record constraint_flags =
  cf_name :: string
  cf_deferrable :: bool
  cf_enforced :: bool
  cf_initially_deferred :: bool

definition mode_deferred :: "deferred_map \<Rightarrow> nat \<Rightarrow> string \<Rightarrow> constraint_flags \<Rightarrow> bool" where
  "mode_deferred m sid tab c =
     (if \<not> cf_deferrable c \<or> \<not> cf_enforced c then False
      else case map_of m sid of
        None \<Rightarrow> cf_initially_deferred c
      | Some st \<Rightarrow>
          if (tab, cf_name c) \<in> set (df_firing st) then False
          else (case map_of (df_modes st) (tab, cf_name c) of Some d \<Rightarrow> d | None \<Rightarrow> cf_initially_deferred c))"

definition fk_mode_deferred :: "deferred_map \<Rightarrow> nat \<Rightarrow> string \<Rightarrow> constraint_flags \<Rightarrow> bool" where
  "fk_mode_deferred m sid child fk = mode_deferred m sid child fk"

definition trig_mode_deferred :: "deferred_map \<Rightarrow> nat \<Rightarrow> string \<Rightarrow> constraint_flags \<Rightarrow> bool" where
  "trig_mode_deferred m sid tab tr = mode_deferred m sid tab tr"

section \<open>Queueing\<close>

definition update_state :: "nat \<Rightarrow> (deferred_state \<Rightarrow> deferred_state) \<Rightarrow> deferred_map \<Rightarrow> deferred_map" where
  "update_state sid f m = hm_insert sid (f (state_of m sid)) m"

definition queue_child_fk :: "nat \<Rightarrow> string \<Rightarrow> string \<Rightarrow> sql_value list \<Rightarrow> deferred_map \<Rightarrow> deferred_map" where
  "queue_child_fk sid child fk_name key =
     update_state sid (\<lambda>st. st\<lparr>df_queue := df_queue st @ [PfChild child fk_name key]\<rparr>)"

definition queue_parent_fk ::
  "nat \<Rightarrow> string \<Rightarrow> string \<Rightarrow> string \<Rightarrow> nat \<Rightarrow> row \<Rightarrow> deferred_map \<Rightarrow> deferred_map" where
  "queue_parent_fk sid parent child fk_name row_id old_values =
     update_state sid (\<lambda>st. st\<lparr>df_queue := df_queue st @ [PfParent parent child fk_name row_id old_values]\<rparr>)"

definition queue_unique :: "nat \<Rightarrow> string \<Rightarrow> string \<Rightarrow> deferred_map \<Rightarrow> deferred_map" where
  "queue_unique sid rel con_name =
     update_state sid (\<lambda>st. if PfUnique rel con_name \<in> set (df_queue st) then st
       else st\<lparr>df_queue := df_queue st @ [PfUnique rel con_name]\<rparr>)"

definition queue_trig :: "nat \<Rightarrow> pending_trig \<Rightarrow> deferred_map \<Rightarrow> deferred_map" where
  "queue_trig sid e = update_state sid (\<lambda>st. st\<lparr>df_trig_queue := df_trig_queue st @ [e]\<rparr>)"

definition pending_fk_event_table :: "deferred_map \<Rightarrow> nat \<Rightarrow> string \<Rightarrow> string option" where
  "pending_fk_event_table m sid fk_name =
     Option.bind (map_of m sid) (\<lambda>st. find_first (\<lambda>p. case p of
         PfChild child n _ \<Rightarrow> if n = fk_name then Some child else None
       | PfParent _ child n _ _ \<Rightarrow> if n = fk_name then Some child else None
       | PfUnique _ _ \<Rightarrow> None) (df_queue st))"

section \<open>Marks of savepoints\<close>

definition deferred_mark_of :: "deferred_map \<Rightarrow> nat \<Rightarrow> deferred_mark" where
  "deferred_mark_of m sid =
     (let st = state_of m sid in (length (df_queue st), df_modes st, length (df_trig_queue st)))"

definition deferred_restore :: "nat \<Rightarrow> deferred_mark \<Rightarrow> deferred_map \<Rightarrow> deferred_map" where
  "deferred_restore sid mark m =
     (let st = state_of m sid; (queue_len, modes, trig_len) = mark
      in store_state sid (st\<lparr>df_queue := take queue_len (df_queue st), df_modes := modes,
                             df_trig_queue := take trig_len (df_trig_queue st)\<rparr>) m)"

definition deferred_clear :: "nat \<Rightarrow> deferred_map \<Rightarrow> deferred_map" where
  "deferred_clear sid m = hm_delete sid m"

section \<open>Flushing the queue\<close>

text \<open>What firing an entry reads and changes: the engine, the log of the transaction and the queues.\<close>

record fire_state =
  fs_engine :: engine
  fs_writes :: "write_op list"
  fs_deferred :: deferred_map

fun fire_list :: "('e \<Rightarrow> fire_state \<Rightarrow> exec_error option \<times> fire_state) \<Rightarrow> 'e list \<Rightarrow> fire_state \<Rightarrow> exec_error option \<times> fire_state" where
  "fire_list fire [] st = (None, st)"
| "fire_list fire (e # es) st =
     (case fire e st of (Some err, st') \<Rightarrow> (Some err, st') | (None, st') \<Rightarrow> fire_list fire es st')"

definition fk_selected :: "(string \<times> string) set option \<Rightarrow> pending_fk \<Rightarrow> bool" where
  "fk_selected only e =
     (case only of
        None \<Rightarrow> True
      | Some sel \<Rightarrow>
          (case e of
             PfChild child fk_name _ \<Rightarrow> (child, fk_name) \<in> sel
           | PfParent _ child fk_name _ _ \<Rightarrow> (child, fk_name) \<in> sel
           | PfUnique tab con_name \<Rightarrow> (tab, con_name) \<in> sel))"

definition trig_selected :: "(string \<times> string) set option \<Rightarrow> pending_trig \<Rightarrow> bool" where
  "trig_selected only e =
     (case only of None \<Rightarrow> True | Some sel \<Rightarrow> (pt_def_table e, pt_trigger_name e) \<in> sel)"

definition not_drained :: exec_error where
  "not_drained = ExecErr ''54000'' ''deferred foreign key queue did not drain''"

fun flush_rounds ::
  "(pending_fk \<Rightarrow> fire_state \<Rightarrow> exec_error option \<times> fire_state) \<Rightarrow>
   (pending_trig \<Rightarrow> fire_state \<Rightarrow> exec_error option \<times> fire_state) \<Rightarrow>
   nat \<Rightarrow> (string \<times> string) set option \<Rightarrow> nat \<Rightarrow> fire_state \<Rightarrow> exec_error option \<times> fire_state" where
  "flush_rounds fire_fk fire_trig sid only 0 st = (Some not_drained, st)"
| "flush_rounds fire_fk fire_trig sid only (Suc n) st =
     (case map_of (fs_deferred st) sid of
        None \<Rightarrow> (None, st)
      | Some d \<Rightarrow>
          (let batch = filter (fk_selected only) (df_queue d);
               st1 = st\<lparr>fs_deferred := hm_insert sid (d\<lparr>df_queue := filter (\<lambda>e. \<not> fk_selected only e) (df_queue d)\<rparr>)
                                         (fs_deferred st)\<rparr>
           in if batch = []
              then (let tbatch = filter (trig_selected only) (df_trig_queue d);
                        st2 = st1\<lparr>fs_deferred := hm_insert sid
                          (d\<lparr>df_queue := filter (\<lambda>e. \<not> fk_selected only e) (df_queue d),
                             df_trig_queue := filter (\<lambda>e. \<not> trig_selected only e) (df_trig_queue d)\<rparr>) (fs_deferred st1)\<rparr>
                    in if tbatch = [] then (None, st2)
                       else (case fire_list fire_trig tbatch st2 of
                               (Some err, st') \<Rightarrow> (Some err, st')
                             | (None, st') \<Rightarrow> flush_rounds fire_fk fire_trig sid only n st'))
              else (case fire_list fire_fk batch st1 of
                      (Some err, st') \<Rightarrow> (Some err, st')
                    | (None, st') \<Rightarrow> flush_rounds fire_fk fire_trig sid only n st')))"

definition flush_deferred_fk ::
  "(pending_fk \<Rightarrow> fire_state \<Rightarrow> exec_error option \<times> fire_state) \<Rightarrow>
   (pending_trig \<Rightarrow> fire_state \<Rightarrow> exec_error option \<times> fire_state) \<Rightarrow>
   nat \<Rightarrow> (string \<times> string) set option \<Rightarrow> fire_state \<Rightarrow> exec_error option \<times> fire_state" where
  "flush_deferred_fk fire_fk fire_trig sid only = flush_rounds fire_fk fire_trig sid only 64"

section \<open>SET CONSTRAINTS\<close>

text \<open>
  The universe lists the visible constraints: the table, the name by which it is looked up,
  whether it is deferrable, and its own name.
\<close>

record constraint_entry =
  ce_table :: string
  ce_name :: string
  ce_deferrable :: bool

definition qualifies :: "string option \<Rightarrow> string \<Rightarrow> bool" where
  "qualifies qual tab =
     (case qual of
        None \<Rightarrow> True
      | Some q \<Rightarrow> (case rsplit_once (CHR ''.'') tab of Some (s, _) \<Rightarrow> s = q | None \<Rightarrow> False) \<or> tab = q)"

fun constraint_targets ::
  "constraint_entry list \<Rightarrow> string list \<Rightarrow> exec_error + (string \<times> string) list" where
  "constraint_targets universe [] = Inr []"
| "constraint_targets universe (raw # raws) =
     (let (qual, base) = (case rsplit_once (CHR ''.'') raw of Some (q, b) \<Rightarrow> (Some q, b) | None \<Rightarrow> (None, raw));
          matches = filter (\<lambda>c. ce_name c = base \<and> qualifies qual (ce_table c)) universe
      in if matches = [] then Inl (ExecErr ''42704'' (''constraint \"'' @ base @ ''\" does not exist''))
         else if \<not> list_ex ce_deferrable matches
         then Inl (ExecErr ''55000'' (''constraint \"'' @ base @ ''\" is not deferrable''))
         else map_sum id (\<lambda>rest. map (\<lambda>c. (ce_table c, ce_name c)) (filter ce_deferrable matches) @ rest)
                (constraint_targets universe raws))"

definition exec_set_constraints ::
  "(pending_fk \<Rightarrow> fire_state \<Rightarrow> exec_error option \<times> fire_state) \<Rightarrow>
   (pending_trig \<Rightarrow> fire_state \<Rightarrow> exec_error option \<times> fire_state) \<Rightarrow>
   constraint_entry list \<Rightarrow> nat \<Rightarrow> string list option \<Rightarrow> bool \<Rightarrow> fire_state \<Rightarrow>
   (exec_error + exec_result) \<times> fire_state" where
  "exec_set_constraints fire_fk fire_trig universe sid names deferred st =
     (case (case names of
              None \<Rightarrow> Inr (map (\<lambda>c. (ce_table c, ce_name c)) (filter ce_deferrable universe))
            | Some raws \<Rightarrow> constraint_targets universe raws) of
        Inl e \<Rightarrow> (Inl e, st)
      | Inr targets \<Rightarrow>
          (let st1 = st\<lparr>fs_deferred := update_state sid
                 (\<lambda>d. d\<lparr>df_modes := fold (\<lambda>k. hm_insert k deferred) targets (df_modes d)\<rparr>) (fs_deferred st)\<rparr>
           in if deferred then (Inr (RCommand ''SET CONSTRAINTS''), st1)
              else (case flush_deferred_fk fire_fk fire_trig sid (Some (set targets)) st1 of
                      (Some e, st2) \<Rightarrow> (Inl e, st2)
                    | (None, st2) \<Rightarrow> (Inr (RCommand ''SET CONSTRAINTS''), st2))))"

section \<open>The queue after a flush and after a rollback to a savepoint\<close>

lemma map_of_hm_delete [simp]: "map_of (hm_delete k m) = (map_of m)(k := None)"
  by (induction m) (auto simp: hm_delete_def fun_eq_iff)

text \<open>A flush that succeeds leaves no selected entry in the queues.\<close>

lemma flush_drains:
  "flush_rounds fire_fk fire_trig sid only n st = (None, st') \<Longrightarrow>
     (\<forall>e \<in> set (df_queue (state_of (fs_deferred st') sid)). \<not> fk_selected only e) \<and>
     (\<forall>e \<in> set (df_trig_queue (state_of (fs_deferred st') sid)). \<not> trig_selected only e)"
proof (induction n arbitrary: st)
  case (Suc n)
  show ?case
  proof (cases "map_of (fs_deferred st) sid")
    case None
    then show ?thesis using Suc.prems by (auto simp: state_of_def deferred_empty_def)
  next
    case (Some d)
    then show ?thesis
      using Suc by (auto simp: Let_def state_of_def map_of_hm_insert filter_empty_conv split: if_splits prod.splits option.splits)
  qed
qed simp

text \<open>Restoring a mark drops what was queued after it, and nothing else when the queue only grew.\<close>

lemma deferred_restore_grown:
  assumes "df_queue (state_of m sid) = df_queue (state_of m0 sid) @ q"
    and "df_trig_queue (state_of m sid) = df_trig_queue (state_of m0 sid) @ tq"
  shows "df_queue (state_of (deferred_restore sid (deferred_mark_of m0 sid) m) sid) = df_queue (state_of m0 sid) \<and>
    df_trig_queue (state_of (deferred_restore sid (deferred_mark_of m0 sid) m) sid) = df_trig_queue (state_of m0 sid) \<and>
    df_modes (state_of (deferred_restore sid (deferred_mark_of m0 sid) m) sid) = df_modes (state_of m0 sid)"
  using assms
  by (simp add: deferred_restore_def deferred_mark_of_def store_state_def Let_def)
    (auto simp: state_of_def [of "hm_delete sid m"] state_of_def [of "hm_insert sid _ m"] map_of_hm_insert deferred_empty_def)

text \<open>
  A failed flush inside a savepoint has taken its entries off the queue before firing them,
  and restoring the mark does not bring them back: the next flush, at commit, checks nothing.
\<close>

definition violated :: "pending_fk \<Rightarrow> fire_state \<Rightarrow> exec_error option \<times> fire_state" where
  "violated e st = (Some (ExecErr ''23505'' ''duplicate key value violates unique constraint''), st)"

definition queued_once :: "engine \<Rightarrow> fire_state" where
  "queued_once eng = \<lparr>fs_engine = eng, fs_writes = [], fs_deferred = queue_unique 3 ''t'' ''u'' []\<rparr>"

theorem rollback_to_drops_checks:
  "fst (flush_deferred_fk violated (\<lambda>_ st. (None, st)) 3 None (queued_once eng)) \<noteq> None \<and>
   (let mark = deferred_mark_of (fs_deferred (queued_once eng)) 3;
        failed = snd (exec_set_constraints violated (\<lambda>_ st. (None, st)) [\<lparr>ce_table = ''t'', ce_name = ''u'', ce_deferrable = True\<rparr>]
          3 None False (queued_once eng));
        back = failed\<lparr>fs_deferred := deferred_restore 3 mark (fs_deferred failed)\<rparr>
    in fst (flush_deferred_fk violated (\<lambda>_ st. (None, st)) 3 None back) = None)"
  by (simp add: queued_once_def queue_unique_def update_state_def state_of_def deferred_empty_def flush_deferred_fk_def
      exec_set_constraints_def violated_def fk_selected_def deferred_mark_of_def deferred_restore_def store_state_def
      numeral_eq_Suc hm_delete_def Let_def)

end
