(* ===== verification/Session.thy ===== *)
theory Session
  imports Deferred
begin

text \<open>
  Transaction control of a session (\<^verbatim>\<open>server.rs\<close>): statement snapshots, \<^verbatim>\<open>BEGIN\<close>, \<^verbatim>\<open>COMMIT\<close>,
  \<^verbatim>\<open>ROLLBACK\<close>, savepoints, the implicit block of a multi-statement query, the retirement of
  transactions and the cleanup after them. What the durable log derives from a transaction,
  whether its append succeeds, and the firing of deferred checks are arguments. The outer
  \<^verbatim>\<open>None\<close> is a panic. Portals of procedural functions and the start time of a transaction are
  not modelled.
\<close>

section \<open>State\<close>

record server =
  sv_engine :: engine
  sv_deferred :: deferred_map

record ('w, 'r) commit_env =
  wl_records :: "engine \<Rightarrow> nat \<Rightarrow> write_op list \<Rightarrow> nat \<Rightarrow> string + 'r list"
  wl_append :: "'r list \<Rightarrow> 'w \<Rightarrow> string option \<times> 'w"
  wl_fire_fk :: "stmt_ctx \<Rightarrow> pending_fk \<Rightarrow> fire_state \<Rightarrow> exec_error option \<times> fire_state"
  wl_fire_trig :: "stmt_ctx \<Rightarrow> pending_trig \<Rightarrow> fire_state \<Rightarrow> exec_error option \<times> fire_state"

definition write_xid :: "txn \<Rightarrow> nat" where
  "write_xid t = (if tx_sub_xids t = [] then tx_xid t else last (tx_sub_xids t))"

definition all_xids :: "txn \<Rightarrow> nat list" where
  "all_xids t = tx_xid t # tx_owned_xids t"

definition with_txns :: "(txn_manager \<Rightarrow> txn_manager) \<Rightarrow> engine \<Rightarrow> engine" where
  "with_txns f eng = eng\<lparr>en_txns := f (en_txns eng)\<rparr>"

definition txn_snapshot :: "engine \<Rightarrow> txn \<Rightarrow> (snapshot \<times> nat \<times> isolation_level) \<times> engine \<times> txn" where
  "txn_snapshot eng t =
     (let fresh = take_snapshot (en_txns eng);
          (snap, eng', t') =
            (case tx_level t of
               ReadCommitted \<Rightarrow> (fresh, eng, t)
             | _ \<Rightarrow>
                 (case tx_snapshot t of
                    Some s \<Rightarrow> (s, eng, t)
                  | None \<Rightarrow> (fresh, with_txns (register_snapshot (tx_xid t) fresh) eng, t\<lparr>tx_snapshot := Some fresh\<rparr>)))
      in ((snap, tx_xid t, tx_level t), eng', t'\<lparr>tx_first_snapshot_set := True\<rparr>))"

definition stmt_snapshot :: "engine \<Rightarrow> txn option \<Rightarrow> (snapshot \<times> nat \<times> isolation_level) \<times> engine \<times> txn option" where
  "stmt_snapshot eng txn =
     (case txn of
        None \<Rightarrow> ((take_snapshot (en_txns eng), 0, ReadCommitted), eng, None)
      | Some t \<Rightarrow> (let (r, eng', t') = txn_snapshot eng t in (r, eng', Some t')))"

text \<open>The context of a statement that runs in the transaction.\<close>

definition txn_ctx :: "snapshot \<Rightarrow> txn \<Rightarrow> session \<Rightarrow> stmt_ctx" where
  "txn_ctx snap t s =
     \<lparr>cx_snap = snap, cx_own = tx_xid t, cx_write_xid = write_xid t, cx_all_xids = all_xids t, cx_level = tx_level t,
      cx_session = se_sid s, cx_role = se_role s\<rparr>"

section \<open>The end of a transaction\<close>

definition retire_txn :: "nat \<Rightarrow> engine \<Rightarrow> engine" where
  "retire_txn xid eng = with_txns (release_txn_locks xid) (with_txns (end_txn xid) eng)"

definition retire_txn_family :: "txn \<Rightarrow> engine \<Rightarrow> engine" where
  "retire_txn_family t eng = retire_txn (tx_xid t) (fold (\<lambda>sub. with_txns (end_txn sub)) (tx_owned_xids t) eng)"

definition retire_txn_family_sid :: "txn \<Rightarrow> nat \<Rightarrow> server \<Rightarrow> server" where
  "retire_txn_family_sid t sid srv =
     srv\<lparr>sv_engine := retire_txn_family t (sv_engine srv), sv_deferred := deferred_clear sid (sv_deferred srv)\<rparr>"

fun vacuumed_name :: "write_op \<Rightarrow> string option" where
  "vacuumed_name (DeleteRow tab i x) = Some tab"
| "vacuumed_name (UpdateRow tab i j x vals) = Some tab"
| "vacuumed_name (DropTable name x) = Some name"
| "vacuumed_name (AlterTable name prev renamed rewrite) = Some name"
| "vacuumed_name _ = None"

definition vacuumed_names :: "write_op list \<Rightarrow> string list" where
  "vacuumed_names ops =
     fold (\<lambda>op names. case vacuumed_name op of
       Some n \<Rightarrow> if n \<in> set names then names else names @ [n] | None \<Rightarrow> names) ops []"

fun vacuum_names :: "key_env \<Rightarrow> string list \<Rightarrow> engine \<Rightarrow> engine option" where
  "vacuum_names env [] eng = Some eng"
| "vacuum_names env (n # ns) eng =
     (case vacuum_table env n eng of None \<Rightarrow> None | Some (k, eng') \<Rightarrow> vacuum_names env ns eng')"

definition auto_vacuum :: "key_env \<Rightarrow> write_op list \<Rightarrow> engine \<Rightarrow> engine option" where
  "auto_vacuum env ops eng = vacuum_names env (vacuumed_names ops) eng"

text \<open>
  What every abort does: undo, retire and clean up in the engine, close the cursors and revert
  the settings in the session, whose transaction has been taken out.
\<close>

definition abort_engine :: "key_env \<Rightarrow> txn \<Rightarrow> nat \<Rightarrow> server \<Rightarrow> server option" where
  "abort_engine env t sid srv =
     (case undo_all env (all_xids t) (tx_writes t) (sv_engine srv) of
        None \<Rightarrow> None
      | Some eng \<Rightarrow>
          (let srv1 = retire_txn_family_sid t sid (srv\<lparr>sv_engine := eng\<rparr>)
           in map_option (\<lambda>e. srv1\<lparr>sv_engine := e\<rparr>) (auto_vacuum env (tx_writes t) (sv_engine srv1))))"

definition abort_session :: "txn \<Rightarrow> session \<Rightarrow> session" where
  "abort_session t s = revert_guc_stack (tx_guc_stack t) False (s\<lparr>se_cursors := []\<rparr>)"

definition cmd :: "string \<Rightarrow> exec_error + exec_result" where
  "cmd tag = Inr (RCommand tag)"

definition queue_warning :: "string \<Rightarrow> session \<Rightarrow> session" where
  "queue_warning message s = s\<lparr>se_pending_warnings := se_pending_warnings s @ [message]\<rparr>"

definition no_transaction :: string where
  "no_transaction = ''there is no transaction in progress''"

definition wal_err :: "string \<Rightarrow> exec_error" where
  "wal_err e = ExecErr ''58000'' (''WAL write failed: '' @ e)"

definition commit_conflict :: "string \<Rightarrow> exec_error" where
  "commit_conflict msg = ExecErr ''40001'' (''could not serialize access due to concurrent update: '' @ msg)"

type_synonym 'w ended = "((exec_error + exec_result) \<times> 'w \<times> server \<times> session) option"

definition abort_with ::
  "key_env \<Rightarrow> txn \<Rightarrow> exec_error + exec_result \<Rightarrow> 'w \<Rightarrow> server \<Rightarrow> session \<Rightarrow> 'w ended" where
  "abort_with env t res w srv s =
     map_option (\<lambda>srv'. (res, w, srv', abort_session t s)) (abort_engine env t (se_sid s) srv)"

definition commit_taken_txn ::
  "key_env \<Rightarrow> ('w, 'r) commit_env \<Rightarrow> txn \<Rightarrow> 'w \<Rightarrow> server \<Rightarrow> session \<Rightarrow> 'w ended" where
  "commit_taken_txn env c t w srv s =
     (if tx_failed t then abort_with env t (cmd ''ROLLBACK'') w srv s
      else
        (let ((snap, _, _), eng1, t1) = txn_snapshot (sv_engine srv) t;
             ctx = txn_ctx snap t1 s;
             (flushed, st) = flush_deferred_fk (wl_fire_fk c ctx) (wl_fire_trig c ctx) (se_sid s) None
               \<lparr>fs_engine = eng1, fs_writes = tx_writes t1, fs_deferred = sv_deferred srv\<rparr>;
             t2 = t1\<lparr>tx_writes := fs_writes st\<rparr>;
             srv2 = \<lparr>sv_engine = fs_engine st, sv_deferred = fs_deferred st\<rparr>;
             handed_back = s\<lparr>se_txn := Some (t2\<lparr>tx_failed := True\<rparr>)\<rparr>
         in case flushed of
              Some e \<Rightarrow> abort_with env t2 (Inl e) w srv2 s
            | None \<Rightarrow>
                (case wl_records c (fs_engine st) (tx_xid t2) (tx_writes t2) (se_sid s) of
                   Inl msg \<Rightarrow> Some (Inl (commit_conflict msg), w, srv2, handed_back)
                 | Inr records \<Rightarrow>
                     (case wl_append c records w of
                        (Some e, w') \<Rightarrow> Some (Inl (wal_err e), w', srv2, handed_back)
                      | (None, w') \<Rightarrow>
                          (let srv3 = retire_txn_family_sid t2 (se_sid s) srv2
                           in map_option (\<lambda>eng. (cmd ''COMMIT'', w', srv3\<lparr>sv_engine := eng\<rparr>,
                                  revert_guc_stack (tx_guc_stack t2) True
                                    (s\<lparr>se_cursors := filter (cu_with_hold \<circ> snd) (se_cursors s)\<rparr>)))
                                (auto_vacuum env (tx_writes t2) (sv_engine srv3)))))))"

section \<open>BEGIN, COMMIT and ROLLBACK\<close>

definition txn_start :: "nat \<Rightarrow> isolation_level \<Rightarrow> bool option \<Rightarrow> bool option \<Rightarrow> bool \<Rightarrow> txn" where
  "txn_start xid level read_only deferrable implicit =
     (txn_new xid)\<lparr>tx_level := level, tx_read_only := read_only, tx_deferrable := deferrable, tx_implicit := implicit\<rparr>"

definition server_begin :: "server \<Rightarrow> nat \<times> server" where
  "server_begin srv =
     (let (xid, tm) = begin_txn (en_txns (sv_engine srv)) in (xid, srv\<lparr>sv_engine := (sv_engine srv)\<lparr>en_txns := tm\<rparr>\<rparr>))"

text \<open>The one-shot characteristics are used up; the session defaults come next.\<close>

definition next_chars :: "session \<Rightarrow> isolation_level \<times> bool option \<times> bool option" where
  "next_chars s =
     (case_option ReadCommitted id (first_some [se_next_level s, se_default_level s]),
      first_some [se_next_read_only s, se_default_read_only s],
      first_some [se_next_deferrable s, se_default_deferrable s])"

definition clear_next :: "session \<Rightarrow> session" where
  "clear_next s = s\<lparr>se_next_level := None, se_next_read_only := None, se_next_deferrable := None\<rparr>"

definition begin_implicit_txn :: "server \<Rightarrow> session \<Rightarrow> server \<times> session" where
  "begin_implicit_txn srv s =
     (let (xid, srv') = server_begin srv; (level, read_only, deferrable) = next_chars s
      in (srv', (clear_next s)\<lparr>se_txn := Some (txn_start xid level read_only deferrable True)\<rparr>))"

definition abort_implicit_txn :: "key_env \<Rightarrow> server \<Rightarrow> session \<Rightarrow> (server \<times> session) option" where
  "abort_implicit_txn env srv s =
     (case se_txn s of
        None \<Rightarrow> Some (srv, s)
      | Some t \<Rightarrow>
          map_option (\<lambda>srv'. (srv', abort_session t (s\<lparr>se_txn := None\<rparr>))) (abort_engine env t (se_sid s) srv))"

definition commit_implicit_txn ::
  "key_env \<Rightarrow> ('w, 'r) commit_env \<Rightarrow> 'w \<Rightarrow> server \<Rightarrow> session \<Rightarrow> 'w ended" where
  "commit_implicit_txn env c w srv s =
     (case se_txn s of None \<Rightarrow> None | Some t \<Rightarrow> commit_taken_txn env c t w srv (s\<lparr>se_txn := None\<rparr>))"

definition txn_begin ::
  "isolation_level \<Rightarrow> bool option \<Rightarrow> bool option \<Rightarrow> server \<Rightarrow> session \<Rightarrow> (exec_error + exec_result) \<times> server \<times> session" where
  "txn_begin level read_only deferrable srv s =
     (case se_txn s of
        Some t \<Rightarrow>
          if tx_implicit t
          then (cmd ''BEGIN'', srv, s\<lparr>se_txn := Some (t\<lparr>tx_implicit := False, tx_level := level, tx_read_only := read_only,
                                          tx_deferrable := deferrable\<rparr>)\<rparr>)
          else (cmd ''BEGIN'', srv, s)
      | None \<Rightarrow>
          (let (xid, srv') = server_begin srv
           in (cmd ''BEGIN'', srv', s\<lparr>se_txn := Some (txn_start xid level read_only deferrable False)\<rparr>)))"

text \<open>The \<^verbatim>\<open>BEGIN\<close> branch of \<^verbatim>\<open>run_statement\<close>: the modes of the statement win.\<close>

definition run_begin ::
  "isolation_level option \<Rightarrow> bool option \<Rightarrow> bool option \<Rightarrow> server \<Rightarrow> session \<Rightarrow>
     (exec_error + exec_result) \<times> server \<times> session" where
  "run_begin level read_only deferrable srv s =
     txn_begin (case_option ReadCommitted id (first_some [level, se_next_level s, se_default_level s]))
       (first_some [read_only, se_next_read_only s, se_default_read_only s])
       (first_some [deferrable, se_next_deferrable s, se_default_deferrable s]) srv (clear_next s)"

definition chain_outside :: "string \<Rightarrow> exec_error" where
  "chain_outside what = err_25001 (what @ '' AND CHAIN can only be used in transaction blocks'')"

definition txn_commit ::
  "key_env \<Rightarrow> ('w, 'r) commit_env \<Rightarrow> bool \<Rightarrow> 'w \<Rightarrow> server \<Rightarrow> session \<Rightarrow> 'w ended" where
  "txn_commit env c chain w srv s =
     (case se_txn s of
        None \<Rightarrow> Some (if chain then Inl (chain_outside ''COMMIT'') else cmd ''COMMIT'', w, srv, s)
      | Some t \<Rightarrow>
          if tx_implicit t \<and> chain then Some (Inl (chain_outside ''COMMIT''), w, srv, s)
          else
            (case commit_taken_txn env c t w srv (s\<lparr>se_txn := None\<rparr>) of
               None \<Rightarrow> None
             | Some (Inl e, r) \<Rightarrow> Some (Inl e, r)
             | Some (Inr out, w', srv', s') \<Rightarrow>
                 if tx_implicit t then Some (cmd ''COMMIT'', w', srv', queue_warning no_transaction s')
                 else if chain
                 then (let (_, srv'', s'') = txn_begin (tx_level t) (tx_read_only t) (tx_deferrable t) srv' s'
                       in Some (if tx_failed t then cmd ''BEGIN'' else Inr out, w', srv'', s''))
                 else Some (Inr out, w', srv', s')))"

definition txn_rollback ::
  "key_env \<Rightarrow> bool \<Rightarrow> server \<Rightarrow> session \<Rightarrow> ((exec_error + exec_result) \<times> server \<times> session) option" where
  "txn_rollback env chain srv s =
     (case se_txn s of
        None \<Rightarrow> Some (if chain then Inl (chain_outside ''ROLLBACK'') else cmd ''ROLLBACK'', srv, s)
      | Some t \<Rightarrow>
          if tx_implicit t \<and> chain then Some (Inl (chain_outside ''ROLLBACK''), srv, s)
          else
            (case abort_engine env t (se_sid s) srv of
               None \<Rightarrow> None
             | Some srv' \<Rightarrow>
                 (let s' = abort_session t (s\<lparr>se_txn := None\<rparr>) in
                  if tx_implicit t then Some (cmd ''ROLLBACK'', srv', queue_warning no_transaction s')
                  else if chain
                  then (let (_, srv'', s'') = txn_begin (tx_level t) (tx_read_only t) (tx_deferrable t) srv' s'
                        in Some (cmd ''ROLLBACK'', srv'', s''))
                  else Some (cmd ''ROLLBACK'', srv', s'))))"

section \<open>Savepoints\<close>

definition block_only :: "string \<Rightarrow> exec_error" where
  "block_only what = err_25001 (what @ '' can only be used in transaction blocks'')"

definition no_savepoint :: "string \<Rightarrow> exec_error" where
  "no_savepoint name = ExecErr ''3B001'' (''no such savepoint \"'' @ name @ [CHR 0x22])"

definition txn_savepoint :: "string \<Rightarrow> server \<Rightarrow> session \<Rightarrow> (exec_error + exec_result) \<times> server \<times> session" where
  "txn_savepoint name srv s =
     (case se_txn s of
        None \<Rightarrow> (Inl (block_only ''SAVEPOINT''), srv, s)
      | Some t \<Rightarrow>
          if tx_implicit t then (Inl (block_only ''SAVEPOINT''), srv, s)
          else
            (let locks = txn_lock_count (tx_xid t) (en_txns (sv_engine srv));
                 dmark = deferred_mark_of (sv_deferred srv) (se_sid s);
                 (sub, srv') = server_begin srv;
                 t' = t\<lparr>tx_savepoints := tx_savepoints t @ [(name, length (tx_writes t), locks)],
                        tx_deferred_marks := tx_deferred_marks t @ [dmark],
                        tx_sub_xids := tx_sub_xids t @ [sub], tx_owned_xids := tx_owned_xids t @ [sub],
                        tx_guc_marks := tx_guc_marks t @ [length (tx_guc_stack t)],
                        tx_char_marks := tx_char_marks t @ [(tx_read_only t, tx_level t, tx_deferrable t)],
                        tx_cursor_marks := tx_cursor_marks t @ [map fst (se_cursors s)]\<rparr>
             in (cmd ''SAVEPOINT'', srv', s\<lparr>se_txn := Some t'\<rparr>)))"

definition nth_opt :: "'a list \<Rightarrow> nat \<Rightarrow> 'a option" where
  "nth_opt xs i = (if i < length xs then Some (xs ! i) else None)"

definition rposition :: "('a \<Rightarrow> bool) \<Rightarrow> 'a list \<Rightarrow> nat option" where
  "rposition p xs = find (\<lambda>i. p (xs ! i)) (rev [0..<length xs])"

fun is_seq_advance :: "write_op \<Rightarrow> bool" where
  "is_seq_advance (SeqAdvance name) = True"
| "is_seq_advance _ = False"

text \<open>
  The state after the savepoint at a position is destroyed. An index or a mark past the end
  of its list panics, and so does a lock mark above the number of locks held.
\<close>

definition rollback_txn ::
  "key_env \<Rightarrow> nat \<Rightarrow> txn \<Rightarrow> server \<Rightarrow> session \<Rightarrow> (server \<times> session) option" where
  "rollback_txn env idx t srv s =
     (case (nth_opt (tx_savepoints t) idx, nth_opt (tx_deferred_marks t) idx, nth_opt (tx_guc_marks t) idx,
            nth_opt (tx_char_marks t) idx) of
        (Some (_, to, keep_locks), Some dmark, Some guc_to, Some (mark_ro, mark_level, mark_def)) \<Rightarrow>
          if length (tx_writes t) < to \<or> length (tx_guc_stack t) < guc_to then None
          else
            (let dropped = drop to (tx_writes t) in
             case undo_each env (all_xids t) (filter (\<lambda>op. \<not> is_seq_advance op) (rev dropped)) (sv_engine srv) of
               None \<Rightarrow> None
             | Some eng \<Rightarrow>
                 (case release_locks_after (tx_xid t) keep_locks (en_txns eng) of
                    None \<Rightarrow> None
                  | Some tm \<Rightarrow>
                      (let (repl, srv') = server_begin
                             (srv\<lparr>sv_engine := eng\<lparr>en_txns := tm\<rparr>, sv_deferred := deferred_restore (se_sid s) dmark (sv_deferred srv)\<rparr>);
                           t' = t\<lparr>tx_writes := take to (tx_writes t) @ filter is_seq_advance dropped,
                                  tx_deferred_marks := take (idx + 1) (tx_deferred_marks t),
                                  tx_savepoints := take (idx + 1) (tx_savepoints t),
                                  tx_sub_xids := take idx (tx_sub_xids t) @ [repl],
                                  tx_owned_xids := tx_owned_xids t @ [repl], tx_failed := False,
                                  tx_guc_stack := take guc_to (tx_guc_stack t),
                                  tx_guc_marks := take (idx + 1) (tx_guc_marks t),
                                  tx_read_only := mark_ro, tx_level := mark_level, tx_deferrable := mark_def,
                                  tx_char_marks := take (idx + 1) (tx_char_marks t),
                                  tx_cursor_marks := take (idx + 1) (tx_cursor_marks t)\<rparr>;
                           s1 = revert_guc_stack (drop guc_to (tx_guc_stack t)) False (s\<lparr>se_txn := Some t'\<rparr>);
                           cursors = (case nth_opt (tx_cursor_marks t) idx of
                             Some names \<Rightarrow> filter (\<lambda>c. fst c \<in> set names) (se_cursors s1) | None \<Rightarrow> se_cursors s1)
                       in Some (srv', s1\<lparr>se_cursors := cursors\<rparr>))))
      | _ \<Rightarrow> None)"

definition txn_rollback_to ::
  "key_env \<Rightarrow> string \<Rightarrow> server \<Rightarrow> session \<Rightarrow> ((exec_error + exec_result) \<times> server \<times> session) option" where
  "txn_rollback_to env name srv s =
     (case se_txn s of
        None \<Rightarrow> Some (Inl (block_only ''ROLLBACK TO SAVEPOINT''), srv, s)
      | Some t \<Rightarrow>
          if tx_implicit t then Some (Inl (block_only ''ROLLBACK TO SAVEPOINT''), srv, s)
          else
            (case rposition (\<lambda>sp. fst sp = name) (tx_savepoints t) of
               None \<Rightarrow> Some (Inl (no_savepoint name), srv, s)
             | Some idx \<Rightarrow> map_option (\<lambda>(srv', s'). (cmd ''ROLLBACK'', srv', s')) (rollback_txn env idx t srv s)))"

definition txn_release :: "string \<Rightarrow> session \<Rightarrow> ((exec_error + exec_result) \<times> session) option" where
  "txn_release name s =
     (case se_txn s of
        None \<Rightarrow> Some (Inl (block_only ''RELEASE SAVEPOINT''), s)
      | Some t \<Rightarrow>
          if tx_implicit t then Some (Inl (block_only ''RELEASE SAVEPOINT''), s)
          else
            (case rposition (\<lambda>sp. fst sp = name) (tx_savepoints t) of
               None \<Rightarrow> Some (Inl (no_savepoint name), s)
             | Some idx \<Rightarrow>
                 map_option (\<lambda>(mark_ro, mark_level, mark_def).
                   (cmd ''RELEASE'', s\<lparr>se_txn := Some (t\<lparr>
                      tx_savepoints := take idx (tx_savepoints t), tx_deferred_marks := take idx (tx_deferred_marks t),
                      tx_sub_xids := take idx (tx_sub_xids t), tx_cursor_marks := take idx (tx_cursor_marks t),
                      tx_guc_marks := take idx (tx_guc_marks t), tx_read_only := mark_ro, tx_level := mark_level,
                      tx_deferrable := mark_def, tx_char_marks := take idx (tx_char_marks t)\<rparr>)\<rparr>))
                   (nth_opt (tx_char_marks t) idx)))"

section \<open>Data statements\<close>

text \<open>
  The executor is an argument: it runs a statement in a context on the engine, the log and
  the deferred queues, and returns its result with the notices it raised.
\<close>

type_synonym 'q executor =
  "stmt_ctx \<Rightarrow> 'q \<Rightarrow> fire_state \<Rightarrow> ((exec_error + exec_result) \<times> string list) \<times> fire_state"

definition push_distinct :: "'a \<Rightarrow> 'a list \<Rightarrow> 'a list" where
  "push_distinct x xs = (if x \<in> set xs then xs else xs @ [x])"

text \<open>Sequences advanced by a statement that succeeded get one log entry each.\<close>

definition stage_advances :: "bool \<Rightarrow> fire_state \<Rightarrow> fire_state" where
  "stage_advances ok st =
     (let eng = fs_engine st; names = fold push_distinct (en_seq_advanced eng) []
      in st\<lparr>fs_engine := eng\<lparr>en_seq_advanced := []\<rparr>,
            fs_writes := fs_writes st @ (if ok then map SeqAdvance names else [])\<rparr>)"

definition txn_execute ::
  "'q executor \<Rightarrow> 'q \<Rightarrow> server \<Rightarrow> session \<Rightarrow> ((exec_error + exec_result) \<times> server \<times> session) option" where
  "txn_execute ex q srv s =
     (case se_txn s of
        None \<Rightarrow> None
      | Some t \<Rightarrow>
          (let ((snap, _, _), eng1, t1) = txn_snapshot (sv_engine srv) t;
               ((res, notices), st) = ex (txn_ctx snap t1 s) q
                 \<lparr>fs_engine = eng1, fs_writes = tx_writes t1, fs_deferred = sv_deferred srv\<rparr>;
               ok = (case res of Inr _ \<Rightarrow> True | Inl _ \<Rightarrow> False);
               st' = stage_advances ok st;
               t2 = t1\<lparr>tx_writes := fs_writes st', tx_failed := (if ok then tx_failed t1 else True)\<rparr>
           in Some (res, \<lparr>sv_engine = fs_engine st', sv_deferred = fs_deferred st'\<rparr>,
                s\<lparr>se_txn := Some t2, se_pending_notices := se_pending_notices s @ notices\<rparr>)))"

definition autocommit_ctx :: "snapshot \<Rightarrow> nat \<Rightarrow> session \<Rightarrow> stmt_ctx" where
  "autocommit_ctx snap xid s =
     \<lparr>cx_snap = snap, cx_own = xid, cx_write_xid = xid, cx_all_xids = [xid], cx_level = ReadCommitted,
      cx_session = se_sid s, cx_role = se_role s\<rparr>"

text \<open>
  A statement outside a transaction. Its failure paths undo the log and retire the xid; the
  two that fail at the log also clean up the tables it deleted from.
\<close>

definition autocommit_execute ::
  "key_env \<Rightarrow> ('w, 'r) commit_env \<Rightarrow> 'q executor \<Rightarrow> 'q \<Rightarrow> 'w \<Rightarrow> server \<Rightarrow> session \<Rightarrow>
     ((exec_error + exec_result \<times> string list) \<times> 'w \<times> server) option" where
  "autocommit_execute env c ex q w srv s =
     (let (xid, srv0) = server_begin srv; sid = se_sid s;
          snap = take_snapshot (en_txns (sv_engine srv0));
          ctx = autocommit_ctx snap xid s;
          ((res, notices), st) = ex ctx q \<lparr>fs_engine = sv_engine srv0, fs_writes = [], fs_deferred = sv_deferred srv0\<rparr>;
          st1 = stage_advances (case res of Inr _ \<Rightarrow> True | Inl _ \<Rightarrow> False) st;
          undone = (\<lambda>st. map_option (retire_txn xid) (undo_all env [xid] (fs_writes st) (fs_engine st)));
          fail = (\<lambda>st e. map_option (\<lambda>eng. (Inl e, w, \<lparr>sv_engine = eng, sv_deferred = deferred_clear sid (fs_deferred st)\<rparr>))
                    (undone st));
          fail_log = (\<lambda>st e w'. map_option (\<lambda>eng. (Inl e, w', \<lparr>sv_engine = eng, sv_deferred = deferred_clear sid (fs_deferred st)\<rparr>))
                    (Option.bind (undone st) (auto_vacuum env (fs_writes st))))
      in case res of
           Inl e \<Rightarrow> fail st1 e
         | Inr r \<Rightarrow>
             (case flush_deferred_fk (wl_fire_fk c ctx) (wl_fire_trig c ctx) sid None st1 of
                (Some e, st2) \<Rightarrow> fail st2 e
              | (None, st2) \<Rightarrow>
                  (case wl_records c (fs_engine st2) xid (fs_writes st2) sid of
                     Inl msg \<Rightarrow> fail_log st2 (commit_conflict msg) w
                   | Inr records \<Rightarrow>
                       (case wl_append c records w of
                          (Some e, w') \<Rightarrow> fail_log st2 (wal_err e) w'
                        | (None, w') \<Rightarrow>
                            map_option (\<lambda>eng. (Inr (r, notices), w',
                                \<lparr>sv_engine = eng, sv_deferred = deferred_clear sid (fs_deferred st2)\<rparr>))
                              (auto_vacuum env (fs_writes st2) (retire_txn xid (fs_engine st2)))))))"

section \<open>VACUUM\<close>

definition vacuum_owner :: "database \<Rightarrow> snapshot \<Rightarrow> session \<Rightarrow> string \<Rightarrow> bool" where
  "vacuum_owner db snap s name =
     (case find_table db name snap [no_owner] (se_sid s) of
        None \<Rightarrow> False
      | Some t \<Rightarrow>
          t_owner t = se_role s \<or> is_superuser_snap db (se_role s) snap no_owner \<or>
          and (table_privs db (se_role s) t snap no_owner) 512 \<noteq> 0)"

definition vacuum_one :: "key_env \<Rightarrow> nat \<Rightarrow> string \<Rightarrow> engine \<Rightarrow> (nat \<times> engine) option" where
  "vacuum_one env sid name eng =
     (case vacuum_temp_table env sid name eng of
        None \<Rightarrow> None
      | Some (Some n, eng') \<Rightarrow> Some (n, eng')
      | Some (None, eng') \<Rightarrow> vacuum_table env name eng')"

definition vacuum_report :: "string \<times> nat \<Rightarrow> row" where
  "vacuum_report = (\<lambda>(name, n).
     [VText (''table \"'' @ name @ ''\": removed '' @ dec_string n @ '' dead row version(s)'')])"

definition vacuum_rows :: "row list \<Rightarrow> exec_error + exec_result" where
  "vacuum_rows rows = Inr (RSelect [(''vacuum'', CtText)] rows)"

definition txn_vacuum ::
  "key_env \<Rightarrow> string option \<Rightarrow> bool \<Rightarrow> session \<Rightarrow> engine \<Rightarrow> ((exec_error + exec_result) \<times> string list \<times> engine) option" where
  "txn_vacuum env tab verbose s eng =
     (let snap = take_snapshot (en_txns eng); db = en_db eng; done = (\<lambda>eng. (cmd ''VACUUM'', [], eng)) in
      if se_txn s \<noteq> None then Some (Inl (err_25001 ''VACUUM cannot run inside a transaction block''), [], eng)
      else case tab of
        Some name \<Rightarrow>
          if find_table db name snap [no_owner] (se_sid s) = None
          then Some (Inl (ExecErr ''42P01'' (''table \"'' @ name @ ''\" does not exist'')), [], eng)
          else if \<not> vacuum_owner db snap s name
          then Some (cmd ''VACUUM'', [''permission denied to vacuum \"'' @ name @ ''\", skipping it''], eng)
          else map_option (\<lambda>(n, eng'). if verbose then (vacuum_rows [vacuum_report (name, n)], [], eng') else done eng')
                 (vacuum_one env (se_sid s) name eng)
      | None \<Rightarrow>
          if verbose
          then map_option (\<lambda>(report, eng').
                 (vacuum_rows (if report = [] then [[VText ''vacuum: nothing to remove'']] else map vacuum_report report), [], eng'))
                 (vacuum_all env eng)
          else map_option done (vacuum_names env (filter (vacuum_owner db snap s) (map fst (db_tables db))) eng))"

section \<open>The aborted state\<close>

text \<open>The statements that \<^verbatim>\<open>run_statement\<close> dispatches here; the rest go to the executor.\<close>

datatype 'q stmt =
    StBegin "isolation_level option" "bool option" "bool option"
  | StCommit bool
  | StRollback bool
  | StSavepoint string
  | StRollbackTo string
  | StRelease string
  | StSet set_stmt
  | StData 'q

fun allowed_in_aborted :: "'q stmt \<Rightarrow> bool" where
  "allowed_in_aborted (StRollback chain) = True"
| "allowed_in_aborted (StRollbackTo name) = True"
| "allowed_in_aborted (StCommit chain) = True"
| "allowed_in_aborted _ = False"

definition txn_aborted :: exec_error where
  "txn_aborted = ExecErr ''25P02''
     ''current transaction is aborted, commands ignored until end of transaction block''"

definition effective_read_only :: "session \<Rightarrow> bool" where
  "effective_read_only s =
     (case se_txn s of Some t \<Rightarrow> tx_read_only t = Some True | None \<Rightarrow> se_default_read_only s = Some True)"

definition keep_log :: "'w \<Rightarrow> ((exec_error + exec_result) \<times> server \<times> session) option \<Rightarrow> 'w ended" where
  "keep_log w = map_option (\<lambda>(res, srv, s). (res, w, srv, s))"

text \<open>
  The read-only check looks at the statement, so whether a data statement writes is an
  argument, with the name of its command for the message.
\<close>

definition read_only_error :: "string \<Rightarrow> exec_error" where
  "read_only_error command =
     ExecErr ''25006'' (''cannot execute '' @ command @ '' in a read-only transaction'')"

definition run_statement ::
  "key_env \<Rightarrow> ('w, 'r) commit_env \<Rightarrow> 'q executor \<Rightarrow> (string \<Rightarrow> u64 option) \<Rightarrow> (database \<Rightarrow> session \<Rightarrow> 'q \<Rightarrow> string option) \<Rightarrow>
     'q stmt \<Rightarrow> 'w \<Rightarrow> server \<Rightarrow> session \<Rightarrow> 'w ended" where
  "run_statement env c ex parse_f64 writes st w srv s =
     (let aborted = (case se_txn s of Some t \<Rightarrow> tx_failed t | None \<Rightarrow> False);
          violation = (case st of
            StData q \<Rightarrow> if effective_read_only s then writes (en_db (sv_engine srv)) s q else None | _ \<Rightarrow> None)
      in if aborted \<and> \<not> allowed_in_aborted st then Some (Inl txn_aborted, w, srv, s)
         else case violation of
           Some command \<Rightarrow>
             Some (Inl (read_only_error command), w, srv,
               s\<lparr>se_txn := map_option (\<lambda>t. t\<lparr>tx_failed := True\<rparr>) (se_txn s)\<rparr>)
         | None \<Rightarrow>
             (case st of
                StBegin level ro d \<Rightarrow> keep_log w (Some (run_begin level ro d srv s))
              | StCommit chain \<Rightarrow> txn_commit env c chain w srv s
              | StRollback chain \<Rightarrow> keep_log w (txn_rollback env chain srv s)
              | StSavepoint name \<Rightarrow> keep_log w (Some (txn_savepoint name srv s))
              | StRollbackTo name \<Rightarrow> keep_log w (txn_rollback_to env name srv s)
              | StRelease name \<Rightarrow> map_option (\<lambda>(res, s'). (res, w, srv, s')) (txn_release name s)
              | StSet x \<Rightarrow>
                  (case run_set parse_f64 (sv_engine srv) x s of
                     Inl e \<Rightarrow> Some (Inl e, w, srv, s)
                   | Inr (r, s') \<Rightarrow> Some (Inr r, w, srv, s'))
              | StData q \<Rightarrow>
                  if se_txn s \<noteq> None then keep_log w (txn_execute ex q srv s)
                  else map_option (\<lambda>(res, w', srv').
                         (case res of
                            Inr (r, notices) \<Rightarrow> (Inr r, w', srv', s\<lparr>se_pending_notices := se_pending_notices s @ notices\<rparr>)
                          | Inl e \<Rightarrow> (Inl e, w', srv', s)))
                         (autocommit_execute env c ex q w srv s)))"

section \<open>Notices\<close>

definition message_level_rank :: "string \<Rightarrow> int" where
  "message_level_rank level =
     (case find (\<lambda>(n, r). n = level)
        [(''debug5'', 10), (''debug4'', 11), (''debug3'', 12), (''debug2'', 13), (''debug1'', 14), (''log'', 15),
         (''info'', 16), (''notice'', 17), (''warning'', 18), (''error'', 19), (''fatal'', 20), (''panic'', 21)] of
        Some (n, r) \<Rightarrow> r | None \<Rightarrow> 17)"

text \<open>The messages sent, warnings first; both queues are emptied.\<close>

definition drain_notices :: "session \<Rightarrow> string list \<times> session" where
  "drain_notices s =
     (let min_level = message_level_rank (case map_of (se_gucs s) ''client_min_messages'' of Some l \<Rightarrow> l | None \<Rightarrow> ''notice'');
          shown = (\<lambda>level messages. if min_level \<le> message_level_rank level then messages else [])
      in (shown ''warning'' (se_pending_warnings s) @ shown ''notice'' (se_pending_notices s),
          s\<lparr>se_pending_warnings := [], se_pending_notices := []\<rparr>))"

end
