(* ===== verification/Sweep.thy ===== *)
theory Sweep
  imports Session Dml "HOL-Library.Sublist"
begin

text \<open>
  Vacuum seen on the map of all row versions: it only removes versions, and only ones that
  are dead to all snapshots or chunks of a toast table. Used by the end of a transaction,
  which vacuums the tables it changed.
\<close>

section \<open>Vacuum on the map of versions\<close>

lemma remove_entries_frame:
  "remove_entries env tab vs db = Some db' \<Longrightarrow> \<exists>ixs. db' = db\<lparr>db_indexes := ixs\<rparr>"
proof (induction vs arbitrary: db)
  case Nil
  then show ?case by (intro exI [of _ "db_indexes db"]) simp
next
  case (Cons v vs)
  then obtain db1 where a: "index_remove_row env tab (v_id v) (v_values v) db = Some db1" "remove_entries env tab vs db1 = Some db'"
    by (auto split: option.splits)
  obtain ixs where "db' = db1\<lparr>db_indexes := ixs\<rparr>" using Cons.IH [OF a(2)] by blast
  moreover obtain jxs where "db1 = db\<lparr>db_indexes := jxs\<rparr>" using index_remove_row_frame [OF a(1)] by blast
  ultimately show ?case by (intro exI [of _ ixs]) simp
qed

lemma vacuum_toast_frame:
  assumes "vacuum_toast_chunks env name dead db = Some db'"
  shows "db_temp_tables db' = db_temp_tables db \<and> map fst (db_tables db') = map fst (db_tables db)"
  using assms
  by (auto simp: vacuum_toast_chunks_def Let_def split: option.splits if_splits prod.splits dest!: remove_entries_frame)

lemma vacuum_frame:
  assumes "vacuum_table env name eng = Some (k, eng')"
  shows "db_temp_tables (en_db eng') = db_temp_tables (en_db eng) \<and>
    map fst (db_tables (en_db eng')) = map fst (db_tables (en_db eng))"
  using assms
  by (auto simp: vacuum_table_def Let_def split: option.splits prod.splits dest!: remove_entries_frame vacuum_toast_frame)

text \<open>Thinning every name of the catalog thins the rows of all tables.\<close>

lemma perm_rows:
  "distinct (map fst (db_tables db)) \<Longrightarrow> set (concat (map t_rows (perm_tables db))) = (\<Union>n. set (rows_of db n))"
proof -
  assume d: "distinct (map fst (db_tables db))"
  have "t \<in> set (perm_tables db) \<longleftrightarrow> (\<exists>n. t \<in> set (versions_of db n))" for t
  proof
    assume "t \<in> set (perm_tables db)"
    then obtain n vs where "(n, vs) \<in> set (db_tables db)" "t \<in> set vs" by (auto simp: perm_tables_def)
    with d have "versions_of db n = vs" by (simp add: versions_of_def)
    then show "\<exists>n. t \<in> set (versions_of db n)" using \<open>t \<in> set vs\<close> by blast
  next
    assume "\<exists>n. t \<in> set (versions_of db n)"
    then obtain n where t: "t \<in> set (versions_of db n)" by blast
    then obtain vs where "map_of (db_tables db) n = Some vs" "t \<in> set vs"
      by (cases "map_of (db_tables db) n") (simp_all add: versions_of_def)
    then show "t \<in> set (perm_tables db)" using map_of_SomeD by (force simp: perm_tables_def)
  qed
  then have "set (perm_tables db) = (\<Union>n. set (versions_of db n))" by auto
  then show ?thesis by (simp add: rows_of_def UN_UN_flatten)
qed

definition thinner :: "table \<Rightarrow> table \<Rightarrow> bool" where
  "thinner t t' \<longleftrightarrow> subseq (t_rows t') (t_rows t) \<and> (tb_sync t \<longrightarrow> tb_sync t') \<and>
     t_oid t' = t_oid t \<and> t_toast_relid t' = t_toast_relid t"

lemma thinned_thinner: "thinned p ts ts' \<Longrightarrow> list_all2 thinner ts ts'"
  unfolding thinned_def by (erule list_all2_mono) (auto simp: thinner_def)

lemma thinner_tables:
  assumes "list_all2 thinner ts ts'" and "tables_ok ts"
  shows "tables_ok ts' \<and> subseq (concat (map t_rows ts')) (concat (map t_rows ts))"
proof -
  have "subseq (concat (map t_rows ts')) (concat (map t_rows ts)) \<and> ((\<forall>t \<in> set ts. tb_sync t) \<longrightarrow> (\<forall>t \<in> set ts'. tb_sync t))"
    using assms(1) by (induction rule: list_all2_induct) (auto simp: thinner_def list_emb_append_mono)
  moreover have "distinct (map v_id (concat (map t_rows ts')))"
    if "subseq (concat (map t_rows ts')) (concat (map t_rows ts))"
    using subseq_map [OF that, of v_id] assms(2) by (auto simp: tables_ok_def subseq_conv_nths)
  ultimately show ?thesis using assms(2) by (auto simp: tables_ok_def)
qed

lemma entries_all2:
  assumes "distinct (map fst m)" and "map fst m' = map fst m"
    and "\<And>n. list_all2 R (case_option [] id (map_of m n)) (case_option [] id (map_of m' n))"
  shows "list_all2 (rel_prod (=) (list_all2 R)) m m'"
proof -
  have len: "length m' = length m" using assms(2) by (metis length_map)
  have "rel_prod (=) (list_all2 R) (m ! i) (m' ! i)" if "i < length m" for i
  proof -
    have k: "fst (m' ! i) = fst (m ! i)" using assms(2) that len by (metis nth_map)
    have "map_of m (fst (m ! i)) = Some (snd (m ! i))" using assms(1) that by simp
    moreover have "map_of m' (fst (m ! i)) = Some (snd (m' ! i))"
      using assms(1,2) that len k by (metis map_of_is_SomeI nth_mem prod.collapse)
    ultimately show ?thesis using assms(3) [of "fst (m ! i)"] k by (simp add: rel_prod_sel)
  qed
  then show ?thesis by (simp add: list_all2_conv_all_nth len)
qed

lemma entries_tables: "list_all2 (rel_prod (=) (list_all2 R)) m m' \<Longrightarrow> list_all2 R (concat (map snd m)) (concat (map snd m'))"
  by (induction rule: list_all2_induct) (auto intro!: list_all2_appendI)

lemma thinner_ex: "list_all2 thinner vs vs' \<Longrightarrow> list_ex (\<lambda>v. t_oid v = oid) vs' = list_ex (\<lambda>v. t_oid v = oid) vs"
  by (induction rule: list_all2_induct) (auto simp: thinner_def)

lemma entries_oid:
  "list_all2 (rel_prod (=) (list_all2 thinner)) m m' \<Longrightarrow>
     find_first (\<lambda>(n, vs). if list_ex (\<lambda>v. t_oid v = oid) vs then Some n else None) m' =
     find_first (\<lambda>(n, vs). if list_ex (\<lambda>v. t_oid v = oid) vs then Some n else None) m"
proof (induction rule: list_all2_induct)
  case (Cons e es e' es')
  obtain n vs vs' where "e = (n, vs)" "e' = (n, vs')" "list_all2 thinner vs vs'"
    using Cons.hyps(1) by (cases e; cases e') simp
  then show ?case using thinner_ex Cons.IH by simp
qed simp

lemma entries_map_of:
  "list_all2 (rel_prod (=) R) m m' \<Longrightarrow> rel_option R (map_of m n) (map_of m' n)"
  by (induction rule: list_all2_induct) (auto simp: rel_prod_sel)

lemma thinner_last:
  "list_all2 thinner vs vs' \<Longrightarrow> vs' = [] \<longleftrightarrow> vs = []"
  "list_all2 thinner vs vs' \<Longrightarrow> vs \<noteq> [] \<Longrightarrow> t_toast_relid (last vs') = t_toast_relid (last vs)"
  by (cases "vs' = []"; auto simp: list_all2_conv_all_nth last_conv_nth thinner_def)+

lemma entries_toast:
  assumes "list_all2 (rel_prod (=) (list_all2 thinner)) (db_tables db) (db_tables db')"
  shows "toast_table_name db' n = toast_table_name db n"
proof -
  have oid: "table_name_by_oid db' = table_name_by_oid db"
    using entries_oid [OF assms] by (simp add: table_name_by_oid_def fun_eq_iff)
  show ?thesis
  proof (cases "map_of (db_tables db) n")
    case None
    then show ?thesis using entries_map_of [OF assms, of n] by (simp add: toast_table_name_def)
  next
    case (Some vs)
    with entries_map_of [OF assms, of n] obtain vs' where vs': "map_of (db_tables db') n = Some vs'" "list_all2 thinner vs vs'"
      by (auto elim: option.rel_cases)
    show ?thesis
      by (cases "vs = []") (simp_all add: toast_table_name_def Some vs'(1) oid thinner_last [OF vs'(2)])
  qed
qed

text \<open>A row of the toast table of some table.\<close>

definition chunk_row :: "database \<Rightarrow> row_version \<Rightarrow> bool" where
  "chunk_row db v \<longleftrightarrow> (\<exists>n tn. toast_table_name db n = Some tn \<and> v \<in> set (rows_of db tn))"

text \<open>
  \<open>swept tm db db'\<close>: the map of versions only lost versions, and only ones that are dead to
  all or toast chunks.
\<close>

definition swept :: "txn_manager \<Rightarrow> database \<Rightarrow> database \<Rightarrow> bool" where
  "swept tm db db' \<longleftrightarrow>
     (\<forall>i v. find_row_version db' i = Some v \<longrightarrow> find_row_version db i = Some v) \<and>
     (\<forall>i v. find_row_version db i = Some v \<longrightarrow> find_row_version db' i = None \<longrightarrow> version_dead_to_all tm v \<or> chunk_row db v) \<and>
     (\<forall>v. chunk_row db' v \<longrightarrow> chunk_row db v)"

lemma swept_refl [simp]: "swept tm db db"
  by (simp add: swept_def)

lemma swept_trans:
  assumes "swept tm db db1" and "swept tm db1 db2"
  shows "swept tm db db2"
proof -
  have "version_dead_to_all tm v \<or> chunk_row db v"
    if "find_row_version db i = Some v" "find_row_version db2 i = None" for i v
  proof (cases "find_row_version db1 i")
    case None
    then show ?thesis using that(1) assms(1) unfolding swept_def by blast
  next
    case (Some w)
    with assms(1) that(1) have "w = v" unfolding swept_def by fastforce
    with Some that(2) assms show ?thesis unfolding swept_def by blast
  qed
  with assms show ?thesis unfolding swept_def by blast
qed

lemma vacuum_sweeps:
  assumes "db_rows_ok (en_db eng)" and "db_indexed env ks (en_db eng)"
  shows "\<exists>k eng'. vacuum_table env name eng = Some (k, eng') \<and> eng' = eng\<lparr>en_db := en_db eng'\<rparr> \<and>
    db_rows_ok (en_db eng') \<and> db_indexed env ks (en_db eng') \<and> swept (en_txns eng) (en_db eng) (en_db eng')"
proof -
  let ?db = "en_db eng" and ?gone = "version_dead_to_all (en_txns eng)"
  have ok: "tables_ok (all_tables ?db)" "distinct (map fst (db_tables ?db))" using assms(1) by (simp_all add: db_rows_ok_def)
  have "distinct (map v_id (rows_of ?db n))" for n
  proof (cases "map_of (db_tables ?db) n")
    case (Some vs)
    then obtain as bs where "db_tables ?db = as @ (n, vs) # bs" using map_of_SomeD split_list by metis
    then show ?thesis using ok(1) Some by (simp add: all_tables_def perm_tables_def tables_ok_def rows_of_def versions_of_def)
  qed (simp add: rows_of_def versions_of_def)
  then have "db_synced ?db" using db_rows_ok_sync [OF assms(1)] by (simp add: db_synced_def)
  from vacuum_table_spec [OF assms(2) this, of name] obtain k eng' vids where run:
    "vacuum_table env name eng = Some (k, eng')" "eng' = eng\<lparr>en_db := en_db eng'\<rparr>" "db_indexed env ks (en_db eng')"
    and thin: "\<And>n. thinned (\<lambda>r. \<not> (n = name \<and> ?gone r) \<and> \<not> (toast_table_name ?db name = Some n \<and> is_chunk vids r))
       (versions_of ?db n) (versions_of (en_db eng') n)"
    by blast
  let ?db' = "en_db eng'"
  have fr: "db_temp_tables ?db' = db_temp_tables ?db" "map fst (db_tables ?db') = map fst (db_tables ?db)"
    using vacuum_frame [OF run(1)] by blast+
  have ent: "list_all2 (rel_prod (=) (list_all2 thinner)) (db_tables ?db) (db_tables ?db')"
    by (rule entries_all2 [OF ok(2) fr(2)]) (use thinned_thinner [OF thin] in \<open>simp add: versions_of_def\<close>)
  have temps: "temp_tables ?db' = temp_tables ?db" by (simp add: temp_tables_def fr(1))
  have "list_all2 thinner (perm_tables ?db) (perm_tables ?db')" using entries_tables [OF ent] by (simp add: perm_tables_def)
  moreover have "list_all2 thinner (temp_tables ?db) (temp_tables ?db')" by (simp add: temps list_all2_same thinner_def)
  ultimately have all: "list_all2 thinner (all_tables ?db) (all_tables ?db')"
    unfolding all_tables_def by (rule list_all2_appendI)
  have okd: "db_rows_ok ?db'" using thinner_tables [OF all ok(1)] ok(2) by (simp add: db_rows_ok_def fr(2))
  have rows: "set (rows_of ?db' n) = {r \<in> set (rows_of ?db n). \<not> (n = name \<and> ?gone r) \<and>
      \<not> (toast_table_name ?db name = Some n \<and> is_chunk vids r)}" for n
    using thinned_rows [OF thin [of n]] by (simp add: rows_of_def)
  have in_all: "v \<in> set (concat (map t_rows (all_tables d))) \<longleftrightarrow>
      v \<in> set (concat (map t_rows (temp_tables d))) \<or> (\<exists>n. v \<in> set (rows_of d n))" if "db_rows_ok d" for d v
    using perm_rows [of d] that by (auto simp: all_tables_def db_rows_ok_def)
  have "swept (en_txns eng) ?db ?db'"
    unfolding swept_def
  proof (intro conjI allI impI)
    fix i v
    assume "find_row_version ?db' i = Some v"
    then show "find_row_version ?db i = Some v"
      unfolding find_row_version_Some [OF okd] find_row_version_Some [OF assms(1)] in_all [OF okd] in_all [OF assms(1)] temps
      using rows by blast
  next
    fix i v
    assume v: "find_row_version ?db i = Some v" "find_row_version ?db' i = None"
    then have id: "v_id v = i" by (simp add: find_row_version_Some [OF assms(1)])
    from v(2) have "find_row_version ?db' i \<noteq> Some v" by simp
    then have gone: "v \<notin> set (concat (map t_rows (temp_tables ?db')))" "\<And>n. v \<notin> set (rows_of ?db' n)"
      using id unfolding find_row_version_Some [OF okd] in_all [OF okd] by blast+
    then obtain n where "v \<in> set (rows_of ?db n)"
      using v(1) temps unfolding find_row_version_Some [OF assms(1)] in_all [OF assms(1)] by auto
    with gone(2) [of n] rows [of n] show "?gone v \<or> chunk_row ?db v" by (auto simp: chunk_row_def)
  next
    fix v
    assume "chunk_row ?db' v"
    then show "chunk_row ?db v" using rows entries_toast [OF ent] by (auto simp: chunk_row_def)
  qed
  with run okd show ?thesis by blast
qed

lemma vacuum_names_sweeps:
  assumes "db_rows_ok (en_db eng)" and "db_indexed env ks (en_db eng)"
  shows "\<exists>eng'. vacuum_names env names eng = Some eng' \<and> eng' = eng\<lparr>en_db := en_db eng'\<rparr> \<and>
    db_rows_ok (en_db eng') \<and> db_indexed env ks (en_db eng') \<and> swept (en_txns eng) (en_db eng) (en_db eng')"
  using assms
proof (induction names arbitrary: eng)
  case Nil
  then show ?case by (intro exI [of _ eng]) simp
next
  case (Cons n ns)
  obtain k e1 where a: "vacuum_table env n eng = Some (k, e1)" "e1 = eng\<lparr>en_db := en_db e1\<rparr>" "db_rows_ok (en_db e1)"
    "db_indexed env ks (en_db e1)" "swept (en_txns eng) (en_db eng) (en_db e1)"
    using vacuum_sweeps [OF Cons.prems] by blast
  obtain e2 where b: "vacuum_names env ns e1 = Some e2" "e2 = e1\<lparr>en_db := en_db e2\<rparr>" "db_rows_ok (en_db e2)"
    "db_indexed env ks (en_db e2)" "swept (en_txns e1) (en_db e1) (en_db e2)"
    using Cons.IH [OF a(3,4)] by blast
  have "en_txns e1 = en_txns eng" by (subst a(2)) simp
  then have "swept (en_txns eng) (en_db eng) (en_db e2)" using swept_trans [OF a(5)] b(5) by simp
  moreover have "e2 = eng\<lparr>en_db := en_db e2\<rparr>" by (subst b(2), subst a(2)) simp
  ultimately show ?case using a(1) b(1,3,4) by (intro exI [of _ e2]) simp
qed

end
