(* ===== verification/Lifecycle.thy ===== *)
theory Lifecycle
  imports Sweep
begin

text \<open>
  The life of a transaction as a whole: what its end leaves of its xids, locks, snapshot,
  queued checks, settings and rows. The lemmas join the undo of the write log, the
  transaction manager, the setting stack and the vacuum that follows.
\<close>

section \<open>Retiring a transaction\<close>

lemma with_txns_simps [simp]:
  "en_db (with_txns f eng) = en_db eng" "en_txns (with_txns f eng) = f (en_txns eng)"
  by (simp_all add: with_txns_def)

lemma end_each:
  "fold (\<lambda>sub. with_txns (end_txn sub)) subs eng = with_txns (fold end_txn subs) eng"
  by (induction subs arbitrary: eng) (simp_all add: with_txns_def)

lemma end_all:
  "fold end_txn subs tm = tm\<lparr>tm_active := tm_active tm - set subs, tm_snapshots := fold hm_remove subs (tm_snapshots tm)\<rparr>"
  by (induction subs arbitrary: tm) (simp_all add: end_txn_def Diff_insert2 [symmetric])

lemma tm_wf_end_all: "tm_wf tm \<Longrightarrow> tm_wf (fold end_txn subs tm)"
  by (induction subs arbitrary: tm) (simp_all add: tm_wf_end)

lemma tm_wf_locks [simp]: "tm_wf (release_txn_locks xid tm) = tm_wf tm"
  by (simp add: tm_wf_def release_txn_locks_def)

lemma retire_family_db [simp]: "en_db (retire_txn_family t eng) = en_db eng"
  by (simp add: retire_txn_family_def retire_txn_def end_each)

lemma retire_family_txns:
  "en_txns (retire_txn_family t eng) = release_txn_locks (tx_xid t) (end_txn (tx_xid t) (fold end_txn (tx_owned_xids t) (en_txns eng)))"
  by (simp add: retire_txn_family_def retire_txn_def end_each)

text \<open>
  \<open>retired t tm tm'\<close>: no xid of the transaction is active, its locks are free and those of
  the others are kept, and its snapshot is not registered any more.
\<close>

definition retired :: "txn \<Rightarrow> txn_manager \<Rightarrow> txn_manager \<Rightarrow> bool" where
  "retired t tm tm' \<longleftrightarrow>
     tm_active tm' = tm_active tm - set (all_xids t) \<and> tm_next_xid tm' = tm_next_xid tm \<and>
     (\<forall>r. row_lock_holder r tm' = (if row_lock_holder r tm = Some (tx_xid t) then None else row_lock_holder r tm)) \<and>
     (\<forall>e \<in> set (tm_snapshots tm'). e \<in> set (tm_snapshots tm) \<and> fst e \<notin> set (all_xids t))"

lemma retire_retires:
  assumes "tm_wf (en_txns eng)"
  shows "tm_wf (en_txns (retire_txn_family t eng)) \<and> retired t (en_txns eng) (en_txns (retire_txn_family t eng))"
proof -
  let ?tm' = "en_txns (retire_txn_family t eng)"
  have wf: "tm_wf ?tm'" using assms by (simp add: retire_family_txns tm_wf_end tm_wf_end_all)
  have act: "tm_active ?tm' = tm_active (en_txns eng) - set (all_xids t)"
    by (auto simp: retire_family_txns release_txn_locks_def end_txn_def end_all all_xids_def)
  have sub: "set (fold hm_remove xs m) \<subseteq> set m" for xs and m :: "(nat \<times> snapshot) list"
  proof (induction xs arbitrary: m)
    case (Cons x xs)
    show ?case using Cons.IH [of "hm_remove x m"] set_hm_remove [of x m] by simp
  qed simp
  have "e \<in> set (tm_snapshots (en_txns eng)) \<and> fst e \<notin> set (all_xids t)" if e: "e \<in> set (tm_snapshots ?tm')" for e
  proof -
    have "e \<in> set (hm_remove (tx_xid t) (fold hm_remove (tx_owned_xids t) (tm_snapshots (en_txns eng))))"
      using e by (simp add: retire_family_txns release_txn_locks_def end_txn_def end_all)
    then have "e \<in> set (tm_snapshots (en_txns eng))" using set_hm_remove sub by fast
    moreover have "fst e \<in> tm_active ?tm'" using wf e unfolding tm_wf_def by blast
    ultimately show ?thesis using act by simp
  qed
  moreover have "row_lock_holder r ?tm' =
      (if row_lock_holder r (en_txns eng) = Some (tx_xid t) then None else row_lock_holder r (en_txns eng))" for r
    by (simp add: retire_family_txns row_lock_holder_def release_txn_locks_def end_txn_def end_all)
  moreover have "tm_next_xid ?tm' = tm_next_xid (en_txns eng)"
    by (simp add: retire_family_txns release_txn_locks_def end_txn_def end_all)
  ultimately show ?thesis using wf act unfolding retired_def by blast
qed

section \<open>Abort\<close>

text \<open>
  What holds of the rows while a transaction runs: \<open>base\<close> is the map of versions as the other
  transactions' writes alone would have made it.
\<close>

definition in_txn :: "key_env \<Rightarrow> (string \<Rightarrow> key_kind list) \<Rightarrow> nat list \<Rightarrow> (nat \<rightharpoonup> row_version) \<Rightarrow> write_op list \<Rightarrow> engine \<Rightarrow> bool" where
  "in_txn env ks owns base ops eng \<longleftrightarrow>
     db_rows_ok (en_db eng) \<and> db_indexed env ks (en_db eng) \<and> list_all row_op ops \<and>
     (\<forall>op \<in> set ops. op_fits ks (en_db eng) op) \<and> written owns base ops (find_row_version (en_db eng))"

lemma in_txn_undo:
  assumes "in_txn env ks owns base ops eng"
  shows "\<exists>eng'. undo_all env owns ops eng = Some eng' \<and> eng' = eng\<lparr>en_db := en_db eng'\<rparr> \<and>
    find_row_version (en_db eng') = base \<and> db_rows_ok (en_db eng') \<and> db_indexed env ks (en_db eng')"
proof -
  from assms undo_each_spec [of eng env ks "rev ops" owns] obtain eng' where e:
    "undo_each env owns (rev ops) eng = Some eng'" "eng' = eng\<lparr>en_db := en_db eng'\<rparr>" "db_rows_ok (en_db eng')"
    "db_indexed env ks (en_db eng')"
    "find_row_version (en_db eng') = fold (undo_view owns) (rev ops) (find_row_version (en_db eng))"
    by (auto simp: list_all_iff in_txn_def)
  have "find_row_version (en_db eng') = base"
    using undo_written [of owns base ops "find_row_version (en_db eng)"] e(5) assms by (simp add: undo_log_view_def in_txn_def)
  with e show ?thesis unfolding undo_all_def by blast
qed

lemma abort_engine_spec:
  assumes "in_txn env ks (all_xids t) base (tx_writes t) (sv_engine srv)" and "tm_wf (en_txns (sv_engine srv))"
  shows "\<exists>eng1 eng2. undo_all env (all_xids t) (tx_writes t) (sv_engine srv) = Some eng1 \<and>
    abort_engine env t sid srv = Some \<lparr>sv_engine = eng2, sv_deferred = deferred_clear sid (sv_deferred srv)\<rparr> \<and>
    find_row_version (en_db eng1) = base \<and> swept (en_txns eng2) (en_db eng1) (en_db eng2) \<and>
    db_rows_ok (en_db eng2) \<and> db_indexed env ks (en_db eng2) \<and>
    tm_wf (en_txns eng2) \<and> retired t (en_txns (sv_engine srv)) (en_txns eng2)"
proof -
  obtain eng1 where u: "undo_all env (all_xids t) (tx_writes t) (sv_engine srv) = Some eng1"
    "eng1 = sv_engine srv\<lparr>en_db := en_db eng1\<rparr>"
    "find_row_version (en_db eng1) = base" "db_rows_ok (en_db eng1)" "db_indexed env ks (en_db eng1)"
    using in_txn_undo [OF assms(1)] by blast
  have tm: "en_txns eng1 = en_txns (sv_engine srv)" by (subst u(2)) simp
  let ?e = "retire_txn_family t eng1"
  note ret = retire_retires [of eng1 t, unfolded tm, OF assms(2)]
  obtain eng2 where v: "vacuum_names env (vacuumed_names (tx_writes t)) ?e = Some eng2" "eng2 = ?e\<lparr>en_db := en_db eng2\<rparr>"
    "db_rows_ok (en_db eng2)" "db_indexed env ks (en_db eng2)" "swept (en_txns ?e) (en_db eng1) (en_db eng2)"
    using vacuum_names_sweeps [of ?e env ks "vacuumed_names (tx_writes t)"] u(4,5) by auto
  have tm2: "en_txns eng2 = en_txns ?e" by (subst v(2)) simp
  have "abort_engine env t sid srv = Some \<lparr>sv_engine = eng2, sv_deferred = deferred_clear sid (sv_deferred srv)\<rparr>"
    using u(1) v(1) by (simp add: abort_engine_def retire_txn_family_sid_def auto_vacuum_def)
  with u(1,3) v(3,4,5) ret tm2 show ?thesis by (intro exI [of _ eng1] exI [of _ eng2]) simp
qed

lemma restore_without_txn: "(restore_saved_guc n v s)\<lparr>se_txn := None\<rparr> = restore_saved_guc n v (s\<lparr>se_txn := None\<rparr>)"
  by (cases v) (auto simp: put_guc_def split: option.splits)

lemma revert_without_txn: "(revert_guc_stack es False s)\<lparr>se_txn := None\<rparr> = revert_guc_stack es False (s\<lparr>se_txn := None\<rparr>)"
  by (induction es arbitrary: s rule: rev_induct) (simp_all add: restore_without_txn)

lemma restore_keeps [simp]:
  "se_sid (restore_saved_guc n v s) = se_sid s" "se_cursors (restore_saved_guc n v s) = se_cursors s"
  "(se_txn (restore_saved_guc n v s) = None) = (se_txn s = None)"
  by (cases v; simp add: put_guc_def)+

lemma revert_keeps [simp]:
  "se_sid (revert_guc_stack es c s) = se_sid s" "se_cursors (revert_guc_stack es c s) = se_cursors s"
  "(se_txn (revert_guc_stack es c s) = None) = (se_txn s = None)"
proof -
  have "se_sid (fold f xs s) = se_sid s \<and> se_cursors (fold f xs s) = se_cursors s \<and> (se_txn (fold f xs s) = None) = (se_txn s = None)"
    if "\<And>x s. se_sid (f x s) = se_sid s \<and> se_cursors (f x s) = se_cursors s \<and> (se_txn (f x s) = None) = (se_txn s = None)"
    for f and xs :: "guc_entry list" and s
    using that by (induction xs arbitrary: s) simp_all
  from this [of "\<lambda>e s. if c \<and> \<not> ge_is_local e then s else restore_saved_guc (ge_name e) (ge_saved e) s" "rev es" s]
  show "se_sid (revert_guc_stack es c s) = se_sid s" "se_cursors (revert_guc_stack es c s) = se_cursors s"
    "(se_txn (revert_guc_stack es c s) = None) = (se_txn s = None)"
    by (simp_all add: revert_guc_stack_def)
qed

lemma settings_without_txn: "settings s = settings s' \<Longrightarrow> settings (s\<lparr>se_txn := None\<rparr>) = settings (s'\<lparr>se_txn := None\<rparr>)"
  by (simp add: settings_def)

lemma settings_others [simp]: "settings (s\<lparr>se_cursors := cs\<rparr>) = settings s" "settings (s\<lparr>se_pending_warnings := ws\<rparr>) = settings s"
  by (simp_all add: settings_def)

lemma abort_session_settings:
  assumes "guc_stack s0 = Some []" and "logged s0 s" and "se_txn s = Some t"
  shows "settings (abort_session t (s\<lparr>se_txn := None\<rparr>)) = settings (s0\<lparr>se_txn := None\<rparr>)"
proof -
  have "settings (revert_guc_stack (tx_guc_stack t) False s) = settings s0"
    using assms by (auto simp: logged_def guc_stack_def)
  then have "settings ((revert_guc_stack (tx_guc_stack t) False s)\<lparr>se_txn := None\<rparr>) = settings (s0\<lparr>se_txn := None\<rparr>)"
    by (rule settings_without_txn)
  then have "settings (revert_guc_stack (tx_guc_stack t) False (s\<lparr>se_txn := None\<rparr>)) = settings (s0\<lparr>se_txn := None\<rparr>)"
    by (simp add: revert_without_txn)
  moreover have "settings (revert_guc_stack (tx_guc_stack t) False ((s\<lparr>se_txn := None\<rparr>)\<lparr>se_cursors := []\<rparr>)) =
      settings (revert_guc_stack (tx_guc_stack t) False (s\<lparr>se_txn := None\<rparr>))"
    by (rule revert_settings) simp
  ultimately show ?thesis unfolding abort_session_def by (rule trans [rotated])
qed

section \<open>Property\<close>


text \<open>A failed transaction that deleted a row, in a server that logs nothing.\<close>

definition demo_commit_env :: "(unit, unit) commit_env" where
  "demo_commit_env =
     \<lparr>wl_records = \<lambda>eng xid writes sid. Inr [], wl_append = \<lambda>records w. (None, w),
      wl_fire_fk = \<lambda>ctx e st. (None, st), wl_fire_trig = \<lambda>ctx e st. (None, st)\<rparr>"

definition demo_server :: server where
  "demo_server =
     \<lparr>sv_engine = demo_deleting\<lparr>en_txns := demo_idle_tm\<lparr>tm_next_xid := 8, tm_active := {7}\<rparr>\<rparr>, sv_deferred = []\<rparr>"

definition demo_deleter :: txn where
  "demo_deleter = (txn_new 7)\<lparr>tx_writes := [DeleteRow ''t'' 5 0], tx_failed := True\<rparr>"

definition demo_executor :: "unit executor" where
  "demo_executor ctx q st = ((Inr (RCommand ''ok''), []), st)"

lemma demo_server_simps [simp]:
  "en_db (sv_engine demo_server) = en_db demo_deleting"
  "en_txns (sv_engine demo_server) = demo_idle_tm\<lparr>tm_next_xid := 8, tm_active := {7}\<rparr>"
  by (simp_all add: demo_server_def)

lemma demo_server_wf: "tm_wf (en_txns (sv_engine demo_server))"
  by (simp add: demo_idle_tm_def tm_wf_def txn_manager_new_def)

lemma demo_in_txn:
  "in_txn demo_env (\<lambda>_. [KExact]) [7] [5 \<mapsto> demo_row] [DeleteRow ''t'' 5 0] (sv_engine demo_server)"
  using demo_deleting_wf by (simp add: in_txn_def)


end
