(* ===== verification/Savepoint.thy ===== *)
theory Savepoint
  imports Lifecycle
begin

text \<open>
  Savepoints: what \<^verbatim>\<open>ROLLBACK TO\<close> brings back of rows, log, settings, locks and queued checks.
  The lemmas show that undoing a tail of the log leaves the relation between log and rows
  that the undo of the rest needs, and that the marks of the savepoints stay in step.
\<close>

section \<open>Rolling back a tail of the log\<close>

lemma written_mono: "written owns b ops m \<Longrightarrow> set owns \<subseteq> set owns' \<Longrightarrow> written owns' b ops m"
  by (induction rule: written.induct) (auto intro: written.intros)

lemma written_advances: "list_all is_seq_advance advs \<Longrightarrow> written owns b ops m \<Longrightarrow> written owns b (ops @ advs) m"
proof (induction advs rule: rev_induct)
  case (snoc a advs)
  then obtain n where "a = SeqAdvance n" by (cases a) auto
  with snoc show ?case using written.advance [of owns b "ops @ advs" m n] by simp
qed simp

lemma undo_skip_advances:
  "fold (undo_view owns) (filter (\<lambda>op. \<not> is_seq_advance op) ops) m = fold (undo_view owns) ops m"
proof (induction ops arbitrary: m)
  case (Cons op ops)
  then show ?case by (cases op) simp_all
qed simp

lemma undo_fold_sub: "fold (undo_view owns) ops m j = Some v \<Longrightarrow> \<exists>w. m j = Some w \<and> v_values w = v_values v"
proof (induction ops arbitrary: m)
  case (Cons op ops)
  then obtain w where w: "undo_view owns op m j = Some w" "v_values w = v_values v" by fastforce
  then show ?case using undo_view_sub [of owns op m j w] by fastforce
qed auto

lemma op_fits_fold:
  assumes "op_fits ks db op" and "index_defs db' = index_defs db"
    and "find_row_version db' = fold (undo_view owns) ops (find_row_version db)"
  shows "op_fits ks db' op"
proof -
  have "version_fits ks db' tab i" if "version_fits ks db tab i" for tab i
    using that undo_fold_sub [of owns ops "find_row_version db" i] assms(3) row_fits_cong [OF assms(2)]
    unfolding version_fits_def by metis
  then show ?thesis using assms(1) by (cases op) simp_all
qed

lemma in_txn_tail:
  assumes "in_txn env ks owns base (pre @ tail) eng"
  shows "\<exists>eng'. undo_each env owns (filter (\<lambda>op. \<not> is_seq_advance op) (rev tail)) eng = Some eng' \<and>
    eng' = eng\<lparr>en_db := en_db eng'\<rparr> \<and> in_txn env ks owns base (pre @ filter is_seq_advance tail) eng' \<and>
    find_row_version (en_db eng') = undo_log_view owns tail (find_row_version (en_db eng))"
proof -
  let ?ops = "filter (\<lambda>op. \<not> is_seq_advance op) (rev tail)" and ?m = "find_row_version (en_db eng)"
  have "list_all row_op ?ops" "\<forall>op \<in> set ?ops. op_fits ks (en_db eng) op"
    using assms by (auto simp: in_txn_def list_all_iff)
  with undo_each_spec [of eng env ks ?ops owns] assms obtain eng' where e:
    "undo_each env owns ?ops eng = Some eng'" "eng' = eng\<lparr>en_db := en_db eng'\<rparr>" "db_rows_ok (en_db eng')"
    "db_indexed env ks (en_db eng')" "find_row_version (en_db eng') = fold (undo_view owns) ?ops ?m"
    "index_defs (en_db eng') = index_defs (en_db eng)"
    by (auto simp: in_txn_def)
  have view: "find_row_version (en_db eng') = undo_log_view owns tail ?m"
    unfolding e(5) undo_skip_advances undo_log_view_def ..
  have "written owns base pre (undo_log_view owns tail ?m)"
    by (rule written_prefix [of owns base "pre @ tail"]) (use assms in \<open>simp_all add: in_txn_def\<close>)
  then have "written owns base (pre @ filter is_seq_advance tail) (find_row_version (en_db eng'))"
    unfolding view by (rule written_advances [rotated]) (simp add: list_all_iff)
  moreover have "op_fits ks (en_db eng') op" if "op \<in> set (pre @ filter is_seq_advance tail)" for op
    by (rule op_fits_fold [OF _ e(6,5)]) (use that assms in \<open>auto simp: in_txn_def\<close>)
  ultimately have "in_txn env ks owns base (pre @ filter is_seq_advance tail) eng'"
    using e(3,4) assms by (auto simp: in_txn_def list_all_iff)
  with e(1,2) view show ?thesis by blast
qed

lemma in_txn_owns: "in_txn env ks owns base ops eng \<Longrightarrow> set owns \<subseteq> set owns' \<Longrightarrow> in_txn env ks owns' base ops eng"
  by (auto simp: in_txn_def intro: written_mono)

section \<open>Settings at a savepoint\<close>

definition set_chars :: "(bool option \<times> isolation_level \<times> bool option) option \<Rightarrow> session \<Rightarrow> session" where
  "set_chars c s = s\<lparr>se_txn := (case (c, se_txn s) of
     (Some (ro, l, d), Some t) \<Rightarrow> Some (set_txn_chars ro l d t) | _ \<Rightarrow> se_txn s)\<rparr>"

definition chars_in :: "session \<Rightarrow> (bool option \<times> isolation_level \<times> bool option) option" where
  "chars_in s = map_option chars_of (se_txn s)"

lemma chars_settings: "settings s = settings s' \<Longrightarrow> chars_in s = chars_in s'"
  by (simp add: settings_def chars_in_def)

lemma set_chars_settings: "settings s = settings s' \<Longrightarrow> settings (set_chars c s) = settings (set_chars c s')"
  by (cases "se_txn s"; cases "se_txn s'") (auto simp: settings_def set_chars_def split: option.splits)

lemma set_chars_in: "settings (set_chars (chars_in s) s) = settings s"
  by (cases "se_txn s") (simp_all add: settings_def set_chars_def chars_in_def chars_of_def set_txn_chars_def)

lemma restore_set_chars:
  "settings (restore_saved_guc n v (set_chars c s)) =
     settings (case v of SgTxnChars ro l d \<Rightarrow> restore_saved_guc n v s | _ \<Rightarrow> set_chars c (restore_saved_guc n v s))"
  by (cases v; cases "se_txn s") (auto simp: settings_def set_chars_def put_guc_def split: option.splits)

text \<open>Reverting entries gives the same when the final characteristics are put in place first.\<close>

lemma revert_chars:
  "settings (revert_guc_stack es False (set_chars (chars_in (revert_guc_stack es False s)) s)) =
     settings (revert_guc_stack es False s)"
proof (induction es arbitrary: s rule: rev_induct)
  case Nil
  then show ?case by (simp add: set_chars_in)
next
  case (snoc e es)
  let ?r = "restore_saved_guc (ge_name e) (ge_saved e)"
  let ?c = "chars_in (revert_guc_stack es False (?r s))"
  show ?case
  proof (cases "ge_saved e")
    case (SgTxnChars ro l d)
    then have "settings (?r (set_chars ?c s)) = settings (?r s)" by (subst restore_set_chars) simp
    then show ?thesis by (simp only: revert_snoc) (rule revert_settings)
  qed (use revert_settings [OF restore_set_chars [of "ge_name e" "ge_saved e" ?c s], of es] snoc.IH [of "?r s"] in simp_all)
qed

definition txn_core :: "txn \<Rightarrow> txn" where
  "txn_core t = t\<lparr>tx_read_only := None, tx_level := ReadCommitted, tx_deferrable := None\<rparr>"

lemma restore_core: "map_option txn_core (se_txn (restore_saved_guc n v s)) = map_option txn_core (se_txn s)"
  by (cases v; cases "se_txn s") (simp_all add: txn_core_def set_txn_chars_def put_guc_def)

lemma revert_core: "map_option txn_core (se_txn (revert_guc_stack es False s)) = map_option txn_core (se_txn s)"
  by (induction es arbitrary: s rule: rev_induct) (simp_all add: restore_core)

lemma txn_core_fields:
  assumes "txn_core t = txn_core t'"
  shows "tx_xid t = tx_xid t'" "tx_writes t = tx_writes t'" "tx_savepoints t = tx_savepoints t'"
    "tx_deferred_marks t = tx_deferred_marks t'" "tx_guc_marks t = tx_guc_marks t'" "tx_char_marks t = tx_char_marks t'"
    "tx_cursor_marks t = tx_cursor_marks t'" "tx_sub_xids t = tx_sub_xids t'" "tx_owned_xids t = tx_owned_xids t'"
    "tx_failed t = tx_failed t'" "tx_guc_stack t = tx_guc_stack t'" "tx_implicit t = tx_implicit t'"
proof -
  note eq = arg_cong [OF assms]
  show "tx_xid t = tx_xid t'" using eq [of tx_xid] by (simp add: txn_core_def)
  show "tx_writes t = tx_writes t'" using eq [of tx_writes] by (simp add: txn_core_def)
  show "tx_savepoints t = tx_savepoints t'" using eq [of tx_savepoints] by (simp add: txn_core_def)
  show "tx_deferred_marks t = tx_deferred_marks t'" using eq [of tx_deferred_marks] by (simp add: txn_core_def)
  show "tx_guc_marks t = tx_guc_marks t'" using eq [of tx_guc_marks] by (simp add: txn_core_def)
  show "tx_char_marks t = tx_char_marks t'" using eq [of tx_char_marks] by (simp add: txn_core_def)
  show "tx_cursor_marks t = tx_cursor_marks t'" using eq [of tx_cursor_marks] by (simp add: txn_core_def)
  show "tx_sub_xids t = tx_sub_xids t'" using eq [of tx_sub_xids] by (simp add: txn_core_def)
  show "tx_owned_xids t = tx_owned_xids t'" using eq [of tx_owned_xids] by (simp add: txn_core_def)
  show "tx_failed t = tx_failed t'" using eq [of tx_failed] by (simp add: txn_core_def)
  show "tx_guc_stack t = tx_guc_stack t'" using eq [of tx_guc_stack] by (simp add: txn_core_def)
  show "tx_implicit t = tx_implicit t'" using eq [of tx_implicit] by (simp add: txn_core_def)
qed

section \<open>Marks\<close>

text \<open>Every savepoint has one mark of each kind and one sub-transaction.\<close>

definition marks_ok :: "txn \<Rightarrow> bool" where
  "marks_ok t \<longleftrightarrow> length (tx_deferred_marks t) = length (tx_savepoints t) \<and>
     length (tx_guc_marks t) = length (tx_savepoints t) \<and> length (tx_char_marks t) = length (tx_savepoints t) \<and>
     length (tx_cursor_marks t) = length (tx_savepoints t) \<and> length (tx_sub_xids t) = length (tx_savepoints t)"

text \<open>\<open>grew t t'\<close>: a transaction later, the log, the marks and the savepoints that were there still in place.\<close>

definition grew :: "txn \<Rightarrow> txn \<Rightarrow> bool" where
  "grew t t' \<longleftrightarrow> tx_xid t' = tx_xid t \<and> \<not> tx_implicit t' \<and> prefix (tx_writes t) (tx_writes t') \<and>
     prefix (tx_savepoints t) (tx_savepoints t') \<and> prefix (tx_deferred_marks t) (tx_deferred_marks t') \<and>
     prefix (tx_guc_marks t) (tx_guc_marks t') \<and> prefix (tx_char_marks t) (tx_char_marks t') \<and>
     prefix (tx_cursor_marks t) (tx_cursor_marks t')"

lemma rposition_snoc: "\<not> p z \<Longrightarrow> rposition p (xs @ [z]) = rposition p xs"
proof -
  assume z: "\<not> p z"
  have "find (\<lambda>i. p ((xs @ [z]) ! i)) (rev [0..<length xs]) = find (\<lambda>i. p (xs ! i)) (rev [0..<length xs])"
    by (rule find_cong) (auto simp: nth_append)
  with z show ?thesis by (simp add: rposition_def)
qed

lemma rposition_last: "p x \<Longrightarrow> \<forall>z \<in> set zs. \<not> p z \<Longrightarrow> rposition p (ys @ x # zs) = Some (length ys)"
proof (induction zs rule: rev_induct)
  case (snoc z zs)
  then show ?case using rposition_snoc [of p z "ys @ x # zs"] by simp
qed (simp add: rposition_def)

lemma held_after_release:
  assumes "lk_wf tm" and "held_order tm xid = held @ later"
  shows "\<exists>tm'. release_locks_after xid (length held) tm = Some tm' \<and>
    (\<forall>x. held_order tm' x = (if x = xid then held else held_order tm x))"
proof (cases "tm_lock_order tm xid")
  case None
  then show ?thesis using assms(2) by (auto simp: release_locks_after_def held_order_def)
next
  case (Some order)
  then have "order = held @ later" using assms(2) by (simp add: held_order_def)
  with release_after_cases [OF assms(1) Some, of "length held"]
  show ?thesis by (auto simp: held_order_def)
qed

lemma prefix_take: "prefix xs ys \<Longrightarrow> take (length xs) ys = xs"
  by (auto simp: prefix_def)

lemma prefix_nth: "prefix (xs @ [x]) ys \<Longrightarrow> nth_opt ys (length xs) = Some x"
  by (auto simp: prefix_def nth_opt_def)

section \<open>Property\<close>


text \<open>Transaction 6 takes a savepoint, deletes the row as sub-transaction 7, and fails.\<close>

definition demo_before :: server where
  "demo_before =
     \<lparr>sv_engine = demo_start\<lparr>en_txns := demo_idle_tm\<lparr>tm_next_xid := 7, tm_active := {6}\<rparr>\<rparr>, sv_deferred = []\<rparr>"

definition demo_outer :: session where
  "demo_outer = demo_session\<lparr>se_txn := Some (txn_new 6)\<rparr>"

definition demo_inner :: txn where
  "demo_inner = (txn_new 6)\<lparr>tx_savepoints := [(''a'', 0, 0)], tx_deferred_marks := [(0, [], 0)], tx_sub_xids := [7],
     tx_owned_xids := [7], tx_guc_marks := [0], tx_char_marks := [(None, ReadCommitted, None)], tx_cursor_marks := [[]]\<rparr>"

definition demo_inner_failed :: txn where
  "demo_inner_failed = demo_inner\<lparr>tx_writes := [DeleteRow ''t'' 5 0], tx_failed := True\<rparr>"

definition demo_after :: server where
  "demo_after =
     \<lparr>sv_engine = demo_deleting\<lparr>en_txns := demo_idle_tm\<lparr>tm_next_xid := 8, tm_active := {6, 7}\<rparr>\<rparr>, sv_deferred = []\<rparr>"


end
