(* ===== verification/Commit.thy ===== *)
theory Commit
  imports Lifecycle
begin

text \<open>
  Commit as the moment of publication: until then no reader outside the transaction sees its
  writes, from then on every new snapshot does, and snapshots taken before keep what they saw.
\<close>

section \<open>Snapshots and running transactions\<close>

text \<open>A registered snapshot was taken before every transaction that is still active ended.\<close>

definition snaps_isolate :: "txn_manager \<Rightarrow> bool" where
  "snaps_isolate tm \<longleftrightarrow>
     (\<forall>e \<in> set (tm_snapshots tm). \<forall>x \<in> tm_active tm. x \<in> set (sn_active (snd e)) \<or> sn_next_xid (snd e) \<le> x)"

lemma snaps_isolate_new [simp]: "snaps_isolate txn_manager_new"
  by (simp add: snaps_isolate_def txn_manager_new_def)

lemma snaps_isolate_begin: "tm_wf tm \<Longrightarrow> snaps_isolate tm \<Longrightarrow> begin_txn tm = (xid, tm') \<Longrightarrow> snaps_isolate tm'"
  by (fastforce simp: snaps_isolate_def begin_txn_def alloc_xid_def tm_wf_def snap_wf_def)

lemma snaps_isolate_end: "snaps_isolate tm \<Longrightarrow> snaps_isolate (end_txn xid tm)"
  using set_hm_remove [of xid "tm_snapshots tm"] by (auto simp: snaps_isolate_def end_txn_def)

lemma snaps_isolate_register:
  assumes "tm_wf tm" and "snaps_isolate tm"
  shows "snaps_isolate (register_snapshot xid (take_snapshot tm) tm)"
proof -
  have "x \<in> set (sn_active (snd e)) \<or> sn_next_xid (snd e) \<le> x"
    if "e \<in> set (hm_insert xid (take_snapshot tm) (tm_snapshots tm))" "x \<in> tm_active tm" for e x
    using that assms set_hm_insert [of xid "take_snapshot tm" "tm_snapshots tm"]
    by (fastforce simp: snaps_isolate_def take_snapshot_def tm_wf_def)
  then show ?thesis by (simp add: snaps_isolate_def register_snapshot_def)
qed

lemma snaps_isolate_locks [simp]:
  "snaps_isolate (release_txn_locks xid tm) = snaps_isolate tm"
  "snaps_isolate (tm\<lparr>tm_row_locks := l, tm_lock_order := o'\<rparr>) = snaps_isolate tm"
  by (simp_all add: snaps_isolate_def release_txn_locks_def)

lemma active_unseen:
  assumes "tm_wf tm" and "snaps_isolate tm" and "sn = take_snapshot tm \<or> sn \<in> snd ` set (tm_snapshots tm)"
    and "x \<in> tm_active tm" and "x \<notin> set owns"
  shows "\<not> xid_seen sn owns x"
proof (cases "sn = take_snapshot tm")
  case True
  then show ?thesis using assms(1,4,5) by (simp add: fresh_seen xid_committed_def)
next
  case False
  then obtain k where "(k, sn) \<in> set (tm_snapshots tm)" using assms(3) by auto
  then show ?thesis using assms(2,4,5) by (fastforce simp: snaps_isolate_def xid_seen_def)
qed

section \<open>The snapshot of the commit\<close>

lemma txn_snapshot_frame:
  assumes "txn_snapshot eng t = (ss, eng1, t1)" and "tm_wf (en_txns eng)" and "tx_xid t \<in> tm_active (en_txns eng)"
  shows "en_db eng1 = en_db eng \<and> tm_wf (en_txns eng1) \<and> tm_active (en_txns eng1) = tm_active (en_txns eng) \<and>
    tm_next_xid (en_txns eng1) = tm_next_xid (en_txns eng) \<and> tx_writes t1 = tx_writes t \<and> all_xids t1 = all_xids t \<and>
    tx_xid t1 = tx_xid t \<and> tx_guc_stack t1 = tx_guc_stack t \<and>
    (\<forall>e \<in> set (tm_snapshots (en_txns eng1)). e \<in> set (tm_snapshots (en_txns eng)) \<or> fst e = tx_xid t)"
proof -
  have reg: "tm_wf (register_snapshot (tx_xid t) (take_snapshot (en_txns eng)) (en_txns eng))"
    by (rule tm_wf_register [OF assms(2,3) tm_wf_take [OF assms(2)]])
  have snaps: "(a, b) \<in> set (tm_snapshots (en_txns eng)) \<or> a = tx_xid t"
    if "(a, b) \<in> set (hm_insert (tx_xid t) sn (tm_snapshots (en_txns eng)))" for a b sn
    using that set_hm_insert [of "tx_xid t" sn "tm_snapshots (en_txns eng)"] by auto
  show ?thesis
    using assms reg
    by (auto simp: txn_snapshot_def Let_def register_snapshot_def all_xids_def dest: snaps split: isolation_level.splits option.splits)
qed

section \<open>Property\<close>

text \<open>
  C3. Commit publishes a transaction as a whole. Before it, no fresh or registered snapshot of
  a reader outside the transaction sees a row it created, and rows it deleted are seen as if
  they were not deleted. \<^verbatim>\<open>COMMIT\<close> with nothing deferred, once its records are in the log,
  does not panic and ends the transaction: then every row it created and did not delete
  is there and visible to a fresh snapshot, no row it deleted is, and no row that a remaining
  snapshot sees is gone (toast chunks aside).
\<close>

theorem commit_publishes:
  fixes t :: txn and srv :: server
  defines "tm \<equiv> en_txns (sv_engine srv)" and "rows \<equiv> find_row_version (en_db (sv_engine srv))"
  assumes "se_txn s = Some t" and "\<not> tx_failed t" and "\<not> tx_implicit t"
    and "in_txn env ks (all_xids t) base (tx_writes t) (sv_engine srv)" and "tm_wf tm" and "snaps_isolate tm"
    and "set (all_xids t) \<subseteq> tm_active tm" and "\<forall>i v. rows i = Some v \<longrightarrow> v_xmax v < tm_next_xid tm"
    and "txn_snapshot (sv_engine srv) t = (ss, eng1, t1)" and "map_of (sv_deferred srv) (se_sid s) = None"
    and "wl_records c eng1 (tx_xid t) (tx_writes t) (se_sid s) = Inr records" and "wl_append c records w = (None, w')"
  shows "(\<forall>i v sn owns. rows i = Some v \<longrightarrow> sn = take_snapshot tm \<or> sn \<in> snd ` set (tm_snapshots tm) \<longrightarrow>
       set owns \<inter> set (all_xids t) = {} \<longrightarrow>
       (v_xmin v \<in> set (all_xids t) \<longrightarrow> \<not> row_visible v sn owns) \<and>
       (v_xmax v \<in> set (all_xids t) \<longrightarrow> row_visible v sn owns = row_visible (v\<lparr>v_xmax := 0\<rparr>) sn owns)) \<and>
    (\<exists>srv' s'. txn_commit env c False w srv s = Some (Inr (RCommand ''COMMIT''), w', srv', s') \<and> se_txn s' = None \<and>
       tm_active (en_txns (sv_engine srv')) = tm_active tm - set (all_xids t) \<and>
       (\<forall>i v owns. rows i = Some v \<longrightarrow>
          (v_xmin v \<in> set (all_xids t) \<longrightarrow> v_xmax v = 0 \<longrightarrow> \<not> chunk_row (en_db (sv_engine srv)) v \<longrightarrow>
             find_row_version (en_db (sv_engine srv')) i = Some v \<and> row_visible v (take_snapshot (en_txns (sv_engine srv'))) owns) \<and>
          (v_xmax v \<in> set (all_xids t) \<longrightarrow> \<not> row_visible v (take_snapshot (en_txns (sv_engine srv'))) owns)) \<and>
       (\<forall>i v sn owns. rows i = Some v \<longrightarrow> sn \<in> snd ` set (tm_snapshots (en_txns (sv_engine srv'))) \<longrightarrow>
          row_visible v sn owns \<longrightarrow> \<not> chunk_row (en_db (sv_engine srv)) v \<longrightarrow>
          find_row_version (en_db (sv_engine srv')) i = Some v))"
proof -
  let ?own = "set (all_xids t)"
  have xids: "x \<noteq> 0 \<and> x < tm_next_xid tm" if "x \<in> ?own" for x
    using that assms(7,9) unfolding tm_wf_def by blast
  have isolated: "(v_xmin v \<in> ?own \<longrightarrow> \<not> row_visible v sn owns) \<and>
      (v_xmax v \<in> ?own \<longrightarrow> row_visible v sn owns = row_visible (v\<lparr>v_xmax := 0\<rparr>) sn owns)"
    if sn: "sn = take_snapshot tm \<or> sn \<in> snd ` set (tm_snapshots tm)" and others: "set owns \<inter> ?own = {}" for v sn owns
  proof -
    have "\<not> xid_seen sn owns x" if "x \<in> ?own" for x
      by (rule active_unseen [OF assms(7,8) sn]) (use that assms(9) others in auto)
    then show ?thesis by (simp add: rowv.visible_iff)
  qed
  note fr = txn_snapshot_frame [OF assms(11), folded tm_def, OF assms(7)]
  have act: "tx_xid t \<in> tm_active tm" using assms(9) by (simp add: all_xids_def)
  note fr = fr [OF act]
  let ?e = "retire_txn_family t1 eng1" and ?s = "s\<lparr>se_txn := None\<rparr>"
  have ok: "db_rows_ok (en_db eng1)" "db_indexed env ks (en_db eng1)" using fr assms(6) by (simp_all add: in_txn_def)
  note ret = retire_retires [of eng1 t1]
  obtain eng2 where v: "vacuum_names env (vacuumed_names (tx_writes t)) ?e = Some eng2" "eng2 = ?e\<lparr>en_db := en_db eng2\<rparr>"
    "swept (en_txns ?e) (en_db eng1) (en_db eng2)"
    using vacuum_names_sweeps [of ?e env ks "vacuumed_names (tx_writes t)"] ok by auto
  have tm2: "en_txns eng2 = en_txns ?e" by (subst v(2)) simp
  have wf2: "tm_wf (en_txns eng2)" and rt: "retired t1 (en_txns eng1) (en_txns eng2)" using ret fr tm2 by auto
  have act2: "tm_active (en_txns eng2) = tm_active tm - ?own" and next2: "tm_next_xid (en_txns eng2) = tm_next_xid tm"
    using rt fr by (simp_all add: retired_def)
  let ?srv = "\<lparr>sv_engine = eng2, sv_deferred = deferred_clear (se_sid s) (sv_deferred srv)\<rparr>"
  have "flush_deferred_fk f g (se_sid s) None \<lparr>fs_engine = eng1, fs_writes = ws, fs_deferred = sv_deferred srv\<rparr> =
      (None, \<lparr>fs_engine = eng1, fs_writes = ws, fs_deferred = sv_deferred srv\<rparr>)" for f g ws
    using assms(12) by (simp add: flush_deferred_fk_def numeral_eq_Suc)
  then have "\<exists>s'. commit_taken_txn env c t w srv ?s = Some (Inr (RCommand ''COMMIT''), w', ?srv, s') \<and> se_txn s' = None"
    using assms(4,13,14) v(1) fr
    by (cases ss) (simp add: commit_taken_txn_def assms(11) Let_def retire_txn_family_sid_def auto_vacuum_def cmd_def retire_txn_family_def
        all_xids_def)
  then obtain s' where run: "commit_taken_txn env c t w srv ?s = Some (Inr (RCommand ''COMMIT''), w', ?srv, s')" "se_txn s' = None"
    by blast
  have run: "txn_commit env c False w srv s = Some (Inr (RCommand ''COMMIT''), w', ?srv, s')"
    using run(1) assms(3,5) by (simp add: txn_commit_def)
  have seen: "xid_seen (take_snapshot (en_txns eng2)) owns x" if "x \<in> ?own" for x owns
    using fresh_seen [OF wf2] xids [OF that] that act2 next2 by (simp add: xid_committed_def)
  have kept: "find_row_version (en_db eng2) i = Some v"
    if "rows i = Some v" "\<not> chunk_row (en_db (sv_engine srv)) v" "\<not> version_dead_to_all (en_txns eng2) v" for i v
    using that v(3) fr unfolding swept_def tm2 rows_def by (metis option.exhaust option.inject)
  have alive: "\<not> version_dead_to_all (en_txns eng2) v"
    if "rows i = Some v" "sn \<in> snd ` set (tm_snapshots (en_txns eng2))" "row_visible v sn owns" for i v sn owns
    using dead_invisible [OF wf2, of v sn owns] that assms(10) next2 by fastforce
  have created: "find_row_version (en_db eng2) i = Some v \<and> row_visible v (take_snapshot (en_txns eng2)) owns"
    if "rows i = Some v" "v_xmin v \<in> ?own" "v_xmax v = 0" "\<not> chunk_row (en_db (sv_engine srv)) v" for i v owns
    using that kept [of i v] seen [of "v_xmin v" owns] by (simp add: rowv.visible_iff version_dead_to_all_def)
  have deleted: "\<not> row_visible v (take_snapshot (en_txns eng2)) owns" if "v_xmax v \<in> ?own" for v owns
    using seen [OF that] xids [OF that] by (simp add: rowv.visible_iff)
  let ?before = "\<forall>i v sn owns. rows i = Some v \<longrightarrow> sn = take_snapshot tm \<or> sn \<in> snd ` set (tm_snapshots tm) \<longrightarrow>
       set owns \<inter> ?own = {} \<longrightarrow>
       (v_xmin v \<in> ?own \<longrightarrow> \<not> row_visible v sn owns) \<and>
       (v_xmax v \<in> ?own \<longrightarrow> row_visible v sn owns = row_visible (v\<lparr>v_xmax := 0\<rparr>) sn owns)"
  let ?fresh = "take_snapshot (en_txns eng2)" and ?chunk = "chunk_row (en_db (sv_engine srv))"
  have before: ?before using isolated by blast
  have fresh: "\<forall>i v owns. rows i = Some v \<longrightarrow>
      (v_xmin v \<in> ?own \<longrightarrow> v_xmax v = 0 \<longrightarrow> \<not> ?chunk v \<longrightarrow>
         find_row_version (en_db eng2) i = Some v \<and> row_visible v ?fresh owns) \<and>
      (v_xmax v \<in> ?own \<longrightarrow> \<not> row_visible v ?fresh owns)"
    using created deleted by blast
  have older: "\<forall>i v sn owns. rows i = Some v \<longrightarrow> sn \<in> snd ` set (tm_snapshots (en_txns eng2)) \<longrightarrow>
      row_visible v sn owns \<longrightarrow> \<not> ?chunk v \<longrightarrow> find_row_version (en_db eng2) i = Some v"
    using kept alive by blast
  show ?thesis
  proof (rule conjI [OF before], rule exI [of _ ?srv], rule exI [of _ s'], unfold server.select_convs, intro conjI)
    show "se_txn s' = None" by fact
  qed (rule run act2 fresh older)+
qed

text \<open>The deletion of the demonstration transaction, committed.\<close>

definition demo_committing :: txn where
  "demo_committing = (txn_new 7)\<lparr>tx_writes := [DeleteRow ''t'' 5 0]\<rparr>"

theorem commit_publishes_witness:
  "\<exists>srv' s'. txn_commit demo_env demo_commit_env False () demo_server (demo_session\<lparr>se_txn := Some demo_committing\<rparr>) =
       Some (Inr (RCommand ''COMMIT''), (), srv', s') \<and> se_txn s' = None \<and>
     \<not> row_visible (demo_row\<lparr>v_xmax := 7\<rparr>) (take_snapshot (en_txns (sv_engine srv'))) []"
proof -
  let ?s = "demo_session\<lparr>se_txn := Some demo_committing\<rparr>"
  have t: "se_txn ?s = Some demo_committing" "\<not> tx_failed demo_committing" "\<not> tx_implicit demo_committing"
    by (simp_all add: demo_committing_def txn_new_def)
  have ids: "all_xids demo_committing = [7]" "tx_writes demo_committing = [DeleteRow ''t'' 5 0]" "tx_xid demo_committing = 7"
    by (simp_all add: demo_committing_def all_xids_def txn_new_def)
  have view: "find_row_version (en_db (sv_engine demo_server)) = [5 \<mapsto> demo_row\<lparr>v_xmax := 7\<rparr>]"
    using demo_deleting_view by simp
  have rows: "in_txn demo_env (\<lambda>_. [KExact]) (all_xids demo_committing) [5 \<mapsto> demo_row] (tx_writes demo_committing) (sv_engine demo_server)"
    using demo_in_txn by (simp add: ids)
  have wf: "tm_wf (en_txns (sv_engine demo_server))" "snaps_isolate (en_txns (sv_engine demo_server))"
    "set (all_xids demo_committing) \<subseteq> tm_active (en_txns (sv_engine demo_server))"
    using demo_server_wf by (simp_all add: ids snaps_isolate_def demo_idle_tm_def txn_manager_new_def)
  have old: "\<forall>i v. find_row_version (en_db (sv_engine demo_server)) i = Some v \<longrightarrow> v_xmax v < tm_next_xid (en_txns (sv_engine demo_server))"
    unfolding view by simp
  have snap: "txn_snapshot (sv_engine demo_server) demo_committing =
      ((take_snapshot (en_txns (sv_engine demo_server)), 7, ReadCommitted), sv_engine demo_server,
       demo_committing\<lparr>tx_first_snapshot_set := True\<rparr>)"
    by (simp add: txn_snapshot_def demo_committing_def txn_new_def)
  have rest: "map_of (sv_deferred demo_server) (se_sid ?s) = None"
    "wl_records demo_commit_env (sv_engine demo_server) (tx_xid demo_committing) (tx_writes demo_committing) (se_sid ?s) = Inr []"
    "wl_append demo_commit_env [] () = (None, ())"
    by (simp_all add: demo_server_def demo_commit_env_def)
  obtain srv' s' where run: "txn_commit demo_env demo_commit_env False () demo_server ?s = Some (Inr (RCommand ''COMMIT''), (), srv', s')"
    "se_txn s' = None"
    and fresh: "\<forall>i v owns. find_row_version (en_db (sv_engine demo_server)) i = Some v \<longrightarrow>
      (v_xmin v \<in> set (all_xids demo_committing) \<longrightarrow> v_xmax v = 0 \<longrightarrow> \<not> chunk_row (en_db (sv_engine demo_server)) v \<longrightarrow>
         find_row_version (en_db (sv_engine srv')) i = Some v \<and> row_visible v (take_snapshot (en_txns (sv_engine srv'))) owns) \<and>
      (v_xmax v \<in> set (all_xids demo_committing) \<longrightarrow> \<not> row_visible v (take_snapshot (en_txns (sv_engine srv'))) owns)"
    using conjunct2 [OF commit_publishes [OF t rows wf old snap rest]] by (elim exE conjE)
  from fresh [rule_format, of 5 "demo_row\<lparr>v_xmax := 7\<rparr>"] have "\<not> row_visible (demo_row\<lparr>v_xmax := 7\<rparr>) (take_snapshot (en_txns (sv_engine srv'))) []"
    unfolding view ids by simp
  with run show ?thesis by (intro exI conjI)
qed

end
