(* ===== verification/Cursors.thy ===== *)
theory Cursors
  imports Session
begin

text \<open>
  SQL cursors (\<^verbatim>\<open>server.rs\<close>): \<^verbatim>\<open>DECLARE\<close>, \<^verbatim>\<open>FETCH\<close>, \<^verbatim>\<open>MOVE\<close> and \<^verbatim>\<open>CLOSE\<close>, with the window of rows that a
  direction selects. Positions and counts are 64-bit words whose sums wrap, as in a release
  build; a debug build panics where they overflow. The portals of procedural functions are
  not modelled: a name that is not a session cursor does not exist.
\<close>

section \<open>The window of a direction\<close>

datatype fetch_dir =
    FdForward "i64 option"
  | FdBackward "i64 option"
  | FdAbsolute i64
  | FdRelative i64
  | FdFirst
  | FdLast

datatype window_kind = WkFwd | WkBwd | WkAt

fun raw_window :: "fetch_dir \<Rightarrow> i64 \<Rightarrow> i64 \<Rightarrow> i64 \<times> i64 \<times> window_kind" where
  "raw_window (FdForward None) pos n = (pos + 1, n, WkFwd)"
| "raw_window (FdForward (Some c)) pos n =
     (if 0 \<le> sint c then (pos + 1, pos + 1 + c, WkFwd) else (pos + c, pos, WkBwd))"
| "raw_window (FdBackward None) pos n = (0, pos, WkBwd)"
| "raw_window (FdBackward (Some c)) pos n =
     (if 0 \<le> sint c then (pos - c, pos, WkBwd) else (pos + 1, pos + 1 - c, WkFwd))"
| "raw_window (FdAbsolute c) pos n =
     (let t = (if 0 < sint c then c - 1 else n + c) in (t, t + 1, WkAt))"
| "raw_window (FdRelative c) pos n = (pos + c, pos + c + 1, WkAt)"
| "raw_window FdFirst pos n = (0, 1, WkAt)"
| "raw_window FdLast pos n = (n - 1, n, WkAt)"

definition clamp_pos :: "i64 \<Rightarrow> i64 \<Rightarrow> i64" where
  "clamp_pos n x = (if sint x < 0 then 0 else if sint n < sint x then n else x)"

definition cursor_window :: "fetch_dir \<Rightarrow> i64 \<Rightarrow> nat \<Rightarrow> nat \<times> nat \<times> i64" where
  "cursor_window dir pos len =
     (let n = word_of_nat len; (s0, e0, kind) = raw_window dir pos n;
          neg = (sint s0 < 0); s = clamp_pos n s0; e = clamp_pos n e0
      in if dir = FdAbsolute 0 then (0, 0, -1)
         else if sint e \<le> sint s
         then (0, 0, case kind of WkFwd \<Rightarrow> n | WkBwd \<Rightarrow> -1 | WkAt \<Rightarrow> if neg then -1 else n)
         else (unat s, unat e,
           case kind of
             WkFwd \<Rightarrow> if e = n then n else e - 1
           | WkBwd \<Rightarrow> if dir = FdBackward None \<or> neg then -1 else s
           | WkAt \<Rightarrow> e - 1))"

fun is_backward :: "fetch_dir \<Rightarrow> bool" where
  "is_backward (FdBackward c) = True"
| "is_backward _ = False"

section \<open>The statements\<close>

definition no_cursor :: "string \<Rightarrow> exec_error" where
  "no_cursor name = ExecErr ''34000'' (''cursor \"'' @ name @ ''\" does not exist'')"

definition cursor_declare ::
  "string \<Rightarrow> select_stmt \<Rightarrow> bool \<Rightarrow> session \<Rightarrow> (exec_error + exec_result) \<times> session" where
  "cursor_declare name query with_hold s =
     (if se_txn s = None \<and> \<not> with_hold
      then (Inl (err_25001 ''DECLARE CURSOR can only be used in transaction blocks''), s)
      else if map_of (se_cursors s) name \<noteq> None
      then (Inl (ExecErr ''42P11'' (''cursor \"'' @ name @ ''\" already exists'')), s)
      else (cmd ''DECLARE CURSOR'',
        s\<lparr>se_cursors := hm_insert name
          \<lparr>cu_query = Some query, cu_cols = [], cu_rows = [], cu_pos = -1, cu_with_hold = with_hold, cu_dead = False\<rparr>
          (se_cursors s)\<rparr>))"

text \<open>The rows of a window and the cursor's next position, once its rows are there.\<close>

definition fetch_rows :: "fetch_dir \<Rightarrow> row list \<Rightarrow> i64 \<Rightarrow> row list \<times> i64" where
  "fetch_rows dir rows pos =
     (let (s, e, new_pos) = cursor_window dir pos (length rows); got = drop s (take e rows)
      in (if is_backward dir then rev got else got, new_pos))"

definition put_cursor :: "string \<Rightarrow> (sql_cursor \<Rightarrow> sql_cursor) \<Rightarrow> session \<Rightarrow> session" where
  "put_cursor name f s = s\<lparr>se_cursors := hm_modify name f (se_cursors s)\<rparr>"

definition cursor_move :: "string \<Rightarrow> fetch_dir \<Rightarrow> bool \<Rightarrow> session \<Rightarrow> (exec_error + exec_result) \<times> session" where
  "cursor_move name dir is_move s =
     (case map_of (se_cursors s) name of
        None \<Rightarrow> (Inl (no_cursor name), s)
      | Some cur \<Rightarrow>
          (let (rows, new_pos) = fetch_rows dir (cu_rows cur) (cu_pos cur);
               s' = put_cursor name (\<lambda>c. c\<lparr>cu_pos := new_pos\<rparr>) s; n = dec_string (length rows)
           in if is_move then (cmd (''MOVE '' @ n), s')
              else (Inr (RDml (''FETCH '' @ n) (cu_cols cur) rows), s')))"

text \<open>The first fetch runs the query of the cursor, in the transaction or on its own.\<close>

definition run_query ::
  "key_env \<Rightarrow> ('w, 'r) commit_env \<Rightarrow> select_stmt executor \<Rightarrow> select_stmt \<Rightarrow> 'w \<Rightarrow> server \<Rightarrow> session \<Rightarrow> 'w ended" where
  "run_query env c ex query w srv s =
     (if se_txn s \<noteq> None then keep_log w (txn_execute ex query srv s)
      else map_option (\<lambda>(res, w', srv').
             (case res of
                Inr (r, notices) \<Rightarrow> (Inr r, w', srv', s\<lparr>se_pending_notices := se_pending_notices s @ notices\<rparr>)
              | Inl e \<Rightarrow> (Inl e, w', srv', s)))
             (autocommit_execute env c ex query w srv s))"

definition cursor_fetch ::
  "key_env \<Rightarrow> ('w, 'r) commit_env \<Rightarrow> select_stmt executor \<Rightarrow> string \<Rightarrow> fetch_dir \<Rightarrow> bool \<Rightarrow> 'w \<Rightarrow> server \<Rightarrow> session \<Rightarrow> 'w ended" where
  "cursor_fetch env c ex name dir is_move w srv s =
     (let done = (\<lambda>(w, srv, s). let (res, s') = cursor_move name dir is_move s in (res, w, srv, s'));
          killed = put_cursor name (\<lambda>c. c\<lparr>cu_dead := True\<rparr>)
      in case map_of (se_cursors s) name of
           None \<Rightarrow> Some (Inl (no_cursor name), w, srv, s)
         | Some cur \<Rightarrow>
             if cu_dead cur then Some (Inl (ExecErr ''55000'' (''portal \"'' @ name @ ''\" cannot be run'')), w, srv, s)
             else (case cu_query cur of
                     None \<Rightarrow> Some (done (w, srv, s))
                   | Some query \<Rightarrow>
                       map_option (\<lambda>(res, w', srv', s').
                         (case res of
                            Inr (RSelect cols rows) \<Rightarrow>
                              done (w', srv', put_cursor name (\<lambda>c. c\<lparr>cu_cols := cols, cu_rows := rows\<rparr>) s')
                          | Inr _ \<Rightarrow> (Inl (ExecErr ''XX000'' ''internal error: DECLARE query did not return rows''),
                              w', srv', killed s')
                          | Inl e \<Rightarrow> (Inl e, w', srv', killed s')))
                         (run_query env c ex query w srv (put_cursor name (\<lambda>c. c\<lparr>cu_query := None\<rparr>) s))))"

definition cursor_close :: "string option \<Rightarrow> session \<Rightarrow> (exec_error + exec_result) \<times> session" where
  "cursor_close name s =
     (case name of
        Some n \<Rightarrow>
          if map_of (se_cursors s) n = None then (Inl (no_cursor n), s)
          else (cmd ''CLOSE CURSOR'', s\<lparr>se_cursors := hm_remove n (se_cursors s)\<rparr>)
      | None \<Rightarrow> (cmd ''CLOSE CURSOR'', s\<lparr>se_cursors := []\<rparr>))"

section \<open>Windows stay inside the rows\<close>

lemma sint_len: "len < 2 ^ 63 \<Longrightarrow> sint (word_of_nat len :: i64) = int len"
  by (simp add: signed_of_nat signed_take_bit_int_eq_self)

lemma sint_plus:
  fixes a b :: i64
  assumes "- (2 ^ 63) \<le> sint a + sint b" and "sint a + sint b < 2 ^ 63"
  shows "sint (a + b) = sint a + sint b"
proof -
  have "a + b = word_of_int (sint a + sint b)" by (simp add: of_int_sint)
  then have "sint (a + b) = signed_take_bit 63 (sint a + sint b)" by (simp only: signed_of_int) simp
  then show ?thesis using assms by (simp add: signed_take_bit_int_eq_self)
qed

lemma sint_minus:
  fixes a b :: i64
  assumes "- (2 ^ 63) \<le> sint a - sint b" and "sint a - sint b < 2 ^ 63"
  shows "sint (a - b) = sint a - sint b"
proof -
  have "a - b = word_of_int (sint a - sint b)" by (simp add: of_int_sint)
  then have "sint (a - b) = signed_take_bit 63 (sint a - sint b)" by (simp only: signed_of_int) simp
  then show ?thesis using assms by (simp add: signed_take_bit_int_eq_self)
qed

lemma sint_inject: "sint x = sint y \<longleftrightarrow> x = y" for x y :: i64
  using signed_word_eqI [of x y] by auto

lemma sint_clamp:
  "0 \<le> sint n \<Longrightarrow> sint (clamp_pos n x) = max 0 (min (sint n) (sint x))"
  by (simp add: clamp_pos_def)

lemma unat_sint: "0 \<le> sint x \<Longrightarrow> unat x = nat (sint x)" for x :: i64
proof -
  assume x: "0 \<le> sint x"
  have "sint x < 2 ^ 63" using sint_lt [of x] by simp
  then have "uint (word_of_int (sint x) :: i64) = sint x"
    using x by (simp only: unsigned_of_int) (simp add: take_bit_int_eq_self)
  then have "uint x = sint x" by (simp add: of_int_sint)
  then show ?thesis by (metis nat_uint_eq)
qed

text \<open>
  C14. A fetch never reads outside the rows of its cursor: for every direction and every 64-bit
  count, also one that overflows, the window lies within the rows, and the cursor ends up
  before the first row, on a row, or after the last.
\<close>

theorem cursor_window_bounds:
  assumes "len < 2 ^ 63" and "cursor_window dir pos len = (s, e, new_pos)"
  shows "s \<le> e \<and> e \<le> len \<and> -1 \<le> sint new_pos \<and> sint new_pos \<le> int len"
proof -
  define n where "n = (word_of_nat len :: i64)"
  obtain s0 e0 kind where raw: "raw_window dir pos n = (s0, e0, kind)" by (cases "raw_window dir pos n")
  have n: "sint n = int len" unfolding n_def by (rule sint_len [OF assms(1)])
  have c: "0 \<le> sint (clamp_pos n x) \<and> sint (clamp_pos n x) \<le> int len" for x using n by (simp add: sint_clamp)
  let ?s = "clamp_pos n s0" and ?e = "clamp_pos n e0"
  have pred: "sint (?e - 1) = sint ?e - 1" using c [of e0] assms(1) by (intro trans [OF sint_minus]) auto
  have u: "unat ?s = nat (sint ?s)" "unat ?e = nat (sint ?e)" using unat_sint c by blast+
  show ?thesis
    using assms(2) c [of s0] c [of e0] n pred
    by (auto simp: cursor_window_def n_def [symmetric] raw Let_def u nat_le_iff simp del: unat_eq_nat_uint split: if_splits window_kind.splits)
qed

theorem cursor_window_bounds_witness:
  "fst (cursor_window (FdForward (Some (- 3))) 2 4) \<le> fst (snd (cursor_window (FdForward (Some (- 3))) 2 4)) \<and>
   fst (snd (cursor_window (FdForward (Some (- 3))) 2 4)) \<le> 4"
proof -
  have "4 < (2 ^ 63 :: nat)" by simp
  from cursor_window_bounds [OF this, of "FdForward (Some (- 3))" 2] show ?thesis
    by (cases "cursor_window (FdForward (Some (- 3))) 2 4") simp
qed

section \<open>Scanning forward\<close>

text \<open>Fetches in turn from one materialized cursor.\<close>

fun fetches :: "fetch_dir list \<Rightarrow> row list \<Rightarrow> i64 \<Rightarrow> row list list \<times> i64" where
  "fetches [] rows pos = ([], pos)"
| "fetches (d # ds) rows pos =
     (let (got, pos1) = fetch_rows d rows pos; (rest, pos2) = fetches ds rows pos1 in (got # rest, pos2))"

text \<open>The cursor after \<open>p\<close> rows: on the last one read, or after the last of all.\<close>

definition read_upto :: "row list \<Rightarrow> nat \<Rightarrow> i64 \<Rightarrow> bool" where
  "read_upto rows p pos \<longleftrightarrow> p \<le> length rows \<and>
     (if p < length rows then sint pos = int p - 1 else sint pos = int p \<or> p = 0 \<and> sint pos = - 1)"

lemma forward_step:
  assumes "length rows < 2 ^ 62" and "read_upto rows p pos" and "0 < sint c" and "sint c < 2 ^ 62"
  shows "\<exists>pos'. fetch_rows (FdForward (Some c)) rows pos = (take (nat (sint c)) (drop p rows), pos') \<and>
    read_upto rows (min (length rows) (p + nat (sint c))) pos'"
proof -
  let ?len = "length rows"
  define n where "n = (word_of_nat ?len :: i64)"
  have n: "sint n = int ?len" unfolding n_def by (rule sint_len) (use assms(1) in simp)
  have p: "p \<le> ?len" "sint pos = int p - 1 \<or> p = ?len \<and> sint pos = int p" using assms(2) by (auto simp: read_upto_def split: if_splits)
  have s: "sint (pos + 1) = sint pos + 1" using p assms(1) by (intro trans [OF sint_plus]) auto
  have e: "sint (pos + 1 + c) = sint pos + 1 + sint c"
    using p assms(1,3,4) s by (intro trans [OF sint_plus]) auto
  let ?s = "clamp_pos n (pos + 1)" and ?e = "clamp_pos n (pos + 1 + c)"
  have cs: "sint ?s = int p" using p n s by (auto simp: sint_clamp)
  have ce: "sint ?e = min (int ?len) (int p + sint c)" using p n e assms(3) by (auto simp: sint_clamp)
  have pred: "sint (?e - 1) = sint ?e - 1" using ce assms(1,3) by (intro trans [OF sint_minus]) auto
  have u: "unat ?s = p" "unat ?e = min ?len (p + nat (sint c))" using unat_sint [of ?s] unat_sint [of ?e] cs ce assms(3) by auto
  have full: "?e = n \<longleftrightarrow> ?len \<le> p + nat (sint c)"
  proof -
    have "?e = n \<longleftrightarrow> sint ?e = sint n" by (rule sint_inject [symmetric])
    then show ?thesis using ce n assms(3) by auto
  qed
  show ?thesis
  proof (cases "p = ?len")
    case True
    then have "cursor_window (FdForward (Some c)) pos ?len = (0, 0, n)"
      using assms(3) cs ce n by (simp add: cursor_window_def n_def [symmetric] Let_def)
    then show ?thesis using True n by (simp add: fetch_rows_def read_upto_def)
  next
    case False
    then have "cursor_window (FdForward (Some c)) pos ?len =
        (p, min ?len (p + nat (sint c)), if ?len \<le> p + nat (sint c) then n else ?e - 1)"
      using assms(3) cs ce p(1) by (simp add: cursor_window_def n_def [symmetric] Let_def full u min_le_iff_disj)
    moreover have "drop p (take (min ?len (p + nat (sint c))) rows) = take (nat (sint c)) (drop p rows)"
      by (simp add: drop_take min_def)
    moreover have "read_upto rows (min ?len (p + nat (sint c))) (if ?len \<le> p + nat (sint c) then n else ?e - 1)"
      using n pred ce assms(3) by (auto simp: read_upto_def)
    ultimately show ?thesis by (simp add: fetch_rows_def)
  qed
qed

definition forwards :: "i64 list \<Rightarrow> fetch_dir list" where
  "forwards cs = map (\<lambda>c. FdForward (Some c)) cs"

definition total :: "i64 list \<Rightarrow> nat" where
  "total cs = sum_list (map (\<lambda>c. nat (sint c)) cs)"

lemma forwards_total_simps [simp]:
  "forwards [] = []" "forwards (c # cs) = FdForward (Some c) # forwards cs"
  "total [] = 0" "total (c # cs) = nat (sint c) + total cs"
  by (simp_all add: forwards_def total_def)

lemma forward_steps:
  assumes "length rows < 2 ^ 62" and "read_upto rows p pos" and "\<forall>c \<in> set cs. 0 < sint c \<and> sint c < 2 ^ 62"
  shows "concat (fst (fetches (forwards cs) rows pos)) = take (total cs) (drop p rows) \<and>
    read_upto rows (min (length rows) (p + total cs)) (snd (fetches (forwards cs) rows pos))"
  using assms(2,3)
proof (induction cs arbitrary: p pos)
  case (Cons c cs)
  let ?k = "nat (sint c)" and ?len = "length rows" and ?sum = "total cs"
  obtain pos' where a: "fetch_rows (FdForward (Some c)) rows pos = (take ?k (drop p rows), pos')"
    "read_upto rows (min ?len (p + ?k)) pos'" using forward_step [OF assms(1) Cons.prems(1), of c] Cons.prems(2) by auto
  obtain rest pos'' where r: "fetches (forwards cs) rows pos' = (rest, pos'')" by force
  have "drop (min ?len (p + ?k)) rows = drop ?k (drop p rows)" by (simp add: min_def add.commute)
  then have "concat rest = take ?sum (drop ?k (drop p rows))" "read_upto rows (min ?len (min ?len (p + ?k) + ?sum)) pos''"
    using Cons.IH [OF a(2)] Cons.prems(2) r by auto
  moreover have "min ?len (min ?len (p + ?k) + ?sum) = min ?len (p + (?k + ?sum))" by (simp add: min_def)
  ultimately show ?case using a(1) r by (simp add: take_add)
qed (auto simp: read_upto_def min_def split: if_splits)


definition demo_result :: "row list" where
  "demo_result = [[VInt 1], [VInt 2], [VInt 3]]"


section \<open>Where the code departs from its intent\<close>

text \<open>
  A negative count reverses the direction, like in PostgreSQL, but only the rows of a
  statement that says \<^verbatim>\<open>BACKWARD\<close> are reversed: \<^verbatim>\<open>FETCH FORWARD -2\<close> and \<^verbatim>\<open>FETCH BACKWARD 2\<close> take
  the same rows and return them in different order.
\<close>

theorem negative_forward_not_reversed:
  "fst (fetch_rows (FdForward (Some (- 2))) demo_result 2) = [[VInt 1], [VInt 2]] \<and>
   fst (fetch_rows (FdBackward (Some 2)) demo_result 2) = [[VInt 2], [VInt 1]]"
  by code_simp

text \<open>\<^verbatim>\<open>FETCH 0\<close> should fetch the current row again; it returns nothing and goes to the end.\<close>

theorem fetch_zero_moves:
  "fetch_rows (FdForward (Some 0)) demo_result 0 = ([], 3) \<and> fetch_rows (FdRelative 0) demo_result 0 = ([[VInt 1]], 0)"
  by code_simp

text \<open>
  A forward fetch that ends exactly on the last row moves past it, so the row comes a second
  time with \<^verbatim>\<open>FETCH PRIOR\<close>; backward, the code itself tells the two cases apart.
\<close>

theorem last_row_twice:
  "(let (got, pos) = fetch_rows (FdForward (Some 3)) demo_result (- 1)
    in (got, fst (fetch_rows (FdBackward (Some 1)) demo_result pos))) = (demo_result, [[VInt 3]])"
  by code_simp

text \<open>A count near the limit overflows the end of the window: nothing is fetched and the cursor is at its end.\<close>

theorem huge_count_overflows:
  "fetch_rows (FdForward (Some 9223372036854775807)) demo_result 0 = ([], 3)"
  by code_simp

end
