(* ===== verification/Bytes.thy ===== *)
theory Bytes
  imports Prelude
begin

text \<open>
  Byte strings shared by the codecs: little-endian integers, sums that are checked against the
  width of \<^verbatim>\<open>usize\<close>, and the copy of a match from the output written so far.
\<close>

type_synonym bytes = "u8 list"

section \<open>Little-endian integers\<close>

text \<open>\<^verbatim>\<open>to_le_bytes\<close> and \<^verbatim>\<open>from_le_bytes\<close> of an unsigned integer of \<open>k\<close> bytes.\<close>

primrec le_bytes :: "nat \<Rightarrow> nat \<Rightarrow> bytes" where
  "le_bytes 0 x = []"
| "le_bytes (Suc k) x = word_of_nat x # le_bytes k (x div 256)"

fun from_le :: "bytes \<Rightarrow> nat" where
  "from_le [] = 0"
| "from_le (b # bs) = unat b + 256 * from_le bs"

lemma length_le_bytes [simp]: "length (le_bytes k x) = k"
  by (induction k arbitrary: x) simp_all

lemma unat_byte [simp]: "unat (word_of_nat x :: u8) = x mod 256"
  by (simp add: unsigned_of_nat take_bit_eq_mod)

lemma from_le_bytes_mod: "from_le (le_bytes k x) = x mod 256 ^ k"
proof (induction k arbitrary: x)
  case (Suc k)
  have "x mod (256 * 256 ^ k) = 256 * (x div 256 mod 256 ^ k) + x mod 256" by (simp add: mod_mult2_eq)
  then show ?case by (simp add: Suc)
qed simp

lemma from_le_bytes: "x < 256 ^ k \<Longrightarrow> from_le (le_bytes k x) = x"
  by (simp add: from_le_bytes_mod)

lemma unat_byte_less [simp]: "unat (b :: u8) < 256"
  using unat_lt [of b] by simp

lemma from_le_less: "from_le bs < 256 ^ length bs"
proof (induction bs)
  case (Cons b bs)
  have "from_le bs + 1 \<le> 256 ^ length bs" using Cons by simp
  then have "256 * (from_le bs + 1) \<le> 256 * 256 ^ length bs" by (rule mult_le_mono2)
  moreover have "from_le (b # bs) < 256 * (from_le bs + 1)" using unat_lt [of b] by simp
  ultimately show ?case unfolding length_Cons power_Suc by (rule less_le_trans [rotated])
qed simp

section \<open>Texts\<close>

text \<open>The bytes of a text: a \<^verbatim>\<open>String\<close> is modelled by the bytes of its UTF-8 form.\<close>

definition text_bytes :: "string \<Rightarrow> bytes" where
  "text_bytes s = map (\<lambda>c. word_of_nat (of_char c)) s"

definition bytes_text :: "bytes \<Rightarrow> string" where
  "bytes_text bs = map (\<lambda>b. char_of (unat b)) bs"

lemma bytes_text_inverse [simp]: "bytes_text (text_bytes s) = s"
proof -
  have "char_of (unat (word_of_nat (of_char c) :: u8)) = c" for c
  proof -
    have "(of_char c :: nat) < 256" by simp
    then show ?thesis unfolding unat_byte by simp
  qed
  then show ?thesis by (induction s) (simp_all add: bytes_text_def text_bytes_def del: unat_byte)
qed

lemma length_text_bytes [simp]: "length (text_bytes s) = length s"
  by (simp add: text_bytes_def)

section \<open>Checked sums\<close>

definition checked_add :: "nat \<Rightarrow> nat \<Rightarrow> nat option" where
  "checked_add a b = (if a + b < 2 ^ 64 then Some (a + b) else None)"

lemma checked_add_Some [simp]: "a + b < 2 ^ 64 \<Longrightarrow> checked_add a b = Some (a + b)"
  by (simp add: checked_add_def)

section \<open>Matches\<close>

text \<open>The loop that appends \<open>k\<close> bytes, each \<open>off\<close> bytes back in the output written so far.\<close>

fun copy_match :: "nat \<Rightarrow> nat \<Rightarrow> bytes \<Rightarrow> bytes" where
  "copy_match off 0 out = out"
| "copy_match off (Suc k) out = copy_match off k (out @ [out ! (length out - off)])"

lemma length_copy_match [simp]: "length (copy_match off k out) = length out + k"
  by (induction k arbitrary: out) simp_all

text \<open>A match of the input with an earlier part of it is reproduced, overlapping or not.\<close>

lemma copy_match_correct:
  assumes "0 < off" and "off \<le> pos" and "pos + k \<le> length inp" and "\<forall>i < k. inp ! (pos - off + i) = inp ! (pos + i)"
  shows "copy_match off k (take pos inp) = take (pos + k) inp"
  using assms(2-)
proof (induction k arbitrary: pos)
  case (Suc k)
  have "take pos inp ! (length (take pos inp) - off) = inp ! pos"
    using Suc.prems(2) Suc.prems(3) [rule_format, of 0] Suc.prems(1) assms(1) by simp
  then have "take pos inp @ [take pos inp ! (length (take pos inp) - off)] = take (Suc pos) inp"
    using Suc.prems(2) by (simp add: take_Suc_conv_app_nth)
  moreover have "\<forall>i < k. inp ! (Suc pos - off + i) = inp ! (Suc pos + i)"
  proof (intro allI impI)
    fix i
    assume "i < k"
    with Suc.prems(3) [rule_format, of "Suc i"] Suc.prems(1)
    show "inp ! (Suc pos - off + i) = inp ! (Suc pos + i)" by (simp add: Suc_diff_le)
  qed
  ultimately show ?case using Suc.IH [of "Suc pos"] Suc.prems(1,2) by simp
qed simp

text \<open>The number of equal bytes at two positions, at most \<open>m\<close>: the loops that extend a match.\<close>

fun match_len :: "bytes \<Rightarrow> nat \<Rightarrow> nat \<Rightarrow> nat \<Rightarrow> nat" where
  "match_len inp c p 0 = 0"
| "match_len inp c p (Suc m) = (if inp ! c = inp ! p then Suc (match_len inp (Suc c) (Suc p) m) else 0)"

lemma match_len_le: "match_len inp c p m \<le> m"
  by (induction m arbitrary: c p) auto

lemma match_len_equal: "i < match_len inp c p m \<Longrightarrow> inp ! (c + i) = inp ! (p + i)"
proof (induction m arbitrary: c p i)
  case (Suc m)
  show ?case
  proof (cases i)
    case (Suc j)
    then show ?thesis using Suc.prems Suc.IH [of j "Suc c" "Suc p"] by (simp split: if_splits)
  qed (use Suc.prems in \<open>simp split: if_splits\<close>)
qed simp

end
