(* ===== verification/Lz4.thy ===== *)
theory Lz4
  imports Bytes
begin

text \<open>
  The LZ4 block codec of wide values (\<^verbatim>\<open>toast.rs\<close>). Inputs and outputs are byte strings,
  positions natural numbers; the table of last positions holds 32-bit words, and its hash
  is the wrapping product of the code. The output buffer of the decoder is the part written
  so far: the code preallocates it and never reads beyond its write position.
\<close>

section \<open>Compression\<close>

text \<open>The extension bytes of a length of 15 or more.\<close>

function ext_bytes :: "nat \<Rightarrow> bytes" where
  "ext_bytes r = (if 255 \<le> r then 255 # ext_bytes (r - 255) else [word_of_nat r])"
  by auto
termination by (relation "measure id") auto

declare ext_bytes.simps [simp del]

definition nibble :: "nat \<Rightarrow> nat" where
  "nibble n = (if 15 \<le> n then 15 else n)"

definition lz4_token :: "nat \<Rightarrow> nat \<Rightarrow> u8" where
  "lz4_token hi lo = word_of_nat (nibble hi * 16 + nibble lo)"

text \<open>One sequence: literals, then a match as its offset and length.\<close>

definition lz4_emit :: "bytes \<Rightarrow> (nat \<times> nat) option \<Rightarrow> bytes" where
  "lz4_emit lits mtch =
     (let ll = length lits; lit_ext = (if 15 \<le> ll then ext_bytes (ll - 15) else [])
      in case mtch of
           None \<Rightarrow> lz4_token ll 0 # lit_ext @ lits
         | Some (off, mlen) \<Rightarrow>
             lz4_token ll (mlen - 4) # lit_ext @ lits @ le_bytes 2 off @
             (if 15 \<le> mlen - 4 then ext_bytes (mlen - 4 - 15) else []))"

definition lz4_hash :: "bytes \<Rightarrow> nat \<Rightarrow> u32" where
  "lz4_hash inp p = drop_bit 20 (word_of_nat (from_le (take 4 (drop p inp))) * 2654435761)"

text \<open>The candidate of the table, extended: at least 4 bytes, at most 65535 back.\<close>

definition lz4_find :: "bytes \<Rightarrow> u32 \<Rightarrow> nat \<Rightarrow> (nat \<times> nat) option" where
  "lz4_find inp cand p =
     (if cand = 0 then None
      else let c = unat cand - 1
           in if c < p \<and> p - c \<le> 65535
              then (let len = match_len inp c p (length inp - 5 - p) in if 4 \<le> len then Some (p - c, len) else None)
              else None)"

lemma lz4_find_Some:
  assumes "lz4_find inp cand p = Some (off, len)"
  shows "0 < off \<and> off \<le> p \<and> off \<le> 65535 \<and> 4 \<le> len \<and> len \<le> length inp - 5 - p \<and>
    (\<forall>i < len. inp ! (p - off + i) = inp ! (p + i))"
proof -
  let ?c = "unat cand - 1"
  have a: "?c < p" "p - ?c \<le> 65535" "off = p - ?c" "len = match_len inp ?c p (length inp - 5 - p)" "4 \<le> len"
    using assms by (auto simp: lz4_find_def Let_def split: if_splits)
  then have "p - off = ?c" by simp
  with a match_len_le [of inp ?c p "length inp - 5 - p"] match_len_equal [of _ inp ?c p "length inp - 5 - p"]
  show ?thesis by auto
qed

function lz4_loop :: "bytes \<Rightarrow> (u32 \<Rightarrow> u32) \<Rightarrow> nat \<Rightarrow> nat \<Rightarrow> bytes \<Rightarrow> bytes" where
  "lz4_loop inp tab p anchor out =
     (if p + 12 \<le> length inp
      then (let h = lz4_hash inp p; tab' = tab(h := word_of_nat (p + 1))
            in case lz4_find inp (tab h) p of
                 Some (off, len) \<Rightarrow>
                   lz4_loop inp tab' (p + len) (p + len)
                     (out @ lz4_emit (drop anchor (take p inp)) (Some (off, len)))
               | None \<Rightarrow> lz4_loop inp tab' (p + 1) anchor out)
      else out @ lz4_emit (drop anchor inp) None)"
  by pat_completeness auto
termination
  by (relation "measure (\<lambda>(inp, tab, p, anchor, out). length inp - p)") (auto dest!: lz4_find_Some)

declare lz4_loop.simps [simp del]

definition lz4_compress_block :: "bytes \<Rightarrow> bytes" where
  "lz4_compress_block inp = (if inp = [] then [0] else lz4_loop inp (\<lambda>_. 0) 0 0 [])"

definition compress_lz4 :: "bytes \<Rightarrow> bytes option" where
  "compress_lz4 inp =
     (if 2 ^ 32 - 1 < length inp then None
      else let block = lz4_compress_block inp
           in if length inp < length block then None else Some (le_bytes 4 (length inp) @ block))"

section \<open>Decompression\<close>

text \<open>
  The loop that reads extension bytes: \<open>stop\<close> is the position at which no byte may be read any
  more and \<open>lim\<close> the one that may not be passed.
\<close>

function read_ext :: "bytes \<Rightarrow> nat \<Rightarrow> nat \<Rightarrow> nat \<Rightarrow> nat \<Rightarrow> (nat \<times> nat) option" where
  "read_ext src stop lim ip acc =
     (if stop \<le> ip \<or> length src \<le> ip then None
      else case checked_add acc (unat (src ! ip)) of
             None \<Rightarrow> None
           | Some acc' \<Rightarrow>
               if lim < ip + 1 then None
               else if src ! ip \<noteq> 255 then Some (ip + 1, acc')
               else read_ext src stop lim (ip + 1) acc')"
  by pat_completeness auto
termination by (relation "measure (\<lambda>(src, stop, lim, ip, acc). length src - ip)") auto

declare read_ext.simps [simp del]

lemma read_ext_forward: "read_ext src stop lim ip acc = Some (ip', acc') \<Longrightarrow> ip < ip'"
proof (induction src stop lim ip acc rule: read_ext.induct)
  case (1 src stop lim ip acc)
  show ?case
  proof (cases "\<not> (stop \<le> ip \<or> length src \<le> ip) \<and> \<not> lim < ip + 1 \<and> src ! ip = 255")
    case True
    then obtain a where a: "checked_add acc (unat (src ! ip)) = Some a" "read_ext src stop lim (ip + 1) a = Some (ip', acc')"
      using 1(2) by (subst (asm) read_ext.simps) (auto split: option.splits)
    then have "ip + 1 < ip'" using True by (intro 1(1)) auto
    then show ?thesis by simp
  next
    case False
    then show ?thesis using 1(2) by (subst (asm) read_ext.simps) (auto split: if_splits option.splits)
  qed
qed

definition lz4_lit_len :: "bytes \<Rightarrow> nat \<Rightarrow> nat \<Rightarrow> (nat \<times> nat) option" where
  "lz4_lit_len src ip n =
     (if n = 15 then if length src < 15 then None else read_ext src (length src - 15) (length src - 15) ip 15
      else Some (ip, n))"

definition lz4_match_len :: "bytes \<Rightarrow> nat \<Rightarrow> nat \<Rightarrow> (nat \<times> nat) option" where
  "lz4_match_len src ip n =
     (if n = 15 then if length src < 4 then None else read_ext src (length src) (length src - 4) ip 15
      else Some (ip, n))"

lemma lz4_len_forward:
  "lz4_lit_len src ip n = Some (ip', k) \<Longrightarrow> ip \<le> ip'" "lz4_match_len src ip n = Some (ip', k) \<Longrightarrow> ip \<le> ip'"
  by (auto simp: lz4_lit_len_def lz4_match_len_def split: if_splits dest!: read_ext_forward)

text \<open>
  One round of the decoder: \<open>Inl\<close> the result of the block, \<open>Inr\<close> the position and the output
  after a sequence with a match.
\<close>

definition lz4_round :: "bytes \<Rightarrow> nat \<Rightarrow> nat \<Rightarrow> bytes \<Rightarrow> bytes option + nat \<times> bytes" where
  "lz4_round src out_len ip out =
     (if length src \<le> ip then Inl None
      else
        (let token = unat (src ! ip) in
         case lz4_lit_len src (ip + 1) (token div 16) of
           None \<Rightarrow> Inl None
         | Some (ip1, lit_len) \<Rightarrow>
             (case (checked_add ip1 lit_len, checked_add (length out) lit_len) of
                (Some lit_end, Some op_end) \<Rightarrow>
                  if length src - 8 < lit_end \<or> out_len - 12 < op_end
                  then if lit_end \<noteq> length src \<or> out_len < op_end then Inl None
                       else (let res = out @ take lit_len (drop ip1 src)
                             in Inl (if length res = out_len then Some res else None))
                  else
                    (let out1 = out @ take lit_len (drop ip1 src); off = from_le (take 2 (drop lit_end src)) in
                     if length src < lit_end + 2 then Inl None
                     else if off = 0 \<or> length out1 < off then Inl None
                     else (case lz4_match_len src (lit_end + 2) (token mod 16) of
                             None \<Rightarrow> Inl None
                           | Some (ip2, n) \<Rightarrow>
                               (case checked_add (length out1) (n + 4) of
                                  None \<Rightarrow> Inl None
                                | Some match_end \<Rightarrow>
                                    if out_len < 5 \<or> out_len - 5 < match_end then Inl None
                                    else Inr (ip2, copy_match off (n + 4) out1))))
              | _ \<Rightarrow> Inl None)))"

lemma lz4_round_forward: "lz4_round src out_len ip out = Inr (ip', out') \<Longrightarrow> ip < ip' \<and> ip < length src"
  by (auto simp: lz4_round_def Let_def checked_add_def split: if_splits option.splits dest!: lz4_len_forward)

function lz4_decode :: "bytes \<Rightarrow> nat \<Rightarrow> nat \<Rightarrow> bytes \<Rightarrow> bytes option" where
  "lz4_decode src out_len ip out =
     (case lz4_round src out_len ip out of
        Inl res \<Rightarrow> res
      | Inr (ip', out') \<Rightarrow> lz4_decode src out_len ip' out')"
  by pat_completeness auto
termination
  by (relation "measure (\<lambda>(src, out_len, ip, out). length src - ip)") (auto dest!: lz4_round_forward)

declare lz4_decode.simps [simp del]

definition lz4_decompress_block :: "bytes \<Rightarrow> nat \<Rightarrow> bytes option" where
  "lz4_decompress_block src out_len = lz4_decode src out_len 0 []"

definition decompress_lz4 :: "bytes \<Rightarrow> bytes option" where
  "decompress_lz4 src =
     (if length src < 4 then None
      else let orig_len = from_le (take 4 src)
           in if 1000000000 < orig_len then None else lz4_decompress_block (drop 4 src) orig_len)"

section \<open>The decoder reads what the encoder emits\<close>

lemma nibble_le [simp]: "nibble n \<le> 15"
  by (simp add: nibble_def)

lemma token_nibbles:
  "unat (lz4_token a b) div 16 = nibble a" "unat (lz4_token a b) mod 16 = nibble b"
proof -
  have "nibble a * 16 + nibble b < 256" using nibble_le [of a] nibble_le [of b] by linarith
  then have u: "unat (lz4_token a b) = nibble a * 16 + nibble b"
    unfolding lz4_token_def unat_byte by simp
  have "nibble b < 16" using nibble_le [of b] by linarith
  then show "unat (lz4_token a b) div 16 = nibble a" "unat (lz4_token a b) mod 16 = nibble b" by (simp_all add: u)
qed

lemma ext_bytes_ne [simp]: "0 < length (ext_bytes r)"
  by (subst ext_bytes.simps) simp

lemma read_ext_bytes:
  assumes "src = pre @ ext_bytes r @ rest" and "length pre + length (ext_bytes r) \<le> lim"
    and "length pre + length (ext_bytes r) \<le> stop" and "acc + r < 2 ^ 64"
  shows "read_ext src stop lim (length pre) acc = Some (length pre + length (ext_bytes r), acc + r)"
  using assms
proof (induction r arbitrary: pre acc rule: ext_bytes.induct)
  case (1 r)
  show ?case
  proof (cases "255 \<le> r")
    case True
    then have e: "ext_bytes r = 255 # ext_bytes (r - 255)" by (subst ext_bytes.simps) simp
    have at: "src ! length pre = 255" "length pre < length src" using 1(2) by (simp_all add: e)
    have more: "read_ext src stop lim (length (pre @ [255])) (acc + 255) =
        Some (length (pre @ [255]) + length (ext_bytes (r - 255)), acc + 255 + (r - 255))"
      by (rule 1(1)) (use True 1(2-) e in simp_all)
    have "unat (255 :: u8) = 255" by simp
    then show ?thesis
      using True 1(3,4,5) more at by (subst read_ext.simps) (simp add: e)
  next
    case False
    then have e: "ext_bytes r = [word_of_nat r]" by (subst ext_bytes.simps) simp
    have at: "src ! length pre = word_of_nat r" "length pre < length src" using 1(2) by (simp_all add: e)
    have "unat (word_of_nat r :: u8) = r" using False by simp
    then have r: "unat (src ! length pre) = r" by (simp only: at)
    then have "src ! length pre \<noteq> 255" using False by auto
    then show ?thesis using 1(3,4,5) at(2) r by (subst read_ext.simps) (simp add: e del: unat_byte)
  qed
qed

lemma lit_len_read:
  assumes "src = pre @ (if 15 \<le> n then ext_bytes (n - 15) else []) @ rest" and "15 \<le> n \<longrightarrow> 15 \<le> length rest" and "n < 2 ^ 64"
  shows "lz4_lit_len src (length pre) (nibble n) = Some (length pre + length (if 15 \<le> n then ext_bytes (n - 15) else []), n)"
proof (cases "15 \<le> n")
  case True
  have "read_ext src (length src - 15) (length src - 15) (length pre) 15 = Some (length pre + length (ext_bytes (n - 15)), 15 + (n - 15))"
    by (rule read_ext_bytes) (use True assms in auto)
  then show ?thesis using True assms by (simp add: lz4_lit_len_def nibble_def)
qed (simp add: lz4_lit_len_def nibble_def)

lemma match_len_read:
  assumes "src = pre @ (if 15 \<le> n then ext_bytes (n - 15) else []) @ rest" and "4 \<le> length rest" and "n < 2 ^ 64"
  shows "lz4_match_len src (length pre) (nibble n) = Some (length pre + length (if 15 \<le> n then ext_bytes (n - 15) else []), n)"
proof (cases "15 \<le> n")
  case True
  have "read_ext src (length src) (length src - 4) (length pre) 15 = Some (length pre + length (ext_bytes (n - 15)), 15 + (n - 15))"
    by (rule read_ext_bytes) (use True assms in auto)
  then show ?thesis using True assms by (simp add: lz4_match_len_def nibble_def)
qed (simp add: lz4_match_len_def nibble_def)

lemma round_last:
  assumes "src = pre @ lz4_emit lits None" and "length src < 2 ^ 63" and "out_len < 2 ^ 63"
    and "length out + length lits = out_len"
  shows "lz4_round src out_len (length pre) out = Inl (Some (out @ lits))"
proof -
  let ?ext = "if 15 \<le> length lits then ext_bytes (length lits - 15) else []"
  let ?t = "lz4_token (length lits) 0"
  have src: "src = pre @ ?t # ?ext @ lits" using assms(1) by (simp add: lz4_emit_def Let_def)
  have read: "lz4_lit_len src (length (pre @ [?t])) (nibble (length lits)) = Some (length (pre @ [?t]) + length ?ext, length lits)"
    by (rule lit_len_read [where rest = lits]) (use src assms(2) in auto)
  have tok: "src ! length pre = ?t" "length pre < length src" unfolding src by simp_all
  have "drop (length (pre @ [?t]) + length ?ext) src = lits" unfolding src by simp
  moreover have "length (pre @ [?t]) + length ?ext + length lits = length src" unfolding src by simp
  ultimately show ?thesis
    using read assms(2-4) tok(2) by (auto simp: lz4_round_def tok(1) token_nibbles Let_def)
qed

lemma round_match:
  assumes "src = pre @ lz4_emit lits (Some (off, mlen)) @ rest" and "length src < 2 ^ 63" and "out_len < 2 ^ 63"
    and "6 \<le> length rest" and "0 < off" and "off < 65536" and "off \<le> length out + length lits" and "4 \<le> mlen"
    and "length out + length lits + 12 \<le> out_len" and "length out + length lits + mlen + 5 \<le> out_len"
  shows "lz4_round src out_len (length pre) out =
    Inr (length pre + length (lz4_emit lits (Some (off, mlen))), copy_match off mlen (out @ lits))"
proof -
  let ?m = "mlen - 4" and ?n = "length lits" and ?op = "length out + length lits"
  define ext where "ext = (if 15 \<le> ?n then ext_bytes (?n - 15) else [])"
  define mext where "mext = (if 15 \<le> ?m then ext_bytes (?m - 15) else [])"
  let ?t = "lz4_token ?n ?m"
  have emit: "lz4_emit lits (Some (off, mlen)) = ?t # ext @ lits @ le_bytes 2 off @ mext"
    by (simp add: lz4_emit_def Let_def ext_def mext_def)
  have src: "src = pre @ ?t # ext @ lits @ le_bytes 2 off @ mext @ rest" using assms(1) by (simp only: emit append.simps append_assoc)
  define ip1 where "ip1 = Suc (length pre) + length ext"
  define fin where "fin = ip1 + ?n"
  define ip2 where "ip2 = fin + 2 + length mext"
  have "lz4_lit_len src (length (pre @ [?t])) (nibble ?n) = Some (length (pre @ [?t]) + length ext, ?n)"
    unfolding ext_def by (rule lit_len_read [where rest = "lits @ le_bytes 2 off @ mext @ rest"]) (use src assms(2) in \<open>auto simp: ext_def\<close>)
  then have l1: "lz4_lit_len src (Suc (length pre)) (nibble ?n) = Some (ip1, ?n)" by (simp add: ip1_def)
  have "lz4_match_len src (length (pre @ ?t # ext @ lits @ le_bytes 2 off)) (nibble ?m) =
      Some (length (pre @ ?t # ext @ lits @ le_bytes 2 off) + length mext, ?m)"
    unfolding mext_def by (rule match_len_read [where rest = rest]) (use src assms(3,4,10) in \<open>auto simp: mext_def\<close>)
  then have l2: "lz4_match_len src (Suc (Suc fin)) (nibble ?m) = Some (ip2, ?m)" by (simp add: ip2_def fin_def ip1_def add.assoc)
  have len: "length src = fin + 2 + length mext + length rest" unfolding src fin_def ip1_def by simp
  have tok: "src ! length pre = ?t" unfolding src by simp
  have lits: "take ?n (drop ip1 src) = lits" unfolding src ip1_def by simp
  have "take 2 (drop fin src) = le_bytes 2 off" unfolding src fin_def ip1_def by simp
  then have off: "from_le (take 2 (drop fin src)) = off" using assms(6) from_le_bytes [of off 2] by simp
  have c: "checked_add ip1 ?n = Some fin" "checked_add (length out) ?n = Some ?op" "checked_add ?op mlen = Some (?op + mlen)"
    using assms(2,3,9,10) len by (simp_all add: fin_def)
  have inside: "\<not> (length src - 8 < fin \<or> out_len - 12 < ?op)" "\<not> length src < fin + 2"
    "\<not> (out_len < 5 \<or> out_len - 5 < ?op + mlen)" "\<not> (off = 0 \<or> ?op < off)" "\<not> length src \<le> length pre"
    using len assms(4,5,7,9,10) by (auto simp: fin_def ip1_def)
  have m4: "?m + 4 = mlen" using assms(8) by simp
  have whole: "length pre + length (lz4_emit lits (Some (off, mlen))) = ip2" unfolding emit ip2_def fin_def ip1_def by simp
  show ?thesis
    unfolding whole using inside by (simp add: lz4_round_def tok token_nibbles l1 c lits off l2 m4 Let_def)
qed

text \<open>
  The output of the compressor from an anchor on: whatever stands before it, the decoder that
  has written the input up to the anchor goes on to write the rest.
\<close>

lemma loop_decodes:
  assumes "anchor \<le> p" and "p \<le> length inp" and "length inp < 2 ^ 62"
  shows "\<exists>tail. lz4_loop inp tab p anchor out = out @ tail \<and> (anchor + 5 \<le> length inp \<longrightarrow> 6 \<le> length tail) \<and>
    (\<forall>pre. length pre + length tail < 2 ^ 63 \<longrightarrow> lz4_decode (pre @ tail) (length inp) (length pre) (take anchor inp) = Some inp)"
  using assms
proof (induction inp tab p anchor out rule: lz4_loop.induct)
  case (1 inp tab p anchor out)
  let ?tab = "tab(lz4_hash inp p := word_of_nat (p + 1))"
  show ?case
  proof (cases "p + 12 \<le> length inp")
    case False
    let ?emit = "lz4_emit (drop anchor inp) None"
    have "lz4_decode (pre @ ?emit) (length inp) (length pre) (take anchor inp) = Some inp"
      if "length pre + length ?emit < 2 ^ 63" for pre
      using round_last [of "pre @ ?emit" pre "drop anchor inp" "length inp" "take anchor inp"] that 1(3-5)
      by (subst lz4_decode.simps) simp
    moreover have "length inp - anchor < length ?emit" by (simp add: lz4_emit_def Let_def)
    ultimately show ?thesis using False by (subst lz4_loop.simps) (auto intro!: exI [of _ ?emit])
  next
    case p: True
    show ?thesis
    proof (cases "lz4_find inp (tab (lz4_hash inp p)) p")
      case None
      then have step: "lz4_loop inp tab p anchor out = lz4_loop inp ?tab (p + 1) anchor out"
        using p by (subst lz4_loop.simps) (simp add: Let_def)
      show ?thesis unfolding step by (rule 1(1) [OF p refl refl None]) (use p 1(3-5) in simp_all)
    next
      case (Some m)
      obtain off len where m: "m = (off, len)" by (cases m)
      let ?emit = "lz4_emit (drop anchor (take p inp)) (Some (off, len))"
      have step: "lz4_loop inp tab p anchor out = lz4_loop inp ?tab (p + len) (p + len) (out @ ?emit)"
        using p Some m by (subst lz4_loop.simps) (simp add: Let_def)
      have f: "0 < off" "off \<le> p" "off \<le> 65535" "4 \<le> len" "len \<le> length inp - 5 - p"
        "\<forall>i < len. inp ! (p - off + i) = inp ! (p + i)"
        using lz4_find_Some [OF Some [unfolded m]] by blast+
      have "\<exists>tail. lz4_loop inp ?tab (p + len) (p + len) (out @ ?emit) = (out @ ?emit) @ tail \<and>
          (p + len + 5 \<le> length inp \<longrightarrow> 6 \<le> length tail) \<and>
          (\<forall>pre. length pre + length tail < 2 ^ 63 \<longrightarrow>
             lz4_decode (pre @ tail) (length inp) (length pre) (take (p + len) inp) = Some inp)"
        by (rule 1(2) [OF p refl refl Some m [symmetric]]) (use f p 1(5) in simp_all)
      then obtain tail where t: "lz4_loop inp ?tab (p + len) (p + len) (out @ ?emit) = (out @ ?emit) @ tail"
        "p + len + 5 \<le> length inp \<longrightarrow> 6 \<le> length tail"
        "\<And>pre. length pre + length tail < 2 ^ 63 \<Longrightarrow>
           lz4_decode (pre @ tail) (length inp) (length pre) (take (p + len) inp) = Some inp" by blast
      have lits: "take anchor inp @ drop anchor (take p inp) = take p inp"
        using 1(3) by (metis append_take_drop_id min.absorb1 take_take)
      have "lz4_decode (pre @ ?emit @ tail) (length inp) (length pre) (take anchor inp) = Some inp"
        if pre: "length pre + length (?emit @ tail) < 2 ^ 63" for pre
      proof -
        have "lz4_round (pre @ ?emit @ tail) (length inp) (length pre) (take anchor inp) =
            Inr (length pre + length ?emit, copy_match off len (take anchor inp @ drop anchor (take p inp)))"
          by (rule round_match) (use f p t(2) pre 1(3-5) in auto)
        moreover have "copy_match off len (take p inp) = take (p + len) inp"
          by (rule copy_match_correct) (use f p in auto)
        ultimately show ?thesis
          using t(3) [of "pre @ ?emit"] pre by (subst lz4_decode.simps) (simp add: lits)
      qed
      then show ?thesis unfolding step using t(1,2) f(5) p by (intro exI [of _ "?emit @ tail"]) auto
    qed
  qed
qed

section \<open>The size of a block\<close>

lemma ext_bytes_size: "length (ext_bytes r) \<le> r + 1"
proof (induction r rule: ext_bytes.induct)
  case (1 r)
  then show ?case by (subst ext_bytes.simps) auto
qed

lemma emit_size:
  "length (lz4_emit lits None) \<le> 2 * length lits + 2"
  "4 \<le> len \<Longrightarrow> length (lz4_emit lits (Some (off, len))) \<le> 3 * (length lits + len)"
  using ext_bytes_size [of "length lits - 15"] ext_bytes_size [of "len - 4 - 15"] by (auto simp: lz4_emit_def Let_def)

lemma loop_size:
  "anchor \<le> p \<Longrightarrow> p \<le> length inp \<Longrightarrow> length (lz4_loop inp tab p anchor out) \<le> length out + 3 * (length inp - anchor) + 2"
proof (induction inp tab p anchor out rule: lz4_loop.induct)
  case (1 inp tab p anchor out)
  let ?tab = "tab(lz4_hash inp p := word_of_nat (p + 1))"
  show ?case
  proof (cases "p + 12 \<le> length inp")
    case False
    then show ?thesis using emit_size(1) [of "drop anchor inp"] by (subst lz4_loop.simps) simp
  next
    case p: True
    show ?thesis
    proof (cases "lz4_find inp (tab (lz4_hash inp p)) p")
      case None
      then have step: "lz4_loop inp tab p anchor out = lz4_loop inp ?tab (p + 1) anchor out"
        using p by (subst lz4_loop.simps) (simp add: Let_def)
      show ?thesis unfolding step by (rule 1(1) [OF p refl refl None]) (use p 1(3,4) in simp_all)
    next
      case (Some m)
      obtain off len where m: "m = (off, len)" by (cases m)
      have f: "4 \<le> len" "len \<le> length inp - 5 - p" using lz4_find_Some [OF Some [unfolded m]] by blast+
      let ?emit = "lz4_emit (drop anchor (take p inp)) (Some (off, len))"
      have step: "lz4_loop inp tab p anchor out = lz4_loop inp ?tab (p + len) (p + len) (out @ ?emit)"
        using p Some m by (subst lz4_loop.simps) (simp add: Let_def)
      have "length (lz4_loop inp ?tab (p + len) (p + len) (out @ ?emit)) \<le>
          length (out @ ?emit) + 3 * (length inp - (p + len)) + 2"
        by (rule 1(2) [OF p refl refl Some m [symmetric]]) (use f p in simp_all)
      then show ?thesis
        unfolding step using emit_size(2) [OF f(1), of "drop anchor (take p inp)" off] f 1(3) p by simp
    qed
  qed
qed

lemma block_size: "length (lz4_compress_block inp) \<le> 3 * length inp + 2"
  using loop_size [of 0 0 inp "\<lambda>_. 0" "[]"] by (simp add: lz4_compress_block_def)

section \<open>Property\<close>

lemma block_round_trip:
  assumes "length inp < 2 ^ 60"
  shows "lz4_decompress_block (lz4_compress_block inp) (length inp) = Some inp \<and>
    (length inp \<le> 1000000000 \<longrightarrow> compress_lz4 inp = Some out \<longrightarrow> decompress_lz4 out = Some inp)"
proof -
  have block: "lz4_decompress_block (lz4_compress_block inp) (length inp) = Some inp"
  proof (cases "inp = []")
    case True
    then show ?thesis
      by (simp add: lz4_decompress_block_def lz4_compress_block_def lz4_decode.simps lz4_round_def lz4_lit_len_def Let_def)
  next
    case False
    then have "lz4_compress_block inp = lz4_loop inp (\<lambda>_. 0) 0 0 []" by (simp add: lz4_compress_block_def)
    moreover have "length (lz4_compress_block inp) < 2 ^ 63" using block_size [of inp] assms by simp
    ultimately show ?thesis
      using loop_decodes [of 0 0 inp "\<lambda>_. 0" "[]"] assms
      by (auto simp: lz4_decompress_block_def dest: spec [of _ "[]"])
  qed
  then show ?thesis
    by (auto simp: compress_lz4_def decompress_lz4_def Let_def from_le_bytes split: if_splits)
qed

text \<open>
  C11. LZ4 compression loses nothing: the decoder, with all its checks on malformed blocks,
  accepts every block the compressor writes and returns the input. So does the framed form
  up to the gigabyte that the framed decoder accepts.
\<close>

theorem lz4_round_trip:
  assumes "length inp < 2 ^ 60"
  shows "lz4_decompress_block (lz4_compress_block inp) (length inp) = Some inp \<and>
    (length inp \<le> 1000000000 \<longrightarrow> compress_lz4 inp = Some out \<longrightarrow> decompress_lz4 out = Some inp)"
  by (rule block_round_trip [OF assms])

theorem lz4_round_trip_witness:
  "lz4_decompress_block (lz4_compress_block (replicate 40 7)) 40 = Some (replicate 40 7)"
  using lz4_round_trip [of "replicate 40 7"] by simp

end
