(* ===== verification/Pglz.thy ===== *)
theory Pglz
  imports Bytes
begin

text \<open>
  The PGLZ codec of wide values (\<^verbatim>\<open>toast.rs\<close>). The history is the code's ring of 4096
  entries linked into hash lists by index, with 0 for no entry; its arrays are functions, and
  what earlier calls left in them is arbitrary. The search of a hash list is bounded by a
  number of steps: running out of them is the outer \<^verbatim>\<open>None\<close>, which the invariant of the
  history excludes.
\<close>

unbundle bit_operations_syntax

section \<open>The history\<close>

record pglz_hist =
  ph_start :: "nat \<Rightarrow> nat"
  ph_next :: "nat \<Rightarrow> nat"
  ph_prev :: "nat \<Rightarrow> nat"
  ph_hindex :: "nat \<Rightarrow> nat"
  ph_pos :: "nat \<Rightarrow> nat"
  ph_hist_next :: nat
  ph_recycle :: bool

definition pglz_hist_new :: pglz_hist where
  "pglz_hist_new = \<lparr>ph_start = \<lambda>_. 0, ph_next = \<lambda>_. 0, ph_prev = \<lambda>_. 0, ph_hindex = \<lambda>_. 0, ph_pos = \<lambda>_. 0,
     ph_hist_next = 1, ph_recycle = False\<rparr>"

text \<open>Bytes are sign-extended before the shifts.\<close>

definition pglz_hist_idx :: "bytes \<Rightarrow> nat \<Rightarrow> u32 \<Rightarrow> nat" where
  "pglz_hist_idx inp p msk =
     (let sb = (\<lambda>b. scast b :: u32);
          h = (if length inp - p < 4 then sb (inp ! p)
               else (push_bit 6 (sb (inp ! p))) XOR (push_bit 4 (sb (inp ! (p + 1)))) XOR
                    (push_bit 2 (sb (inp ! (p + 2)))) XOR sb (inp ! (p + 3)))
      in unat (h AND msk))"

definition pglz_delink :: "nat \<Rightarrow> pglz_hist \<Rightarrow> pglz_hist" where
  "pglz_delink hn h =
     (let h1 = (if ph_prev h hn = 0
                then h\<lparr>ph_start := (ph_start h)(ph_hindex h hn := ph_next h hn)\<rparr>
                else h\<lparr>ph_next := (ph_next h)(ph_prev h hn := ph_next h hn)\<rparr>);
          nxt = ph_next h1 hn
      in if nxt \<noteq> 0 then h1\<lparr>ph_prev := (ph_prev h1)(nxt := ph_prev h1 hn)\<rparr> else h1)"

text \<open>Indices fit 16 bits, positions 32: the casts of the code are written out.\<close>

definition pglz_hist_add :: "bytes \<Rightarrow> nat \<Rightarrow> u32 \<Rightarrow> pglz_hist \<Rightarrow> pglz_hist" where
  "pglz_hist_add inp p msk h0 =
     (let hindex = pglz_hist_idx inp p msk; hn = ph_hist_next h0;
          h = (if ph_recycle h0 then pglz_delink hn h0 else h0);
          head = ph_start h hindex
      in h\<lparr>ph_next := (ph_next h)(hn := head mod 2 ^ 16),
           ph_prev := ((ph_prev h)(hn := 0))(head := hn mod 2 ^ 16),
           ph_hindex := (ph_hindex h)(hn := hindex mod 2 ^ 16),
           ph_pos := (ph_pos h)(hn := p mod 2 ^ 32),
           ph_start := (ph_start h)(hindex := hn mod 2 ^ 16),
           ph_recycle := (ph_recycle h \<or> 4096 < hn + 1),
           ph_hist_next := (if 4096 < hn + 1 then 1 else hn + 1)\<rparr>)"

fun pglz_hist_add_n :: "nat \<Rightarrow> bytes \<Rightarrow> nat \<Rightarrow> u32 \<Rightarrow> pglz_hist \<Rightarrow> pglz_hist" where
  "pglz_hist_add_n 0 inp p msk h = h"
| "pglz_hist_add_n (Suc k) inp p msk h = pglz_hist_add_n k inp (p + 1) msk (pglz_hist_add inp p msk h)"

section \<open>The search\<close>

definition candidate_len :: "bytes \<Rightarrow> nat \<Rightarrow> nat \<Rightarrow> nat \<Rightarrow> nat" where
  "candidate_len inp p hp len =
     (if 16 \<le> len
      then if take len (drop p inp) = take len (drop hp inp)
           then len + match_len inp (hp + len) (p + len) (min (273 - len) (length inp - (p + len)))
           else 0
      else match_len inp hp p (min 273 (length inp - p)))"

fun pglz_search :: "nat \<Rightarrow> pglz_hist \<Rightarrow> bytes \<Rightarrow> nat \<Rightarrow> nat \<Rightarrow> nat \<Rightarrow> nat \<Rightarrow> nat \<Rightarrow> nat \<Rightarrow> (nat \<times> nat) option" where
  "pglz_search 0 h inp p drop_pct hent len off good = None"
| "pglz_search (Suc n) h inp p drop_pct hent len off good =
     (if hent = 0 then Some (len, off)
      else
        (let thisoff = p - ph_pos h hent in
         if 4095 \<le> thisoff then Some (len, off)
         else
           (let thislen = candidate_len inp p (ph_pos h hent) len;
                (len', off') = (if len < thislen then (thislen, thisoff) else (len, off));
                hent' = ph_next h hent
            in if hent' = 0 then pglz_search n h inp p drop_pct 0 len' off' good
               else if good \<le> len' then Some (len', off')
               else pglz_search n h inp p drop_pct hent' len' off' (good - good * drop_pct div 100))))"

definition pglz_find_match :: "pglz_hist \<Rightarrow> bytes \<Rightarrow> nat \<Rightarrow> u32 \<Rightarrow> nat \<Rightarrow> nat \<Rightarrow> (nat \<times> nat) option option" where
  "pglz_find_match h inp p msk good drop_pct =
     map_option (\<lambda>(len, off). if 2 < len then Some (len, off) else None)
       (pglz_search 4096 h inp p drop_pct (ph_start h (pglz_hist_idx inp p msk)) 0 0 good)"

section \<open>The output\<close>

record pglz_out =
  po_out :: bytes
  po_ctrlp :: "nat option"
  po_ctrlb :: u8
  po_ctrl :: u16

definition po_patch :: "pglz_out \<Rightarrow> bytes" where
  "po_patch o' = (case po_ctrlp o' of Some p \<Rightarrow> (po_out o')[p := po_ctrlb o'] | None \<Rightarrow> po_out o')"

definition pglz_out_ctrl :: "pglz_out \<Rightarrow> pglz_out" where
  "pglz_out_ctrl o' =
     (if po_ctrl o' AND 255 = 0
      then \<lparr>po_out = po_patch o' @ [0], po_ctrlp = Some (length (po_out o')), po_ctrlb = 0, po_ctrl = 1\<rparr>
      else o')"

text \<open>The tag of a match: two bytes, or three with the length beyond 18.\<close>

definition pglz_tag :: "nat \<Rightarrow> nat \<Rightarrow> bytes" where
  "pglz_tag len off =
     (if 17 < len
      then [word_of_nat ((off div 256 mod 16) * 16 + 15), word_of_nat (off mod 256), word_of_nat (len - 18)]
      else [word_of_nat ((off div 256 mod 16) * 16 + (len - 3)), word_of_nat (off mod 256)])"

definition put_match :: "nat \<Rightarrow> nat \<Rightarrow> pglz_out \<Rightarrow> pglz_out" where
  "put_match len off o0 =
     (let o' = pglz_out_ctrl o0
      in o'\<lparr>po_ctrlb := po_ctrlb o' OR ucast (po_ctrl o'), po_ctrl := push_bit 1 (po_ctrl o'),
            po_out := po_out o' @ pglz_tag len off\<rparr>)"

definition put_literal :: "u8 \<Rightarrow> pglz_out \<Rightarrow> pglz_out" where
  "put_literal b o0 =
     (let o' = pglz_out_ctrl o0 in o'\<lparr>po_out := po_out o' @ [b], po_ctrl := push_bit 1 (po_ctrl o')\<rparr>)"

section \<open>Compression\<close>

definition pglz_result_max :: "nat \<Rightarrow> nat" where
  "pglz_result_max slen = (if (2 ^ 31 - 1) div 100 < slen then slen div 100 * 75 else slen * 75 div 100)"

definition pglz_hashsz :: "nat \<Rightarrow> nat" where
  "pglz_hashsz slen =
     (if slen < 128 then 512 else if slen < 256 then 1024 else if slen < 512 then 2048
      else if slen < 1024 then 4096 else 8192)"

text \<open>The loop over the input; the inner \<^verbatim>\<open>None\<close> gives up.\<close>

function pglz_loop :: "bytes \<Rightarrow> u32 \<Rightarrow> pglz_hist \<Rightarrow> pglz_out \<Rightarrow> nat \<Rightarrow> bool \<Rightarrow> pglz_out option option" where
  "pglz_loop inp msk h o' p found =
     (if length inp \<le> p then Some (Some o')
      else if pglz_result_max (length inp) \<le> length (po_out o') then Some None
      else if \<not> found \<and> 1024 \<le> length (po_out o') then Some None
      else
        (case pglz_find_match h inp p msk 128 10 of
           None \<Rightarrow> None
         | Some (Some (len, off)) \<Rightarrow>
             pglz_loop inp msk (pglz_hist_add_n len inp p msk h) (put_match len off o') (p + len) True
         | Some None \<Rightarrow>
             pglz_loop inp msk (pglz_hist_add inp p msk h) (put_literal (inp ! p) o') (p + 1) found))"
  by pat_completeness auto
termination
  by (relation "measure (\<lambda>(inp, msk, h, o', p, found). length inp - p)")
    (auto simp: pglz_find_match_def split: if_splits)

declare pglz_loop.simps [simp del]

definition pglz_compress_payload :: "pglz_hist \<Rightarrow> bytes \<Rightarrow> bytes option option" where
  "pglz_compress_payload hist inp =
     (if length inp < 32 then Some None
      else
        (let hashsz = pglz_hashsz (length inp);
             h = hist\<lparr>ph_start := (\<lambda>i. if i < hashsz then 0 else ph_start hist i), ph_hist_next := 1, ph_recycle := False\<rparr>
         in case pglz_loop inp (word_of_nat (hashsz - 1)) h
                   \<lparr>po_out = [], po_ctrlp = None, po_ctrlb = 0, po_ctrl = 0\<rparr> 0 False of
              None \<Rightarrow> None
            | Some None \<Rightarrow> Some None
            | Some (Some o') \<Rightarrow>
                if po_ctrlp o' = None then None
                else if pglz_result_max (length inp) \<le> length (po_patch o') then Some None
                else Some (Some (po_patch o'))))"

definition compress_pglz :: "pglz_hist \<Rightarrow> bytes \<Rightarrow> bytes option option" where
  "compress_pglz hist inp =
     map_option (map_option (\<lambda>payload. le_bytes 4 (length inp) @ payload)) (pglz_compress_payload hist inp)"

section \<open>Decompression\<close>

text \<open>The items of one control byte, at most \<open>k\<close>; \<^verbatim>\<open>None\<close> on corrupt input.\<close>

fun pglz_items :: "nat \<Rightarrow> bytes \<Rightarrow> nat \<Rightarrow> u8 \<Rightarrow> nat \<Rightarrow> bytes \<Rightarrow> (nat \<times> bytes) option" where
  "pglz_items 0 src orig ctrl sp out = Some (sp, out)"
| "pglz_items (Suc k) src orig ctrl sp out =
     (if length src \<le> sp \<or> orig \<le> length out then Some (sp, out)
      else if ctrl AND 1 \<noteq> 0
      then if length src < sp + 2 then None
           else
             (let b0 = unat (src ! sp); len0 = b0 mod 16 + 3; off = b0 div 16 * 256 + unat (src ! (sp + 1));
                  ext = (if len0 = 18
                         then if length src \<le> sp + 2 then None else Some (len0 + unat (src ! (sp + 2)), sp + 3)
                         else Some (len0, sp + 2))
              in case ext of
                   None \<Rightarrow> None
                 | Some (len, sp') \<Rightarrow>
                     if off = 0 \<or> length out < off then None
                     else pglz_items k src orig (drop_bit 1 ctrl) sp'
                            (copy_match off (min len (orig - length out)) out))
      else pglz_items k src orig (drop_bit 1 ctrl) (sp + 1) (out @ [src ! sp]))"

lemma pglz_items_forward: "pglz_items k src orig ctrl sp out = Some (sp', out') \<Longrightarrow> sp \<le> sp'"
  by (induction k src orig ctrl sp out rule: pglz_items.induct) (force simp: Let_def split: if_splits)+

function pglz_groups :: "bytes \<Rightarrow> nat \<Rightarrow> nat \<Rightarrow> bytes \<Rightarrow> (nat \<times> bytes) option" where
  "pglz_groups src orig sp out =
     (if sp < length src \<and> length out < orig
      then (case pglz_items 8 src orig (src ! sp) (sp + 1) out of
              None \<Rightarrow> None | Some (sp', out') \<Rightarrow> pglz_groups src orig sp' out')
      else Some (sp, out))"
  by pat_completeness auto
termination
  by (relation "measure (\<lambda>(src, orig, sp, out). length src - sp)") (auto dest!: pglz_items_forward)

declare pglz_groups.simps [simp del]

definition decompress_pglz_raw :: "bytes \<Rightarrow> nat \<Rightarrow> bytes option" where
  "decompress_pglz_raw src orig =
     (if 1000000000 < orig then None
      else case pglz_groups src orig 0 [] of
             None \<Rightarrow> None
           | Some (sp, out) \<Rightarrow> if length out = orig \<and> sp = length src then Some out else None)"

definition decompress_pglz :: "bytes \<Rightarrow> bytes option" where
  "decompress_pglz src =
     (if length src < 4 then None else decompress_pglz_raw (drop 4 src) (from_le (take 4 src)))"

section \<open>Invariant of the history\<close>

text \<open>
  The entry of the position \<open>q\<close> in the ring. \<open>hash_chains hash n L h\<close>: the positions in \<open>L\<close> have their
  entries, the head of each of the \<open>n\<close> lists is the entry of one of them, and every link goes
  from a position to an earlier one with the same hash, and back.
\<close>

definition ent :: "nat \<Rightarrow> nat" where
  "ent q = q mod 4096 + 1"

lemma ent_le: "ent q \<le> 4096"
proof -
  have "q mod 4096 < 4096" by simp
  then show ?thesis unfolding ent_def by linarith
qed

lemma ent_simps [simp]: "ent q \<noteq> 0" "0 < ent q" "ent q mod 65536 = ent q"
  using ent_le [of q] by (simp_all add: ent_def)

lemma ent_inj:
  assumes "ent q = ent q'" and "q < q' + 4096" and "q' < q + 4096"
  shows "q = q'"
proof -
  have m: "q mod 4096 = q' mod 4096" using assms(1) by (simp add: ent_def)
  have eq: "a = b" if "a \<le> b" "b < a + 4096" "a mod 4096 = b mod 4096" for a b :: nat
  proof -
    have "4096 dvd b - a" using that(1,3) mod_eq_dvd_iff_nat by metis
    then show ?thesis using that(1,2) by (auto dest: dvd_imp_le)
  qed
  show ?thesis using m assms(2,3) eq [of q q'] eq [of q' q] by (cases "q \<le> q'") simp_all
qed

definition hash_chains :: "(nat \<Rightarrow> nat) \<Rightarrow> nat \<Rightarrow> nat set \<Rightarrow> pglz_hist \<Rightarrow> bool" where
  "hash_chains hash n L h \<longleftrightarrow>
     (\<forall>q \<in> L. ph_pos h (ent q) = q \<and> ph_hindex h (ent q) = hash q) \<and>
     (\<forall>i < n. ph_start h i = 0 \<or> (\<exists>q \<in> L. hash q = i \<and> ph_start h i = ent q \<and> ph_prev h (ent q) = 0)) \<and>
     (\<forall>q \<in> L. ph_next h (ent q) = 0 \<or>
        (\<exists>q' \<in> L. q' < q \<and> hash q' = hash q \<and> ph_next h (ent q) = ent q' \<and> ph_prev h (ent q') = ent q))"

lemma chain_start: "hash_chains hash n L h \<Longrightarrow> i < n \<Longrightarrow> ph_start h i \<noteq> 0 \<Longrightarrow>
    \<exists>q \<in> L. hash q = i \<and> ph_start h i = ent q \<and> ph_prev h (ent q) = 0"
  unfolding hash_chains_def by (elim conjE) (drule spec [of _ i], simp)

lemma chain_next: "hash_chains hash n L h \<Longrightarrow> q \<in> L \<Longrightarrow> ph_next h (ent q) \<noteq> 0 \<Longrightarrow>
    \<exists>q' \<in> L. q' < q \<and> hash q' = hash q \<and> ph_next h (ent q) = ent q' \<and> ph_prev h (ent q') = ent q"
  unfolding hash_chains_def by (elim conjE) (drule (1) bspec, simp)

text \<open>Delinking the oldest position.\<close>

lemma delink_oldest:
  assumes "hash_chains hash n L h" and "q0 \<in> L" and "\<forall>q \<in> L. q0 \<le> q"
  shows "pglz_delink (ent q0) h =
    (if ph_prev h (ent q0) = 0 then h\<lparr>ph_start := (ph_start h)(hash q0 := 0)\<rparr>
     else h\<lparr>ph_next := (ph_next h)(ph_prev h (ent q0) := 0)\<rparr>)"
proof -
  have last: "ph_next h (ent q0) = 0" using chain_next [OF assms(1,2)] assms(3) by fastforce
  have hidx: "ph_hindex h (ent q0) = hash q0" using assms(1,2) by (simp add: hash_chains_def)
  show ?thesis by (simp add: pglz_delink_def last hidx)
qed

lemma delink_chains:
  assumes "hash_chains hash n L h" and "q0 \<in> L" and "\<forall>q \<in> L. q0 \<le> q" and "inj_on ent L"
  shows "hash_chains hash n (L - {q0}) (pglz_delink (ent q0) h)"
proof -
  let ?hn = "ent q0" and ?L = "L - {q0}" and ?h = "pglz_delink (ent q0) h"
  have d: "?h = (if ph_prev h ?hn = 0 then h\<lparr>ph_start := (ph_start h)(hash q0 := 0)\<rparr>
      else h\<lparr>ph_next := (ph_next h)(ph_prev h ?hn := 0)\<rparr>)"
    by (rule delink_oldest [OF assms(1-3)])
  have same: "ph_pos ?h = ph_pos h" "ph_hindex ?h = ph_hindex h" "ph_prev ?h = ph_prev h" by (simp_all add: d)
  have starts: "ph_start ?h i = 0 \<or> (\<exists>q \<in> ?L. hash q = i \<and> ph_start ?h i = ent q \<and> ph_prev h (ent q) = 0)" if i: "i < n" for i
  proof (cases "ph_start ?h i = 0")
    case False
    then have e: "ph_start ?h i = ph_start h i" "ph_start h i \<noteq> 0" by (auto simp: d split: if_splits)
    obtain q where q: "q \<in> L" "hash q = i" "ph_start h i = ent q" "ph_prev h (ent q) = 0"
      using chain_start [OF assms(1) i e(2)] by blast
    have "q \<noteq> q0"
    proof
      assume "q = q0"
      with q False show False by (simp add: d)
    qed
    with q e(1) show ?thesis by auto
  qed simp
  have nexts: "ph_next ?h (ent q) = 0 \<or>
      (\<exists>q' \<in> ?L. q' < q \<and> hash q' = hash q \<and> ph_next ?h (ent q) = ent q' \<and> ph_prev h (ent q') = ent q)" if q: "q \<in> ?L" for q
  proof (cases "ph_next ?h (ent q) = 0")
    case False
    then have e: "ph_next ?h (ent q) = ph_next h (ent q)" "ph_next h (ent q) \<noteq> 0" "ph_prev h ?hn \<noteq> ent q"
      by (auto simp: d split: if_splits)
    obtain q' where q': "q' \<in> L" "q' < q" "hash q' = hash q" "ph_next h (ent q) = ent q'" "ph_prev h (ent q') = ent q"
      using chain_next [OF assms(1) _ e(2)] q by blast
    then have "q' \<noteq> q0" using e(3) by blast
    with q' e(1) show ?thesis by auto
  qed simp
  have entries: "ph_pos h (ent q) = q \<and> ph_hindex h (ent q) = hash q" if "q \<in> ?L" for q
    using assms(1) that by (simp add: hash_chains_def)
  show ?thesis
    unfolding hash_chains_def same by (intro conjI ballI allI impI) (simp_all only: entries starts nexts)
qed

text \<open>Pushing a new position in front of its list.\<close>

definition push_entry :: "nat \<Rightarrow> nat \<Rightarrow> nat \<Rightarrow> pglz_hist \<Rightarrow> pglz_hist" where
  "push_entry i hn p h =
     h\<lparr>ph_next := (ph_next h)(hn := ph_start h i), ph_prev := ((ph_prev h)(hn := 0))(ph_start h i := hn),
       ph_hindex := (ph_hindex h)(hn := i), ph_pos := (ph_pos h)(hn := p), ph_start := (ph_start h)(i := hn)\<rparr>"

lemma push_chains:
  assumes "hash_chains hash n L h" and "p \<notin> L" and "\<forall>q \<in> L. q < p" and "inj_on ent (insert p L)" and "hash p < n"
  shows "hash_chains hash n (insert p L) (push_entry (hash p) (ent p) p h)"
proof -
  let ?hn = "ent p" and ?i = "hash p" and ?h = "push_entry (hash p) (ent p) p h"
  let ?head = "ph_start h ?i"
  have ne: "ent q \<noteq> ?hn" if "q \<in> L" for q using that assms(2) inj_onD [OF assms(4), of q p] by auto
  have head: "?head = 0 \<or> (\<exists>q \<in> L. hash q = ?i \<and> ?head = ent q \<and> ph_prev h (ent q) = 0)"
    using chain_start [OF assms(1,5)] by blast
  then have head_ne: "?head \<noteq> ?hn" using ne by force
  have same: "q = q'" if "q \<in> L" "q' \<in> L" "ent q = ent q'" for q q' using that assms(4) by (auto dest: inj_onD)
  have starts: "ph_start ?h i = 0 \<or> (\<exists>q \<in> insert p L. hash q = i \<and> ph_start ?h i = ent q \<and> ph_prev ?h (ent q) = 0)" if i: "i < n" for i
  proof (cases "i = ?i")
    case True
    then show ?thesis using head_ne by (auto simp: push_entry_def)
  next
    case False
    show ?thesis
    proof (cases "ph_start h i = 0")
      case True
      with False show ?thesis by (simp add: push_entry_def)
    next
      case nz: False
      then obtain q where q: "q \<in> L" "hash q = i" "ph_start h i = ent q" "ph_prev h (ent q) = 0"
        using chain_start [OF assms(1) i] by blast
      have "ent q \<noteq> ?head"
      proof
        assume "ent q = ?head"
        with head q(1,2) same False show False by force
      qed
      then show ?thesis using q ne [OF q(1)] False by (auto simp: push_entry_def)
    qed
  qed
  have nexts: "ph_next ?h (ent q) = 0 \<or> (\<exists>q' \<in> insert p L. q' < q \<and> hash q' = hash q \<and>
      ph_next ?h (ent q) = ent q' \<and> ph_prev ?h (ent q') = ent q)" if q: "q \<in> insert p L" for q
  proof (cases "q = p")
    case True
    then show ?thesis using head assms(3) head_ne by (auto simp: push_entry_def)
  next
    case False
    with q have qL: "q \<in> L" by simp
    show ?thesis
    proof (cases "ph_next h (ent q) = 0")
      case True
      then show ?thesis using ne [OF qL] by (simp add: push_entry_def)
    next
      case nz: False
      then obtain q' where q': "q' \<in> L" "q' < q" "hash q' = hash q" "ph_next h (ent q) = ent q'" "ph_prev h (ent q') = ent q"
        using chain_next [OF assms(1) qL] by blast
      have "ent q' \<noteq> ?head"
      proof
        assume "ent q' = ?head"
        with head q'(1,5) same show False by force
      qed
      then show ?thesis using q' ne [OF qL] ne [OF q'(1)] by (auto simp: push_entry_def)
    qed
  qed
  have entries: "ph_pos ?h (ent q) = q \<and> ph_hindex ?h (ent q) = hash q" if "q \<in> insert p L" for q
    using that ne assms(1) by (auto simp: push_entry_def hash_chains_def)
  show ?thesis
    unfolding hash_chains_def by (intro conjI ballI allI impI) (simp_all only: entries starts nexts)
qed

definition window :: "nat \<Rightarrow> nat set" where
  "window p = {q. q < p \<and> p \<le> q + 4096}"

definition hist_ok :: "bytes \<Rightarrow> u32 \<Rightarrow> nat \<Rightarrow> nat \<Rightarrow> pglz_hist \<Rightarrow> bool" where
  "hist_ok inp msk n p h \<longleftrightarrow>
     ph_hist_next h = ent p \<and> (ph_recycle h \<longleftrightarrow> 4096 \<le> p) \<and>
     hash_chains (\<lambda>q. pglz_hist_idx inp q msk) n (window p) h"

lemma inj_window: "inj_on ent (insert p (window p - {p - 4096}))" "inj_on ent (window p)"
  by (rule inj_onI, rule ent_inj, auto simp: window_def)+

lemma window_Suc: "window (p + 1) = insert p (if 4096 \<le> p then window p - {p - 4096} else window p)"
  by (auto simp: window_def)

lemma ent_Suc: "ent (p + 1) = (if 4096 < ent p + 1 then 1 else ent p + 1)"
proof -
  have "(p + 1) mod 4096 = (if p mod 4096 = 4095 then 0 else p mod 4096 + 1)" by (simp add: mod_Suc)
  moreover have "p mod 4096 < 4096" by simp
  ultimately show ?thesis by (auto simp: ent_def)
qed

lemma hist_add_push:
  fixes p :: nat
  defines "L \<equiv> if 4096 \<le> p then window p - {p - 4096} else window p"
  assumes "hist_ok inp msk n p h" and "pglz_hist_idx inp p msk < n" and "n \<le> 8192" and "p < 2 ^ 32"
  defines "h1 \<equiv> if 4096 \<le> p then pglz_delink (ent (p - 4096)) h else h"
  shows "hash_chains (\<lambda>q. pglz_hist_idx inp q msk) n L h1"
    and "pglz_hist_add inp p msk h = (push_entry (pglz_hist_idx inp p msk) (ent p) p h1)
      \<lparr>ph_recycle := (4096 \<le> p + 1), ph_hist_next := ent (p + 1)\<rparr>"
proof -
  let ?hash = "\<lambda>q. pglz_hist_idx inp q msk"
  have h: "ph_hist_next h = ent p" "ph_recycle h \<longleftrightarrow> 4096 \<le> p" "hash_chains ?hash n (window p) h"
    using assms(2) by (simp_all add: hist_ok_def)
  have h1: "(if ph_recycle h then pglz_delink (ent p) h else h) = h1"
  proof (cases "4096 \<le> p")
    case True
    then have "ent (p - 4096) = ent p" by (simp add: ent_def le_mod_geq)
    then show ?thesis using True h(2) by (simp add: h1_def)
  qed (use h(2) in \<open>simp add: h1_def\<close>)
  have keep: "ph_recycle h1 = ph_recycle h" by (simp add: h1_def pglz_delink_def Let_def)
  show ch1: "hash_chains ?hash n L h1"
  proof (cases "4096 \<le> p")
    case True
    have "hash_chains ?hash n (window p - {p - 4096}) (pglz_delink (ent (p - 4096)) h)"
      by (rule delink_chains [OF h(3)]) (use True in \<open>auto simp: window_def inj_window [unfolded window_def]\<close>)
    then show ?thesis using True by (simp add: h1_def L_def)
  qed (use h in \<open>simp add: h1_def L_def\<close>)
  have head: "ph_start h1 (?hash p) mod 65536 = ph_start h1 (?hash p)"
    using chain_start [OF ch1 assms(3)] by (cases "ph_start h1 (?hash p) = 0") auto
  have recycle: "(4096 \<le> p \<or> 4096 < ent p + 1) = (4096 \<le> p + 1)"
  proof (cases "4096 \<le> p")
    case False
    then show ?thesis by (auto simp: ent_def)
  qed simp
  show "pglz_hist_add inp p msk h = (push_entry (?hash p) (ent p) p h1)
      \<lparr>ph_recycle := (4096 \<le> p + 1), ph_hist_next := ent (p + 1)\<rparr>"
    unfolding pglz_hist_add_def Let_def h(1) unfolding h1 push_entry_def keep ent_Suc recycle [symmetric] unfolding h(2)
    using head assms(3-5) by (simp del: One_nat_def)
qed

lemma hist_add_ok:
  assumes "hist_ok inp msk n p h" and "pglz_hist_idx inp p msk < n" and "n \<le> 8192" and "p < 2 ^ 32"
  shows "hist_ok inp msk n (p + 1) (pglz_hist_add inp p msk h)"
proof -
  let ?L = "if 4096 \<le> p then window p - {p - 4096} else window p"
  have "inj_on ent (insert p ?L)"
  proof (cases "4096 \<le> p")
    case False
    have "inj_on ent {..<4096}" by (rule inj_onI) (simp add: ent_def)
    then show ?thesis by (rule inj_on_subset) (use False in \<open>auto simp: window_def\<close>)
  qed (simp add: inj_window(1) del: inj_on_insert)
  then have "hash_chains (\<lambda>q. pglz_hist_idx inp q msk) n (insert p ?L) (push_entry (pglz_hist_idx inp p msk) (ent p) p
      (if 4096 \<le> p then pglz_delink (ent (p - 4096)) h else h))"
    by (intro push_chains [OF hist_add_push(1) [OF assms]]) (auto simp: window_def assms(2))
  moreover have "hash_chains hash n L (h\<lparr>ph_recycle := r, ph_hist_next := k\<rparr>) = hash_chains hash n L h" for hash n L h r k
    by (simp add: hash_chains_def)
  ultimately show ?thesis unfolding hist_ok_def hist_add_push(2) [OF assms] window_Suc by simp
qed

lemma hist_add_n_ok:
  "hist_ok inp msk n p h \<Longrightarrow> (\<And>q. pglz_hist_idx inp q msk < n) \<Longrightarrow> n \<le> 8192 \<Longrightarrow> p + k \<le> 2 ^ 32 \<Longrightarrow>
     hist_ok inp msk n (p + k) (pglz_hist_add_n k inp p msk h)"
proof (induction k arbitrary: p h)
  case (Suc k)
  have "hist_ok inp msk n (p + 1) (pglz_hist_add inp p msk h)"
    by (rule hist_add_ok) (use Suc.prems in auto)
  from Suc.IH [OF this] Suc.prems show ?case by simp
qed simp

section \<open>Matches found\<close>

definition match_ok :: "bytes \<Rightarrow> nat \<Rightarrow> nat \<Rightarrow> nat \<Rightarrow> bool" where
  "match_ok inp p len off \<longleftrightarrow>
     len = 0 \<or> 0 < off \<and> off \<le> p \<and> off < 4095 \<and> len \<le> 273 \<and> p + len \<le> length inp \<and>
     (\<forall>i < len. inp ! (p - off + i) = inp ! (p + i))"

lemma candidate_len_ok:
  assumes "hp < p" and "p < length inp" and "match_ok inp p len off" and "p - hp < 4095"
  shows "match_ok inp p (candidate_len inp p hp len) (p - hp)"
proof (cases "16 \<le> len")
  case True
  note long = this
  show ?thesis
  proof (cases "take len (drop p inp) = take len (drop hp inp)")
    case eq: True
    have l: "len \<le> 273" "p + len \<le> length inp" using assms(3) True by (auto simp: match_ok_def)
    let ?more = "match_len inp (hp + len) (p + len) (min (273 - len) (length inp - (p + len)))"
    have c: "candidate_len inp p hp len = len + ?more" using True eq by (simp add: candidate_len_def)
    have eqs: "inp ! (hp + i) = inp ! (p + i)" if "i < len + ?more" for i
    proof (cases "i < len")
      case True
      have "take len (drop p inp) ! i = take len (drop hp inp) ! i" by (simp only: eq)
      then show ?thesis using True l(2) assms(1) by simp
    next
      case False
      then show ?thesis
        using that match_len_equal [of "i - len" inp "hp + len" "p + len" "min (273 - len) (length inp - (p + len))"] by simp
    qed
    have more: "?more \<le> 273 - len" "?more \<le> length inp - (p + len)"
      using match_len_le [of inp "hp + len" "p + len" "min (273 - len) (length inp - (p + len))"] by simp_all
    then have le: "len + ?more \<le> 273" "p + (len + ?more) \<le> length inp" using l by linarith+
    have "\<forall>i < len + ?more. inp ! (p - (p - hp) + i) = inp ! (p + i)" using eqs assms(1) by simp
    moreover have "0 < p - hp" "p - hp \<le> p" using assms(1) by simp_all
    ultimately show ?thesis unfolding c match_ok_def using le assms(4) by blast
  qed (simp add: candidate_len_def match_ok_def long)
next
  case False
  let ?len = "match_len inp hp p (min 273 (length inp - p))"
  have c: "candidate_len inp p hp len = ?len" using False by (simp add: candidate_len_def)
  have le: "?len \<le> 273" "p + ?len \<le> length inp"
    using match_len_le [of inp hp p "min 273 (length inp - p)"] assms(2) by linarith+
  have "\<forall>i < ?len. inp ! (p - (p - hp) + i) = inp ! (p + i)"
  proof (intro allI impI)
    fix i
    assume "i < ?len"
    then have "inp ! (hp + i) = inp ! (p + i)" by (rule match_len_equal)
    then show "inp ! (p - (p - hp) + i) = inp ! (p + i)" using assms(1) by simp
  qed
  moreover have "0 < p - hp" "p - hp \<le> p" using assms(1) by simp_all
  ultimately show ?thesis unfolding c match_ok_def using le assms(4) by blast
qed

lemma search_ok:
  assumes "hash_chains hash k (window p) h" and "p < length inp"
  shows "hent = 0 \<or> (\<exists>q \<in> window p. hent = ent q) \<Longrightarrow>
    (if hent = 0 then 0 else ph_pos h hent + 4096 - p) < n \<Longrightarrow> match_ok inp p len off \<Longrightarrow>
    \<exists>len' off'. pglz_search n h inp p pct hent len off good = Some (len', off') \<and> match_ok inp p len' off'"
proof (induction n arbitrary: hent len off good)
  case (Suc n)
  show ?case
  proof (cases "hent = 0")
    case True
    then show ?thesis using Suc.prems(3) by simp
  next
    case False
    then obtain q where q: "q \<in> window p" "hent = ent q" using Suc.prems(1) by blast
    have pos: "ph_pos h hent = q" using assms(1) q by (simp add: hash_chains_def)
    have qp: "q < p" "p \<le> q + 4096" using q(1) by (simp_all add: window_def)
    show ?thesis
    proof (cases "4095 \<le> p - q")
      case True
      then show ?thesis using Suc.prems(3) False pos by (simp add: Let_def)
    next
      case near: False
      let ?len = "candidate_len inp p q len" and ?next = "ph_next h hent"
      obtain len' off' where best: "(if len < ?len then (?len, p - q) else (len, off)) = (len', off')" by force
      have m: "match_ok inp p len' off'"
        using best candidate_len_ok [OF qp(1) assms(2) Suc.prems(3)] Suc.prems(3) near by (auto split: if_splits)
      have step: "pglz_search (Suc n) h inp p pct hent len off good =
          (if ?next = 0 then pglz_search n h inp p pct 0 len' off' good
           else if good \<le> len' then Some (len', off')
           else pglz_search n h inp p pct ?next len' off' (good - good * pct div 100))"
        using False near pos best by (simp add: Let_def)
      have n: "0 < n" using Suc.prems(2) False pos near by auto
      show ?thesis
      proof (cases "?next = 0")
        case True
        then show ?thesis unfolding step using Suc.IH [of 0 len' off' good] n m by simp
      next
        case nz: False
        then obtain q' where q': "q' \<in> window p" "q' < q" "?next = ent q'"
          using chain_next [OF assms(1) q(1)] q(2) by auto
        have "ph_pos h ?next = q'" using assms(1) q' by (simp add: hash_chains_def)
        then have "ph_pos h ?next + 4096 - p < n" using Suc.prems(2) False pos q'(1,2) by (auto simp: window_def)
        then show ?thesis
          unfolding step using Suc.IH [of ?next len' off' "good - good * pct div 100"] nz m q' by auto
      qed
    qed
  qed
qed simp

section \<open>The items of a payload\<close>

text \<open>
  A payload is a list of groups, each a control byte and up to eight items; only the last
  group may be short. The items stand for a stretch of the input.
\<close>

datatype pglz_item = Lit u8 | Mtch nat nat

fun enc_item :: "pglz_item \<Rightarrow> bytes" where
  "enc_item (Lit b) = [b]"
| "enc_item (Mtch len off) = pglz_tag len off"

fun is_mtch :: "pglz_item \<Rightarrow> bool" where
  "is_mtch (Lit b) = False"
| "is_mtch (Mtch len off) = True"

abbreviation enc_items :: "pglz_item list \<Rightarrow> bytes" where
  "enc_items its \<equiv> concat (map enc_item its)"

fun covers :: "bytes \<Rightarrow> nat \<Rightarrow> pglz_item list \<Rightarrow> nat \<Rightarrow> bool" where
  "covers inp p [] e \<longleftrightarrow> p = e"
| "covers inp p (Lit b # its) e \<longleftrightarrow> p < length inp \<and> b = inp ! p \<and> covers inp (p + 1) its e"
| "covers inp p (Mtch len off # its) e \<longleftrightarrow> 3 \<le> len \<and> match_ok inp p len off \<and> covers inp (p + len) its e"

lemma covers_append: "covers inp p (as @ bs) e \<longleftrightarrow> (\<exists>m. covers inp p as m \<and> covers inp m bs e)"
  by (induction inp p as e rule: covers.induct) auto

lemma tag_ne [simp]: "pglz_tag len off \<noteq> []"
  by (simp add: pglz_tag_def)

lemma nibbles:
  assumes "a < 16" and "b < 16"
  shows "unat (word_of_nat (a * 16 + b) :: u8) = a * 16 + b"
  using assms unfolding unat_byte by simp

lemma tag_read:
  assumes "3 \<le> len" and "len \<le> 273" and "off < 4096" and "src = pre @ pglz_tag len off @ rest"
  shows "length pre + 2 \<le> length src" and "unat (src ! length pre) div 16 * 256 + unat (src ! (length pre + 1)) = off"
    and "(if unat (src ! length pre) mod 16 + 3 = 18
          then if length src \<le> length pre + 2 then None
               else Some (unat (src ! length pre) mod 16 + 3 + unat (src ! (length pre + 2)), length pre + 3)
          else Some (unat (src ! length pre) mod 16 + 3, length pre + 2)) = Some (len, length pre + length (pglz_tag len off))"
proof -
  define lo where "lo = (if 17 < len then 15 else len - 3)"
  have lo: "lo < 16" using assms(1) by (auto simp: lo_def)
  have hi: "off div 256 < 16" using assms(3) by simp
  define t0 :: u8 where "t0 = word_of_nat (off div 256 * 16 + lo)"
  have t0: "unat t0 div 16 = off div 256" "unat t0 mod 16 = lo" unfolding t0_def nibbles [OF hi lo] using lo by simp_all
  have tag: "pglz_tag len off = t0 # word_of_nat (off mod 256) # (if 17 < len then [word_of_nat (len - 18)] else [])"
    using hi by (simp add: pglz_tag_def t0_def lo_def)
  have at: "src ! length pre = t0" "src ! (length pre + 1) = word_of_nat (off mod 256)" unfolding assms(4) tag by (simp_all add: nth_append)
  have m: "unat (word_of_nat (off mod 256) :: u8) = off mod 256" unfolding unat_byte by simp
  show "length pre + 2 \<le> length src" unfolding assms(4) tag by simp
  show "unat (src ! length pre) div 16 * 256 + unat (src ! (length pre + 1)) = off" unfolding at t0 m by simp
  show "(if unat (src ! length pre) mod 16 + 3 = 18
          then if length src \<le> length pre + 2 then None
               else Some (unat (src ! length pre) mod 16 + 3 + unat (src ! (length pre + 2)), length pre + 3)
          else Some (unat (src ! length pre) mod 16 + 3, length pre + 2)) = Some (len, length pre + length (pglz_tag len off))"
  proof (cases "17 < len")
    case True
    have "src ! (length pre + 2) = word_of_nat (len - 18)" unfolding assms(4) tag using True by (simp add: nth_append)
    moreover have "unat (word_of_nat (len - 18) :: u8) = len - 18" unfolding unat_byte using True assms(2) by simp
    moreover have "length pre + 2 < length src" unfolding assms(4) tag using True by simp
    ultimately show ?thesis unfolding at t0 using True by (simp add: lo_def tag)
  next
    case False
    then show ?thesis unfolding at t0 using assms(1) by (simp add: lo_def tag)
  qed
qed

section \<open>Decoding\<close>

lemma items_decode:
  assumes "src = pre @ enc_items its @ rest" and "covers inp p its e" and "e \<le> length inp" and "length its \<le> k"
    and "\<forall>i < length its. bit ctrl i = is_mtch (its ! i)" and "length its = k \<or> e = length inp"
  shows "pglz_items k src (length inp) ctrl (length pre) (take p inp) = Some (length pre + length (enc_items its), take e inp)"
  using assms
proof (induction its arbitrary: pre p k ctrl)
  case Nil
  then show ?case by (cases k) auto
next
  case (Cons it its)
  then obtain k' where k: "k = Suc k'" by (cases k) auto
  have bit0: "(ctrl AND 1 \<noteq> 0) = is_mtch it"
    using Cons.prems(5) [rule_format, of 0] by (simp add: and_one_eq odd_iff_mod_2_eq_one bit_0)
  have bits: "\<forall>i < length its. bit (drop_bit 1 ctrl) i = is_mtch (its ! i)"
    using Cons.prems(5) by (auto simp: bit_drop_bit_eq)
  have rest: "src = (pre @ enc_item it) @ enc_items its @ rest" using Cons.prems(1) by simp
  have IH: "pglz_items k' src (length inp) (drop_bit 1 ctrl) (length (pre @ enc_item it)) (take p' inp) =
      Some (length (pre @ enc_item it) + length (enc_items its), take e inp)" if "covers inp p' its e" for p'
    by (rule Cons.IH [OF rest that Cons.prems(3) _ bits]) (use Cons.prems(4,6) k in auto)
  show ?case
  proof (cases it)
    case (Lit b)
    have c: "p < length inp" "b = inp ! p" "covers inp (p + 1) its e" using Cons.prems(2) by (simp_all add: Lit)
    have at: "src ! length pre = inp ! p" "length pre < length src" unfolding rest by (simp_all add: Lit c(2) nth_append)
    have out: "take p inp @ [inp ! p] = take (p + 1) inp" using c(1) by (simp add: take_Suc_conv_app_nth)
    show ?thesis using IH [OF c(3)] bit0 at c(1) out by (simp add: k Lit)
  next
    case (Mtch len off)
    have c: "3 \<le> len" "match_ok inp p len off" "covers inp (p + len) its e" using Cons.prems(2) by (simp_all add: Mtch)
    then have m: "0 < off" "off \<le> p" "off < 4095" "len \<le> 273" "p + len \<le> length inp" "\<forall>i < len. inp ! (p - off + i) = inp ! (p + i)"
      by (auto simp: match_ok_def)
    have copy: "copy_match off (min len (length inp - p)) (take p inp) = take (p + len) inp"
      using copy_match_correct [OF m(1,2,5,6)] m(5) by (simp add: min_def)
    have src: "src = pre @ pglz_tag len off @ enc_items its @ rest" using rest by (simp add: Mtch)
    have off: "off < 4096" using m(3) by simp
    have p: "p < length inp" "length (take p inp) = p" using m(5) c(1) by simp_all
    note t = tag_read [OF c(1) m(4) off src]
    have "length pre < length src" using t(1) by simp
    then show ?thesis
      unfolding k using IH [OF c(3)] bit0 t p copy m(1,2) c(1) by (simp add: Mtch Let_def)
  qed
qed

fun groups_ok :: "(u8 \<times> pglz_item list) list \<Rightarrow> bool" where
  "groups_ok [] \<longleftrightarrow> True"
| "groups_ok ((c, its) # gs) \<longleftrightarrow>
     its \<noteq> [] \<and> length its \<le> 8 \<and> (gs = [] \<or> length its = 8) \<and> (\<forall>i < length its. bit c i = is_mtch (its ! i)) \<and> groups_ok gs"

abbreviation enc_groups :: "(u8 \<times> pglz_item list) list \<Rightarrow> bytes" where
  "enc_groups gs \<equiv> concat (map (\<lambda>(c, its). c # enc_items its) gs)"

abbreviation all_items :: "(u8 \<times> pglz_item list) list \<Rightarrow> pglz_item list" where
  "all_items gs \<equiv> concat (map snd gs)"

lemma covers_le: "covers inp p its e \<Longrightarrow> p \<le> length inp \<Longrightarrow> p + length its \<le> e \<and> e \<le> length inp"
  by (induction inp p its e rule: covers.induct) (auto simp: match_ok_def)

lemma groups_decode:
  assumes "src = pre @ enc_groups gs" and "groups_ok gs" and "covers inp p (all_items gs) (length inp)" and "p \<le> length inp"
  shows "pglz_groups src (length inp) (length pre) (take p inp) = Some (length src, inp)"
  using assms
proof (induction gs arbitrary: pre p)
  case Nil
  then show ?case by (subst pglz_groups.simps) simp
next
  case (Cons g gs)
  obtain c its where g: "g = (c, its)" by fastforce
  obtain e where e: "covers inp p its e" "covers inp e (all_items gs) (length inp)"
    using Cons.prems(3) by (auto simp: g covers_append)
  have le: "p + length its \<le> e" "e \<le> length inp" using covers_le [OF e(1) Cons.prems(4)] by simp_all
  have ok: "its \<noteq> []" "length its \<le> 8" "gs = [] \<or> length its = 8" "\<forall>i < length its. bit c i = is_mtch (its ! i)" "groups_ok gs"
    using Cons.prems(2) by (simp_all add: g)
  have src: "src = (pre @ [c]) @ enc_items its @ enc_groups gs" using Cons.prems(1) by (simp add: g)
  have last: "length its = 8 \<or> e = length inp" using ok(3) e(2) by auto
  have items: "pglz_items 8 src (length inp) c (length (pre @ [c])) (take p inp) =
      Some (length (pre @ [c]) + length (enc_items its), take e inp)"
    by (rule items_decode [OF src e(1) le(2) ok(2,4) last])
  have IH: "pglz_groups src (length inp) (length (pre @ c # enc_items its)) (take e inp) = Some (length src, inp)"
    by (rule Cons.IH) (use src ok(5) e(2) le(2) in simp_all)
  have at: "src ! length pre = c" "length pre < length src" unfolding src by (simp_all add: nth_append)
  have "0 < length its" using ok(1) by simp
  then have "p < length inp" using le by linarith
  then show ?case using at items IH by (subst pglz_groups.simps) simp
qed

section \<open>The output of the compressor\<close>

text \<open>
  What the compressor has written: full groups, then the open one, whose control byte is
  still \<open>0\<close> in the output and collected in \<open>po_ctrlb\<close>. The next bit is a power of two.
\<close>

definition open_ok :: "(u8 \<times> pglz_item list) list \<Rightarrow> pglz_item list \<Rightarrow> pglz_out \<Rightarrow> bool" where
  "open_ok gs its w \<longleftrightarrow>
     po_out w = enc_groups gs @ 0 # enc_items its \<and> po_ctrlp w = Some (length (enc_groups gs)) \<and>
     length its \<le> 8 \<and> po_ctrl w = push_bit (length its) 1 \<and>
     (\<forall>i < 8. bit (po_ctrlb w) i \<longleftrightarrow> i < length its \<and> is_mtch (its ! i)) \<and>
     groups_ok gs \<and> (\<forall>g \<in> set gs. length (snd g) = 8)"

definition out_ok :: "pglz_item list \<Rightarrow> pglz_out \<Rightarrow> bool" where
  "out_ok all w \<longleftrightarrow>
     (all = [] \<and> w = \<lparr>po_out = [], po_ctrlp = None, po_ctrlb = 0, po_ctrl = 0\<rparr>) \<or>
     (\<exists>gs its. its \<noteq> [] \<and> all = all_items gs @ its \<and> open_ok gs its w)"

lemma groups_ok_snoc:
  "groups_ok gs \<Longrightarrow> \<forall>g \<in> set gs. length (snd g) = 8 \<Longrightarrow> its \<noteq> [] \<Longrightarrow> length its \<le> 8 \<Longrightarrow>
     \<forall>i < length its. bit c i = is_mtch (its ! i) \<Longrightarrow> groups_ok (gs @ [(c, its)])"
  by (induction gs rule: groups_ok.induct) auto

lemma patch_ok:
  assumes "open_ok gs its w"
  shows "po_patch w = enc_groups (gs @ [(po_ctrlb w, its)])"
  using assms by (simp add: open_ok_def po_patch_def list_update_append)

lemma open_groups_ok:
  assumes "open_ok gs its w" and "its \<noteq> []"
  shows "groups_ok (gs @ [(po_ctrlb w, its)])"
  using assms by (intro groups_ok_snoc) (auto simp: open_ok_def)

lemma ctrl_full:
  assumes "k \<le> 8"
  shows "(push_bit k 1 :: u16) AND 255 = 0 \<longleftrightarrow> k = 8"
proof -
  have "k \<in> {0, 1, 2, 3, 4, 5, 6, 7, 8}" using assms by auto
  then show ?thesis by auto
qed

text \<open>A control byte with room is open after the step that makes room.\<close>

lemma out_ctrl_ok:
  assumes "out_ok all w"
  obtains gs its where "open_ok gs its (pglz_out_ctrl w)" and "length its < 8" and "all = all_items gs @ its"
proof (cases "all = [] \<and> w = \<lparr>po_out = [], po_ctrlp = None, po_ctrlb = 0, po_ctrl = 0\<rparr>")
  case True
  then have "open_ok [] [] (pglz_out_ctrl w)" by (simp add: pglz_out_ctrl_def open_ok_def po_patch_def)
  then show ?thesis using that True by simp
next
  case False
  with assms obtain gs its where o: "its \<noteq> []" "all = all_items gs @ its" "open_ok gs its w" by (auto simp: out_ok_def)
  then have ctrl: "po_ctrl w AND 255 = 0 \<longleftrightarrow> length its = 8" using ctrl_full by (simp add: open_ok_def)
  show ?thesis
  proof (cases "length its = 8")
    case full: True
    let ?gs = "gs @ [(po_ctrlb w, its)]"
    have len: "length (po_out w) = length (enc_groups ?gs)" using o(3) by (simp add: open_ok_def)
    have ctrl_out: "pglz_out_ctrl w = \<lparr>po_out = enc_groups ?gs @ [0], po_ctrlp = Some (length (enc_groups ?gs)), po_ctrlb = 0, po_ctrl = 1\<rparr>"
      using full ctrl by (simp only: pglz_out_ctrl_def patch_ok [OF o(3)] len if_True simp_thms)
    have "\<forall>g \<in> set ?gs. length (snd g) = 8" using o(3) full by (auto simp: open_ok_def)
    then have "open_ok ?gs [] (pglz_out_ctrl w)"
      using open_groups_ok [OF o(3,1)] unfolding ctrl_out open_ok_def by simp
    then show ?thesis using that [of ?gs "[]"] o(2) by simp
  next
    case False
    then have "pglz_out_ctrl w = w" using ctrl by (simp add: pglz_out_ctrl_def)
    moreover have "length its < 8" using False o(3) by (simp add: open_ok_def)
    ultimately show ?thesis using that [of gs its] o by simp
  qed
qed

lemma bit_next:
  assumes "i < 8" and "k < 8"
  shows "bit (ucast (push_bit k 1 :: u16) :: u8) i \<longleftrightarrow> i = k"
  using assms by (auto simp: bit_simps)

lemma put_match_ok:
  assumes "out_ok all w"
  shows "out_ok (all @ [Mtch len off]) (put_match len off w)"
proof -
  obtain gs its where o: "open_ok gs its (pglz_out_ctrl w)" "length its < 8" "all = all_items gs @ its"
    using out_ctrl_ok [OF assms] .
  have "open_ok gs (its @ [Mtch len off]) (put_match len off w)"
    using o(1,2) bit_next [OF _ o(2)]
    by (auto simp: open_ok_def put_match_def Let_def bit_or_iff nth_append less_Suc_eq)
  then show ?thesis using o(3) by (auto simp: out_ok_def)
qed

lemma put_literal_ok:
  assumes "out_ok all w"
  shows "out_ok (all @ [Lit b]) (put_literal b w)"
proof -
  obtain gs its where o: "open_ok gs its (pglz_out_ctrl w)" "length its < 8" "all = all_items gs @ its"
    using out_ctrl_ok [OF assms] .
  have "open_ok gs (its @ [Lit b]) (put_literal b w)"
    using o(1,2) by (auto simp: open_ok_def put_literal_def Let_def nth_append less_Suc_eq)
  then show ?thesis using o(3) by (auto simp: out_ok_def)
qed

section \<open>The loop\<close>

lemma find_match_ok:
  assumes "hist_ok inp msk n p h" and "pglz_hist_idx inp p msk < n" and "p < length inp"
  shows "\<exists>r. pglz_find_match h inp p msk good pct = Some r \<and> (\<forall>len off. r = Some (len, off) \<longrightarrow> match_ok inp p len off \<and> 3 \<le> len)"
proof -
  let ?hent = "ph_start h (pglz_hist_idx inp p msk)"
  have ch: "hash_chains (\<lambda>q. pglz_hist_idx inp q msk) n (window p) h" using assms(1) by (simp add: hist_ok_def)
  have start: "?hent = 0 \<or> (\<exists>q \<in> window p. ?hent = ent q)" using chain_start [OF ch assms(2)] by blast
  have fuel: "(if ?hent = 0 then 0 else ph_pos h ?hent + 4096 - p) < 4096"
  proof (cases "?hent = 0")
    case False
    then obtain q where q: "q \<in> window p" "?hent = ent q" using start by auto
    then have "ph_pos h ?hent = q" using ch by (simp add: hash_chains_def)
    moreover have "q < p" using q(1) by (simp add: window_def)
    ultimately show ?thesis using False by simp
  qed simp
  have "match_ok inp p 0 0" by (simp add: match_ok_def)
  then obtain len off where "pglz_search 4096 h inp p pct ?hent 0 0 good = Some (len, off)" "match_ok inp p len off"
    using search_ok [OF ch assms(3) start fuel] by blast
  then show ?thesis by (simp add: pglz_find_match_def)
qed

lemma loop_ok:
  assumes "hist_ok inp msk n p h" and "\<And>q. pglz_hist_idx inp q msk < n" and "n \<le> 8192" and "length inp < 2 ^ 32"
    and "covers inp 0 all p" and "out_ok all w" and "p \<le> length inp"
  shows "\<exists>r. pglz_loop inp msk h w p found = Some r \<and>
    (\<forall>w'. r = Some w' \<longrightarrow> (\<exists>all'. covers inp 0 all' (length inp) \<and> out_ok all' w'))"
  using assms(1,5-)
proof (induction "length inp - p" arbitrary: p h w all found rule: less_induct)
  case less
  note step = pglz_loop.simps [of inp msk h w p found]
  show ?case
  proof (cases "p < length inp")
    case False
    then show ?thesis using less.prems by (subst step) auto
  next
    case p: True
    obtain r where r: "pglz_find_match h inp p msk 128 10 = Some r"
      "\<forall>len off. r = Some (len, off) \<longrightarrow> match_ok inp p len off \<and> 3 \<le> len"
      using find_match_ok [OF less.prems(1) assms(2) p] by blast
    show ?thesis
    proof (cases "pglz_result_max (length inp) \<le> length (po_out w) \<or> \<not> found \<and> 1024 \<le> length (po_out w)")
      case True
      then show ?thesis using p by (subst step) auto
    next
      case False
      show ?thesis
      proof (cases r)
        case None
        have "hist_ok inp msk n (p + 1) (pglz_hist_add inp p msk h)"
          by (rule hist_add_ok [OF less.prems(1) assms(2,3)]) (use p assms(4) in simp)
        moreover have "covers inp 0 (all @ [Lit (inp ! p)]) (p + 1)" using less.prems(2) p by (auto simp: covers_append)
        ultimately have "\<exists>r. pglz_loop inp msk (pglz_hist_add inp p msk h) (put_literal (inp ! p) w) (p + 1) found = Some r \<and>
            (\<forall>w'. r = Some w' \<longrightarrow> (\<exists>all'. covers inp 0 all' (length inp) \<and> out_ok all' w'))"
          by (intro less.hyps [OF _ _ _ put_literal_ok [OF less.prems(3)]]) (use p in simp_all)
        then show ?thesis using p False r(1) None by (subst step) simp
      next
        case (Some lo)
        obtain len off where lo: "lo = (len, off)" by force
        have m: "match_ok inp p len off" "3 \<le> len" using r(2) Some lo by simp_all
        then have le: "p + len \<le> length inp" by (auto simp: match_ok_def)
        have "hist_ok inp msk n (p + len) (pglz_hist_add_n len inp p msk h)"
          by (rule hist_add_n_ok [OF less.prems(1) assms(2,3)]) (use le assms(4) in simp)
        moreover have "covers inp 0 (all @ [Mtch len off]) (p + len)" using less.prems(2) m by (auto simp: covers_append)
        ultimately have "\<exists>r. pglz_loop inp msk (pglz_hist_add_n len inp p msk h) (put_match len off w) (p + len) True = Some r \<and>
            (\<forall>w'. r = Some w' \<longrightarrow> (\<exists>all'. covers inp 0 all' (length inp) \<and> out_ok all' w'))"
          by (intro less.hyps [OF _ _ _ put_match_ok [OF less.prems(3)]]) (use p le m(2) in simp_all)
        then show ?thesis using p False r(1) Some lo by (subst step) simp
      qed
    qed
  qed
qed

lemma hashsz_bounds: "512 \<le> pglz_hashsz k" "pglz_hashsz k \<le> 8192"
  by (simp_all add: pglz_hashsz_def)

lemma hist_idx_less: "pglz_hist_idx inp q (word_of_nat (pglz_hashsz k - 1)) < pglz_hashsz k"
proof -
  have b: "512 \<le> pglz_hashsz k" "pglz_hashsz k \<le> 8192" by (fact hashsz_bounds)+
  have u: "unat (word_of_nat (pglz_hashsz k - 1) :: u32) = pglz_hashsz k - 1"
  proof -
    define m where "m = pglz_hashsz k - 1"
    have "m < 2 ^ 32" using b by (simp add: m_def)
    then show ?thesis unfolding m_def [symmetric] by (simp add: unat_of_nat)
  qed
  have "unat (x AND word_of_nat (pglz_hashsz k - 1) :: u32) < pglz_hashsz k" for x :: u32
  proof -
    have "unat (x AND word_of_nat (pglz_hashsz k - 1) :: u32) \<le> unat (word_of_nat (pglz_hashsz k - 1) :: u32)"
      by (simp only: word_and_le1 word_le_nat_alt [symmetric])
    then show ?thesis using u b by simp
  qed
  then show ?thesis by (simp add: pglz_hist_idx_def Let_def)
qed

section \<open>Leftover history\<close>

text \<open>
  Two histories that agree on the entries in use give the same matches: what earlier calls
  left in the arrays is never read.
\<close>

definition same_hist :: "nat \<Rightarrow> nat set \<Rightarrow> pglz_hist \<Rightarrow> pglz_hist \<Rightarrow> bool" where
  "same_hist n L h h' \<longleftrightarrow>
     (\<forall>i < n. ph_start h i = ph_start h' i) \<and>
     (\<forall>q \<in> L. ph_next h (ent q) = ph_next h' (ent q) \<and> ph_prev h (ent q) = ph_prev h' (ent q))"

lemma delink_same:
  assumes "hash_chains hash n L h" and "hash_chains hash n L h'" and "same_hist n L h h'" and "q0 \<in> L" and "\<forall>q \<in> L. q0 \<le> q"
  shows "same_hist n (L - {q0}) (pglz_delink (ent q0) h) (pglz_delink (ent q0) h')"
proof -
  have "ph_prev h (ent q0) = ph_prev h' (ent q0)" using assms(3,4) by (simp add: same_hist_def)
  then show ?thesis
    using assms(3) unfolding delink_oldest [OF assms(1,4,5)] delink_oldest [OF assms(2,4,5)] by (simp add: same_hist_def)
qed

lemma push_same:
  assumes "same_hist n L h h'" and "i < n"
  shows "same_hist n (insert p L) (push_entry i (ent p) p h) (push_entry i (ent p) p h')"
  using assms unfolding same_hist_def push_entry_def by auto

lemma hist_add_same:
  assumes "hist_ok inp msk n p h" and "hist_ok inp msk n p h'" and "same_hist n (window p) h h'"
    and "pglz_hist_idx inp p msk < n" and "n \<le> 8192" and "p < 2 ^ 32"
  shows "same_hist n (window (p + 1)) (pglz_hist_add inp p msk h) (pglz_hist_add inp p msk h')"
proof -
  let ?L = "if 4096 \<le> p then window p - {p - 4096} else window p"
  let ?d = "\<lambda>h. if 4096 \<le> p then pglz_delink (ent (p - 4096)) h else h"
  have ch: "hash_chains (\<lambda>q. pglz_hist_idx inp q msk) n (window p) h" "hash_chains (\<lambda>q. pglz_hist_idx inp q msk) n (window p) h'"
    using assms(1,2) by (simp_all add: hist_ok_def)
  have "same_hist n ?L (?d h) (?d h')"
  proof (cases "4096 \<le> p")
    case True
    have "same_hist n (window p - {p - 4096}) (pglz_delink (ent (p - 4096)) h) (pglz_delink (ent (p - 4096)) h')"
      by (rule delink_same [OF ch assms(3)]) (use True in \<open>auto simp: window_def\<close>)
    then show ?thesis using True by simp
  qed (use assms(3) in simp)
  then have "same_hist n (insert p ?L) (push_entry (pglz_hist_idx inp p msk) (ent p) p (?d h))
      (push_entry (pglz_hist_idx inp p msk) (ent p) p (?d h'))"
    using assms(4) by (rule push_same)
  moreover have "same_hist n L (h\<lparr>ph_recycle := r, ph_hist_next := k\<rparr>) (h'\<lparr>ph_recycle := r, ph_hist_next := k\<rparr>) = same_hist n L h h'"
    for L h h' r k by (simp add: same_hist_def)
  ultimately show ?thesis
    unfolding hist_add_push(2) [OF assms(1,4-6)] hist_add_push(2) [OF assms(2,4-6)] window_Suc by simp
qed

lemma hist_add_n_same:
  "hist_ok inp msk n p h \<Longrightarrow> hist_ok inp msk n p h' \<Longrightarrow> same_hist n (window p) h h' \<Longrightarrow>
     (\<And>q. pglz_hist_idx inp q msk < n) \<Longrightarrow> n \<le> 8192 \<Longrightarrow> p + k \<le> 2 ^ 32 \<Longrightarrow>
     same_hist n (window (p + k)) (pglz_hist_add_n k inp p msk h) (pglz_hist_add_n k inp p msk h')"
proof (induction k arbitrary: p h h')
  case (Suc k)
  have "same_hist n (window (p + 1)) (pglz_hist_add inp p msk h) (pglz_hist_add inp p msk h')"
    by (rule hist_add_same) (use Suc.prems in auto)
  moreover have "hist_ok inp msk n (p + 1) (pglz_hist_add inp p msk g)" if "hist_ok inp msk n p g" for g
    by (rule hist_add_ok) (use Suc.prems that in auto)
  ultimately show ?case using Suc.IH [of "p + 1" "pglz_hist_add inp p msk h" "pglz_hist_add inp p msk h'"] Suc.prems by simp
qed simp

lemma search_same:
  assumes "hash_chains hash k (window p) h" and "hash_chains hash k (window p) h'" and "same_hist k (window p) h h'"
  shows "hent = 0 \<or> (\<exists>q \<in> window p. hent = ent q) \<Longrightarrow>
    pglz_search n h inp p pct hent len off good = pglz_search n h' inp p pct hent len off good"
proof (induction n arbitrary: hent len off good)
  case (Suc n)
  show ?case
  proof (cases "hent = 0")
    case False
    then obtain q where q: "q \<in> window p" "hent = ent q" using Suc.prems by auto
    have pos: "ph_pos h hent = q" "ph_pos h' hent = q" using assms(1,2) q by (simp_all add: hash_chains_def)
    have next_same: "ph_next h hent = ph_next h' hent" using assms(3) q by (simp add: same_hist_def)
    have "ph_next h' hent = 0 \<or> (\<exists>q \<in> window p. ph_next h' hent = ent q)"
      using chain_next [OF assms(2) q(1)] q(2) by auto
    then show ?thesis
      unfolding pglz_search.simps pos next_same
      using Suc.IH [of "ph_next h' hent"] Suc.IH [of 0] by (simp only: Let_def split_def disj_imp simp_thms)
  qed simp
qed simp

lemma find_match_same:
  assumes "hist_ok inp msk n p h" and "hist_ok inp msk n p h'" and "same_hist n (window p) h h'" and "pglz_hist_idx inp p msk < n"
  shows "pglz_find_match h inp p msk good pct = pglz_find_match h' inp p msk good pct"
proof -
  have ch: "hash_chains (\<lambda>q. pglz_hist_idx inp q msk) n (window p) h" "hash_chains (\<lambda>q. pglz_hist_idx inp q msk) n (window p) h'"
    using assms(1,2) by (simp_all add: hist_ok_def)
  have "ph_start h (pglz_hist_idx inp p msk) = ph_start h' (pglz_hist_idx inp p msk)" using assms(3,4) by (simp add: same_hist_def)
  moreover have "ph_start h' (pglz_hist_idx inp p msk) = 0 \<or> (\<exists>q \<in> window p. ph_start h' (pglz_hist_idx inp p msk) = ent q)"
    using chain_start [OF ch(2) assms(4)] by blast
  ultimately show ?thesis using search_same [OF ch assms(3)] by (simp add: pglz_find_match_def)
qed

lemma loop_same:
  assumes "hist_ok inp msk n p h" and "hist_ok inp msk n p h'" and "same_hist n (window p) h h'"
    and "\<And>q. pglz_hist_idx inp q msk < n" and "n \<le> 8192" and "length inp < 2 ^ 32"
  shows "pglz_loop inp msk h w p found = pglz_loop inp msk h' w p found"
  using assms(1-3)
proof (induction "length inp - p" arbitrary: p h h' w found rule: less_induct)
  case less
  note step = pglz_loop.simps [of inp msk _ w p found]
  show ?case
  proof (cases "p < length inp")
    case False
    then show ?thesis by (simp add: step)
  next
    case p: True
    note same = find_match_same [OF less.prems assms(4)]
    obtain r where r: "pglz_find_match h' inp p msk 128 10 = Some r"
      "\<forall>len off. r = Some (len, off) \<longrightarrow> match_ok inp p len off \<and> 3 \<le> len"
      using find_match_ok [OF less.prems(2) assms(4) p] by blast
    show ?thesis
    proof (cases r)
      case None
      have "hist_ok inp msk n (p + 1) (pglz_hist_add inp p msk g)" if "hist_ok inp msk n p g" for g
        by (rule hist_add_ok [OF that assms(4,5)]) (use p assms(6) in simp)
      moreover have "same_hist n (window (p + 1)) (pglz_hist_add inp p msk h) (pglz_hist_add inp p msk h')"
        by (rule hist_add_same [OF less.prems assms(4,5)]) (use p assms(6) in simp)
      ultimately have "pglz_loop inp msk (pglz_hist_add inp p msk h) (put_literal (inp ! p) w) (p + 1) found =
          pglz_loop inp msk (pglz_hist_add inp p msk h') (put_literal (inp ! p) w) (p + 1) found"
        using less.prems by (intro less.hyps) (use p in simp_all)
      then show ?thesis unfolding step same r(1) None by (cases found) simp_all
    next
      case (Some lo)
      obtain len off where lo: "lo = (len, off)" by force
      have m: "match_ok inp p len off" "3 \<le> len" using r(2) Some lo by simp_all
      then have le: "p + len \<le> length inp" by (auto simp: match_ok_def)
      have "hist_ok inp msk n (p + len) (pglz_hist_add_n len inp p msk g)" if "hist_ok inp msk n p g" for g
        by (rule hist_add_n_ok [OF that assms(4,5)]) (use le assms(6) in simp)
      moreover have "same_hist n (window (p + len)) (pglz_hist_add_n len inp p msk h) (pglz_hist_add_n len inp p msk h')"
        by (rule hist_add_n_same [OF less.prems assms(4,5)]) (use le assms(6) in simp)
      ultimately have "pglz_loop inp msk (pglz_hist_add_n len inp p msk h) (put_match len off w) (p + len) True =
          pglz_loop inp msk (pglz_hist_add_n len inp p msk h') (put_match len off w) (p + len) True"
        using less.prems by (intro less.hyps) (use p m(2) in simp_all)
      then show ?thesis using same r(1) Some lo by (simp add: step)
    qed
  qed
qed

lemma pglz_history_irrelevant:
  assumes "length inp < 2 ^ 32"
  shows "pglz_compress_payload hist inp = pglz_compress_payload hist' inp"
proof -
  let ?n = "pglz_hashsz (length inp)"
  let ?h = "\<lambda>hist. hist\<lparr>ph_start := (\<lambda>i. if i < ?n then 0 else ph_start hist i), ph_hist_next := 1, ph_recycle := False\<rparr>"
  have h: "hist_ok inp (word_of_nat (?n - 1)) ?n 0 (?h hist)" for hist
    by (simp add: hist_ok_def ent_def window_def hash_chains_def)
  have "same_hist ?n (window 0) (?h hist) (?h hist')" by (simp add: same_hist_def window_def)
  then show ?thesis
    using loop_same [OF h h _ hist_idx_less hashsz_bounds(2) assms, of hist hist']
    by (simp add: pglz_compress_payload_def Let_def)
qed

section \<open>Round trip\<close>

lemma payload_round_trip:
  assumes "length inp < 2 ^ 32"
  shows "\<exists>r. pglz_compress_payload hist inp = Some r \<and>
    (\<forall>payload. r = Some payload \<longrightarrow>
       length payload < pglz_result_max (length inp) \<and>
       (length inp \<le> 1000000000 \<longrightarrow> decompress_pglz_raw payload (length inp) = Some inp \<and>
          compress_pglz hist inp = Some (Some (le_bytes 4 (length inp) @ payload)) \<and>
          decompress_pglz (le_bytes 4 (length inp) @ payload) = Some inp))"
proof (cases "length inp < 32")
  case True
  then show ?thesis by (simp add: pglz_compress_payload_def)
next
  case False
  let ?n = "pglz_hashsz (length inp)" and ?w0 = "\<lparr>po_out = [], po_ctrlp = None, po_ctrlb = 0, po_ctrl = 0\<rparr>"
  let ?h = "hist\<lparr>ph_start := (\<lambda>i. if i < ?n then 0 else ph_start hist i), ph_hist_next := 1, ph_recycle := False\<rparr>"
  have h: "hist_ok inp (word_of_nat (?n - 1)) ?n 0 ?h" by (simp add: hist_ok_def ent_def window_def hash_chains_def)
  obtain r where r: "pglz_loop inp (word_of_nat (?n - 1)) ?h ?w0 0 False = Some r"
    "\<forall>w'. r = Some w' \<longrightarrow> (\<exists>all'. covers inp 0 all' (length inp) \<and> out_ok all' w')"
    using loop_ok [OF h hist_idx_less hashsz_bounds(2) assms, of "[]" ?w0 False] by (auto simp: out_ok_def)
  show ?thesis
  proof (cases r)
    case None
    then show ?thesis using False r(1) by (simp add: pglz_compress_payload_def Let_def)
  next
    case (Some w)
    obtain all' where all': "covers inp 0 all' (length inp)" "out_ok all' w" using r(2) Some by blast
    have "all' \<noteq> []" using all'(1) False by auto
    then obtain gs its where o: "its \<noteq> []" "all' = all_items gs @ its" "open_ok gs its w"
      using all'(2) by (auto simp: out_ok_def)
    let ?gs = "gs @ [(po_ctrlb w, its)]"
    have "pglz_groups (po_patch w) (length inp) (length ([] :: bytes)) (take 0 inp) = Some (length (po_patch w), inp)"
      by (rule groups_decode [where gs = ?gs])
        (use all'(1) o open_groups_ok [OF o(3,1)] patch_ok [OF o(3)] in simp_all)
    then have dec: "decompress_pglz_raw (po_patch w) (length inp) = Some inp" if "length inp \<le> 1000000000"
      using that by (simp add: decompress_pglz_raw_def)
    have "po_ctrlp w \<noteq> None" using o(3) by (simp add: open_ok_def)
    then have c: "pglz_compress_payload hist inp =
        Some (if pglz_result_max (length inp) \<le> length (po_patch w) then None else Some (po_patch w))"
      using False r(1) Some by (simp add: pglz_compress_payload_def Let_def)
    show ?thesis
      unfolding c using dec assms by (auto simp: compress_pglz_def c decompress_pglz_def from_le_bytes)
  qed
qed

text \<open>
  C10. PGLZ compression returns for every input, with the same result whatever an earlier call
  left in the shared history: the hash lists stay well linked while the ring of 4096 entries is
  reused, so their searches end and read no leftover. A payload it accepts is smaller than the
  limit, and the decoder, with all its checks, gives back the input; so does the framed form.
\<close>

theorem pglz_round_trip:
  assumes "length inp < 2 ^ 32"
  shows "\<exists>r. (\<forall>hist. pglz_compress_payload hist inp = Some r) \<and>
    (\<forall>payload. r = Some payload \<longrightarrow>
       length payload < pglz_result_max (length inp) \<and>
       (length inp \<le> 1000000000 \<longrightarrow> decompress_pglz_raw payload (length inp) = Some inp \<and>
          (\<forall>hist. compress_pglz hist inp = Some (Some (le_bytes 4 (length inp) @ payload))) \<and>
          decompress_pglz (le_bytes 4 (length inp) @ payload) = Some inp))"
proof -
  obtain r where r: "pglz_compress_payload pglz_hist_new inp = Some r"
    "\<forall>payload. r = Some payload \<longrightarrow> length payload < pglz_result_max (length inp) \<and>
       (length inp \<le> 1000000000 \<longrightarrow> decompress_pglz_raw payload (length inp) = Some inp \<and>
          compress_pglz pglz_hist_new inp = Some (Some (le_bytes 4 (length inp) @ payload)) \<and>
          decompress_pglz (le_bytes 4 (length inp) @ payload) = Some inp)"
    using payload_round_trip [OF assms, of pglz_hist_new] by blast
  have "pglz_compress_payload hist inp = Some r" for hist
    using pglz_history_irrelevant [OF assms, of hist pglz_hist_new] r(1) by simp
  moreover from this have "compress_pglz hist inp = Some (map_option (\<lambda>payload. le_bytes 4 (length inp) @ payload) r)" for hist
    by (simp add: compress_pglz_def)
  ultimately show ?thesis using r(2) by (intro exI [of _ r]) auto
qed

theorem pglz_round_trip_witness:
  "\<exists>r. (\<forall>hist. pglz_compress_payload hist (replicate 40 7) = Some r) \<and>
    (\<forall>payload. r = Some payload \<longrightarrow> length payload < 30 \<and> decompress_pglz_raw payload 40 = Some (replicate 40 7))"
  using pglz_round_trip [of "replicate 40 7"] by (auto simp: pglz_result_max_def)

end
