(* ===== verification/Toast.thy ===== *)
theory Toast
  imports Dml Lz4 Pglz
begin

text \<open>
  The storage of wide values (\<^verbatim>\<open>toast.rs\<close>): the plan that decides which columns of a row are
  compressed and which are moved out of line, in the four rounds of the code, and the chunks
  written for the moved ones. A \<open>toaster\<close> holds the fields of the table that only the toaster
  reads; texts are byte strings.
\<close>

section \<open>Values and compressors\<close>

definition be_bytes :: "nat \<Rightarrow> int \<Rightarrow> bytes" where
  "be_bytes k i = rev (le_bytes k (nat (i mod 256 ^ k)))"

fun special_code :: "numeric_special \<Rightarrow> u8" where
  "special_code NFinite = 0"
| "special_code NNaN = 1"
| "special_code NPosInf = 2"
| "special_code NNegInf = 3"

definition numeric_toast_len :: "numeric \<Rightarrow> nat" where
  "numeric_toast_len n = 16 + 4 + 1 + (case big n of Some m \<Rightarrow> unat (biguint_decimal_digits m) | None \<Rightarrow> 0)"

definition numeric_toast_bytes :: "numeric \<Rightarrow> bytes" where
  "numeric_toast_bytes n =
     be_bytes 16 (unscaled n) @ be_bytes 4 (nscale n) @ [special_code (special n)] @
     (case big n of Some m \<Rightarrow> text_bytes (biguint_to_decimal_string m) | None \<Rightarrow> [])"

definition toastable_size :: "sql_value \<Rightarrow> nat" where
  "toastable_size v =
     (case v of VText s \<Rightarrow> length s | VBpChar s \<Rightarrow> length s | VBytea b \<Rightarrow> length b
      | VNumeric n \<Rightarrow> numeric_toast_len n | _ \<Rightarrow> 0)"

definition toastable_bytes :: "sql_value \<Rightarrow> bytes option" where
  "toastable_bytes v =
     (case v of VText s \<Rightarrow> Some (text_bytes s) | VBpChar s \<Rightarrow> Some (text_bytes s) | VBytea b \<Rightarrow> Some b
      | VNumeric n \<Rightarrow> Some (numeric_toast_bytes n) | _ \<Rightarrow> None)"

text \<open>
  The method dispatch. The history of the PGLZ compressor is a fresh one: by
  \<open>pglz_history_irrelevant\<close> the result is the same for any other, and it always returns.
\<close>

fun compress_value :: "bytes \<Rightarrow> toast_compression \<Rightarrow> bytes option" where
  "compress_value inp toast_compression.Pglz = (case compress_pglz pglz_hist_new inp of Some r \<Rightarrow> r | None \<Rightarrow> None)"
| "compress_value inp toast_compression.Lz4 = compress_lz4 inp"

section \<open>The plan\<close>

datatype toast_plan = Plain | Compressed | External | CompressedExternal

definition moved :: "toast_plan \<Rightarrow> bool" where
  "moved p \<longleftrightarrow> p = External \<or> p = CompressedExternal"

record toaster =
  tr_storage :: "u8 list"
  tr_compression :: "toast_compression option list"
  tr_target :: nat
  tr_next_vid :: u32

abbreviation (input) st_plain :: u8 where "st_plain \<equiv> 112"
abbreviation (input) st_external :: u8 where "st_external \<equiv> 101"
abbreviation (input) st_extended :: u8 where "st_extended \<equiv> 120"
abbreviation (input) st_main :: u8 where "st_main \<equiv> 109"

text \<open>\<^verbatim>\<open>slice.get(i)\<close> of a list of options.\<close>

definition get_flat :: "'a option list \<Rightarrow> nat \<Rightarrow> 'a option" where
  "get_flat xs i = (if i < length xs then xs ! i else None)"

definition method_for :: "toaster \<Rightarrow> toast_compression \<Rightarrow> nat \<Rightarrow> toast_compression" where
  "method_for tr dm i = (case get_flat (tr_compression tr) i of Some m \<Rightarrow> m | None \<Rightarrow> dm)"

text \<open>The vectors of the planner, all as long as the row, are functions of the column.\<close>

record plan_state =
  ps_plan :: "nat \<Rightarrow> toast_plan"
  ps_sizes :: "nat \<Rightarrow> nat"
  ps_compressed :: "nat \<Rightarrow> bytes option"
  ps_incompressible :: "nat \<Rightarrow> bool"

definition candidate :: "toaster \<Rightarrow> plan_state \<Rightarrow> bool \<Rightarrow> bool \<Rightarrow> nat \<Rightarrow> bool" where
  "candidate tr st for_compression main_only i \<longleftrightarrow>
     \<not> moved (ps_plan st i) \<and>
     (if main_only then tr_storage tr ! i = st_main
      else tr_storage tr ! i = st_extended \<or> tr_storage tr ! i = st_external) \<and>
     \<not> (for_compression \<and> (ps_incompressible st i \<or> ps_compressed st i \<noteq> None)) \<and>
     24 < ps_sizes st i"

fun biggest_from :: "toaster \<Rightarrow> plan_state \<Rightarrow> bool \<Rightarrow> bool \<Rightarrow> nat list \<Rightarrow> nat option \<Rightarrow> nat option" where
  "biggest_from tr st fc mo [] best = best"
| "biggest_from tr st fc mo (i # is) best =
     biggest_from tr st fc mo is
       (if candidate tr st fc mo i \<and> (case best of None \<Rightarrow> True | Some b \<Rightarrow> ps_sizes st b < ps_sizes st i)
        then Some i else best)"

definition biggest_attr :: "toaster \<Rightarrow> nat list \<Rightarrow> plan_state \<Rightarrow> bool \<Rightarrow> bool \<Rightarrow> nat option" where
  "biggest_attr tr eligible st for_compression main_only = biggest_from tr st for_compression main_only eligible None"

definition try_compress_attr :: "nat \<Rightarrow> row \<Rightarrow> bool \<Rightarrow> toast_compression \<Rightarrow> plan_state \<Rightarrow> plan_state" where
  "try_compress_attr i values compress_ok method st =
     (let give_up = st\<lparr>ps_incompressible := (ps_incompressible st)(i := True)\<rparr> in
      if \<not> compress_ok then give_up
      else case toastable_bytes (values ! i) of
             None \<Rightarrow> give_up
           | Some raw \<Rightarrow>
               (case compress_value raw method of
                  Some c \<Rightarrow>
                    if length c + 2 < length raw
                    then st\<lparr>ps_sizes := (ps_sizes st)(i := length c), ps_compressed := (ps_compressed st)(i := Some c),
                            ps_plan := (ps_plan st)(i := Compressed)\<rparr>
                    else give_up
                | None \<Rightarrow> give_up))"

definition externalize_attr :: "nat \<Rightarrow> plan_state \<Rightarrow> plan_state" where
  "externalize_attr i st =
     st\<lparr>ps_plan := (ps_plan st)(i := (if ps_compressed st i \<noteq> None then CompressedExternal else External))\<rparr>"

definition cur_width :: "nat list \<Rightarrow> plan_state \<Rightarrow> nat" where
  "cur_width eligible st = sum_list (map (\<lambda>i. if moved (ps_plan st i) then 20 else ps_sizes st i) eligible)"

text \<open>The four rounds, by what they do with the biggest column.\<close>

datatype toast_round = CompressWide | MoveWide | CompressMain | MoveMain

fun round_compresses :: "toast_round \<Rightarrow> bool" where
  "round_compresses CompressWide = True"
| "round_compresses MoveWide = False"
| "round_compresses CompressMain = True"
| "round_compresses MoveMain = False"

fun round_main :: "toast_round \<Rightarrow> bool" where
  "round_main CompressWide = False"
| "round_main MoveWide = False"
| "round_main CompressMain = True"
| "round_main MoveMain = True"

fun round_step :: "toaster \<Rightarrow> row \<Rightarrow> bool \<Rightarrow> toast_compression \<Rightarrow> nat \<Rightarrow> toast_round \<Rightarrow> nat \<Rightarrow> plan_state \<Rightarrow> plan_state" where
  "round_step tr values ok dm target CompressWide b st =
     (let st' = (if tr_storage tr ! b = st_extended then try_compress_attr b values ok (method_for tr dm b) st
                 else st\<lparr>ps_incompressible := (ps_incompressible st)(b := True)\<rparr>)
      in if target < ps_sizes st' b then externalize_attr b st' else st')"
| "round_step tr values ok dm target MoveWide b st = externalize_attr b st"
| "round_step tr values ok dm target CompressMain b st = try_compress_attr b values ok (method_for tr dm b) st"
| "round_step tr values ok dm target MoveMain b st = externalize_attr b st"


lemma biggest_from_Some:
  "biggest_from tr st fc mo is best = Some b \<Longrightarrow> best = Some b \<or> b \<in> set is \<and> candidate tr st fc mo b"
  by (induction tr st fc mo "is" best rule: biggest_from.induct) (auto split: if_splits)

lemma biggest_attr_Some:
  "biggest_attr tr eligible st fc mo = Some b \<Longrightarrow> b \<in> set eligible \<and> candidate tr st fc mo b"
  by (auto simp: biggest_attr_def dest: biggest_from_Some)

lemma biggest_from_not_None: "biggest_from tr st fc mo is (Some b) \<noteq> None"
  by (induction "is" arbitrary: b) simp_all

lemma biggest_attr_None:
  "biggest_attr tr eligible st fc mo = None \<Longrightarrow> i \<in> set eligible \<Longrightarrow> \<not> candidate tr st fc mo i"
  unfolding biggest_attr_def by (induction eligible) (auto simp: biggest_from_not_None split: if_splits)

text \<open>It is the biggest, and of several biggest the first.\<close>

lemma biggest_from_max:
  "biggest_from tr st fc mo is best = Some b \<Longrightarrow>
     (\<forall>i \<in> set is. candidate tr st fc mo i \<longrightarrow> ps_sizes st i \<le> ps_sizes st b) \<and>
     (\<forall>i. best = Some i \<longrightarrow> ps_sizes st i \<le> ps_sizes st b)"
proof (induction tr st fc mo "is" best rule: biggest_from.induct)
  case (2 tr st fc mo i "is" best)
  then show ?case by (force split: if_splits option.splits)
qed simp

lemma step_others: "i \<noteq> b \<Longrightarrow>
    ps_plan (round_step tr values ok dm target r b st) i = ps_plan st i \<and>
    ps_sizes (round_step tr values ok dm target r b st) i = ps_sizes st i \<and>
    ps_compressed (round_step tr values ok dm target r b st) i = ps_compressed st i \<and>
    ps_incompressible (round_step tr values ok dm target r b st) i = ps_incompressible st i"
  by (cases r) (simp_all add: try_compress_attr_def externalize_attr_def Let_def split: option.splits)

lemma step_done: "\<not> candidate tr (round_step tr values ok dm target r b st) (round_compresses r) (round_main r) b"
  by (cases r) (auto simp: candidate_def moved_def try_compress_attr_def externalize_attr_def Let_def split: option.splits)

lemma candidates_decrease:
  assumes "b \<in> set eligible" and "candidate tr st (round_compresses r) (round_main r) b"
  shows "length (filter (candidate tr (round_step tr values ok dm target r b st) (round_compresses r) (round_main r)) eligible)
    < length (filter (candidate tr st (round_compresses r) (round_main r)) eligible)"
proof -
  let ?c = "candidate tr st (round_compresses r) (round_main r)"
  let ?c' = "candidate tr (round_step tr values ok dm target r b st) (round_compresses r) (round_main r)"
  have "?c' i \<Longrightarrow> ?c i \<and> i \<noteq> b" for i using step_done [of tr "values" ok dm target r b st] step_others [of i b tr "values" ok dm target r st]
    by (cases "i = b") (simp_all add: candidate_def)
  then have "filter ?c' eligible = filter ?c' (filter ?c eligible)" by (auto simp: filter_filter intro: filter_cong)
  moreover have "b \<in> set (filter ?c eligible)" "\<not> ?c' b" using assms step_done by simp_all
  ultimately show ?thesis by (metis length_filter_less)
qed

function toast_loop ::
  "toaster \<Rightarrow> row \<Rightarrow> bool \<Rightarrow> toast_compression \<Rightarrow> nat \<Rightarrow> nat list \<Rightarrow> toast_round \<Rightarrow> nat \<Rightarrow> plan_state \<Rightarrow> plan_state" where
  "toast_loop tr values ok dm target eligible r limit st =
     (if cur_width eligible st \<le> limit then st
      else case biggest_attr tr eligible st (round_compresses r) (round_main r) of
             None \<Rightarrow> st
           | Some b \<Rightarrow>
               toast_loop tr values ok dm target eligible r limit (round_step tr values ok dm target r b st))"
  by pat_completeness auto
termination
  by (relation "measure (\<lambda>(tr, values, ok, dm, target, eligible, r, limit, st).
      length (filter (candidate tr st (round_compresses r) (round_main r)) eligible))")
    (auto dest!: biggest_attr_Some intro: candidates_decrease)

declare toast_loop.simps [simp del]

definition eligible_columns :: "toaster \<Rightarrow> row \<Rightarrow> nat list" where
  "eligible_columns tr values =
     filter (\<lambda>i. (if i < length (tr_storage tr) then tr_storage tr ! i else st_plain) \<noteq> st_plain \<and> 0 < toastable_size (values ! i))
       [0..<length values]"

definition preset_plan :: "bool option list \<Rightarrow> nat \<Rightarrow> toast_plan" where
  "preset_plan reuse i =
     (case get_flat reuse i of Some True \<Rightarrow> CompressedExternal | Some False \<Rightarrow> External | None \<Rightarrow> Plain)"

definition header_size :: "row \<Rightarrow> nat" where
  "header_size values = (if VNull \<in> set values then (23 + (length values + 7) div 8 + 7) div 8 * 8 else 24)"

definition plan_toast :: "toaster \<Rightarrow> row \<Rightarrow> bool \<Rightarrow> toast_compression \<Rightarrow> bool option list \<Rightarrow> toast_plan list" where
  "plan_toast tr values ok dm reuse =
     (let n = length values; eligible = eligible_columns tr values; plan0 = map (preset_plan reuse) [0..<n];
          width = sum_list (map (\<lambda>i. if get_flat reuse i \<noteq> None then 20 else toastable_size (values ! i)) eligible);
          target = tr_target tr - header_size values; main_target = 8160 - header_size values;
          st0 = \<lparr>ps_plan = preset_plan reuse, ps_sizes = (\<lambda>i. toastable_size (values ! i)),
                 ps_compressed = (\<lambda>_. None), ps_incompressible = (\<lambda>_. False)\<rparr>;
          run = toast_loop tr values ok dm target eligible
      in if eligible = [] \<or> width \<le> 2037 then plan0
         else map (ps_plan (run MoveMain main_target (run CompressMain target (run MoveWide target (run CompressWide target st0)))))
                [0..<n])"

section \<open>What a plan promises\<close>

text \<open>
  The compressed form of a column, kept when it saves more than two bytes, and the width of a
  column under a plan: a moved one counts as a pointer.
\<close>

definition shrunk :: "toaster \<Rightarrow> row \<Rightarrow> toast_compression \<Rightarrow> nat \<Rightarrow> bytes option" where
  "shrunk tr values dm i =
     (case toastable_bytes (values ! i) of
        None \<Rightarrow> None
      | Some raw \<Rightarrow>
          (case compress_value raw (method_for tr dm i) of
             Some c \<Rightarrow> if length c + 2 < length raw then Some c else None
           | None \<Rightarrow> None))"

definition plan_size :: "toaster \<Rightarrow> row \<Rightarrow> toast_compression \<Rightarrow> toast_plan list \<Rightarrow> nat \<Rightarrow> nat" where
  "plan_size tr values dm plan i =
     (case plan ! i of
        Plain \<Rightarrow> toastable_size (values ! i)
      | Compressed \<Rightarrow> (case shrunk tr values dm i of Some c \<Rightarrow> length c | None \<Rightarrow> toastable_size (values ! i))
      | _ \<Rightarrow> 20)"

definition column_ok ::
  "toaster \<Rightarrow> row \<Rightarrow> bool \<Rightarrow> toast_compression \<Rightarrow> bool option list \<Rightarrow> nat \<Rightarrow> toast_plan \<Rightarrow> nat \<Rightarrow> bytes option \<Rightarrow> bool" where
  "column_ok tr values ok dm reuse i p sz cmp \<longleftrightarrow>
     (if get_flat reuse i \<noteq> None then p = preset_plan reuse i \<and> cmp = None
      else (cmp \<noteq> None \<longleftrightarrow> p = Compressed \<or> p = CompressedExternal) \<and>
           (p \<noteq> Plain \<longrightarrow> i \<in> set (eligible_columns tr values))) \<and>
     (case cmp of
        Some c \<Rightarrow> ok \<and> (tr_storage tr ! i = st_extended \<or> tr_storage tr ! i = st_main) \<and>
                  shrunk tr values dm i = Some c \<and> sz = length c
      | None \<Rightarrow> sz = toastable_size (values ! i))"

definition state_ok :: "toaster \<Rightarrow> row \<Rightarrow> bool \<Rightarrow> toast_compression \<Rightarrow> bool option list \<Rightarrow> plan_state \<Rightarrow> bool" where
  "state_ok tr values ok dm reuse st \<longleftrightarrow>
     (\<forall>i. column_ok tr values ok dm reuse i (ps_plan st i) (ps_sizes st i) (ps_compressed st i))"

lemma preset_moved: "get_flat reuse i \<noteq> None \<Longrightarrow> moved (preset_plan reuse i)"
  by (auto simp: preset_plan_def moved_def split: option.split bool.split)

lemma column_fresh: "column_ok tr values ok dm reuse i p sz cmp \<Longrightarrow> \<not> moved p \<Longrightarrow> get_flat reuse i = None"
  using preset_moved by (auto simp: column_ok_def split: if_splits)

lemma state_ok_update:
  assumes "state_ok tr values ok dm reuse st"
    and "\<forall>i. i \<noteq> b \<longrightarrow> ps_plan st' i = ps_plan st i \<and> ps_sizes st' i = ps_sizes st i \<and> ps_compressed st' i = ps_compressed st i"
    and "column_ok tr values ok dm reuse b (ps_plan st' b) (ps_sizes st' b) (ps_compressed st' b)"
  shows "state_ok tr values ok dm reuse st'"
  unfolding state_ok_def
proof
  fix i
  show "column_ok tr values ok dm reuse i (ps_plan st' i) (ps_sizes st' i) (ps_compressed st' i)"
    using assms by (cases "i = b") (simp_all add: state_ok_def)
qed

lemma give_up_ok:
  "state_ok tr values ok dm reuse st \<Longrightarrow> state_ok tr values ok dm reuse (st\<lparr>ps_incompressible := f\<rparr>)"
  by (cases st) (simp add: state_ok_def)

lemma try_compress_cases:
  "try_compress_attr b values ok (method_for tr dm b) st =
     (case if ok then shrunk tr values dm b else None of
        Some c \<Rightarrow> st\<lparr>ps_sizes := (ps_sizes st)(b := length c), ps_compressed := (ps_compressed st)(b := Some c),
                     ps_plan := (ps_plan st)(b := Compressed)\<rparr>
      | None \<Rightarrow> st\<lparr>ps_incompressible := (ps_incompressible st)(b := True)\<rparr>)"
  by (simp add: try_compress_attr_def shrunk_def Let_def split: option.split)

lemma try_compress_ok:
  assumes "state_ok tr values ok dm reuse st" and "b \<in> set (eligible_columns tr values)" and "\<not> moved (ps_plan st b)"
    and "tr_storage tr ! b = st_extended \<or> tr_storage tr ! b = st_main"
  shows "state_ok tr values ok dm reuse (try_compress_attr b values ok (method_for tr dm b) st)"
proof (cases "if ok then shrunk tr values dm b else None")
  case None
  then show ?thesis unfolding try_compress_cases None by (simp add: give_up_ok [OF assms(1)])
next
  case (Some c)
  have "get_flat reuse b = None" using assms(1,3) column_fresh unfolding state_ok_def by blast
  then have "column_ok tr values ok dm reuse b Compressed (length c) (Some c)"
    using assms(2,4) Some by (simp add: column_ok_def split: if_splits)
  then show ?thesis unfolding try_compress_cases Some by (intro state_ok_update [OF assms(1), of b]) simp_all
qed

lemma externalize_ok:
  assumes "state_ok tr values ok dm reuse st" and "b \<in> set (eligible_columns tr values)" and "\<not> moved (ps_plan st b)"
  shows "state_ok tr values ok dm reuse (externalize_attr b st)"
proof -
  have b: "column_ok tr values ok dm reuse b (ps_plan st b) (ps_sizes st b) (ps_compressed st b)"
    using assms(1) by (simp add: state_ok_def)
  then have "get_flat reuse b = None" using assms(3) by (rule column_fresh)
  with b have "column_ok tr values ok dm reuse b (if ps_compressed st b \<noteq> None then CompressedExternal else External)
      (ps_sizes st b) (ps_compressed st b)"
    using assms(2) by (auto simp: column_ok_def split: option.splits)
  then show ?thesis by (intro state_ok_update [OF assms(1), of b]) (simp_all add: externalize_attr_def)
qed

lemma try_compress_inline:
  "\<not> moved (ps_plan st b) \<Longrightarrow> \<not> moved (ps_plan (try_compress_attr b values ok m st) b)"
  by (auto simp: try_compress_attr_def Let_def moved_def split: option.splits)

lemma step_ok:
  assumes "state_ok tr values ok dm reuse st" and "b \<in> set (eligible_columns tr values)"
    and "candidate tr st (round_compresses r) (round_main r) b"
  shows "state_ok tr values ok dm reuse (round_step tr values ok dm target r b st)"
proof -
  have b: "\<not> moved (ps_plan st b)" using assms(3) by (simp add: candidate_def)
  note ext = externalize_ok [OF assms(1,2) b]
  show ?thesis
  proof (cases r)
    case CompressWide
    define st' where "st' = (if tr_storage tr ! b = st_extended then try_compress_attr b values ok (method_for tr dm b) st
      else st\<lparr>ps_incompressible := (ps_incompressible st)(b := True)\<rparr>)"
    have "state_ok tr values ok dm reuse st'" "\<not> moved (ps_plan st' b)"
      using try_compress_ok [OF assms(1,2) b] give_up_ok [OF assms(1)] b try_compress_inline [OF b] by (simp_all add: st'_def)
    then show ?thesis using externalize_ok [OF _ assms(2)] by (simp add: CompressWide Let_def st'_def [symmetric])
  next
    case CompressMain
    have "tr_storage tr ! b = st_main" using assms(3) by (simp add: CompressMain candidate_def)
    then show ?thesis using try_compress_ok [OF assms(1,2) b] by (simp add: CompressMain)
  qed (simp_all add: ext)
qed

lemma toast_loop_ok:
  assumes "state_ok tr values ok dm reuse st"
  shows "state_ok tr values ok dm reuse (toast_loop tr values ok dm target (eligible_columns tr values) r limit st)"
  using assms
proof (induction tr "values" ok dm target "eligible_columns tr values" r limit st rule: toast_loop.induct)
  case (1 tr "values" ok dm target r limit st)
  show ?case
  proof (cases "biggest_attr tr (eligible_columns tr values) st (round_compresses r) (round_main r)")
    case None
    then show ?thesis using 1(2) by (subst toast_loop.simps) simp
  next
    case (Some b)
    then have b: "b \<in> set (eligible_columns tr values)" "candidate tr st (round_compresses r) (round_main r) b"
      using biggest_attr_Some by blast+
    show ?thesis using 1(1) Some step_ok [OF 1(2) b] 1(2) by (subst toast_loop.simps) simp
  qed
qed

text \<open>A loop ends when the row fits or no candidate is left, and never widens the row.\<close>

lemma toast_loop_end:
  "cur_width eligible (toast_loop tr values ok dm target eligible r limit st) \<le> limit \<or>
     (\<forall>i \<in> set eligible. \<not> candidate tr (toast_loop tr values ok dm target eligible r limit st) (round_compresses r) (round_main r) i)"
proof (induction tr "values" ok dm target eligible r limit st rule: toast_loop.induct)
  case (1 tr "values" ok dm target eligible r limit st)
  show ?case
  proof (cases "biggest_attr tr eligible st (round_compresses r) (round_main r)")
    case None
    then show ?thesis using biggest_attr_None by (subst (1 2) toast_loop.simps) auto
  next
    case (Some b)
    then show ?thesis using 1 by (subst (1 2) toast_loop.simps) auto
  qed
qed

lemma main_loop_keeps:
  assumes "round_main r" and "tr_storage tr ! i \<noteq> st_main"
  shows "ps_plan (toast_loop tr values ok dm target eligible r limit st) i = ps_plan st i \<and>
    ps_sizes (toast_loop tr values ok dm target eligible r limit st) i = ps_sizes st i"
  using assms
proof (induction tr "values" ok dm target eligible r limit st rule: toast_loop.induct)
  case (1 tr "values" ok dm target eligible r limit st)
  show ?case
  proof (cases "biggest_attr tr eligible st (round_compresses r) (round_main r)")
    case None
    then show ?thesis by (subst (1 2) toast_loop.simps) simp
  next
    case (Some b)
    then have "candidate tr st (round_compresses r) (round_main r) b" using biggest_attr_Some by blast
    then have "i \<noteq> b" using 1(2,3) by (auto simp: candidate_def)
    then show ?thesis using 1 Some step_others [of i b tr "values" ok dm target r st] by (subst (1 2) toast_loop.simps) simp
  qed
qed

lemma move_narrows:
  assumes "candidate tr st fc mo b"
  shows "cur_width eligible (externalize_attr b st) \<le> cur_width eligible st"
  unfolding cur_width_def
  by (rule sum_list_mono) (use assms in \<open>auto simp: externalize_attr_def candidate_def moved_def\<close>)

lemma move_loop_narrows:
  "cur_width eligible (toast_loop tr values ok dm target eligible MoveMain limit st) \<le> cur_width eligible st"
proof (induction tr "values" ok dm target eligible MoveMain limit st rule: toast_loop.induct)
  case (1 tr "values" ok dm target eligible limit st)
  show ?case
  proof (cases "biggest_attr tr eligible st False True")
    case None
    then show ?thesis by (subst toast_loop.simps) simp
  next
    case (Some b)
    then have "cur_width eligible (externalize_attr b st) \<le> cur_width eligible st"
      using biggest_attr_Some move_narrows by blast
    then show ?thesis using 1 Some by (subst toast_loop.simps) force
  qed
qed

lemma plan_size_state:
  assumes "state_ok tr values ok dm reuse st" and "i < length values"
  shows "plan_size tr values dm (map (ps_plan st) [0..<length values]) i = (if moved (ps_plan st i) then 20 else ps_sizes st i)"
proof -
  have c: "column_ok tr values ok dm reuse i (ps_plan st i) (ps_sizes st i) (ps_compressed st i)"
    using assms(1) by (simp add: state_ok_def)
  show ?thesis
  proof (cases "moved (ps_plan st i)")
    case True
    then show ?thesis using assms(2) by (auto simp: plan_size_def moved_def)
  next
    case False
    then have "get_flat reuse i = None" using c column_fresh by blast
    then show ?thesis using c False assms(2)
      by (cases "ps_plan st i") (auto simp: plan_size_def moved_def column_ok_def split: option.splits)
  qed
qed

lemma plan_width_state:
  assumes "state_ok tr values ok dm reuse st"
  shows "sum_list (map (plan_size tr values dm (map (ps_plan st) [0..<length values])) (eligible_columns tr values)) =
    cur_width (eligible_columns tr values) st"
  unfolding cur_width_def
  by (rule arg_cong [where f = sum_list], rule map_cong [OF refl], rule plan_size_state [OF assms])
    (simp add: eligible_columns_def)

definition start_width :: "toaster \<Rightarrow> row \<Rightarrow> bool option list \<Rightarrow> nat" where
  "start_width tr values reuse =
     sum_list (map (\<lambda>i. if get_flat reuse i \<noteq> None then 20 else toastable_size (values ! i)) (eligible_columns tr values))"

text \<open>The final state of the planner.\<close>

lemma plan_state_exists:
  "\<exists>st. state_ok tr values ok dm reuse st \<and> plan_toast tr values ok dm reuse = map (ps_plan st) [0..<length values]"
proof -
  define st0 where "st0 = \<lparr>ps_plan = preset_plan reuse, ps_sizes = (\<lambda>i. toastable_size (values ! i)),
    ps_compressed = (\<lambda>_. None), ps_incompressible = (\<lambda>_. False)\<rparr>"
  have ok0: "state_ok tr values ok dm reuse st0"
    by (auto simp: state_ok_def column_ok_def st0_def preset_plan_def split: option.splits)
  let ?run = "toast_loop tr values ok dm (tr_target tr - header_size values) (eligible_columns tr values)"
  define st where "st = ?run MoveMain (8160 - header_size values) (?run CompressMain (tr_target tr - header_size values)
    (?run MoveWide (tr_target tr - header_size values) (?run CompressWide (tr_target tr - header_size values) st0)))"
  have ok: "state_ok tr values ok dm reuse st" unfolding st_def by (intro toast_loop_ok ok0)
  have "plan_toast tr values ok dm reuse \<in> {map (ps_plan st0) [0..<length values], map (ps_plan st) [0..<length values]}"
    by (simp add: plan_toast_def Let_def st_def st0_def)
  then show ?thesis using ok0 ok by blast
qed

lemma plan_columns:
  assumes "i < length values"
  shows "case get_flat reuse i of
     Some c \<Rightarrow> plan_toast tr values ok dm reuse ! i = (if c then CompressedExternal else External)
   | None \<Rightarrow>
       (plan_toast tr values ok dm reuse ! i = Compressed \<or> plan_toast tr values ok dm reuse ! i = CompressedExternal \<longrightarrow>
          ok \<and> tr_storage tr ! i \<in> {st_extended, st_main} \<and> shrunk tr values dm i \<noteq> None) \<and>
       (plan_toast tr values ok dm reuse ! i \<noteq> Plain \<longrightarrow> i \<in> set (eligible_columns tr values))"
proof -
  obtain s where s: "state_ok tr values ok dm reuse s" "plan_toast tr values ok dm reuse = map (ps_plan s) [0..<length values]"
    using plan_state_exists by blast
  have c: "column_ok tr values ok dm reuse i (ps_plan s i) (ps_sizes s i) (ps_compressed s i)" using s(1) by (simp add: state_ok_def)
  show ?thesis
  proof (cases "get_flat reuse i")
    case None
    then show ?thesis using c assms by (cases "ps_compressed s i") (auto simp: s(2) column_ok_def)
  next
    case (Some f)
    then show ?thesis using c assms by (cases f) (simp_all add: s(2) column_ok_def preset_plan_def)
  qed
qed

text \<open>
  C9. The plan of a row keeps the columns reused from an older version where they are, compresses
  only \<^verbatim>\<open>EXTENDED\<close> and \<^verbatim>\<open>MAIN\<close> columns and only with a gain of more than two bytes, and touches no
  column that is not toastable. A row at most as wide as the threshold is left alone; any other
  fits its target at the end, or everything that may leave it has left, with \<^verbatim>\<open>MAIN\<close> columns
  held to their own target.
\<close>

theorem plan_toast_sound:
  fixes tr "values" ok dm reuse
  defines "plan \<equiv> plan_toast tr values ok dm reuse" and "eligible \<equiv> eligible_columns tr values"
  defines "width \<equiv> sum_list (map (plan_size tr values dm plan) eligible)"
  shows "length plan = length values \<and>
    (\<forall>i < length values. case get_flat reuse i of
       Some c \<Rightarrow> plan ! i = (if c then CompressedExternal else External)
     | None \<Rightarrow> (plan ! i = Compressed \<or> plan ! i = CompressedExternal \<longrightarrow>
                   ok \<and> tr_storage tr ! i \<in> {st_extended, st_main} \<and> shrunk tr values dm i \<noteq> None) \<and>
               (plan ! i \<noteq> Plain \<longrightarrow> i \<in> set eligible)) \<and>
    (if start_width tr values reuse \<le> 2037 then plan = map (preset_plan reuse) [0..<length values]
     else (width \<le> tr_target tr - header_size values \<or>
             (\<forall>i \<in> set eligible. tr_storage tr ! i \<in> {st_extended, st_external} \<longrightarrow>
                moved (plan ! i) \<or> plan_size tr values dm plan i \<le> 24)) \<and>
          (width \<le> 8160 - header_size values \<or>
             (\<forall>i \<in> set eligible. tr_storage tr ! i = st_main \<longrightarrow> moved (plan ! i) \<or> plan_size tr values dm plan i \<le> 24)))"
proof -
  let ?n = "length values" and ?target = "tr_target tr - header_size values" and ?main = "8160 - header_size values"
  let ?run = "toast_loop tr values ok dm ?target eligible"
  define st0 where "st0 = \<lparr>ps_plan = preset_plan reuse, ps_sizes = (\<lambda>i. toastable_size (values ! i)),
    ps_compressed = (\<lambda>_. None), ps_incompressible = (\<lambda>_. False)\<rparr>"
  define st2 where "st2 = ?run MoveWide ?target (?run CompressWide ?target st0)"
  define st3 where "st3 = ?run CompressMain ?target st2"
  define st where "st = ?run MoveMain ?main st3"
  define small where "small = (eligible = [] \<or> start_width tr values reuse \<le> 2037)"
  have ok0: "state_ok tr values ok dm reuse st0"
    by (auto simp: state_ok_def column_ok_def st0_def preset_plan_def split: option.splits)
  then have ok: "state_ok tr values ok dm reuse st" unfolding st_def st3_def st2_def eligible_def by (intro toast_loop_ok)
  have plan: "plan = (if small then map (ps_plan st0) [0..<?n] else map (ps_plan st) [0..<?n])"
    by (simp add: plan_def plan_toast_def Let_def small_def start_width_def st_def st3_def st2_def st0_def eligible_def)
  have small_plan: "plan = map (preset_plan reuse) [0..<?n]" if "start_width tr values reuse \<le> 2037"
    using that plan by (simp add: small_def st0_def)
  have wide: "(width \<le> ?target \<or>
        (\<forall>i \<in> set eligible. tr_storage tr ! i \<in> {st_extended, st_external} \<longrightarrow> moved (plan ! i) \<or> plan_size tr values dm plan i \<le> 24)) \<and>
      (width \<le> ?main \<or>
        (\<forall>i \<in> set eligible. tr_storage tr ! i = st_main \<longrightarrow> moved (plan ! i) \<or> plan_size tr values dm plan i \<le> 24))"
    if "\<not> start_width tr values reuse \<le> 2037"
  proof (cases "eligible = []")
    case False
    then have plan_st: "plan = map (ps_plan st) [0..<?n]" using plan that by (simp add: small_def)
    have width: "width = cur_width eligible st" using plan_width_state [OF ok] by (simp add: width_def plan_st eligible_def)
    have size: "plan ! i = ps_plan st i" "plan_size tr values dm plan i = (if moved (ps_plan st i) then 20 else ps_sizes st i)"
      if "i \<in> set eligible" for i
      using that plan_size_state [OF ok, of i] by (simp_all add: plan_st eligible_def eligible_columns_def)
    have keep: "ps_plan st i = ps_plan st2 i \<and> ps_sizes st i = ps_sizes st2 i" if "tr_storage tr ! i \<noteq> st_main" for i
      using main_loop_keeps [of MoveMain tr i] main_loop_keeps [of CompressMain tr i] that by (simp add: st_def st3_def)
    have "cur_width eligible st2 \<le> ?target \<or> (\<forall>i \<in> set eligible. \<not> candidate tr st2 False False i)"
      using toast_loop_end [of eligible tr "values" ok dm ?target MoveWide ?target] by (simp add: st2_def)
    then have first: "width \<le> ?target \<or>
        (\<forall>i \<in> set eligible. tr_storage tr ! i \<in> {st_extended, st_external} \<longrightarrow> moved (plan ! i) \<or> plan_size tr values dm plan i \<le> 24)"
    proof
      assume fits: "cur_width eligible st2 \<le> ?target"
      then have "st3 = st2" by (simp add: st3_def toast_loop.simps [of _ _ _ _ _ _ _ _ st2])
      then have "width \<le> ?target" using fits move_loop_narrows [of eligible tr "values" ok dm ?target ?main st2]
        by (simp add: width st_def)
      then show ?thesis ..
    next
      assume none: "\<forall>i \<in> set eligible. \<not> candidate tr st2 False False i"
      have "moved (plan ! i) \<or> plan_size tr values dm plan i \<le> 24"
        if i: "i \<in> set eligible" "tr_storage tr ! i \<in> {st_extended, st_external}" for i
      proof -
        have "tr_storage tr ! i \<noteq> st_main" using i(2) by auto
        then show ?thesis using none [rule_format, OF i(1)] i size [OF i(1)] keep [of i] by (auto simp: candidate_def)
      qed
      then show ?thesis by blast
    qed
    have "cur_width eligible st \<le> ?main \<or> (\<forall>i \<in> set eligible. \<not> candidate tr st False True i)"
      using toast_loop_end [of eligible tr "values" ok dm ?target MoveMain ?main] by (simp add: st_def)
    then have "width \<le> ?main \<or>
        (\<forall>i \<in> set eligible. tr_storage tr ! i = st_main \<longrightarrow> moved (plan ! i) \<or> plan_size tr values dm plan i \<le> 24)"
      using size by (auto simp: width candidate_def)
    with first show ?thesis ..
  qed simp
  have "length plan = ?n" by (simp add: plan)
  then show ?thesis
    using plan_columns [of _ "values" tr ok dm reuse] small_plan wide
    unfolding plan_def eligible_def by (simp only: simp_thms if_bool_eq_conj) blast
qed

section \<open>Chunks\<close>

function chunk_bytes :: "bytes \<Rightarrow> bytes list" where
  "chunk_bytes data = (if data = [] then [] else take 2001 data # chunk_bytes (drop 2001 data))"
  by auto
termination by (relation "measure length") auto

declare chunk_bytes.simps [simp del]

lemma concat_chunk_bytes [simp]: "concat (chunk_bytes data) = data"
  by (induction data rule: chunk_bytes.induct) (subst chunk_bytes.simps, simp)

lemma chunk_bytes_sizes: "c \<in> set (chunk_bytes data) \<Longrightarrow> c \<noteq> [] \<and> length c \<le> 2001"
proof (induction data rule: chunk_bytes.induct)
  case (1 data)
  show ?case
  proof (cases "data = []")
    case True
    then show ?thesis using 1(2) by (simp add: chunk_bytes.simps)
  next
    case False
    then show ?thesis using 1 by (subst (asm) (2) chunk_bytes.simps) auto
  qed
qed

definition out_of_line_bytes :: "row \<Rightarrow> nat \<Rightarrow> toast_plan \<Rightarrow> bool \<Rightarrow> toast_compression \<Rightarrow> bytes option" where
  "out_of_line_bytes values i p ok m =
     (case p of
        External \<Rightarrow> toastable_bytes (values ! i)
      | CompressedExternal \<Rightarrow>
          map_option (\<lambda>raw. if ok then (case compress_value raw m of Some c \<Rightarrow> c | None \<Rightarrow> raw) else raw)
            (toastable_bytes (values ! i))
      | _ \<Rightarrow> None)"

text \<open>
  The columns of a row that are stored anew get fresh value ids; the result is the flags of the
  row, the bytes to store for the moved ones, and the table's counter and provenance.
\<close>

fun stamp_columns ::
  "toaster \<Rightarrow> row \<Rightarrow> bool \<Rightarrow> toast_compression \<Rightarrow> bool option list \<Rightarrow> u32 list \<Rightarrow> nat \<Rightarrow> toast_plan list \<Rightarrow>
     u32 \<Rightarrow> (u32 \<times> toast_meta) list \<Rightarrow> u32 list \<times> (u32 \<times> bytes) list \<times> u32 \<times> (u32 \<times> toast_meta) list" where
  "stamp_columns tr values ok dm reuse old_toast i [] vid info = ([], [], vid, info)"
| "stamp_columns tr values ok dm reuse old_toast i (p # ps) vid info =
     (let rest = stamp_columns tr values ok dm reuse old_toast (Suc i) ps in
      if get_flat reuse i \<noteq> None
      then apfst ((#) (if i < length old_toast then old_toast ! i else 0)) (rest vid info)
      else if p = Plain then apfst ((#) 0) (rest vid info)
      else
        (let m = method_for tr dm i;
             meta = \<lparr>compressed = (p = Compressed \<or> p = CompressedExternal), compress_method = m\<rparr>;
             (flags, chunks, vid', info') = rest (vid + 1) (hm_insert vid meta info)
         in (vid # flags, (case out_of_line_bytes values i p ok m of Some bs \<Rightarrow> (vid, bs) # chunks | None \<Rightarrow> chunks),
             vid', info')))"

fun number_from :: "nat \<Rightarrow> 'a list \<Rightarrow> (nat \<times> 'a) list" where
  "number_from k [] = []"
| "number_from k (x # xs) = (k, x) # number_from (Suc k) xs"

definition chunk_row :: "u32 \<Rightarrow> nat \<Rightarrow> bytes \<Rightarrow> row" where
  "chunk_row vid seq chunk = [VInt (ucast vid), VInt (word_of_nat seq), VBytea chunk]"

definition chunk_rows :: "(u32 \<times> bytes) list \<Rightarrow> row list" where
  "chunk_rows chunks =
     concat (map (\<lambda>(vid, bs). map (\<lambda>(seq, chunk). chunk_row vid seq chunk) (number_from 0 (chunk_bytes bs))) chunks)"

section \<open>Values can be had back\<close>

text \<open>Reading a value: the data of its chunks in order, then the decoder its provenance names.\<close>

fun chunk_data :: "u32 \<Rightarrow> row \<Rightarrow> bytes" where
  "chunk_data vid [VInt v, s, VBytea data] = (if v = ucast vid then data else [])"
| "chunk_data vid r = []"

definition fetch_value :: "u32 \<Rightarrow> row list \<Rightarrow> bytes" where
  "fetch_value vid rows = concat (map (chunk_data vid) rows)"

definition detoast :: "toast_meta \<Rightarrow> bytes \<Rightarrow> bytes option" where
  "detoast meta bs =
     (if compressed meta
      then (case compress_method meta of
              toast_compression.Pglz \<Rightarrow> decompress_pglz bs
            | toast_compression.Lz4 \<Rightarrow> decompress_lz4 bs)
      else Some bs)"

lemma compress_value_round_trip:
  assumes "compress_value raw m = Some c" and "length raw \<le> 1000000000"
  shows "detoast \<lparr>compressed = True, compress_method = m\<rparr> c = Some raw"
proof (cases m)
  case Pglz
  have "length raw < 2 ^ 32" using assms(2) by simp
  from payload_round_trip [OF this, of pglz_hist_new] obtain r where r: "pglz_compress_payload pglz_hist_new raw = Some r"
    "\<forall>payload. r = Some payload \<longrightarrow> compress_pglz pglz_hist_new raw = Some (Some (le_bytes 4 (length raw) @ payload)) \<and>
       decompress_pglz (le_bytes 4 (length raw) @ payload) = Some raw"
    using assms(2) by auto
  obtain payload where "r = Some payload"
    using assms(1) r(1) by (cases r) (simp_all add: Pglz compress_pglz_def)
  then show ?thesis using r(2) assms(1) by (simp add: Pglz detoast_def)
next
  case Lz4
  have "length raw < 2 ^ 60" using assms(2) by simp
  then show ?thesis using block_round_trip [of raw c] assms by (simp add: Lz4 detoast_def)
qed

lemma fetch_append [simp]: "fetch_value vid (as @ bs) = fetch_value vid as @ fetch_value vid bs"
  by (simp add: fetch_value_def)

lemma vid_inj: "(ucast (v :: u32) :: 64 word) = ucast w \<longleftrightarrow> v = w"
  by transfer simp

lemma fetch_own: "fetch_value vid (map (\<lambda>(seq, chunk). chunk_row vid seq chunk) (number_from k cs)) = concat cs"
  by (induction cs arbitrary: k) (simp_all add: fetch_value_def chunk_row_def)

lemma fetch_other:
  "v \<noteq> vid \<Longrightarrow> fetch_value vid (map (\<lambda>(seq, chunk). chunk_row v seq chunk) (number_from k cs)) = []"
  by (induction cs arbitrary: k) (simp_all add: fetch_value_def chunk_row_def vid_inj)

lemma chunk_rows_Cons [simp]:
  "chunk_rows ((vid, bs) # chunks) = map (\<lambda>(seq, chunk). chunk_row vid seq chunk) (number_from 0 (chunk_bytes bs)) @ chunk_rows chunks"
  "chunk_rows [] = []"
  by (simp_all add: chunk_rows_def)

lemma fetch_none: "vid \<notin> fst ` set chunks \<Longrightarrow> fetch_value vid (chunk_rows chunks) = []"
proof (induction chunks)
  case (Cons c chunks)
  then show ?case by (cases c) (auto simp: fetch_other)
qed (simp add: fetch_value_def)

lemma fetch_chunk:
  "distinct (map fst chunks) \<Longrightarrow> (vid, bs) \<in> set chunks \<Longrightarrow> fetch_value vid (chunk_rows chunks) = bs"
proof (induction chunks)
  case (Cons c chunks)
  obtain v b where c: "c = (v, b)" by force
  show ?case
  proof (cases "v = vid")
    case True
    then have "bs = b" using Cons.prems by (auto simp: c rev_image_eqI)
    then show ?thesis using Cons.prems True fetch_none [of vid chunks] by (auto simp: c fetch_own)
  next
    case False
    then show ?thesis using Cons by (auto simp: c fetch_other)
  qed
qed simp

lemma stamp_columns_spec:
  assumes "stamp_columns tr values ok dm reuse old_toast i ps vid info = (flags, chunks, vid', info')"
    and "unat vid + length ps < 2 ^ 32"
  shows "length flags = length ps \<and> distinct (map fst chunks) \<and> (\<forall>v \<in> fst ` set chunks. unat vid \<le> unat v) \<and>
    (\<forall>w. unat w < unat vid \<longrightarrow> map_of info' w = map_of info w) \<and>
    (\<forall>j < length ps. get_flat reuse (i + j) = None \<longrightarrow> ps ! j \<noteq> Plain \<longrightarrow>
       map_of info' (flags ! j) =
         Some \<lparr>compressed = (ps ! j = Compressed \<or> ps ! j = CompressedExternal), compress_method = method_for tr dm (i + j)\<rparr> \<and>
       (\<forall>bs. out_of_line_bytes values (i + j) (ps ! j) ok (method_for tr dm (i + j)) = Some bs \<longrightarrow>
         (flags ! j, bs) \<in> set chunks))"
  using assms
proof (induction ps arbitrary: i vid info flags chunks vid' info')
  case Nil
  then show ?case by auto
next
  case (Cons p ps)
  show ?case
  proof (cases "get_flat reuse i = None \<and> p \<noteq> Plain")
    case False
    obtain flags' c v n where r: "stamp_columns tr values ok dm reuse old_toast (Suc i) ps vid info = (flags', c, v, n)"
      by (metis prod_cases4)
    obtain fl where f: "flags = fl # flags'" "stamp_columns tr values ok dm reuse old_toast (Suc i) ps vid info = (flags', chunks, vid', info')"
      using Cons.prems(1) False r by (auto simp: Let_def split: if_splits)
    have "unat vid + length ps < 2 ^ 32" using Cons.prems(2) by simp
    note IH = Cons.IH [OF f(2) this]
    then show ?thesis using False by (auto simp: f(1) less_Suc_eq_0_disj)
  next
    case True
    let ?m = "method_for tr dm i"
    let ?meta = "\<lparr>compressed = (p = Compressed \<or> p = CompressedExternal), compress_method = ?m\<rparr>"
    obtain flags' chunks1 where r: "stamp_columns tr values ok dm reuse old_toast (Suc i) ps (vid + 1) (hm_insert vid ?meta info) =
        (flags', chunks1, vid', info')" "flags = vid # flags'"
      "chunks = (case out_of_line_bytes values i p ok ?m of Some bs \<Rightarrow> (vid, bs) # chunks1 | None \<Rightarrow> chunks1)"
      using Cons.prems(1) True by (auto simp: Let_def split: prod.splits)
    have next_vid: "unat (vid + 1) = unat vid + 1" using Cons.prems(2) by (simp add: unat_word_ariths)
    have "unat (vid + 1) + length ps < 2 ^ 32" using Cons.prems(2) next_vid by simp
    note IH = Cons.IH [OF r(1) this]
    have fresh: "vid \<notin> fst ` set chunks1" using IH next_vid by fastforce
    have info: "map_of info' vid = Some ?meta" using IH next_vid by (simp add: map_of_hm_insert)
    have old: "map_of info' w = map_of info w" if "unat w < unat vid" for w
      using IH that next_vid by (auto simp: map_of_hm_insert)
    have col: "map_of info' (flags ! j) =
         Some \<lparr>compressed = ((p # ps) ! j = Compressed \<or> (p # ps) ! j = CompressedExternal), compress_method = method_for tr dm (i + j)\<rparr> \<and>
       (\<forall>bs. out_of_line_bytes values (i + j) ((p # ps) ! j) ok (method_for tr dm (i + j)) = Some bs \<longrightarrow>
         (flags ! j, bs) \<in> set chunks)"
      if j: "j < length (p # ps)" "get_flat reuse (i + j) = None" "(p # ps) ! j \<noteq> Plain" for j
    proof (cases j)
      case 0
      then show ?thesis using info by (auto simp: r(2,3))
    next
      case (Suc k)
      have "set chunks1 \<subseteq> set chunks" by (auto simp: r(3) split: option.splits)
      then show ?thesis using IH j by (auto simp: Suc r(2))
    qed
    have keys: "distinct (map fst chunks) \<and> (\<forall>v \<in> fst ` set chunks. unat vid \<le> unat v)"
      using IH fresh next_vid by (fastforce simp: r(3) split: option.splits)
    have "length flags = length (p # ps)" using IH by (simp add: r(2))
    then show ?thesis using keys old col by (intro conjI) blast+
  qed
qed

text \<open>
  C8. Every value moved out of line can be had back: the row's flag names a value id, the chunks
  of that id put together and decoded as the provenance of the id says are the bytes of the
  value, for both codecs and for plain storage, and no chunk exceeds the limit of 2001 bytes.
\<close>

theorem toast_restores:
  assumes "stamp_columns tr values ok dm reuse old_toast 0 (plan_toast tr values ok dm reuse) (tr_next_vid tr) info = (flags, chunks, vid', info')"
    and "unat (tr_next_vid tr) + length values < 2 ^ 32"
    and "i < length values" and "get_flat reuse i = None" and "moved (plan_toast tr values ok dm reuse ! i)"
    and "toastable_bytes (values ! i) = Some raw" and "length raw \<le> 1000000000"
  shows "\<exists>meta. map_of info' (flags ! i) = Some meta \<and> detoast meta (fetch_value (flags ! i) (chunk_rows chunks)) = Some raw \<and>
    (\<forall>r \<in> set (chunk_rows chunks). \<exists>vid seq data. r = chunk_row vid seq data \<and> data \<noteq> [] \<and> length data \<le> 2001)"
proof -
  let ?plan = "plan_toast tr values ok dm reuse" and ?m = "method_for tr dm i"
  have len: "length ?plan = length values" by (simp add: plan_toast_def Let_def)
  have "unat (tr_next_vid tr) + length ?plan < 2 ^ 32" using assms(2) len by simp
  note stamp = stamp_columns_spec [OF assms(1) this]
  have ne: "?plan ! i \<noteq> Plain" using assms(5) by (auto simp: moved_def)
  then have meta: "map_of info' (flags ! i) = Some \<lparr>compressed = (?plan ! i = Compressed \<or> ?plan ! i = CompressedExternal), compress_method = ?m\<rparr>"
    and chunk: "\<And>bs. out_of_line_bytes values i (?plan ! i) ok ?m = Some bs \<Longrightarrow> (flags ! i, bs) \<in> set chunks"
    using stamp assms(3,4) len by simp_all
  have sizes: "\<forall>r \<in> set (chunk_rows chunks). \<exists>vid seq data. r = chunk_row vid seq data \<and> data \<noteq> [] \<and> length data \<le> 2001"
  proof
    fix r
    assume "r \<in> set (chunk_rows chunks)"
    then obtain vid bs seq data where r: "r = chunk_row vid seq data" "(seq, data) \<in> set (number_from 0 (chunk_bytes bs))"
      by (auto simp: chunk_rows_def)
    have "(n, x) \<in> set (number_from k xs) \<Longrightarrow> x \<in> set xs" for n x k and xs :: "bytes list"
      by (induction xs arbitrary: k) auto
    then have "data \<in> set (chunk_bytes bs)" using r(2) by blast
    then show "\<exists>vid seq data. r = chunk_row vid seq data \<and> data \<noteq> [] \<and> length data \<le> 2001" using r(1) chunk_bytes_sizes by blast
  qed
  have "detoast \<lparr>compressed = (?plan ! i = Compressed \<or> ?plan ! i = CompressedExternal), compress_method = ?m\<rparr>
      (fetch_value (flags ! i) (chunk_rows chunks)) = Some raw"
  proof (cases "?plan ! i = CompressedExternal")
    case False
    then have p: "?plan ! i = External" using assms(5) by (simp add: moved_def)
    then have "out_of_line_bytes values i (?plan ! i) ok ?m = Some raw" using assms(6) by (simp add: out_of_line_bytes_def)
    then have "fetch_value (flags ! i) (chunk_rows chunks) = raw" using chunk fetch_chunk stamp by blast
    then show ?thesis by (simp add: p detoast_def)
  next
    case True
    have "ok \<and> shrunk tr values dm i \<noteq> None"
      using plan_columns [of i "values" tr ok dm reuse] assms(3,4) True by auto
    then obtain c where c: "ok" "compress_value raw ?m = Some c"
      using assms(6) by (auto simp: shrunk_def split: option.splits)
    then have "out_of_line_bytes values i (?plan ! i) ok ?m = Some c" using assms(6) True by (simp add: out_of_line_bytes_def)
    then have "fetch_value (flags ! i) (chunk_rows chunks) = c" using chunk fetch_chunk stamp by blast
    then show ?thesis using compress_value_round_trip [OF c(2) assms(7)] by (simp add: True)
  qed
  then show ?thesis using meta sizes by blast
qed

section \<open>Columns an update leaves alone\<close>

definition get_bytes :: "row \<Rightarrow> nat \<Rightarrow> bytes option" where
  "get_bytes values i = (if i < length values then toastable_bytes (values ! i) else None)"

definition toast_update_reuse :: "row \<Rightarrow> u32 list \<Rightarrow> row \<Rightarrow> (u32 \<times> toast_meta) list \<Rightarrow> bool option list" where
  "toast_update_reuse old_values old_toast values info =
     map (\<lambda>i. let vid = (if i < length old_toast then old_toast ! i else 0) in
            if vid = 0 then None
            else case map_of info vid of
                   None \<Rightarrow> None
                 | Some meta \<Rightarrow>
                     (case (get_bytes old_values i, get_bytes values i) of
                        (Some b, Some b') \<Rightarrow> if b = b' then Some (compressed meta) else None
                      | _ \<Rightarrow> None))
       [0..<length values]"

section \<open>Toasting a row of the store\<close>

definition alloc_oid :: "u32 \<Rightarrow> u32 \<times> u32" where
  "alloc_oid next_oid = (next_oid, max (next_oid + 1) 16384)"

definition toast_table_name_of :: "u32 \<Rightarrow> string" where
  "toast_table_name_of oid = ''pg_toast.pg_toast_'' @ dec_string (unat oid)"

definition new_toast_table :: "u32 \<Rightarrow> string \<Rightarrow> nat \<Rightarrow> table" where
  "new_toast_table oid owner xmin =
     (table_new [(''chunk_id'', CtInt), (''chunk_seq'', CtInt), (''chunk_data'', CtBytea)] xmin)
       \<lparr>t_oid := oid, t_owner := owner\<rparr>"

definition push_table_version :: "string \<Rightarrow> table \<Rightarrow> database \<Rightarrow> database" where
  "push_table_version name t db =
     db\<lparr>db_tables := hm_insert name ((case map_of (db_tables db) name of Some vs \<Rightarrow> vs | None \<Rightarrow> []) @ [t]) (db_tables db)\<rparr>"

definition ensure_toast_table ::
  "stmt_ctx \<Rightarrow> string \<Rightarrow> u32 \<Rightarrow> database \<Rightarrow> (exec_error + string \<times> write_op list \<times> u32 \<times> database) option" where
  "ensure_toast_table ctx tab next_oid db =
     (case find_table db tab (cx_snap ctx) (cx_all_xids ctx) (cx_session ctx) of
        None \<Rightarrow> Some (Inl (no_table tab))
      | Some t \<Rightarrow>
          (case (if t_toast_relid t \<noteq> 0 then toast_table_name_by_oid db (t_toast_relid t) (cx_snap ctx) (cx_own ctx) else None) of
             Some name \<Rightarrow> Some (Inr (name, [], next_oid, db))
           | None \<Rightarrow>
               (let name = toast_table_name_of (t_oid t); (oid, next_oid') = alloc_oid next_oid;
                    db1 = push_table_version name (new_toast_table oid (cx_role ctx) (cx_own ctx)) db
                in map_option (\<lambda>(_, db2). Inr (name, [CreateTable name, SetToastRelid tab oid 0], next_oid', db2))
                     (with_table ctx tab (\<lambda>t. Some ((), t\<lparr>t_toast_relid := oid\<rparr>)) db1))))"

definition set_row_toast :: "nat \<Rightarrow> u32 list \<Rightarrow> table \<Rightarrow> table" where
  "set_row_toast row_id flags t =
     (case row_pos t row_id of
        Some pos \<Rightarrow> t\<lparr>t_rows := (t_rows t)[pos := (t_rows t ! pos)\<lparr>v_toast := flags\<rparr>]\<rparr>
      | None \<Rightarrow> t)"

text \<open>The value ids of the old version that the new one does not carry on.\<close>

definition superseded_vids :: "bool option list \<Rightarrow> u32 list \<Rightarrow> u32 list" where
  "superseded_vids reuse old_toast =
     map snd (filter (\<lambda>(i, vid). vid \<noteq> 0 \<and> get_flat reuse i = None) (number_from 0 old_toast))"

text \<open>
  The chunks are written with ids allocated beforehand, and the toast table is created when the
  table has any toastable column.
\<close>

definition store_chunks ::
  "stmt_ctx \<Rightarrow> string \<Rightarrow> (u32 \<times> bytes) list \<Rightarrow> u32 \<Rightarrow> engine \<Rightarrow> (exec_error + write_op list \<times> u32 \<times> engine) option" where
  "store_chunks ctx tab chunks next_oid eng =
     (let (ids, tm) = alloc_row_ids (chunk_rows chunks) (en_txns eng); eng1 = eng\<lparr>en_txns := tm\<rparr> in
      case find_table (en_db eng1) tab (cx_snap ctx) (cx_all_xids ctx) (cx_session ctx) of
        None \<Rightarrow> None
      | Some t \<Rightarrow>
          if \<not> list_ex (is_toastable \<circ> snd) (t_columns t) then Some (Inr ([], next_oid, eng1))
          else case ensure_toast_table ctx tab next_oid (en_db eng1) of
                 None \<Rightarrow> None
               | Some (Inl e) \<Rightarrow> Some (Inl e)
               | Some (Inr (name, ops, next_oid', db)) \<Rightarrow>
                   if chunks = [] then Some (Inr (ops, next_oid', eng1\<lparr>en_db := db\<rparr>))
                   else map_option (\<lambda>(ops', db'). Inr (ops @ ops', next_oid', eng1\<lparr>en_db := db'\<rparr>))
                          (with_table ctx name (push_rows (cx_write_xid ctx) name (zip ids (chunk_rows chunks))) db))"

definition toast_row_impl ::
  "stmt_ctx \<Rightarrow> toast_compression \<Rightarrow> string \<Rightarrow> nat \<Rightarrow> row \<Rightarrow> (row \<times> u32 list) option \<Rightarrow> toaster \<Rightarrow> u32 \<Rightarrow> engine \<Rightarrow>
     (exec_error + write_op list \<times> toaster \<times> u32 \<times> engine) option" where
  "toast_row_impl ctx dm tab row_id values old tr next_oid eng =
     (if temp_table (en_db eng) (cx_session ctx) tab \<noteq> None then Some (Inr ([], tr, next_oid, eng))
      else case find_table (en_db eng) tab (cx_snap ctx) (cx_all_xids ctx) (cx_session ctx) of
        None \<Rightarrow> Some (Inl (no_table tab))
      | Some t \<Rightarrow>
          (let old_toast = (case old of Some (_, vids) \<Rightarrow> vids | None \<Rightarrow> []);
               reuse = (case old of
                          Some (old_values, vids) \<Rightarrow> toast_update_reuse old_values vids values (t_toast_info t)
                        | None \<Rightarrow> replicate (length values) None);
               plan = plan_toast tr values True dm reuse
           in if list_all (\<lambda>v. v = 0) old_toast \<and> list_all (\<lambda>r. r = None) reuse \<and> list_all (\<lambda>p. p = Plain) plan
              then Some (Inr ([], tr, next_oid, eng))
              else
                (case with_table ctx tab
                        (\<lambda>t. let (flags, chunks, vid, info) =
                                   stamp_columns tr values True dm reuse old_toast 0 plan (tr_next_vid tr) (t_toast_info t)
                             in Some ((chunks, vid), set_row_toast row_id flags (t\<lparr>t_toast_info := info\<rparr>)))
                        (en_db eng) of
                   None \<Rightarrow> None
                 | Some ((chunks, vid), db) \<Rightarrow>
                     (case store_chunks ctx tab chunks next_oid (eng\<lparr>en_db := db\<rparr>) of
                        None \<Rightarrow> None
                      | Some (Inl e) \<Rightarrow> Some (Inl e)
                      | Some (Inr (ops, next_oid', eng')) \<Rightarrow>
                          map_option (\<lambda>(ops', db'). Inr (ops @ ops', tr\<lparr>tr_next_vid := vid\<rparr>, next_oid', eng'\<lparr>en_db := db'\<rparr>))
                            (toast_delete_chunks ctx tab (superseded_vids reuse old_toast) (en_db eng')))))) "

section \<open>Examples\<close>

definition demo_toaster :: toaster where
  "demo_toaster = \<lparr>tr_storage = [st_external, st_plain], tr_compression = [None, None], tr_target = 2037, tr_next_vid = 9\<rparr>"

abbreviation demo_wide :: row where
  "demo_wide \<equiv> [VBytea (replicate 3000 7), VInt 5]"

lemma demo_eligible: "eligible_columns demo_toaster demo_wide = [0]"
  by (simp add: eligible_columns_def demo_toaster_def toastable_size_def upt_rec)

definition demo_start :: plan_state where
  "demo_start = \<lparr>ps_plan = preset_plan [], ps_sizes = (\<lambda>i. toastable_size (demo_wide ! i)),
     ps_compressed = (\<lambda>_. None), ps_incompressible = (\<lambda>_. False)\<rparr>"

definition demo_end :: plan_state where
  "demo_end = demo_start\<lparr>ps_incompressible := (\<lambda>_. False)(0 := True), ps_plan := (preset_plan [])(0 := External)\<rparr>"

lemma demo_states:
  "ps_sizes demo_start 0 = 3000" "ps_plan demo_start 0 = Plain" "\<not> ps_incompressible demo_start 0" "ps_compressed demo_start 0 = None"
  "ps_plan demo_end 0 = External" "ps_plan demo_end (Suc 0) = Plain" "tr_storage demo_toaster = [st_external, st_plain]"
  by (simp_all add: demo_start_def demo_end_def toastable_size_def preset_plan_def get_flat_def demo_toaster_def)

lemma demo_step: "round_step demo_toaster demo_wide True toast_compression.Pglz 2013 CompressWide 0 demo_start = demo_end"
  by (simp add: demo_states externalize_attr_def Let_def) (simp add: demo_end_def demo_start_def toastable_size_def)

lemma demo_loop:
  "toast_loop demo_toaster demo_wide True toast_compression.Pglz 2013 [0] CompressWide 2013 demo_start = demo_end"
  "2013 \<le> limit \<Longrightarrow> toast_loop demo_toaster demo_wide True toast_compression.Pglz 2013 [0] r limit demo_end = demo_end"
proof -
  have w: "cur_width [0] demo_start = 3000" "cur_width [0] demo_end = 20"
    by (simp_all add: cur_width_def demo_states moved_def)
  have b: "biggest_attr demo_toaster [0] demo_start True False = Some 0"
    by (simp add: biggest_attr_def candidate_def demo_states moved_def)
  show fin: "2013 \<le> limit \<Longrightarrow> toast_loop demo_toaster demo_wide True toast_compression.Pglz 2013 [0] r limit demo_end = demo_end" for r limit
    by (subst toast_loop.simps) (simp add: w)
  show "toast_loop demo_toaster demo_wide True toast_compression.Pglz 2013 [0] CompressWide 2013 demo_start = demo_end"
    by (subst toast_loop.simps) (simp add: w b demo_step fin del: round_step.simps)
qed

lemma demo_plan: "plan_toast demo_toaster demo_wide True toast_compression.Pglz [] = [External, Plain]"
proof -
  have h: "header_size demo_wide = 24" "tr_target demo_toaster = 2037" by (simp_all add: header_size_def demo_toaster_def)
  have w: "sum_list (map (\<lambda>i. if get_flat [] i \<noteq> None then 20 else toastable_size (demo_wide ! i)) [0]) = 3000"
    by (simp add: get_flat_def toastable_size_def)
  show ?thesis
    unfolding plan_toast_def demo_eligible h Let_def w demo_start_def [symmetric]
    by (simp add: demo_loop demo_states upt_rec)
qed

theorem plan_toast_sound_witness:
  "length (plan_toast demo_toaster demo_wide True toast_compression.Pglz []) = 2 \<and>
   (sum_list (map (plan_size demo_toaster demo_wide toast_compression.Pglz [External, Plain]) [0]) \<le> 2013 \<or>
    moved ([External, Plain] ! 0))"
proof -
  have "\<not> start_width demo_toaster demo_wide [] \<le> 2037"
    by (simp add: start_width_def demo_eligible get_flat_def toastable_size_def)
  then show ?thesis
    using plan_toast_sound [of demo_toaster demo_wide True toast_compression.Pglz "[]"]
    by (simp add: demo_plan demo_eligible) (simp add: moved_def)
qed

theorem toast_restores_witness:
  "\<exists>meta. map_of [(9 :: u32, \<lparr>compressed = False, compress_method = toast_compression.Pglz\<rparr>)] 9 = Some meta \<and>
     detoast meta (fetch_value 9 (chunk_rows [(9, replicate 3000 7)])) = Some (replicate 3000 7)"
proof -
  let ?meta = "\<lparr>compressed = False, compress_method = toast_compression.Pglz\<rparr>"
  have stamp: "stamp_columns demo_toaster demo_wide True toast_compression.Pglz [] [] 0
      (plan_toast demo_toaster demo_wide True toast_compression.Pglz []) (tr_next_vid demo_toaster) [] =
      ([9, 0], [(9, replicate 3000 7)], 10, [(9, ?meta)])"
    unfolding demo_plan by (simp add: get_flat_def method_for_def demo_toaster_def out_of_line_bytes_def toastable_bytes_def Let_def)
  have "unat (tr_next_vid demo_toaster) + length demo_wide < 2 ^ 32" by (simp add: demo_toaster_def)
  from toast_restores [OF stamp this, of 0 "replicate 3000 7"]
  obtain meta where "map_of [(9 :: u32, ?meta)] ([9, 0] ! 0) = Some meta"
    "detoast meta (fetch_value ([9, 0] ! 0) (chunk_rows [(9, replicate 3000 7)])) = Some (replicate 3000 7)"
    by (auto simp: demo_plan moved_def get_flat_def toastable_bytes_def)
  then show ?thesis by (intro exI [of _ meta]) (simp only: nth_Cons_0 simp_thms)
qed

text \<open>
  A value kept inline in compressed form carries a value id like a moved one, so an update that
  leaves it unchanged plans it as moved: it counts as a pointer although it has no chunks.
\<close>

theorem inline_reuse_counts_as_moved:
  "let (flags, chunks, vid, info) = stamp_columns tr [VBytea raw] True dm [] [] 0 [Compressed] 5 []
   in chunks = [] \<and>
     plan_toast tr [VBytea raw] True dm (toast_update_reuse [VBytea raw] flags [VBytea raw] info) ! 0 = CompressedExternal"
proof -
  let ?meta = "\<lparr>compressed = True, compress_method = method_for tr dm 0\<rparr>"
  have stamp: "stamp_columns tr [VBytea raw] True dm [] [] 0 [Compressed] 5 [] = ([5], [], 6, [(5, ?meta)])"
    by (simp add: get_flat_def out_of_line_bytes_def Let_def)
  have "toast_update_reuse [VBytea raw] [5] [VBytea raw] [(5, ?meta)] = [Some True]"
    by (simp add: toast_update_reuse_def get_bytes_def toastable_bytes_def)
  then show ?thesis
    unfolding stamp Let_def prod.case using plan_columns [of 0 "[VBytea raw]" tr True dm "[Some True]"] by (simp add: get_flat_def)
qed

end
