(* ===== verification/WalCodec.thy ===== *)
theory WalCodec
  imports SqlTypes Bytes
begin

text \<open>
  The binary encoding of the write-ahead log (\<^verbatim>\<open>wal/encoding.rs\<close>): the writer \<^verbatim>\<open>Enc\<close> as functions to
  byte strings, the reader \<^verbatim>\<open>Dec\<close> as functions that consume a prefix of the bytes and fail with
  an error. The offset that the code puts into its error messages is left out. The texts of
  numerics, ranges and text-search values are made and read by operations of an environment.
\<close>

section \<open>Readers\<close>

datatype dec_error = Truncated | BadUtf8 | UnknownTag u8 | UnknownElem u8 | UnknownOid u32 | BadText | TrailingBytes

type_synonym 'a reader = "bytes \<Rightarrow> dec_error + 'a \<times> bytes"

definition rd_return :: "'a \<Rightarrow> 'a reader" where
  "rd_return x = (\<lambda>b. Inr (x, b))"

definition rd_fail :: "dec_error \<Rightarrow> 'a reader" where
  "rd_fail e = (\<lambda>b. Inl e)"

definition rd_bind :: "'a reader \<Rightarrow> ('a \<Rightarrow> 'b reader) \<Rightarrow> 'b reader" where
  "rd_bind m f = (\<lambda>b. case m b of Inl e \<Rightarrow> Inl e | Inr (x, b') \<Rightarrow> f x b')"

definition rd_map :: "('a \<Rightarrow> 'b) \<Rightarrow> 'a reader \<Rightarrow> 'b reader" where
  "rd_map f m = rd_bind m (\<lambda>x. rd_return (f x))"

fun rd_times :: "nat \<Rightarrow> 'a reader \<Rightarrow> 'a list reader" where
  "rd_times 0 m = rd_return []"
| "rd_times (Suc n) m = rd_bind m (\<lambda>x. rd_map ((#) x) (rd_times n m))"

lemmas rd_defs = rd_return_def rd_fail_def rd_bind_def rd_map_def

text \<open>
  The interface between a writer and its reader: what was written is read back, and the bytes
  after it are left. Lists of written items are read back item by item.
\<close>

locale codec =
  fixes wr :: "'a \<Rightarrow> bytes" and rd :: "'a reader" and ok :: "'a \<Rightarrow> bool"
  assumes reads: "ok x \<Longrightarrow> rd (wr x @ rest) = Inr (x, rest)"
begin

lemma reads_all: "list_all ok xs \<Longrightarrow> rd_times (length xs) rd (concat (map wr xs) @ rest) = Inr (xs, rest)"
  by (induction xs) (simp_all add: rd_defs reads)

lemma write_inj: "ok x \<Longrightarrow> ok y \<Longrightarrow> wr x = wr y \<Longrightarrow> x = y"
  using reads [of x "[]"] reads [of y "[]"] by simp

text \<open>No written item is a proper prefix of another.\<close>

lemma prefix_free: "ok x \<Longrightarrow> ok y \<Longrightarrow> wr y = wr x @ t \<Longrightarrow> x = y \<and> t = []"
  using reads [of x t] reads [of y "[]"] by auto

end

section \<open>Words\<close>

definition be_word :: "nat \<Rightarrow> 'a::len word \<Rightarrow> bytes" where
  "be_word k v = rev (le_bytes k (unat v))"

definition rd_take :: "nat \<Rightarrow> bytes reader" where
  "rd_take n = (\<lambda>b. if length b < n then Inl Truncated else Inr (take n b, drop n b))"

definition rd_word :: "nat \<Rightarrow> 'a::len word reader" where
  "rd_word k = rd_map (\<lambda>b. word_of_nat (from_le (rev b))) (rd_take k)"

lemma length_be_word [simp]: "length (be_word k v) = k"
  by (simp add: be_word_def)

lemma rd_take_append: "length b = n \<Longrightarrow> rd_take n (b @ rest) = Inr (b, rest)"
  by (simp add: rd_take_def)

lemma rd_word_be:
  assumes "LENGTH('a::len) = 8 * k"
  shows "rd_word k (be_word k (v :: 'a word) @ rest) = Inr (v, rest)"
proof -
  have "unat v < 2 ^ (8 * k)" using unsigned_less [of v] assms by simp
  then have "unat v < 256 ^ k" by (simp add: power_mult)
  then have "from_le (le_bytes k (unat v)) = unat v" by (rule from_le_bytes)
  then show ?thesis by (simp add: rd_word_def rd_defs rd_take_append) (simp add: be_word_def)
qed

definition enc_u8 :: "u8 \<Rightarrow> bytes" where "enc_u8 = be_word 1"
definition enc_u32 :: "u32 \<Rightarrow> bytes" where "enc_u32 = be_word 4"
definition enc_u64 :: "u64 \<Rightarrow> bytes" where "enc_u64 = be_word 8"
definition enc_i16 :: "i16 \<Rightarrow> bytes" where "enc_i16 = be_word 2"
definition rd_u8 :: "u8 reader" where "rd_u8 = rd_word 1"
definition rd_u32 :: "u32 reader" where "rd_u32 = rd_word 4"
definition rd_u64 :: "u64 reader" where "rd_u64 = rd_word 8"
definition rd_i16 :: "i16 reader" where "rd_i16 = rd_word 2"

interpretation u8c: codec enc_u8 rd_u8 "\<lambda>_. True"
  unfolding enc_u8_def rd_u8_def by unfold_locales (rule rd_word_be, simp)

interpretation u32c: codec enc_u32 rd_u32 "\<lambda>_. True"
  unfolding enc_u32_def rd_u32_def by unfold_locales (rule rd_word_be, simp)

interpretation u64c: codec enc_u64 rd_u64 "\<lambda>_. True"
  unfolding enc_u64_def rd_u64_def by unfold_locales (rule rd_word_be, simp)

interpretation i16c: codec enc_i16 rd_i16 "\<lambda>_. True"
  unfolding enc_i16_def rd_i16_def by unfold_locales (rule rd_word_be, simp)

named_theorems codec_reads "what a writer wrote is read back"

lemma word_reads [codec_reads]:
  "rd_u8 (enc_u8 a @ rest) = Inr (a, rest)"
  "rd_u32 (enc_u32 b @ rest) = Inr (b, rest)"
  "rd_u64 (enc_u64 c @ rest) = Inr (c, rest)"
  "rd_i16 (enc_i16 d @ rest) = Inr (d, rest)"
  by (simp_all only: u8c.reads u32c.reads u64c.reads i16c.reads)

text \<open>A reader of a single word consumes bytes.\<close>

definition consumes :: "'a reader \<Rightarrow> nat \<Rightarrow> bool" where
  "consumes m k \<longleftrightarrow> (\<forall>b x b'. m b = Inr (x, b') \<longrightarrow> length b' + k \<le> length b)"

lemma consumes_word: "consumes (rd_word k) k"
  by (auto simp: consumes_def rd_word_def rd_defs rd_take_def split: if_splits)

lemma consumes_words: "consumes rd_u8 1" "consumes rd_u32 4" "consumes rd_u64 8" "consumes rd_i16 2"
  unfolding rd_u8_def rd_u32_def rd_u64_def rd_i16_def by (rule consumes_word)+

lemma consumes_take: "consumes (rd_take k) k"
  by (auto simp: consumes_def rd_take_def split: if_splits)

lemma consumes_return: "consumes (rd_return x) 0"
  by (simp add: consumes_def rd_defs)

lemma consumes_fail: "consumes (rd_fail e) k"
  by (simp add: consumes_def rd_defs)

lemma consumes_mono: "consumes m k \<Longrightarrow> j \<le> k \<Longrightarrow> consumes m j"
  unfolding consumes_def by (meson add_le_cancel_left order_trans)

lemma consumes_bind:
  assumes "consumes m j" and "\<And>x. consumes (f x) k"
  shows "consumes (rd_bind m f) (j + k)"
  unfolding consumes_def
proof (intro allI impI)
  fix b y b'
  assume "rd_bind m f b = Inr (y, b')"
  then obtain x b1 where "m b = Inr (x, b1)" "f x b1 = Inr (y, b')" by (auto simp: rd_defs split: sum.splits)
  then have "length b1 + j \<le> length b" "length b' + k \<le> length b1" using assms unfolding consumes_def by blast+
  then show "length b' + (j + k) \<le> length b" by linarith
qed

lemma consumes_map: "consumes m k \<Longrightarrow> consumes (rd_map f m) k"
  using consumes_bind [of m k "\<lambda>x. rd_return (f x)" 0] by (simp add: rd_map_def consumes_return)

lemma consumes_times: "consumes m 0 \<Longrightarrow> consumes (rd_times n m) 0"
proof (induction n)
  case (Suc n)
  then show ?case using consumes_bind [of m 0 "\<lambda>x. rd_map ((#) x) (rd_times n m)" 0] by (simp add: consumes_map)
qed (simp add: consumes_return)

section \<open>Texts\<close>

text \<open>The validity of UTF-8, as \<^verbatim>\<open>std::str::from_utf8\<close> checks it.\<close>

definition cont_byte :: "u8 \<Rightarrow> bool" where
  "cont_byte b \<longleftrightarrow> 128 \<le> unat b \<and> unat b < 192"

fun utf8_valid :: "bytes \<Rightarrow> bool" where
  "utf8_valid [] = True"
| "utf8_valid (b # bs) =
     (let n = unat b in
      if n < 128 then utf8_valid bs
      else case bs of
        [] \<Rightarrow> False
      | b1 # bs1 \<Rightarrow>
          if 194 \<le> n \<and> n < 224 then cont_byte b1 \<and> utf8_valid bs1
          else (case bs1 of
                  [] \<Rightarrow> False
                | b2 # bs2 \<Rightarrow>
                    if 224 \<le> n \<and> n < 240
                    then cont_byte b1 \<and> (n = 224 \<longrightarrow> 160 \<le> unat b1) \<and> (n = 237 \<longrightarrow> unat b1 < 160) \<and>
                         cont_byte b2 \<and> utf8_valid bs2
                    else (case bs2 of
                            [] \<Rightarrow> False
                          | b3 # bs3 \<Rightarrow>
                              240 \<le> n \<and> n < 245 \<and> cont_byte b1 \<and> (n = 240 \<longrightarrow> 144 \<le> unat b1) \<and>
                              (n = 244 \<longrightarrow> unat b1 < 144) \<and> cont_byte b2 \<and> cont_byte b3 \<and> utf8_valid bs3)))"

definition enc_str :: "string \<Rightarrow> bytes" where
  "enc_str s = enc_u32 (word_of_nat (length s)) @ text_bytes s"

definition rd_str :: "string reader" where
  "rd_str = rd_bind rd_u32 (\<lambda>n. rd_bind (rd_take (unat n))
     (\<lambda>b. if utf8_valid b then rd_return (bytes_text b) else rd_fail BadUtf8))"

definition str_ok :: "string \<Rightarrow> bool" where
  "str_ok s \<longleftrightarrow> length s < 2 ^ 32 \<and> utf8_valid (text_bytes s)"

lemma rd_str_enc [codec_reads]: "str_ok s \<Longrightarrow> rd_str (enc_str s @ rest) = Inr (s, rest)"
  by (simp add: rd_str_def enc_str_def str_ok_def rd_defs word_reads rd_take_append unat_of_nat)

interpretation strc: codec enc_str rd_str str_ok
  by unfold_locales (rule rd_str_enc)

lemma consumes_str: "consumes rd_str 4"
  unfolding rd_str_def
  by (rule consumes_bind [where k = 0, simplified])
    (auto intro!: consumes_words consumes_bind [where j = "0" and k = 0, simplified] intro: consumes_mono [OF consumes_take] simp: consumes_return consumes_fail)


section \<open>Column types\<close>

text \<open>
  The element types that both readers of an array OID know. The one for column types also knows
  \<^verbatim>\<open>xid\<close>, the one for values \<^verbatim>\<open>tid\<close>: neither knows both.
\<close>

definition elem_oids :: "(u32 \<times> array_elem) list" where
  "elem_oids =
    [(1000, AeBool),
     (1001, AeBytea),
     (1002, AeSingleChar),
     (1003, AeName),
     (1005, AeSmallInt),
     (1007, AeInt),
     (1009, AeText),
     (1014, AeChar),
     (1015, AeVarchar),
     (1016, AeBigInt),
     (1021, AeFloat4),
     (1022, AeFloat),
     (1182, AeDate),
     (1115, AeTimestamp),
     (1185, AeTimestamptz),
     (1183, AeTime),
     (1270, AeTimeTz),
     (1187, AeInterval),
     (1231, AeNumeric),
     (2951, AeUuid),
     (2206, AeRegclass),
     (199, AeJson),
     (2287, AeRecord),
     (3221, AePgLsn),
     (1561, AeBit),
     (3616, AeTsVector),
     (3645, AeTsQuery)]"

definition col_elem_oids :: "(u32 \<times> array_elem) list" where
  "col_elem_oids = (1011, AeXid) # elem_oids"

definition rd_elem :: "(u32 \<times> array_elem) list \<Rightarrow> array_elem reader" where
  "rd_elem table = rd_bind rd_u32 (\<lambda>oid. case map_of table oid of Some e \<Rightarrow> rd_return e | None \<Rightarrow> rd_fail (UnknownOid oid))"

definition rd_array_elem :: "array_elem reader" where
  "rd_array_elem = rd_elem ((1010, AeTid) # elem_oids)"

definition enc_typmod :: "i32 option \<Rightarrow> bytes" where
  "enc_typmod n = enc_u32 (case n of Some m \<Rightarrow> m | None \<Rightarrow> - 1)"

definition rd_typmod :: "i32 option reader" where
  "rd_typmod = rd_map (\<lambda>n. if sint n < 0 then None else Some n) rd_u32"

fun enc_col_type :: "col_type \<Rightarrow> bytes" where
  "enc_col_type CtInt = enc_u8 0"
| "enc_col_type CtFloat = enc_u8 1"
| "enc_col_type CtText = enc_u8 2"
| "enc_col_type CtBool = enc_u8 3"
| "enc_col_type CtSmallInt = enc_u8 4"
| "enc_col_type CtBigInt = enc_u8 5"
| "enc_col_type CtFloat4 = enc_u8 6"
| "enc_col_type CtDate = enc_u8 8"
| "enc_col_type CtTimestamp = enc_u8 9"
| "enc_col_type CtTimestamptz = enc_u8 10"
| "enc_col_type CtBytea = enc_u8 11"
| "enc_col_type CtUuid = enc_u8 12"
| "enc_col_type CtSingleChar = enc_u8 15"
| "enc_col_type CtRegclass = enc_u8 16"
| "enc_col_type CtName = enc_u8 17"
| "enc_col_type CtPgLsn = enc_u8 19"
| "enc_col_type CtRecord = enc_u8 20"
| "enc_col_type CtJson = enc_u8 21"
| "enc_col_type CtComposite = enc_u8 23"
| "enc_col_type CtXid = enc_u8 24"
| "enc_col_type CtBit = enc_u8 25"
| "enc_col_type CtTid = enc_u8 26"
| "enc_col_type CtJsonb = enc_u8 27"
| "enc_col_type CtJsonpath = enc_u8 28"
| "enc_col_type CtTime = enc_u8 29"
| "enc_col_type CtTimeTz = enc_u8 30"
| "enc_col_type CtInterval = enc_u8 31"
| "enc_col_type CtTsVector = enc_u8 34"
| "enc_col_type CtTsQuery = enc_u8 35"
| "enc_col_type CtRegproc = enc_u8 36"
| "enc_col_type CtOid = enc_u8 37"
| "enc_col_type CtInet = enc_u8 38"
| "enc_col_type (CtNumeric tm) = (case tm of None \<Rightarrow> enc_u8 7 | Some (p, s) \<Rightarrow> enc_u8 18 @ enc_u32 p @ enc_u32 s)"
| "enc_col_type (CtChar n) = enc_u8 13 @ enc_typmod n"
| "enc_col_type (CtVarchar n) = enc_u8 14 @ enc_typmod n"
| "enc_col_type (CtRange e) = enc_u8 32 @ enc_u8 (range_elem_code e)"
| "enc_col_type (CtMultirange e) = enc_u8 33 @ enc_u8 (range_elem_code e)"
| "enc_col_type (CtArray e) = enc_u8 22 @ enc_u32 (word_of_nat (array_oid e))"

definition plain_types :: "(u8 \<times> col_type) list" where
  "plain_types =
    [(0, CtInt), (1, CtFloat), (2, CtText), (3, CtBool), (4, CtSmallInt), (5, CtBigInt), (6, CtFloat4),
     (7, CtNumeric None), (8, CtDate), (9, CtTimestamp), (10, CtTimestamptz), (11, CtBytea), (12,
     CtUuid), (15, CtSingleChar), (16, CtRegclass), (17, CtName), (19, CtPgLsn), (20, CtRecord), (21,
     CtJson), (23, CtComposite), (24, CtXid), (25, CtBit), (26, CtTid), (27, CtJsonb), (28, CtJsonpath),
     (29, CtTime), (30, CtTimeTz), (31, CtInterval), (34, CtTsVector), (35, CtTsQuery), (36, CtRegproc),
     (37, CtOid), (38, CtInet)]"

definition rd_range_elem :: "range_elem reader" where
  "rd_range_elem = rd_bind rd_u8 (\<lambda>c. case range_elem_from_code c of Some e \<Rightarrow> rd_return e | None \<Rightarrow> rd_fail (UnknownElem c))"

definition rd_col_type :: "col_type reader" where
  "rd_col_type = rd_bind rd_u8 (\<lambda>t.
     case map_of plain_types t of
       Some c \<Rightarrow> rd_return c
     | None \<Rightarrow>
         if t = 13 then rd_map CtChar rd_typmod
         else if t = 14 then rd_map CtVarchar rd_typmod
         else if t = 32 then rd_map CtRange rd_range_elem
         else if t = 33 then rd_map CtMultirange rd_range_elem
         else if t = 22 then rd_map CtArray (rd_elem col_elem_oids)
         else if t = 18 then rd_bind rd_u32 (\<lambda>p. rd_map (\<lambda>s. CtNumeric (Some (p, s))) rd_u32)
         else rd_fail (UnknownTag t))"

text \<open>Types that survive: no negative typmod, no array of \<^verbatim>\<open>tid\<close>.\<close>

fun col_type_ok :: "col_type \<Rightarrow> bool" where
  "col_type_ok (CtChar (Some n)) \<longleftrightarrow> 0 \<le> sint n"
| "col_type_ok (CtVarchar (Some n)) \<longleftrightarrow> 0 \<le> sint n"
| "col_type_ok (CtArray e) \<longleftrightarrow> e \<noteq> AeTid"
| "col_type_ok _ \<longleftrightarrow> True"

lemma rd_typmod_enc: "(\<forall>m. n = Some m \<longrightarrow> 0 \<le> sint m) \<Longrightarrow> rd_typmod (enc_typmod n @ rest) = Inr (n, rest)"
  by (cases n) (simp_all add: rd_typmod_def enc_typmod_def rd_map_def rd_bind_def rd_return_def codec_reads)

lemma rd_range_elem_enc [codec_reads]: "rd_range_elem (enc_u8 (range_elem_code e) @ rest) = Inr (e, rest)"
  by (simp add: rd_range_elem_def rd_bind_def rd_return_def codec_reads)

lemma rd_array_elem_enc [codec_reads]: "e \<noteq> AeXid \<Longrightarrow> rd_array_elem (enc_u32 (word_of_nat (array_oid e)) @ rest) = Inr (e, rest)"
  by (cases e) (simp_all add: rd_array_elem_def rd_elem_def elem_oids_def rd_bind_def rd_return_def codec_reads)

lemma rd_elem_enc: "e \<noteq> AeTid \<Longrightarrow> rd_elem col_elem_oids (enc_u32 (word_of_nat (array_oid e)) @ rest) = Inr (e, rest)"
  by (cases e) (simp_all add: rd_elem_def col_elem_oids_def elem_oids_def rd_bind_def rd_return_def codec_reads)

lemma rd_col_type_enc [codec_reads]:
  assumes "col_type_ok t"
  shows "rd_col_type (enc_col_type t @ rest) = Inr (t, rest)"
proof (cases t)
  case (CtNumeric tm)
  then show ?thesis
    by (cases tm) (auto simp: rd_col_type_def plain_types_def rd_map_def rd_bind_def rd_return_def codec_reads)
next
  case (CtChar n)
  then have "rd_typmod (enc_typmod n @ rest) = Inr (n, rest)" using assms by (cases n) (auto intro!: rd_typmod_enc)
  then show ?thesis by (simp add: CtChar rd_col_type_def plain_types_def rd_map_def rd_bind_def rd_return_def codec_reads)
next
  case (CtVarchar n)
  then have "rd_typmod (enc_typmod n @ rest) = Inr (n, rest)" using assms by (cases n) (auto intro!: rd_typmod_enc)
  then show ?thesis by (simp add: CtVarchar rd_col_type_def plain_types_def rd_map_def rd_bind_def rd_return_def codec_reads)
next
  case (CtArray e)
  then have "rd_elem col_elem_oids (enc_u32 (word_of_nat (array_oid e)) @ rest) = Inr (e, rest)" using assms by (intro rd_elem_enc) simp
  then show ?thesis by (simp add: CtArray rd_col_type_def plain_types_def rd_map_def rd_bind_def rd_return_def codec_reads)
qed (simp_all add: rd_col_type_def plain_types_def rd_map_def rd_bind_def rd_return_def codec_reads)

interpretation ctypec: codec enc_col_type rd_col_type col_type_ok
  by unfold_locales (rule rd_col_type_enc)

end
