(* ===== verification/WalValue.thy ===== *)
theory WalValue
  imports WalCodec
begin

text \<open>
  Values and rows in the write-ahead log (\<^verbatim>\<open>wal/encoding.rs\<close>, \<^verbatim>\<open>value\<close> and \<^verbatim>\<open>wal_row\<close>). Values nest, and
  the reader recurses on the bytes that are left: it is defined with a bound on the depth, and
  \<open>rd_value_unfold\<close> shows that the bound chosen is never reached.
\<close>

section \<open>Writing\<close>

record wal_env =
  we_numeric_text :: "numeric \<Rightarrow> string"
  we_parse_numeric :: "string \<Rightarrow> numeric option"
  we_range_text :: "range_val \<Rightarrow> string"
  we_parse_range :: "range_elem \<Rightarrow> string option \<Rightarrow> string \<Rightarrow> range_val option"
  we_multirange_text :: "range_elem \<Rightarrow> string option \<Rightarrow> range_val list \<Rightarrow> string"
  we_parse_multirange :: "range_elem \<Rightarrow> string option \<Rightarrow> string \<Rightarrow> sql_value option"
  we_tsvector_text :: "(string \<times> (u16 \<times> u8) list) list \<Rightarrow> string"
  we_parse_tsvector :: "string \<Rightarrow> sql_value option"
  we_tsquery_text :: "tsquery_node option \<Rightarrow> string"
  we_parse_tsquery :: "string \<Rightarrow> sql_value option"

definition enc_blob :: "bytes \<Rightarrow> bytes" where
  "enc_blob b = enc_u32 (word_of_nat (length b)) @ b"

definition enc_count :: "nat \<Rightarrow> bytes" where
  "enc_count n = enc_u32 (word_of_nat n)"

definition enc_name :: "string option \<Rightarrow> bytes" where
  "enc_name n = enc_str (case n of Some s \<Rightarrow> s | None \<Rightarrow> [])"

fun fields_size :: "(string \<times> sql_value) list \<Rightarrow> nat" where
  "fields_size [] = 0"
| "fields_size ((n, v) # fs) = Suc (size v + fields_size fs)"

fun values_size :: "sql_value list \<Rightarrow> nat" where
  "values_size [] = 0"
| "values_size (v # vs) = Suc (size v + values_size vs)"

lemma values_size_less: "values_size vs < size (VArray e ds ls vs)"
  by (induction vs) simp_all

lemma fields_size_less: "fields_size fs < size (VRecord fs)"
proof (induction fs)
  case (Cons f fs)
  then show ?case by (cases f) simp
qed simp

function enc_value :: "wal_env \<Rightarrow> sql_value \<Rightarrow> bytes"
  and enc_values :: "wal_env \<Rightarrow> sql_value list \<Rightarrow> bytes"
  and enc_fields :: "wal_env \<Rightarrow> (string \<times> sql_value) list \<Rightarrow> bytes" where
  "enc_value env VNull = enc_u8 0"
| "enc_value env (VInt i) = enc_u8 1 @ enc_u64 i"
| "enc_value env (VFloat f) = enc_u8 2 @ enc_u64 f"
| "enc_value env (VText s) = enc_u8 3 @ enc_str s"
| "enc_value env (VBool b) = enc_u8 4 @ enc_u8 (of_bool b)"
| "enc_value env (VSmallInt i) = enc_u8 5 @ enc_i16 i"
| "enc_value env (VBigInt i) = enc_u8 6 @ enc_u64 i"
| "enc_value env (VFloat4 f) = enc_u8 7 @ enc_u32 f"
| "enc_value env (VNumeric n) = enc_u8 8 @ enc_str (we_numeric_text env n)"
| "enc_value env (VDate d) = enc_u8 9 @ enc_u32 d"
| "enc_value env (VTimestamp m) = enc_u8 10 @ enc_u64 m"
| "enc_value env (VTimestamptz m) = enc_u8 11 @ enc_u64 m"
| "enc_value env (VBytea b) = enc_u8 12 @ enc_blob b"
| "enc_value env (VUuid u) = enc_u8 13 @ u"
| "enc_value env (VBpChar s) = enc_u8 14 @ enc_str s"
| "enc_value env (VSingleChar b) = enc_u8 15 @ enc_u8 b"
| "enc_value env (VPgLsn l) = enc_u8 16 @ enc_u64 l"
| "enc_value env (VArray e ds ls vs) =
     enc_u8 17 @ enc_u32 (word_of_nat (array_oid e)) @ enc_count (length ds) @ concat (map enc_u32 ds) @
     concat (map enc_u32 ls) @ enc_count (length vs) @ enc_values env vs"
| "enc_value env (VRecord fs) = enc_u8 18 @ enc_count (length fs) @ enc_fields env fs"
| "enc_value env (VBitString b) = enc_u8 19 @ enc_u32 (bitlen b) @ enc_blob (bit_bytes b)"
| "enc_value env (VTid b o') = enc_u8 20 @ enc_u32 b @ enc_u32 o'"
| "enc_value env (VJsonb s) = enc_u8 21 @ enc_str s"
| "enc_value env (VJsonpath s) = enc_u8 22 @ enc_str s"
| "enc_value env (VTime t) = enc_u8 23 @ enc_u64 t"
| "enc_value env (VTimeTz t off) = enc_u8 24 @ enc_u64 t @ enc_u32 off"
| "enc_value env (VInterval iv) = enc_u8 25 @ enc_u32 (months iv) @ enc_u32 (days iv) @ enc_u64 (micros iv)"
| "enc_value env (VRange r) =
     enc_u8 26 @ enc_u8 (range_elem_code (rv_elem r)) @ enc_name (rv_name r) @ enc_str (we_range_text env r)"
| "enc_value env (VMultirange e name rs) =
     enc_u8 27 @ enc_u8 (range_elem_code e) @ enc_name name @ enc_str (we_multirange_text env e name rs)"
| "enc_value env (VTsVector v) = enc_u8 28 @ enc_str (we_tsvector_text env v)"
| "enc_value env (VTsQuery q) = enc_u8 29 @ enc_str (we_tsquery_text env q)"
| "enc_values env [] = []"
| "enc_values env (v # vs) = enc_value env v @ enc_values env vs"
| "enc_fields env [] = []"
| "enc_fields env ((n, v) # fs) = enc_str n @ enc_value env v @ enc_fields env fs"
  by pat_completeness auto
termination
  by (relation "measure (case_sum (\<lambda>(env, v). size v) (case_sum (\<lambda>(env, vs). values_size vs) (\<lambda>(env, fs). fields_size fs)))")
    (simp_all add: values_size_less fields_size_less del: sql_value.size)

section \<open>Reading\<close>

definition rd_blob :: "bytes reader" where
  "rd_blob = rd_bind rd_u32 (\<lambda>n. rd_take (unat n))"

definition rd_name :: "string option reader" where
  "rd_name = rd_map (\<lambda>s. if s = [] then None else Some s) rd_str"

definition rd_bool :: "bool reader" where
  "rd_bool = rd_map (\<lambda>b. b \<noteq> 0) rd_u8"

definition rd_parsed :: "(string \<Rightarrow> 'a option) \<Rightarrow> 'a reader" where
  "rd_parsed parse = rd_bind rd_str (\<lambda>s. case parse s of Some v \<Rightarrow> rd_return v | None \<Rightarrow> rd_fail BadText)"

definition rd_pair :: "'a reader \<Rightarrow> 'b reader \<Rightarrow> ('a \<times> 'b) reader" where
  "rd_pair m m' = rd_bind m (\<lambda>x. rd_map (Pair x) m')"

definition rd_count :: "'a reader \<Rightarrow> 'a list reader" where
  "rd_count m = rd_bind rd_u32 (\<lambda>n. rd_times (unat n) m)"

text \<open>The body of the reader; \<open>rec\<close> reads a nested value.\<close>

definition value_of_tag :: "wal_env \<Rightarrow> sql_value reader \<Rightarrow> u8 \<Rightarrow> sql_value reader" where
  "value_of_tag env rec t =
     (if t = 0 then rd_return VNull
      else if t = 1 then rd_map VInt rd_u64
      else if t = 2 then rd_map VFloat rd_u64
      else if t = 3 then rd_map VText rd_str
      else if t = 4 then rd_map VBool rd_bool
      else if t = 5 then rd_map VSmallInt rd_i16
      else if t = 6 then rd_map VBigInt rd_u64
      else if t = 7 then rd_map VFloat4 rd_u32
      else if t = 8 then rd_map VNumeric (rd_parsed (we_parse_numeric env))
      else if t = 9 then rd_map VDate rd_u32
      else if t = 10 then rd_map VTimestamp rd_u64
      else if t = 11 then rd_map VTimestamptz rd_u64
      else if t = 12 then rd_map VBytea rd_blob
      else if t = 13 then rd_map VUuid (rd_take 16)
      else if t = 14 then rd_map VBpChar rd_str
      else if t = 15 then rd_map VSingleChar rd_u8
      else if t = 16 then rd_map VPgLsn rd_u64
      else if t = 20 then rd_map (\<lambda>(b, o'). VTid b o') (rd_pair rd_u32 rd_u32)
      else if t = 21 then rd_map VJsonb rd_str
      else if t = 22 then rd_map VJsonpath rd_str
      else if t = 23 then rd_map VTime rd_u64
      else if t = 24 then rd_map (\<lambda>(m, off). VTimeTz m off) (rd_pair rd_u64 rd_u32)
      else if t = 25 then rd_map (\<lambda>(m, d, us). VInterval \<lparr>months = m, days = d, micros = us\<rparr>) (rd_pair rd_u32 (rd_pair rd_u32 rd_u64))
      else if t = 26
      then rd_bind (rd_pair rd_range_elem rd_name) (\<lambda>(e, name). rd_map VRange (rd_parsed (we_parse_range env e name)))
      else if t = 27
      then rd_bind (rd_pair rd_range_elem rd_name) (\<lambda>(e, name). rd_parsed (we_parse_multirange env e name))
      else if t = 28 then rd_parsed (we_parse_tsvector env)
      else if t = 29 then rd_parsed (we_parse_tsquery env)
      else if t = 17
      then rd_bind (rd_pair rd_array_elem rd_u32) (\<lambda>(e, n).
             rd_bind (rd_pair (rd_times (unat n) rd_u32) (rd_times (unat n) rd_u32)) (\<lambda>(ds, ls).
               rd_map (VArray e ds ls) (rd_count rec)))
      else if t = 18 then rd_map VRecord (rd_count (rd_pair rd_str rec))
      else if t = 19 then rd_map (\<lambda>(n, b). VBitString \<lparr>bitlen = n, bit_bytes = b\<rparr>) (rd_pair rd_u32 rd_blob)
      else rd_fail (UnknownTag t))"

definition value_body :: "wal_env \<Rightarrow> sql_value reader \<Rightarrow> sql_value reader" where
  "value_body env rec = rd_bind rd_u8 (value_of_tag env rec)"

fun rd_value_depth :: "wal_env \<Rightarrow> nat \<Rightarrow> sql_value reader" where
  "rd_value_depth env 0 = rd_fail Truncated"
| "rd_value_depth env (Suc d) = value_body env (rd_value_depth env d)"

definition rd_value :: "wal_env \<Rightarrow> sql_value reader" where
  "rd_value env = (\<lambda>b. rd_value_depth env (length b + 1) b)"

section \<open>The depth is enough\<close>

definition agree :: "nat \<Rightarrow> 'a reader \<Rightarrow> 'a reader \<Rightarrow> bool" where
  "agree k m m' \<longleftrightarrow> (\<forall>b. length b < k \<longrightarrow> m b = m' b)"

lemma agree_refl [intro!]: "agree k m m"
  by (simp add: agree_def)

lemma agree_bind:
  assumes "agree k m m'" and "consumes m 0" and "\<And>x. agree k (f x) (f' x)"
  shows "agree k (rd_bind m f) (rd_bind m' f')"
  unfolding agree_def
proof (intro allI impI)
  fix b :: bytes
  assume b: "length b < k"
  have "length b' < k" if "m b = Inr (x, b')" for x b'
    using assms(2) that b unfolding consumes_def by fastforce
  then show "rd_bind m f b = rd_bind m' f' b"
    using assms(1,3) b by (cases "m b") (auto simp: rd_bind_def agree_def split: sum.splits)
qed

lemma agree_map: "agree k m m' \<Longrightarrow> consumes m 0 \<Longrightarrow> agree k (rd_map f m) (rd_map f m')"
  unfolding rd_map_def by (intro agree_bind agree_refl)

lemma agree_times: "agree k m m' \<Longrightarrow> consumes m 0 \<Longrightarrow> agree k (rd_times n m) (rd_times n m')"
  by (induction n) (auto intro!: agree_bind agree_map consumes_times)

lemma consumes_some:
  "consumes rd_u8 0" "consumes rd_u32 0" "consumes rd_u64 0" "consumes rd_i16 0" "consumes (rd_take n) 0" "consumes rd_str 0"
  using consumes_words consumes_take [of n] consumes_str by (blast intro: consumes_mono)+

lemma consumes_bind0: "consumes m 0 \<Longrightarrow> (\<And>x. consumes (f x) 0) \<Longrightarrow> consumes (rd_bind m f) 0"
  using consumes_bind [of m 0 f 0] by simp

lemma consumes_case:
  "consumes (case x of Some y \<Rightarrow> rd_return y | None \<Rightarrow> rd_fail e) 0"
  by (simp add: consumes_return consumes_fail split: option.split)

lemma consumes_parts:
  "consumes rd_blob 0" "consumes rd_name 0" "consumes rd_bool 0" "consumes (rd_parsed parse) 0" "consumes rd_range_elem 0" "consumes rd_array_elem 0"
  unfolding rd_blob_def rd_name_def rd_bool_def rd_parsed_def rd_range_elem_def rd_array_elem_def rd_elem_def
  by (intro consumes_bind0 consumes_map consumes_some consumes_case)+

lemma consumes_pair: "consumes m 0 \<Longrightarrow> consumes m' 0 \<Longrightarrow> consumes (rd_pair m m') 0"
  unfolding rd_pair_def by (intro consumes_bind0 consumes_map)

lemma consumes_count: "consumes m 0 \<Longrightarrow> consumes (rd_count m) 0"
  unfolding rd_count_def by (intro consumes_bind0 consumes_some consumes_times)

lemma consumes_split: "(\<And>x y. consumes (f x y) k) \<Longrightarrow> consumes (case p of (x, y) \<Rightarrow> f x y) k"
  by (cases p) simp

lemmas consumes_rules = consumes_bind0 consumes_map consumes_some consumes_parts consumes_pair consumes_count
  consumes_times consumes_return consumes_fail consumes_split

lemma consumes_if: "consumes m k \<Longrightarrow> consumes m' k \<Longrightarrow> consumes (if c then m else m') k"
  by simp

lemma consumes_tag: "consumes rec 0 \<Longrightarrow> consumes (value_of_tag env rec t) 0"
  unfolding value_of_tag_def by (intro consumes_if consumes_rules | assumption)+

lemma consumes_body: "consumes rec 0 \<Longrightarrow> consumes (value_body env rec) 1"
  using consumes_bind [OF consumes_words(1), of "value_of_tag env rec" 0] consumes_tag by (simp add: value_body_def)

lemma consumes_depth: "consumes (rd_value_depth env d) 0"
  by (induction d) (auto intro: consumes_fail consumes_mono [OF consumes_body])

lemma agree_pair: "agree k m m' \<Longrightarrow> consumes m 0 \<Longrightarrow> agree k n n' \<Longrightarrow> consumes n 0 \<Longrightarrow> agree k (rd_pair m n) (rd_pair m' n')"
  unfolding rd_pair_def by (intro agree_bind agree_map)

lemma agree_count: "agree k m m' \<Longrightarrow> consumes m 0 \<Longrightarrow> agree k (rd_count m) (rd_count m')"
  unfolding rd_count_def by (intro agree_bind agree_refl agree_times consumes_some)

lemma agree_tag:
  assumes "agree k rec rec'" and "consumes rec 0"
  shows "agree k (value_of_tag env rec t) (value_of_tag env rec' t)"
proof -
  have arr: "agree k (rd_map (VArray e ds ls) (rd_count rec)) (rd_map (VArray e ds ls) (rd_count rec'))" for e ds ls
    by (intro agree_map agree_count consumes_count assms)
  have recd: "agree k (rd_map VRecord (rd_count (rd_pair rd_str rec))) (rd_map VRecord (rd_count (rd_pair rd_str rec')))"
    by (intro agree_map agree_count consumes_count agree_pair agree_refl consumes_pair consumes_some assms)
  have arr_tag: "agree k
      (rd_bind (rd_pair rd_array_elem rd_u32) (\<lambda>(e, n). rd_bind (rd_pair (rd_times (unat n) rd_u32) (rd_times (unat n) rd_u32))
         (\<lambda>(ds, ls). rd_map (VArray e ds ls) (rd_count rec))))
      (rd_bind (rd_pair rd_array_elem rd_u32) (\<lambda>(e, n). rd_bind (rd_pair (rd_times (unat n) rd_u32) (rd_times (unat n) rd_u32))
         (\<lambda>(ds, ls). rd_map (VArray e ds ls) (rd_count rec'))))"
    by (intro agree_bind agree_refl consumes_rules) (auto split: prod.splits intro!: agree_bind arr consumes_rules)
  show ?thesis unfolding value_of_tag_def using arr_tag recd by (simp add: agree_refl)
qed

lemma agree_body:
  assumes "agree k rec rec'" and "consumes rec 0"
  shows "agree (Suc k) (value_body env rec) (value_body env rec')"
  unfolding agree_def
proof (intro allI impI)
  fix b :: bytes
  assume b: "length b < Suc k"
  show "value_body env rec b = value_body env rec' b"
  proof (cases "rd_u8 b")
    case (Inr r)
    obtain t b' where r: "r = (t, b')" by force
    have "length b' + 1 \<le> length b" using consumes_words(1) Inr r unfolding consumes_def by blast
    then have "length b' < k" using b by simp
    then show ?thesis using agree_tag [OF assms, of env t] by (simp add: value_body_def rd_bind_def Inr r agree_def)
  qed (simp add: value_body_def rd_bind_def)
qed

lemma depth_enough: "agree d (rd_value_depth env d) (rd_value_depth env (Suc d))"
proof (induction d)
  case (Suc d)
  then show ?case using agree_body [OF Suc consumes_depth] by simp
qed (simp add: agree_def)

lemma rd_value_depth_enough: "length b < d \<Longrightarrow> rd_value_depth env d b = rd_value env b"
proof (induction d)
  case (Suc d)
  show ?case
  proof (cases "length b < d")
    case True
    then have "rd_value_depth env d b = rd_value_depth env (Suc d) b" using depth_enough [of d env] unfolding agree_def by blast
    then show ?thesis using Suc.IH True by simp
  next
    case False
    then have "d = length b" using Suc.prems by simp
    then show ?thesis by (simp add: rd_value_def)
  qed
qed simp

lemma rd_value_unfold: "rd_value env = value_body env (rd_value env)"
proof
  fix b :: bytes
  have "agree (length b) (rd_value_depth env (length b)) (rd_value env)"
    unfolding agree_def by (simp add: rd_value_depth_enough)
  then have "agree (Suc (length b)) (value_body env (rd_value_depth env (length b))) (value_body env (rd_value env))"
    by (rule agree_body [OF _ consumes_depth])
  then show "rd_value env b = value_body env (rd_value env) b" by (simp add: agree_def rd_value_def)
qed

section \<open>Round trip\<close>

text \<open>
  The values the encoding carries: strings are UTF-8 and counts fit 32 bits, UUIDs have 16 bytes,
  an array has a lower bound for each dimension, and the texts of the environment parse back.
\<close>

definition name_ok :: "string option \<Rightarrow> bool" where
  "name_ok n \<longleftrightarrow> (case n of Some s \<Rightarrow> str_ok s \<and> s \<noteq> [] | None \<Rightarrow> True)"

function value_ok :: "wal_env \<Rightarrow> sql_value \<Rightarrow> bool"
  and values_ok :: "wal_env \<Rightarrow> sql_value list \<Rightarrow> bool"
  and fields_ok :: "wal_env \<Rightarrow> (string \<times> sql_value) list \<Rightarrow> bool" where
  "value_ok env v \<longleftrightarrow>
     (case v of
        VText s \<Rightarrow> str_ok s | VBpChar s \<Rightarrow> str_ok s | VJsonb s \<Rightarrow> str_ok s | VJsonpath s \<Rightarrow> str_ok s
      | VNumeric n \<Rightarrow> str_ok (we_numeric_text env n) \<and> we_parse_numeric env (we_numeric_text env n) = Some n
      | VBytea b \<Rightarrow> length b < 2 ^ 32
      | VUuid u \<Rightarrow> length u = 16
      | VArray e ds ls vs \<Rightarrow> e \<noteq> AeXid \<and> length ds < 2 ^ 32 \<and> length ls = length ds \<and> length vs < 2 ^ 32 \<and> values_ok env vs
      | VRecord fs \<Rightarrow> length fs < 2 ^ 32 \<and> fields_ok env fs
      | VBitString b \<Rightarrow> length (bit_bytes b) < 2 ^ 32
      | VRange r \<Rightarrow> name_ok (rv_name r) \<and> str_ok (we_range_text env r) \<and>
          we_parse_range env (rv_elem r) (rv_name r) (we_range_text env r) = Some r
      | VMultirange e name rs \<Rightarrow> name_ok name \<and> str_ok (we_multirange_text env e name rs) \<and>
          we_parse_multirange env e name (we_multirange_text env e name rs) = Some (VMultirange e name rs)
      | VTsVector w \<Rightarrow> str_ok (we_tsvector_text env w) \<and> we_parse_tsvector env (we_tsvector_text env w) = Some (VTsVector w)
      | VTsQuery q \<Rightarrow> str_ok (we_tsquery_text env q) \<and> we_parse_tsquery env (we_tsquery_text env q) = Some (VTsQuery q)
      | _ \<Rightarrow> True)"
| "values_ok env [] \<longleftrightarrow> True"
| "values_ok env (v # vs) \<longleftrightarrow> value_ok env v \<and> values_ok env vs"
| "fields_ok env [] \<longleftrightarrow> True"
| "fields_ok env ((n, v) # fs) \<longleftrightarrow> str_ok n \<and> value_ok env v \<and> fields_ok env fs"
  by pat_completeness auto
termination
  by (relation "measure (case_sum (\<lambda>(env, v). size v) (case_sum (\<lambda>(env, vs). values_size vs) (\<lambda>(env, fs). fields_size fs)))")
    (simp_all add: values_size_less fields_size_less del: sql_value.size)

declare value_ok.simps [simp del]

lemmas value_okD = value_ok.simps [THEN iffD1]

lemma rd_simps:
  "rd_bind m f b = (case m b of Inl e \<Rightarrow> Inl e | Inr (x, b') \<Rightarrow> f x b')"
  "rd_map g m b = (case m b of Inl e \<Rightarrow> Inl e | Inr (x, b') \<Rightarrow> Inr (g x, b'))"
  "rd_return x b = Inr (x, b)"
  by (simp_all add: rd_defs)

lemma rd_pair_reads: "m b = Inr (x, b') \<Longrightarrow> m' b' = Inr (y, b'') \<Longrightarrow> rd_pair m m' b = Inr ((x, y), b'')"
  by (simp add: rd_pair_def rd_simps)

lemma rd_count_reads:
  "n < 2 ^ 32 \<Longrightarrow> rd_times n m b = Inr (xs, b') \<Longrightarrow> rd_count m (enc_count n @ b) = Inr (xs, b')"
  by (simp add: rd_count_def enc_count_def rd_simps codec_reads unat_of_nat)

lemma rd_u32_count [codec_reads]: "rd_u32 (enc_count n @ b) = Inr (word_of_nat n, b)"
  by (simp add: enc_count_def codec_reads)

lemma rd_blob_enc [codec_reads]: "length b < 2 ^ 32 \<Longrightarrow> rd_blob (enc_blob b @ rest) = Inr (b, rest)"
  by (simp add: rd_blob_def enc_blob_def rd_simps codec_reads unat_of_nat rd_take_append)

lemma rd_name_enc [codec_reads]: "name_ok n \<Longrightarrow> rd_name (enc_name n @ rest) = Inr (n, rest)"
  by (cases n) (simp_all add: rd_name_def enc_name_def name_ok_def rd_simps codec_reads, simp add: codec_reads str_ok_def text_bytes_def)

lemma rd_bool_enc [codec_reads]: "rd_bool (enc_u8 (of_bool b) @ rest) = Inr (b, rest)"
  by (cases b) (simp_all add: rd_bool_def rd_simps codec_reads)

lemma rd_bool_01 [codec_reads]:
  "rd_bool (enc_u8 0 @ rest) = Inr (False, rest)" "rd_bool (enc_u8 1 @ rest) = Inr (True, rest)"
  by (simp_all add: rd_bool_def rd_simps codec_reads)

lemma rd_parsed_enc [codec_reads]: "str_ok s \<Longrightarrow> parse s = Some v \<Longrightarrow> rd_parsed parse (enc_str s @ rest) = Inr (v, rest)"
  by (simp add: rd_parsed_def rd_simps codec_reads)

lemma rd_words_enc: "rd_times (length ws) rd_u32 (concat (map enc_u32 ws) @ rest) = Inr (ws, rest)"
  by (rule u32c.reads_all) (simp add: list_all_iff)

lemma rd_uuid: "length u = 16 \<Longrightarrow> rd_take 16 (u @ rest) = Inr (u, rest)"
  by (rule rd_take_append)

lemma value_reads:
  "value_ok env v \<Longrightarrow> rd_value env (enc_value env v @ rest) = Inr (v, rest)"
  "values_ok env vs \<Longrightarrow> rd_times (length vs) (rd_value env) (enc_values env vs @ rest) = Inr (vs, rest)"
  "fields_ok env fs \<Longrightarrow> rd_times (length fs) (rd_pair rd_str (rd_value env)) (enc_fields env fs @ rest) = Inr (fs, rest)"
proof (induction env v and env vs and env fs arbitrary: rest and rest and rest rule: enc_value_enc_values_enc_fields.induct)
  case (18 env e ds ls vs)
  have ok: "length ds < 2 ^ 32" "length ls = length ds" "length vs < 2 ^ 32" "values_ok env vs" "e \<noteq> AeXid"
    using value_okD [OF 18(2)] by simp_all
  have "rd_times (length ds) rd_u32 (concat (map enc_u32 ls) @ b) = Inr (ls, b)" for b
    using rd_words_enc [of ls b] ok(2) by simp
  then show ?case
    using rd_words_enc [of ds] rd_count_reads [OF ok(3) 18(1) [OF ok(4)]] ok(1)
    by (subst rd_value_unfold)
      (simp add: value_body_def value_of_tag_def rd_simps codec_reads rd_pair_def unat_of_nat ok(5))
next
  case (19 env fs)
  have ok: "length fs < 2 ^ 32" "fields_ok env fs" using value_okD [OF 19(2)] by simp_all
  show ?case
    using rd_count_reads [OF ok(1) 19(1) [OF ok(2)]]
    by (subst rd_value_unfold) (simp add: value_body_def value_of_tag_def rd_simps codec_reads)
qed (auto dest!: value_okD simp: rd_simps codec_reads rd_pair_def rd_uuid value_body_def value_of_tag_def
      intro!: trans [OF fun_cong [OF rd_value_unfold]])

section \<open>Rows\<close>

record wal_row =
  wr_id :: u64
  wr_xmin :: u64
  wr_values :: row
  wr_toast :: "u32 list"
  wr_meta :: "(u32 \<times> u8) list"

text \<open>The flags are written for every value, with \<open>0\<close> where the row has none.\<close>

definition enc_flags :: "nat \<Rightarrow> u32 list \<Rightarrow> bytes" where
  "enc_flags n toast = concat (map (\<lambda>i. enc_u32 (if i < length toast then toast ! i else 0)) [0..<n])"

definition enc_meta :: "(u32 \<times> u8) list \<Rightarrow> bytes" where
  "enc_meta ms = enc_count (length ms) @ concat (map (\<lambda>(k, c). enc_u32 k @ enc_u8 c) ms)"

definition enc_wal_row :: "wal_env \<Rightarrow> wal_row \<Rightarrow> bytes" where
  "enc_wal_row env r =
     enc_u64 (wr_id r) @ enc_u64 (wr_xmin r) @ enc_count (length (wr_values r)) @ enc_values env (wr_values r) @
     enc_flags (length (wr_values r)) (wr_toast r) @ enc_meta (wr_meta r)"

definition rd_meta :: "(u32 \<times> u8) list reader" where
  "rd_meta = rd_count (rd_pair rd_u32 rd_u8)"

definition rd_wal_row :: "wal_env \<Rightarrow> wal_row reader" where
  "rd_wal_row env =
     rd_bind rd_u64 (\<lambda>i. rd_bind rd_u64 (\<lambda>xmin. rd_bind rd_u32 (\<lambda>n.
       rd_bind (rd_times (unat n) (rd_value env)) (\<lambda>vs. rd_bind (rd_times (unat n) rd_u32) (\<lambda>flags.
         rd_map (\<lambda>meta. \<lparr>wr_id = i, wr_xmin = xmin, wr_values = vs, wr_toast = flags, wr_meta = meta\<rparr>) rd_meta)))))"

definition wal_row_ok :: "wal_env \<Rightarrow> wal_row \<Rightarrow> bool" where
  "wal_row_ok env r \<longleftrightarrow>
     length (wr_values r) < 2 ^ 32 \<and> values_ok env (wr_values r) \<and> length (wr_toast r) = length (wr_values r) \<and>
     length (wr_meta r) < 2 ^ 32"

interpretation valuec: codec "enc_value env" "rd_value env" "value_ok env" for env
  by unfold_locales (rule value_reads(1))

interpretation metac: codec "\<lambda>(k, c). enc_u32 k @ enc_u8 c" "rd_pair rd_u32 rd_u8" "\<lambda>_. True"
  by unfold_locales (auto simp: rd_pair_def rd_simps codec_reads)

lemma enc_flags_same: "enc_flags (length toast) toast = concat (map enc_u32 toast)"
proof -
  have "map (\<lambda>i. enc_u32 (if i < length toast then toast ! i else 0)) [0..<length toast] = map enc_u32 (map ((!) toast) [0..<length toast])"
    by simp
  then show ?thesis by (simp only: enc_flags_def map_nth)
qed

lemma rd_meta_enc [codec_reads]: "length ms < 2 ^ 32 \<Longrightarrow> rd_meta (enc_meta ms @ rest) = Inr (ms, rest)"
  unfolding rd_meta_def enc_meta_def append_assoc
  by (rule rd_count_reads) (simp_all add: metac.reads_all list_all_iff)

lemma rd_wal_row_enc [codec_reads]:
  assumes "wal_row_ok env r"
  shows "rd_wal_row env (enc_wal_row env r @ rest) = Inr (r, rest)"
proof -
  have ok: "length (wr_values r) < 2 ^ 32" "values_ok env (wr_values r)" "length (wr_toast r) = length (wr_values r)"
    "length (wr_meta r) < 2 ^ 32"
    using assms by (simp_all add: wal_row_ok_def)
  have flags: "rd_times (length (wr_values r)) rd_u32 (enc_flags (length (wr_values r)) (wr_toast r) @ b) = Inr (wr_toast r, b)" for b
    using rd_words_enc [of "wr_toast r" b] enc_flags_same [of "wr_toast r"] ok(3) by simp
  show ?thesis
    using ok(1,4) value_reads(2) [OF ok(2)] flags
    by (simp add: rd_wal_row_def enc_wal_row_def rd_simps codec_reads unat_of_nat)
qed

interpretation rowc: codec "enc_wal_row env" "rd_wal_row env" "wal_row_ok env" for env
  by unfold_locales (rule rd_wal_row_enc)


text \<open>
  C39. Two array types are written and then refused by the reader: a column of type \<^verbatim>\<open>tid[]\<close>, and a
  value of type \<^verbatim>\<open>xid[]\<close> whatever its elements. The two OID tables of the reader differ from each
  other and from the writer.
\<close>

theorem array_types_unreadable:
  "rd_col_type (enc_col_type (CtArray AeTid) @ rest) = Inl (UnknownOid 1010) \<and>
   rd_value env (enc_value env (VArray AeXid ds ls vs) @ rest') = Inl (UnknownOid 1011)"
proof
  show "rd_col_type (enc_col_type (CtArray AeTid) @ rest) = Inl (UnknownOid 1010)"
    by (simp add: rd_col_type_def plain_types_def rd_elem_def col_elem_oids_def elem_oids_def rd_simps rd_fail_def codec_reads)
  show "rd_value env (enc_value env (VArray AeXid ds ls vs) @ rest') = Inl (UnknownOid 1011)"
    by (subst rd_value_unfold) (simp add: value_body_def value_of_tag_def rd_pair_def rd_array_elem_def rd_elem_def
      elem_oids_def rd_simps rd_fail_def codec_reads)
qed

definition plain_env :: wal_env where
  "plain_env = \<lparr>we_numeric_text = (\<lambda>_. []), we_parse_numeric = (\<lambda>_. None), we_range_text = (\<lambda>_. []),
     we_parse_range = (\<lambda>_ _ _. None), we_multirange_text = (\<lambda>_ _ _. []), we_parse_multirange = (\<lambda>_ _ _. None),
     we_tsvector_text = (\<lambda>_. []), we_parse_tsvector = (\<lambda>_. None), we_tsquery_text = (\<lambda>_. []),
     we_parse_tsquery = (\<lambda>_. None)\<rparr>"


end
