(* ===== verification/Spec2Isabelle.thy ===== *)
theory Spec2Isabelle
  imports BigUintText BigUintDiv SqlTypes Numeric ValueOrder Calendar Ranges Index RowStore Mvcc Catalog IndexMaint Access Sequences Vacuum RowView Undo Dml Departures Settings Deferred Session Sweep Lifecycle Savepoint Commit Cursors Toast WalValue
begin

text \<open>
  Verification library of rustgres, a PostgreSQL-compatible database server written in Rust.
  The theories model the part of the server that decides what a client may observe: the row
  store with its row versions and indexes, the transaction machinery around it, the value types
  whose arithmetic and order the indexes and the \<^verbatim>\<open>NUMERIC\<close> type rest on, and the session that
  drives them. File names below are relative to \<^verbatim>\<open>src/\<close> of the crate.

  \<^bold>\<open>How the parts interact.\<close> A session (\<^verbatim>\<open>server.rs\<close>) receives statements. Transaction control it
  handles itself; every other statement runs in the executor (\<^verbatim>\<open>exec/\<close>) on the engine, which is a
  \<^verbatim>\<open>Database\<close> of versioned tables (\<^verbatim>\<open>storage.rs\<close>), a transaction manager with xids, snapshots and
  row locks, and a lock table. The executor plans row changes under a shared borrow, then applies
  them and appends one \<^verbatim>\<open>WriteOp\<close> for each to the transaction's log; an error or \<^verbatim>\<open>ROLLBACK\<close> undoes the
  log in reverse, \<^verbatim>\<open>COMMIT\<close> checks deferred constraints, takes the xid out of the active set and
  vacuums the tables it touched. Visibility is decided by comparing the stamps of a version with
  the snapshot of the reader.

  \<^bold>\<open>Values.\<close>
  \<^item> \<^verbatim>\<open>Prelude\<close>: word types of the program, Rust's \<^verbatim>\<open>Ordering\<close>, list and word facts.
  \<^item> \<^verbatim>\<open>SqlTypes\<close> (\<^verbatim>\<open>storage.rs\<close>, \<^verbatim>\<open>ColType\<close>, \<^verbatim>\<open>Value\<close>): column types, value constructors, names, OIDs.
  \<^item> \<^verbatim>\<open>BigUint\<close>, \<^verbatim>\<open>BigUintText\<close>, \<^verbatim>\<open>BigUintDiv\<close> (\<^verbatim>\<open>storage.rs\<close>, \<^verbatim>\<open>impl BigUint\<close>): arithmetic on base
    \<open>10 ^ 9\<close> limbs at the widths of the code, decimal text, division by Knuth's Algorithm D. Every
    operation is shown to compute the integer result and to keep the canonical form.
  \<^item> \<^verbatim>\<open>Numeric\<close> (\<^verbatim>\<open>Numeric\<close>, \<^verbatim>\<open>BigDec\<close>): the 128-bit and the big representation, sums, comparison and
    hash keys, with the value as a rational as specification.
  \<^item> \<^verbatim>\<open>Calendar\<close> (\<^verbatim>\<open>datetime.rs\<close>): day numbers and civil dates are in bijection.
  \<^item> \<^verbatim>\<open>ValueOrder\<close>, \<^verbatim>\<open>Ranges\<close> (\<^verbatim>\<open>exec/eval.rs\<close>, \<^verbatim>\<open>exec/ranges.rs\<close>): the interface \<open>key_order\<close> of a comparison
    that is a total preorder on the keys of one kind; ranges and multiranges refine sets of values.
  \<^item> \<^verbatim>\<open>Bytes\<close>, \<^verbatim>\<open>Lz4\<close>, \<^verbatim>\<open>Pglz\<close> (\<^verbatim>\<open>toast.rs\<close>): the codecs of wide values and their round trips.
  \<^item> \<^verbatim>\<open>Toast\<close> (\<^verbatim>\<open>toast.rs\<close>, \<^verbatim>\<open>exec/dml.rs\<close>): the plan of how the wide values of a row are stored, and the
    chunks written for it, from which every value can be had back.

  \<^bold>\<open>Storage.\<close>
  \<^item> \<^verbatim>\<open>Index\<close> (\<^verbatim>\<open>index.rs\<close>): key comparison, the ordered map of row ids, its invariant; \<open>key_order\<close> is
    interpreted for single columns and for whole keys.
  \<^item> \<^verbatim>\<open>RowStore\<close>, \<^verbatim>\<open>Catalog\<close>, \<^verbatim>\<open>RowView\<close> (\<^verbatim>\<open>storage.rs\<close>, \<^verbatim>\<open>Table\<close>, \<^verbatim>\<open>Database\<close>): versions in a vector with an
    id map, the lookups of tables, indexes, sequences and roles under a snapshot, and the database
    seen as one map from row ids to versions, the abstraction of the storage theorems.
  \<^item> \<^verbatim>\<open>IndexMaint\<close>: entries of inserted and removed rows; the unique checks equal a table scan.
  \<^item> \<^verbatim>\<open>Vacuum\<close>, \<^verbatim>\<open>Sweep\<close> (\<^verbatim>\<open>Engine::vacuum_table\<close>): vacuum is total on well-formed tables and removes
    nothing a snapshot sees.
  \<^item> \<^verbatim>\<open>Access\<close> (\<^verbatim>\<open>storage.rs\<close>, \<^verbatim>\<open>exec/roles.rs\<close>): membership closures and access control lists.
  \<^item> \<^verbatim>\<open>Sequences\<close> (\<^verbatim>\<open>exec/seq.rs\<close>): options, \<^verbatim>\<open>nextval\<close> and its relatives.

  \<^bold>\<open>Transactions.\<close>
  \<^item> \<^verbatim>\<open>Mvcc\<close> (\<^verbatim>\<open>TxnManager\<close>, \<^verbatim>\<open>Snapshot\<close>, row locks): the interface \<open>stamped\<close> gives visibility for
    rows, tables and indexes at once; locks are exclusive.
  \<^item> \<^verbatim>\<open>Undo\<close> (\<^verbatim>\<open>WriteOp\<close>, \<^verbatim>\<open>undo_write_op\<close>): the relation \<open>written\<close> between a log, the versions now
    and the versions as the other transactions alone would have made them; undoing a log realises it.
  \<^item> \<^verbatim>\<open>Dml\<close>, \<^verbatim>\<open>Departures\<close> (\<^verbatim>\<open>exec/dml.rs\<close>, \<^verbatim>\<open>exec/alter.rs\<close>, \<^verbatim>\<open>exec/indexes.rs\<close>): the apply loops of statements
    keep that relation; executions in which the code departs from what it means to do.
  \<^item> \<^verbatim>\<open>Settings\<close> (\<^verbatim>\<open>server.rs\<close>): the stack of changed settings, roles and transaction characteristics.
  \<^item> \<^verbatim>\<open>Deferred\<close> (\<^verbatim>\<open>exec/deferred.rs\<close>): the queue of deferred checks, its marks and its flush.
  \<^item> \<^verbatim>\<open>Session\<close>, \<^verbatim>\<open>Cursors\<close> (\<^verbatim>\<open>server.rs\<close>): \<^verbatim>\<open>BEGIN\<close>, \<^verbatim>\<open>COMMIT\<close>, \<^verbatim>\<open>ROLLBACK\<close>, savepoints, implicit blocks,
    autocommit, the aborted and read-only gates; SQL cursors.
  \<^item> \<^verbatim>\<open>Lifecycle\<close>, \<^verbatim>\<open>Savepoint\<close>, \<^verbatim>\<open>Commit\<close>: the theorems that join all of them. A transaction always ends;
    \<^verbatim>\<open>ROLLBACK TO\<close> restores the state of the savepoint; nothing is visible before \<^verbatim>\<open>COMMIT\<close>, and
    everything after it.

  \<^bold>\<open>Correspondence.\<close> A definition has the name of the function it models; loops over parts of a
  function have names of their own. Structs are records, enums datatypes. Machine integers are
  words where the code may wrap or shift, and \<open>nat\<close> or \<open>int\<close> with the check written out where the
  code checks or where the value counts something in memory. Hash maps of the engine are
  association lists with distinct keys, iterated in the order of the list. An outer \<open>None\<close> of an
  engine operation is a panic (an \<^verbatim>\<open>unwrap\<close>, \<^verbatim>\<open>expect\<close> or index out of range); errors that reach the
  client are \<open>Inl\<close> values with their SQLSTATE. Theorems of totality show the panics unreachable.

  \<^bold>\<open>Bounds and fuel.\<close> Closures over memberships run a worklist that ends because it holds each role
  once. The flush of deferred checks takes at most 64 rounds, as in the code. The
  search of a PGLZ hash list takes at most 4096 steps, which \<open>search_ok\<close> shows to be enough. Sizes
  of byte strings are assumed below \<open>2 ^ 32\<close> (PGLZ, as its positions are 32 bits wide) and \<open>2 ^ 60\<close>
  (LZ4), limb counts below what fits in memory.

  \<^bold>\<open>Parameters.\<close> Operations that rest on code outside the model take it as an argument: the
  comparison of jsonb values, the text of a value and the conversion of a numeric to a float in
  \<^verbatim>\<open>Index\<close>; the executor, the derivation of tables and the firing of one deferred check in \<^verbatim>\<open>Session\<close>
  and \<^verbatim>\<open>Deferred\<close>. What is relied on is a named hypothesis of the theorem, with a witness.

  \<^bold>\<open>Not modelled.\<close> The parser and the printers of SQL (\<^verbatim>\<open>sql/\<close>), the planner and the expression
  evaluator, the built-in functions (\<^verbatim>\<open>exec/funcs.rs\<close>), JSON, regular expressions and text search, dates
  beyond the calendar, the system catalogs (\<^verbatim>\<open>exec/catalog.rs\<close>), views, triggers, rules, partitions,
  schemas and PL/pgSQL, the wire protocol, authentication, replication and the write-ahead log.
  They translate, print or transport; none of them is called by a modelled definition other than
  through the parameters above. Threads are not modelled: the engine is behind one lock, and the
  model takes the statements in the order in which they hold it.
\<close>

end
